(* ===== verification/Helm_Prelude.thy ===== *)
theory Helm_Prelude
  imports Main "HOL-Library.Word" "HOL-Library.Signed_Division"
begin

text \<open>
  Shared vocabulary of the HELM verification library.

  \<^item> \<open>exn\<close> and \<open>'a result\<close>: a C++ function that may throw is a function into a sum whose
    left side is the exception. The text of an exception is kept up to the first
    interpolated value. Signed integer overflow, which C++ leaves undefined, is the
    separate left value \<open>Undefined_behaviour\<close>, so that its absence can be proved.
  \<^item> \<open>bindR\<close>: sequencing of two statements of which the first may throw.
  \<^item> \<open>is_i64\<close>, \<open>is_i32\<close>, \<open>ub64\<close>, \<open>ub32\<close>, \<open>wrap32\<close>, \<open>wrap64\<close>: the machine integers of the
    sources. A signed operation is computed in \<open>int\<close> and passed through \<open>ub64\<close> or
    \<open>ub32\<close> wherever its result can leave the type; a narrowing \<open>static_cast\<close> is
    \<open>wrap32\<close>. Division and remainder are \<open>sdiv\<close> and \<open>smod\<close>, which truncate.
  \<^item> \<open>dec_u32\<close>: the unsigned decrement of a 32-bit counter, with its wrap-around.
\<close>

section \<open>Exceptions as values\<close>

datatype exn =
    Overflow_error string
  | Invalid_argument string
  | Out_of_range string
  | Runtime_error string
  | Undefined_behaviour

type_synonym 'a result = "exn + 'a"

definition bindR :: "'e + 'a \<Rightarrow> ('a \<Rightarrow> 'e + 'b) \<Rightarrow> 'e + 'b" where
  "bindR m f = (case m of Inl e \<Rightarrow> Inl e | Inr x \<Rightarrow> f x)"

definition mapR :: "('a \<Rightarrow> 'b) \<Rightarrow> 'e + 'a \<Rightarrow> 'e + 'b" where
  "mapR f m = (case m of Inl e \<Rightarrow> Inl e | Inr x \<Rightarrow> Inr (f x))"

definition is_ok :: "'e + 'a \<Rightarrow> bool" where
  "is_ok m = (case m of Inl _ \<Rightarrow> False | Inr _ \<Rightarrow> True)"

lemma bindR_simps [simp]:
  "bindR (Inl e) f = Inl e"
  "bindR (Inr x) f = f x"
  by (simp_all add: bindR_def)

lemma mapR_simps [simp]:
  "mapR f (Inl e) = Inl e"
  "mapR f (Inr x) = Inr (f x)"
  by (simp_all add: mapR_def)

lemma is_ok_simps [simp]:
  "is_ok (Inl e) = False"
  "is_ok (Inr x) = True"
  by (simp_all add: is_ok_def)

lemma bindR_eq_Inr: "bindR m f = Inr y \<longleftrightarrow> (\<exists>x. m = Inr x \<and> f x = Inr y)"
  by (cases m) auto

lemma bindR_eq_Inl: "bindR m f = Inl e \<longleftrightarrow> m = Inl e \<or> (\<exists>x. m = Inr x \<and> f x = Inl e)"
  by (cases m) auto

lemma mapR_eq_Inr: "mapR f m = Inr y \<longleftrightarrow> (\<exists>x. m = Inr x \<and> y = f x)"
  by (cases m) auto

lemma mapR_eq_Inl: "mapR f m = Inl e \<longleftrightarrow> m = Inl e"
  by (cases m) auto

lemma is_ok_iff: "is_ok m \<longleftrightarrow> (\<exists>x. m = Inr x)"
  by (cases m) auto

lemma if_Inl_eq_Inr [simp]:
  "(if P then Inl e else m) = Inr x \<longleftrightarrow> \<not> P \<and> m = Inr x"
  by auto

lemmas result_elims = bindR_eq_Inr mapR_eq_Inr

section \<open>Machine integers\<close>

abbreviation int64_max :: int where
  "int64_max \<equiv> 9223372036854775807"

abbreviation int64_min :: int where
  "int64_min \<equiv> - 9223372036854775808"

definition is_i64 :: "int \<Rightarrow> bool" where
  "is_i64 x \<longleftrightarrow> - 9223372036854775808 \<le> x \<and> x \<le> 9223372036854775807"

definition is_i32 :: "int \<Rightarrow> bool" where
  "is_i32 x \<longleftrightarrow> - 2147483648 \<le> x \<and> x \<le> 2147483647"

definition ub64 :: "int \<Rightarrow> int result" where
  "ub64 x = (if is_i64 x then Inr x else Inl Undefined_behaviour)"

definition ub32 :: "int \<Rightarrow> int result" where
  "ub32 x = (if is_i32 x then Inr x else Inl Undefined_behaviour)"

definition wrap32 :: "int \<Rightarrow> int" where
  "wrap32 x = sint (word_of_int x :: 32 word)"

definition wrap64 :: "int \<Rightarrow> int" where
  "wrap64 x = sint (word_of_int x :: 64 word)"

definition dec_u32 :: "nat \<Rightarrow> nat" where
  "dec_u32 n = (if n = 0 then 4294967295 else n - 1)"

lemma ub64_eq_Inr [simp]: "ub64 x = Inr y \<longleftrightarrow> is_i64 x \<and> y = x"
  by (auto simp: ub64_def)

lemma ub32_eq_Inr [simp]: "ub32 x = Inr y \<longleftrightarrow> is_i32 x \<and> y = x"
  by (auto simp: ub32_def)

lemma ub64_ok [simp]: "is_i64 x \<Longrightarrow> ub64 x = Inr x"
  by simp

lemma ub32_ok [simp]: "is_i32 x \<Longrightarrow> ub32 x = Inr x"
  by simp

lemma ub64_eq_Inl [simp]: "ub64 x = Inl e \<longleftrightarrow> \<not> is_i64 x \<and> e = Undefined_behaviour"
  by (auto simp: ub64_def)

lemma ub32_eq_Inl [simp]: "ub32 x = Inl e \<longleftrightarrow> \<not> is_i32 x \<and> e = Undefined_behaviour"
  by (auto simp: ub32_def)

lemma wrap32_alt: "wrap32 x = (x + 2147483648) mod 4294967296 - 2147483648"
  by (simp add: wrap32_def sint_sbintrunc' signed_take_bit_eq_take_bit_shift take_bit_eq_mod)

lemma wrap64_alt:
  "wrap64 x = (x + 9223372036854775808) mod 18446744073709551616 - 9223372036854775808"
  by (simp add: wrap64_def sint_sbintrunc' signed_take_bit_eq_take_bit_shift take_bit_eq_mod)

lemma wrap32_id [simp]: "is_i32 x \<Longrightarrow> wrap32 x = x"
  by (simp add: wrap32_alt is_i32_def)

lemma wrap64_id [simp]: "is_i64 x \<Longrightarrow> wrap64 x = x"
  by (simp add: wrap64_alt is_i64_def)

lemma wrap64_eq_iff: "wrap64 x = x \<longleftrightarrow> is_i64 x"
proof
  assume eq: "wrap64 x = x"
  have "0 \<le> (x + 9223372036854775808) mod 18446744073709551616"
    and "(x + 9223372036854775808) mod 18446744073709551616 < 18446744073709551616"
    by simp_all
  with eq show "is_i64 x"
    unfolding is_i64_def wrap64_alt by linarith
qed simp

section \<open>Truncating division\<close>

text \<open>
  The sources divide by positive constants and intervals. On a non-negative dividend
  truncation is the floor; on a negative one it is the ceiling.
\<close>

lemma sdiv_nonneg: "0 \<le> a \<Longrightarrow> 0 < b \<Longrightarrow> a sdiv b = a div (b::int)"
  by (simp add: signed_divide_int_def sgn_if)

lemma smod_nonneg: "0 \<le> a \<Longrightarrow> 0 < b \<Longrightarrow> a smod b = a mod (b::int)"
  by (cases "a = 0") (simp_all add: signed_modulo_int_def sgn_if)

lemma sdiv_neg: "a < 0 \<Longrightarrow> 0 < b \<Longrightarrow> a sdiv b = - ((- a) div (b::int))"
  by (simp add: signed_divide_int_def sgn_if)

lemma smod_eq_0_iff: "0 < b \<Longrightarrow> a smod b = 0 \<longleftrightarrow> (b::int) dvd a"
proof -
  assume "0 < b"
  then have "a smod b = 0 \<longleftrightarrow> a = 0 \<or> b dvd \<bar>a\<bar>"
    by (simp add: signed_modulo_int_def sgn_if dvd_eq_mod_eq_0)
  then show ?thesis by auto
qed

lemma neg_div_ceiling:
  fixes a b :: int
  assumes "a < 0" and "0 < b"
  shows "a div b = (if b dvd a then a sdiv b else a sdiv b - 1)"
  using assms by (auto simp: sdiv_neg zdiv_zminus1_eq_if dvd_eq_mod_eq_0 zmod_zminus1_eq_if
      split: if_splits)

lemma smod_plus_mod: "0 < b \<Longrightarrow> (if a smod b < 0 then a smod b + b else a smod b) = a mod (b::int)"
proof (cases "0 \<le> a")
  case False
  assume b: "0 < b"
  have "a smod b = - ((- a) mod b)"
    using False b by (simp add: signed_modulo_int_def sgn_if)
  moreover have "a mod b = (if (- a) mod b = 0 then 0 else b - (- a) mod b)"
    using zmod_zminus1_eq_if [of "- a" b] by simp
  moreover have "0 \<le> (- a) mod b" using b by simp
  ultimately show ?thesis by auto
qed (simp add: smod_nonneg not_less)

lemma div_lt_iff: "0 < (b::int) \<Longrightarrow> m div b < a \<longleftrightarrow> m < a * b"
proof -
  assume b: "0 < b"
  have m: "m = b * (m div b) + m mod b" and r: "0 \<le> m mod b" "m mod b < b"
    using b by simp_all
  show ?thesis
  proof
    assume "m div b < a"
    then have "b * (m div b + 1) \<le> b * a"
      using b by (intro mult_left_mono) auto
    then have "b * (m div b) + b \<le> a * b" by (simp add: algebra_simps)
    with m r show "m < a * b" by linarith
  next
    assume "m < a * b"
    show "m div b < a"
    proof (rule ccontr)
      assume "\<not> m div b < a"
      then have "b * a \<le> b * (m div b)"
        using b by (intro mult_left_mono) auto
      then have "a * b \<le> b * (m div b)" by (simp add: mult.commute)
      with m r \<open>m < a * b\<close> show False by linarith
    qed
  qed
qed

section \<open>Lists\<close>

lemma takeWhile_all: "list_all P xs \<Longrightarrow> takeWhile P xs = xs"
  by (simp add: takeWhile_eq_all_conv list_all_iff)

lemma map_upt_update:
  "i < n \<Longrightarrow> (map f [0..<n])[i := v] = map (f(i := v)) [0..<n]"
  by (rule nth_equalityI) (auto simp: nth_list_update)

lemma sum_list_update_dec:
  fixes xs :: "nat list"
  assumes "i < length xs" and "0 < xs ! i"
  shows "Suc (sum_list (xs[i := xs ! i - 1])) = sum_list xs"
  using assms
proof (induction xs arbitrary: i)
  case Nil
  then show ?case by simp
next
  case (Cons x xs)
  then show ?case by (cases i) auto
qed

end
