(* ===== verification/Tick_Arith.thy ===== *)
theory Tick_Arith
  imports Helm_Prelude
begin

text \<open>
  TICK integer chronology: \<^verbatim>\<open>tick/detail/overflow.hpp\<close>, \<^verbatim>\<open>tick/duration.hpp\<close>,
  \<^verbatim>\<open>tick/time_point.hpp\<close>.

  Each checked operation has the two paths of the source: the limit pre-checks taken in
  constant evaluation and the compiler builtin taken at run time. \<open>Duration\<close> and
  \<open>Time_Point\<close> are the one-field classes of the source, ordered by their nanoseconds
  as the defaulted comparison orders them.
\<close>

section \<open>Overflow-checked arithmetic\<close>

definition builtin_add_overflow :: "int \<Rightarrow> int \<Rightarrow> int \<times> bool" where
  "builtin_add_overflow a b = (let r = wrap64 (a + b) in (r, r \<noteq> a + b))"

definition builtin_sub_overflow :: "int \<Rightarrow> int \<Rightarrow> int \<times> bool" where
  "builtin_sub_overflow a b = (let r = wrap64 (a - b) in (r, r \<noteq> a - b))"

definition builtin_mul_overflow :: "int \<Rightarrow> int \<Rightarrow> int \<times> bool" where
  "builtin_mul_overflow a b = (let r = wrap64 (a * b) in (r, r \<noteq> a * b))"

definition checked_add :: "bool \<Rightarrow> int \<Rightarrow> int \<Rightarrow> int result" where
  "checked_add constant_evaluated a b =
     (if constant_evaluated then
        if b > 0 \<and> a > int64_max - b then Inl (Overflow_error ''Integer overflow in addition'')
        else if b < 0 \<and> a < int64_min - b then Inl (Overflow_error ''Integer overflow in addition'')
        else ub64 (a + b)
      else
        let (result, overflow) = builtin_add_overflow a b in
        if overflow then Inl (Overflow_error ''Integer overflow in addition'') else Inr result)"

definition checked_sub :: "bool \<Rightarrow> int \<Rightarrow> int \<Rightarrow> int result" where
  "checked_sub constant_evaluated a b =
     (if constant_evaluated then
        if b < 0 \<and> a > int64_max + b then Inl (Overflow_error ''Integer overflow in subtraction'')
        else if b > 0 \<and> a < int64_min + b then Inl (Overflow_error ''Integer overflow in subtraction'')
        else ub64 (a - b)
      else
        let (result, overflow) = builtin_sub_overflow a b in
        if overflow then Inl (Overflow_error ''Integer overflow in subtraction'') else Inr result)"

definition checked_mul :: "bool \<Rightarrow> int \<Rightarrow> int \<Rightarrow> int result" where
  "checked_mul constant_evaluated a b =
     (let overflow_error = Inl (Overflow_error ''Integer overflow in multiplication'') in
      if constant_evaluated then
        if a = 0 \<or> b = 0 then Inr 0
        else if a = - 1 then (if b = int64_min then overflow_error else ub64 (- b))
        else if b = - 1 then (if a = int64_min then overflow_error else ub64 (- a))
        else if a > 0 then
          (if b > 0 then (if a > int64_max sdiv b then overflow_error else ub64 (a * b))
           else (if b < int64_min sdiv a then overflow_error else ub64 (a * b)))
        else
          (if b > 0 then (if a < int64_min sdiv b then overflow_error else ub64 (a * b))
           else (if a < int64_max sdiv b then overflow_error else ub64 (a * b)))
      else
        let (result, overflow) = builtin_mul_overflow a b in
        if overflow then overflow_error else Inr result)"

text \<open>What the run-time path computes: the exact result when it fits, else the exception.\<close>

lemma checked_add_runtime:
  "checked_add False a b =
     (if is_i64 (a + b) then Inr (a + b) else Inl (Overflow_error ''Integer overflow in addition''))"
  by (auto simp: checked_add_def builtin_add_overflow_def Let_def wrap64_eq_iff)

lemma checked_sub_runtime:
  "checked_sub False a b =
     (if is_i64 (a - b) then Inr (a - b) else Inl (Overflow_error ''Integer overflow in subtraction''))"
  by (auto simp: checked_sub_def builtin_sub_overflow_def Let_def wrap64_eq_iff)

lemma checked_mul_runtime:
  "checked_mul False a b =
     (if is_i64 (a * b) then Inr (a * b) else Inl (Overflow_error ''Integer overflow in multiplication''))"
  by (auto simp: checked_mul_def builtin_mul_overflow_def Let_def wrap64_eq_iff)

lemmas checked_runtime = checked_add_runtime checked_sub_runtime checked_mul_runtime

lemma checked_eq_Inr [simp]:
  "checked_add False a b = Inr c \<longleftrightarrow> is_i64 (a + b) \<and> c = a + b"
  "checked_sub False a b = Inr c \<longleftrightarrow> is_i64 (a - b) \<and> c = a - b"
  "checked_mul False a b = Inr c \<longleftrightarrow> is_i64 (a * b) \<and> c = a * b"
  by (auto simp: checked_runtime)

text \<open>The division bounds of the constant-evaluated multiplication.\<close>

lemma sdiv_bound_pos: "0 < b \<Longrightarrow> 0 \<le> m \<Longrightarrow> a > m sdiv b \<longleftrightarrow> m < a * (b::int)"
  by (simp add: sdiv_nonneg div_lt_iff)

lemma sdiv_bound_neg: "0 < b \<Longrightarrow> 0 < m \<Longrightarrow> a < (- m) sdiv b \<longleftrightarrow> a * b < - (m::int)"
  using div_lt_iff [of b m "- a"] sdiv_neg [of "- m" b] by (simp; linarith)

lemma sdiv_bound_negneg: "b < 0 \<Longrightarrow> 0 \<le> m \<Longrightarrow> a < m sdiv b \<longleftrightarrow> m < a * (b::int)"
  using div_lt_iff [of "- b" m "- a"]
  by (cases "m = 0") (auto simp: signed_divide_int_def sgn_if)

lemma checked_mul_constexpr_cases:
  assumes "is_i64 a" and "is_i64 b"
  shows "checked_mul True a b =
     (if is_i64 (a * b) then Inr (a * b) else Inl (Overflow_error ''Integer overflow in multiplication''))"
proof -
  consider "a = 0 \<or> b = 0" | "a = - 1" "b \<noteq> 0" | "b = - 1" "a \<noteq> - 1" "a \<noteq> 0"
    | "0 < a" "0 < b" | "0 < a" "b < - 1" | "a < - 1" "0 < b" | "a < - 1" "b < - 1"
    by linarith
  then show ?thesis
  proof cases
    case 4
    moreover have "int64_min \<le> a * b" using mult_pos_pos [OF 4] by linarith
    ultimately show ?thesis
      using sdiv_bound_pos [of b int64_max a]
      by (simp add: checked_mul_def is_i64_def Let_def ub64_def)
  next
    case 5
    moreover have "a * b \<le> int64_max" using mult_pos_neg [of a b] 5 by linarith
    ultimately show ?thesis
      using sdiv_bound_neg [of a "9223372036854775808" b]
      by (auto simp: checked_mul_def is_i64_def Let_def mult.commute)
  next
    case 6
    moreover have "a * b \<le> int64_max" using mult_neg_pos [of a b] 6 by linarith
    ultimately show ?thesis
      using sdiv_bound_neg [of b "9223372036854775808" a]
      by (auto simp: checked_mul_def is_i64_def Let_def)
  next
    case 7
    moreover have "int64_min \<le> a * b" using mult_neg_neg [of a b] 7 by linarith
    ultimately show ?thesis
      using sdiv_bound_negneg [of b int64_max a]
      by (auto simp: checked_mul_def is_i64_def Let_def)
  qed (use assms in \<open>auto simp: checked_mul_def is_i64_def Let_def\<close>)
qed

section \<open>Durations\<close>

datatype Duration = Duration (dur_nanos: int)

definition duration_le :: "Duration \<Rightarrow> Duration \<Rightarrow> bool" where
  "duration_le d e \<longleftrightarrow> dur_nanos d \<le> dur_nanos e"

definition duration_less :: "Duration \<Rightarrow> Duration \<Rightarrow> bool" where
  "duration_less d e \<longleftrightarrow> dur_nanos d < dur_nanos e"

instantiation Duration :: linorder
begin

definition less_eq_Duration :: "Duration \<Rightarrow> Duration \<Rightarrow> bool" where
  "less_eq_Duration = duration_le"

definition less_Duration :: "Duration \<Rightarrow> Duration \<Rightarrow> bool" where
  "less_Duration = duration_less"

instance
  by standard (auto simp: less_eq_Duration_def less_Duration_def duration_le_def duration_less_def intro: Duration.expand)

end

lemma duration_order: "d \<le> e \<longleftrightarrow> dur_nanos d \<le> dur_nanos e" "d < e \<longleftrightarrow> dur_nanos d < dur_nanos e"
  by (simp_all add: less_eq_Duration_def less_Duration_def duration_le_def duration_less_def)

definition duration_plus :: "Duration \<Rightarrow> Duration \<Rightarrow> Duration result" where
  "duration_plus d other = mapR Duration (checked_add False (dur_nanos d) (dur_nanos other))"

definition duration_minus :: "Duration \<Rightarrow> Duration \<Rightarrow> Duration result" where
  "duration_minus d other = mapR Duration (checked_sub False (dur_nanos d) (dur_nanos other))"

definition duration_times :: "Duration \<Rightarrow> int \<Rightarrow> Duration result" where
  "duration_times d scalar = mapR Duration (checked_mul False (dur_nanos d) scalar)"

definition duration_divide :: "Duration \<Rightarrow> int \<Rightarrow> Duration result" where
  "duration_divide d scalar =
     (if scalar = 0 then Inl (Invalid_argument ''Duration division by zero'')
      else mapR Duration (ub64 (dur_nanos d sdiv scalar)))"

definition duration_uminus :: "Duration \<Rightarrow> Duration result" where
  "duration_uminus d = mapR Duration (ub64 (- dur_nanos d))"

text \<open>
  The compound assignments return the new value of the object together with whether the
  operation threw; a throwing assignment leaves the object as it was.
\<close>

definition duration_plus_assign :: "Duration \<Rightarrow> Duration \<Rightarrow> Duration \<times> unit result" where
  "duration_plus_assign self other =
     (case checked_add False (dur_nanos self) (dur_nanos other) of
        Inl e \<Rightarrow> (self, Inl e) | Inr n \<Rightarrow> (Duration n, Inr ()))"

definition duration_minus_assign :: "Duration \<Rightarrow> Duration \<Rightarrow> Duration \<times> unit result" where
  "duration_minus_assign self other =
     (case checked_sub False (dur_nanos self) (dur_nanos other) of
        Inl e \<Rightarrow> (self, Inl e) | Inr n \<Rightarrow> (Duration n, Inr ()))"

definition duration_times_assign :: "Duration \<Rightarrow> int \<Rightarrow> Duration \<times> unit result" where
  "duration_times_assign self scalar =
     (case checked_mul False (dur_nanos self) scalar of
        Inl e \<Rightarrow> (self, Inl e) | Inr n \<Rightarrow> (Duration n, Inr ()))"

definition duration_divide_assign :: "Duration \<Rightarrow> int \<Rightarrow> Duration \<times> unit result" where
  "duration_divide_assign self scalar =
     (if scalar = 0 then (self, Inl (Invalid_argument ''Duration division by zero''))
      else case ub64 (dur_nanos self sdiv scalar) of
        Inl e \<Rightarrow> (self, Inl e) | Inr n \<Rightarrow> (Duration n, Inr ()))"

definition nanoseconds :: "int \<Rightarrow> Duration result" where
  "nanoseconds count = Inr (Duration count)"

definition microseconds :: "int \<Rightarrow> Duration result" where
  "microseconds count = mapR Duration (ub64 (count * 1000))"

definition milliseconds :: "int \<Rightarrow> Duration result" where
  "milliseconds count = mapR Duration (ub64 (count * 1000000))"

definition seconds :: "int \<Rightarrow> Duration result" where
  "seconds count = mapR Duration (ub64 (count * 1000000000))"

definition minutes :: "int \<Rightarrow> Duration result" where
  "minutes count = mapR Duration (ub64 (count * 60000000000))"

definition hours :: "int \<Rightarrow> Duration result" where
  "hours count = mapR Duration (ub64 (count * 3600000000000))"

definition days :: "int \<Rightarrow> Duration result" where
  "days count = mapR Duration (ub64 (count * 86400000000000))"

section \<open>Time points\<close>

datatype Time_Point = Time_Point (tp_nanos: int)

definition time_point_le :: "Time_Point \<Rightarrow> Time_Point \<Rightarrow> bool" where
  "time_point_le t u \<longleftrightarrow> tp_nanos t \<le> tp_nanos u"

definition time_point_less :: "Time_Point \<Rightarrow> Time_Point \<Rightarrow> bool" where
  "time_point_less t u \<longleftrightarrow> tp_nanos t < tp_nanos u"

instantiation Time_Point :: linorder
begin

definition less_eq_Time_Point :: "Time_Point \<Rightarrow> Time_Point \<Rightarrow> bool" where
  "less_eq_Time_Point = time_point_le"

definition less_Time_Point :: "Time_Point \<Rightarrow> Time_Point \<Rightarrow> bool" where
  "less_Time_Point = time_point_less"

instance
  by standard (auto simp: less_eq_Time_Point_def less_Time_Point_def time_point_le_def time_point_less_def intro: Time_Point.expand)

end

lemma time_point_order: "t \<le> u \<longleftrightarrow> tp_nanos t \<le> tp_nanos u" "t < u \<longleftrightarrow> tp_nanos t < tp_nanos u"
  by (simp_all add: less_eq_Time_Point_def less_Time_Point_def time_point_le_def time_point_less_def)

definition time_point_plus :: "Time_Point \<Rightarrow> Duration \<Rightarrow> Time_Point result" where
  "time_point_plus t d = mapR Time_Point (checked_add False (tp_nanos t) (dur_nanos d))"

definition time_point_minus :: "Time_Point \<Rightarrow> Duration \<Rightarrow> Time_Point result" where
  "time_point_minus t d = mapR Time_Point (checked_sub False (tp_nanos t) (dur_nanos d))"

definition time_point_diff :: "Time_Point \<Rightarrow> Time_Point \<Rightarrow> Duration result" where
  "time_point_diff t other = mapR Duration (checked_sub False (tp_nanos t) (tp_nanos other))"

definition time_point_plus_assign :: "Time_Point \<Rightarrow> Duration \<Rightarrow> Time_Point \<times> unit result" where
  "time_point_plus_assign self d =
     (case checked_add False (tp_nanos self) (dur_nanos d) of
        Inl e \<Rightarrow> (self, Inl e) | Inr n \<Rightarrow> (Time_Point n, Inr ()))"

definition time_point_minus_assign :: "Time_Point \<Rightarrow> Duration \<Rightarrow> Time_Point \<times> unit result" where
  "time_point_minus_assign self d =
     (case checked_sub False (tp_nanos self) (dur_nanos d) of
        Inl e \<Rightarrow> (self, Inl e) | Inr n \<Rightarrow> (Time_Point n, Inr ()))"

abbreviation nanos_per_second :: int where
  "nanos_per_second \<equiv> 1000000000"

abbreviation nanos_per_minute :: int where
  "nanos_per_minute \<equiv> 60000000000"

abbreviation nanos_per_hour :: int where
  "nanos_per_hour \<equiv> 3600000000000"

abbreviation nanos_per_day :: int where
  "nanos_per_day \<equiv> 86400000000000"

definition epoch :: Time_Point where
  "epoch = Time_Point 0"

lemmas time_order_defs =
  duration_order time_point_order

lemmas duration_defs =
  duration_plus_def duration_minus_def duration_times_def duration_divide_def
  duration_uminus_def duration_plus_assign_def duration_minus_assign_def
  duration_times_assign_def duration_divide_assign_def

lemmas time_point_defs =
  time_point_plus_def time_point_minus_def time_point_diff_def
  time_point_plus_assign_def time_point_minus_assign_def

section \<open>Properties\<close>

text \<open>
  C37. The constant-evaluated and the run-time path of the checked operations agree: for all
  operands of type \<open>int64_t\<close> and every combination of paths both return the exact
  mathematical result when it is representable and throw the overflow error otherwise.
  Neither path performs an overflowing operation of its own.
\<close>

theorem checked_paths_agree:
  assumes "is_i64 a" and "is_i64 b"
  shows "checked_add ce a b =
           (if is_i64 (a + b) then Inr (a + b) else Inl (Overflow_error ''Integer overflow in addition''))
       \<and> checked_sub ce a b =
           (if is_i64 (a - b) then Inr (a - b) else Inl (Overflow_error ''Integer overflow in subtraction''))
       \<and> checked_mul ce a b =
           (if is_i64 (a * b) then Inr (a * b) else Inl (Overflow_error ''Integer overflow in multiplication''))"
proof (cases ce)
  case True
  moreover have "checked_add True a b =
      (if is_i64 (a + b) then Inr (a + b) else Inl (Overflow_error ''Integer overflow in addition''))"
    using assms by (auto simp: checked_add_def is_i64_def)
  moreover have "checked_sub True a b =
      (if is_i64 (a - b) then Inr (a - b) else Inl (Overflow_error ''Integer overflow in subtraction''))"
    using assms by (auto simp: checked_sub_def is_i64_def)
  ultimately show ?thesis
    using checked_mul_constexpr_cases [OF assms] by simp
next
  case False
  then show ?thesis by (simp add: checked_runtime)
qed

theorem checked_paths_agree_witness:
  "checked_mul True (- 4) 3 = Inr (- 12) \<and>
   checked_mul True int64_min (- 1) = Inl (Overflow_error ''Integer overflow in multiplication'') \<and>
   checked_add True int64_max 1 = Inl (Overflow_error ''Integer overflow in addition'')"
proof -
  have "is_i64 (- 4)" "is_i64 3" "is_i64 int64_min" "is_i64 int64_max" "is_i64 (- 1)" "is_i64 1"
    by (simp_all add: is_i64_def)
  note h = this
  show ?thesis
    using checked_paths_agree [OF h(1,2), of True] checked_paths_agree [OF h(3,5), of True]
      checked_paths_agree [OF h(4,6), of True]
    by (simp add: is_i64_def)
qed

text \<open>
  Time arithmetic has no drift: whenever advancing a time point by a duration succeeds,
  the difference of the two time points is exactly that duration, and going back by the
  duration returns to the start, without an exception.
\<close>

theorem time_point_no_drift:
  assumes "is_i64 (tp_nanos t)" and "is_i64 (dur_nanos d)"
    and "time_point_plus t d = Inr u"
  shows "time_point_diff u t = Inr d \<and> time_point_minus u d = Inr t
       \<and> is_i64 (tp_nanos u) \<and> (t < u \<longleftrightarrow> Duration 0 < d)"
  using assms by (auto simp: time_point_defs result_elims time_order_defs)

theorem time_point_no_drift_witness:
  "time_point_plus (Time_Point 5) (Duration 7) = Inr (Time_Point 12) \<and>
   time_point_diff (Time_Point 12) (Time_Point 5) = Inr (Duration 7)"
proof -
  have "is_i64 (tp_nanos (Time_Point 5))" "is_i64 (dur_nanos (Duration 7))"
    "time_point_plus (Time_Point 5) (Duration 7) = Inr (Time_Point 12)"
    by (simp_all add: is_i64_def time_point_defs checked_runtime)
  from time_point_no_drift [OF this] this show ?thesis by simp
qed

lemma duration_assign_agrees:
  "duration_plus_assign d e = (case duration_plus d e of Inl x \<Rightarrow> (d, Inl x) | Inr r \<Rightarrow> (r, Inr ()))"
  "duration_minus_assign d e = (case duration_minus d e of Inl x \<Rightarrow> (d, Inl x) | Inr r \<Rightarrow> (r, Inr ()))"
  "duration_times_assign d k = (case duration_times d k of Inl x \<Rightarrow> (d, Inl x) | Inr r \<Rightarrow> (r, Inr ()))"
  "duration_divide_assign d k = (case duration_divide d k of Inl x \<Rightarrow> (d, Inl x) | Inr r \<Rightarrow> (r, Inr ()))"
  by (auto simp: duration_defs checked_runtime ub64_def)

end
