(* ===== verification/Helm_Decimal.thy ===== *)
theory Helm_Decimal
  imports Main
begin

text \<open>
  Decimal strings: the digits that \<open>std::to_string\<close> and \<open>printf\<close> write for a natural number and the
  value that \<open>std::from_chars\<close> reads from a run of digits.
\<close>

definition is_dec_digit :: "char \<Rightarrow> bool" where
  "is_dec_digit c \<longleftrightarrow> 48 \<le> (of_char c :: nat) \<and> (of_char c :: nat) \<le> 57"

definition digit_value :: "char \<Rightarrow> int" where
  "digit_value c = int (of_char c) - 48"

definition dec_value :: "string \<Rightarrow> int" where
  "dec_value cs = foldl (\<lambda>v c. v * 10 + digit_value c) 0 cs"

fun dec_digits :: "nat \<Rightarrow> string" where
  "dec_digits n = (if n < 10 then [char_of (48 + n)] else dec_digits (n div 10) @ [char_of (48 + n mod 10)])"

declare dec_digits.simps [simp del]

lemma of_char_digit [simp]: "d < 10 \<Longrightarrow> (of_char (char_of (48 + d :: nat) :: char) :: nat) = 48 + d"
  by (simp add: of_char_of)

lemma is_dec_digit_char [simp]: "d < 10 \<Longrightarrow> is_dec_digit (char_of (48 + d :: nat))"
  by (simp add: is_dec_digit_def)

lemma digit_value_char [simp]: "d < 10 \<Longrightarrow> digit_value (char_of (48 + d :: nat)) = int d"
  by (simp add: digit_value_def)

lemma dec_value_snoc [simp]: "dec_value (cs @ [c]) = dec_value cs * 10 + digit_value c"
  by (simp add: dec_value_def)

lemma dec_value_Nil [simp]: "dec_value [] = 0"
  by (simp add: dec_value_def)

lemma dec_value_zeros: "dec_value (replicate k CHR ''0'' @ cs) = dec_value cs"
  by (induction k) (simp_all add: dec_value_def digit_value_def)

lemma dec_value_digits [simp]: "dec_value (dec_digits n) = int n"
proof (induction n rule: dec_digits.induct)
  case (1 n)
  show ?case
  proof (cases "n < 10")
    case True
    then show ?thesis
      by (simp add: dec_digits.simps [of n] dec_value_def)
  next
    case False
    moreover have "int (n div 10) * 10 + int (n mod 10) = int n"
      by (metis div_mult_mod_eq of_nat_add of_nat_mult of_nat_numeral)
    ultimately show ?thesis
      using "1.IH" by (simp add: dec_digits.simps [of n])
  qed
qed

lemma all_digits_dec_digits: "list_all is_dec_digit (dec_digits n)"
proof (induction n rule: dec_digits.induct)
  case (1 n)
  then show ?case
    by (cases "n < 10") (simp_all add: dec_digits.simps [of n])
qed

lemma dec_digits_nonempty [simp]: "dec_digits n \<noteq> []"
  by (simp add: dec_digits.simps [of n])

lemma length_dec_digits: "n < 10 ^ Suc k \<Longrightarrow> length (dec_digits n) \<le> Suc k"
proof (induction k arbitrary: n)
  case 0
  then show ?case by (simp add: dec_digits.simps [of n])
next
  case (Suc k)
  then have "n div 10 < 10 ^ Suc k"
    by (simp add: div_less_iff_less_mult)
  with Suc.IH show ?case by (simp add: dec_digits.simps [of n])
qed

text \<open>The decimal form of a signed integer, as \<open>std::to_string\<close> writes it.\<close>

definition dec_int :: "int \<Rightarrow> string" where
  "dec_int x = (if x < 0 then CHR ''-'' # dec_digits (nat (- x)) else dec_digits (nat x))"

lemma dec_digits_no_minus: "CHR ''-'' \<notin> set (dec_digits n)"
  using all_digits_dec_digits [of n] by (auto simp: list_all_iff is_dec_digit_def)

lemma dec_digits_inj: "dec_digits m = dec_digits n \<Longrightarrow> m = n"
  by (metis dec_value_digits of_nat_eq_iff)

lemma dec_int_inj: "dec_int x = dec_int y \<Longrightarrow> x = y"
  using dec_digits_no_minus [of "nat x"] dec_digits_no_minus [of "nat y"]
  by (auto simp: dec_int_def split: if_splits dest!: dec_digits_inj) (metis list.set_intros(1))+

end
