(* ===== verification/Tick_Date.thy ===== *)
theory Tick_Date
  imports Tick_Arith Helm_Decimal
begin

text \<open>
  TICK calendar dates: \<^verbatim>\<open>tick/date_time.hpp\<close>.

  \<open>Date_Time\<close> is the plain aggregate of the source, with the lexicographic order of its
  defaulted comparison. The parser and the printer of ISO 8601 strings work on
  \<open>string\<close>; \<open>std::from_chars\<close> and the zero-padded \<open>printf\<close> conversions they call are
  modelled for the shapes used here.
\<close>

section \<open>Decomposed dates\<close>

record Date_Time =
  dt_year :: int
  dt_month :: int
  dt_day :: int
  dt_hour :: int
  dt_minute :: int
  dt_second :: int
  dt_nanosecond :: int

definition mk_date_time :: "int \<Rightarrow> int \<Rightarrow> int \<Rightarrow> int \<Rightarrow> int \<Rightarrow> int \<Rightarrow> int \<Rightarrow> Date_Time" where
  "mk_date_time y mo d h mi s ns =
     \<lparr>dt_year = y, dt_month = mo, dt_day = d, dt_hour = h, dt_minute = mi, dt_second = s,
      dt_nanosecond = ns\<rparr>"

lemma mk_date_time_sel [simp]:
  "dt_year (mk_date_time y mo d h mi s ns) = y"
  "dt_month (mk_date_time y mo d h mi s ns) = mo"
  "dt_day (mk_date_time y mo d h mi s ns) = d"
  "dt_hour (mk_date_time y mo d h mi s ns) = h"
  "dt_minute (mk_date_time y mo d h mi s ns) = mi"
  "dt_second (mk_date_time y mo d h mi s ns) = s"
  "dt_nanosecond (mk_date_time y mo d h mi s ns) = ns"
  by (simp_all add: mk_date_time_def)

lemma mk_date_time_eq_iff:
  "dt = mk_date_time y mo d h mi s ns \<longleftrightarrow>
     dt_year dt = y \<and> dt_month dt = mo \<and> dt_day dt = d \<and> dt_hour dt = h \<and>
     dt_minute dt = mi \<and> dt_second dt = s \<and> dt_nanosecond dt = ns"
  by (cases dt) (simp add: mk_date_time_def)

text \<open>The defaulted comparison: lexicographic in declaration order.\<close>

definition date_time_less :: "Date_Time \<Rightarrow> Date_Time \<Rightarrow> bool" where
  "date_time_less a b \<longleftrightarrow>
     dt_year a < dt_year b \<or> dt_year a = dt_year b \<and>
     (dt_month a < dt_month b \<or> dt_month a = dt_month b \<and>
     (dt_day a < dt_day b \<or> dt_day a = dt_day b \<and>
     (dt_hour a < dt_hour b \<or> dt_hour a = dt_hour b \<and>
     (dt_minute a < dt_minute b \<or> dt_minute a = dt_minute b \<and>
     (dt_second a < dt_second b \<or> dt_second a = dt_second b \<and>
      dt_nanosecond a < dt_nanosecond b)))))"

lemma date_time_less_linear: "date_time_less a b \<or> a = b \<or> date_time_less b a"
proof (rule ccontr)
  assume n: "\<not> (date_time_less a b \<or> a = b \<or> date_time_less b a)"
  note lin = linorder_less_linear
  have 1: "dt_year a = dt_year b"
    using n lin [of "dt_year a" "dt_year b"] by (auto simp: date_time_less_def)
  then have 2: "dt_month a = dt_month b"
    using n lin [of "dt_month a" "dt_month b"] by (auto simp: date_time_less_def)
  then have 3: "dt_day a = dt_day b"
    using 1 n lin [of "dt_day a" "dt_day b"] by (auto simp: date_time_less_def)
  then have 4: "dt_hour a = dt_hour b"
    using 1 2 n lin [of "dt_hour a" "dt_hour b"] by (auto simp: date_time_less_def)
  then have 5: "dt_minute a = dt_minute b"
    using 1 2 3 n lin [of "dt_minute a" "dt_minute b"] by (auto simp: date_time_less_def)
  then have 6: "dt_second a = dt_second b"
    using 1 2 3 4 n lin [of "dt_second a" "dt_second b"] by (auto simp: date_time_less_def)
  then have "dt_nanosecond a = dt_nanosecond b"
    using 1 2 3 4 5 n lin [of "dt_nanosecond a" "dt_nanosecond b"] by (auto simp: date_time_less_def)
  with 1 2 3 4 5 6 have "a = b" by simp
  with n show False by simp
qed

section \<open>ISO 8601\<close>

text \<open>
  \<open>std::from_chars\<close> on an \<open>int32_t\<close> in base 10: an optional minus sign and the longest
  run of digits. The result is the value and the number of characters consumed, or
  \<open>None\<close> for a non-zero error code (no digit, or the value is out of range).
\<close>

definition from_chars_i32 :: "string \<Rightarrow> (int \<times> nat) option" where
  "from_chars_i32 cs =
     (let negative = (case cs of c # _ \<Rightarrow> c = CHR ''-'' | [] \<Rightarrow> False);
          rest = (if negative then tl cs else cs);
          digits = takeWhile is_dec_digit rest;
          v = (if negative then - dec_value digits else dec_value digits)
      in if digits = [] \<or> \<not> is_i32 v then None
         else Some (v, length digits + (if negative then 1 else 0)))"

definition check_sep :: "string \<Rightarrow> nat \<Rightarrow> char \<Rightarrow> unit result" where
  "check_sep sv pos expected =
     (if sv ! pos \<noteq> expected then Inl (Invalid_argument ''ISO 8601 parse error: expected separator'')
      else Inr ())"

definition parse_int_field :: "string \<Rightarrow> nat \<Rightarrow> nat \<Rightarrow> int result" where
  "parse_int_field sv start len =
     (case from_chars_i32 (take len (drop start sv)) of
        None \<Rightarrow> Inl (Invalid_argument ''ISO 8601 parse error: invalid numeric field at byte '')
      | Some (value, consumed) \<Rightarrow>
          if consumed \<noteq> len
          then Inl (Invalid_argument ''ISO 8601 parse error: invalid numeric field at byte '')
          else Inr value)"

definition parse_iso8601 :: "string \<Rightarrow> Date_Time result" where
  "parse_iso8601 sv =
     (if length sv \<noteq> 19 then Inl (Invalid_argument ''ISO 8601 parse error: expected 19 characters'')
      else
      bindR (check_sep sv 4 CHR ''-'') (\<lambda>_.
      bindR (check_sep sv 7 CHR ''-'') (\<lambda>_.
      bindR (check_sep sv 10 CHR ''T'') (\<lambda>_.
      bindR (check_sep sv 13 CHR '':'') (\<lambda>_.
      bindR (check_sep sv 16 CHR '':'') (\<lambda>_.
      bindR (parse_int_field sv 0 4) (\<lambda>y.
      bindR (parse_int_field sv 5 2) (\<lambda>mo.
      bindR (parse_int_field sv 8 2) (\<lambda>d.
      bindR (parse_int_field sv 11 2) (\<lambda>h.
      bindR (parse_int_field sv 14 2) (\<lambda>mi.
      bindR (parse_int_field sv 17 2) (\<lambda>s.
        if mo < 1 \<or> mo > 12 then Inl (Invalid_argument ''ISO 8601 parse error: month '')
        else if d < 1 \<or> d > 31 then Inl (Invalid_argument ''ISO 8601 parse error: day '')
        else if h < 0 \<or> h > 23 then Inl (Invalid_argument ''ISO 8601 parse error: hour '')
        else if mi < 0 \<or> mi > 59 then Inl (Invalid_argument ''ISO 8601 parse error: minute '')
        else if s < 0 \<or> s > 59 then Inl (Invalid_argument ''ISO 8601 parse error: second '')
        else Inr (mk_date_time y mo d h mi s 0)))))))))))))"

text \<open>
  \<open>printf\<close> with a zero-padded minimum width. The buffer of the source holds 19
  characters and the terminator, and the result is its first 19 characters.
\<close>

definition zero_pad :: "nat \<Rightarrow> string \<Rightarrow> string" where
  "zero_pad w cs = replicate (w - length cs) CHR ''0'' @ cs"

definition printf_0d :: "nat \<Rightarrow> int \<Rightarrow> string" where
  "printf_0d w v =
     (if v < 0 then CHR ''-'' # zero_pad (w - 1) (dec_digits (nat (- v)))
      else zero_pad w (dec_digits (nat v)))"

definition format_iso8601 :: "Date_Time \<Rightarrow> string" where
  "format_iso8601 dt =
     take 19 (printf_0d 4 (dt_year dt) @ ''-'' @ printf_0d 2 (dt_month dt) @ ''-'' @
       printf_0d 2 (dt_day dt) @ ''T'' @ printf_0d 2 (dt_hour dt) @ '':'' @
       printf_0d 2 (dt_minute dt) @ '':'' @ printf_0d 2 (dt_second dt))"

subsection \<open>Reading back what was printed\<close>

lemma length_zero_pad: "length cs \<le> w \<Longrightarrow> length (zero_pad w cs) = w"
  by (simp add: zero_pad_def)

lemma zero_pad_digits:
  "list_all is_dec_digit cs \<Longrightarrow> list_all is_dec_digit (zero_pad w cs)"
  by (auto simp: zero_pad_def list_all_iff is_dec_digit_def)

lemma dec_value_zero_pad [simp]: "dec_value (zero_pad w cs) = dec_value cs"
  by (simp add: zero_pad_def dec_value_zeros)

lemma from_chars_printf:
  assumes "0 \<le> v" and "v < 10 ^ Suc k" and "is_i32 v"
  shows "from_chars_i32 (printf_0d (Suc k) v) = Some (v, Suc k) \<and> length (printf_0d (Suc k) v) = Suc k"
proof -
  let ?cs = "zero_pad (Suc k) (dec_digits (nat v))"
  have "length (dec_digits (nat v)) \<le> Suc k"
    using assms(1,2) by (intro length_dec_digits) (simp add: nat_less_iff)
  then have len: "length ?cs = Suc k" by (rule length_zero_pad)
  have dig: "list_all is_dec_digit ?cs"
    by (intro zero_pad_digits all_digits_dec_digits)
  then obtain c cs where c: "?cs = c # cs" "is_dec_digit c"
    using len by (cases ?cs) auto
  have "\<not> (case ?cs of c # _ \<Rightarrow> c = CHR ''-'' | [] \<Rightarrow> False)"
    using c by (auto simp: is_dec_digit_def)
  moreover have "?cs \<noteq> []" using c by simp
  ultimately show ?thesis
    using assms len by (simp add: from_chars_i32_def printf_0d_def takeWhile_all [OF dig] Let_def)
qed

lemma printf2:
  assumes "0 \<le> v" and "v < 100"
  obtains a b where "printf_0d 2 v = [a, b]" and "from_chars_i32 [a, b] = Some (v, 2)"
proof -
  have "from_chars_i32 (printf_0d 2 v) = Some (v, 2)" and len: "length (printf_0d 2 v) = 2"
    using from_chars_printf [of v 1] assms by (simp_all add: is_i32_def numeral_2_eq_2)
  moreover from len obtain a b where "printf_0d 2 v = [a, b]"
    by (auto simp: numeral_2_eq_2 length_Suc_conv)
  ultimately show ?thesis using that by simp
qed

lemma printf4:
  assumes "0 \<le> v" and "v < 10000"
  obtains a b c d where "printf_0d 4 v = [a, b, c, d]" and "from_chars_i32 [a, b, c, d] = Some (v, 4)"
proof -
  have "from_chars_i32 (printf_0d 4 v) = Some (v, 4)" and len: "length (printf_0d 4 v) = 4"
    using from_chars_printf [of v 3] assms by (simp_all add: is_i32_def eval_nat_numeral)
  moreover from len obtain a b c d where "printf_0d 4 v = [a, b, c, d]"
    by (auto simp: eval_nat_numeral length_Suc_conv)
  ultimately show ?thesis using that by simp
qed

definition time_of_day_ok :: "Date_Time \<Rightarrow> bool" where
  "time_of_day_ok dt \<longleftrightarrow>
     0 \<le> dt_hour dt \<and> dt_hour dt \<le> 23 \<and> 0 \<le> dt_minute dt \<and> dt_minute dt \<le> 59 \<and>
     0 \<le> dt_second dt \<and> dt_second dt \<le> 59 \<and>
     0 \<le> dt_nanosecond dt \<and> dt_nanosecond dt \<le> 999999999"

section \<open>Properties\<close>

text \<open>
  C38. Printing and parsing round trip: a date with a four-digit non-negative year, a month of
  1 to 12, a day of 1 to 31, a legal time of day and no nanoseconds is printed as 19
  characters from which the parser recovers exactly that date.
\<close>

theorem iso8601_roundtrip:
  assumes "0 \<le> dt_year dt" "dt_year dt \<le> 9999" "1 \<le> dt_month dt" "dt_month dt \<le> 12"
    "1 \<le> dt_day dt" "dt_day dt \<le> 31" "time_of_day_ok dt" "dt_nanosecond dt = 0"
  shows "length (format_iso8601 dt) = 19 \<and> parse_iso8601 (format_iso8601 dt) = Inr dt"
proof -
  have tod: "0 \<le> dt_hour dt" "dt_hour dt \<le> 23" "0 \<le> dt_minute dt" "dt_minute dt \<le> 59"
    "0 \<le> dt_second dt" "dt_second dt \<le> 59"
    using assms(7) by (auto simp: time_of_day_ok_def)
  obtain y1 y2 y3 y4 where y: "printf_0d 4 (dt_year dt) = [y1, y2, y3, y4]"
      "from_chars_i32 [y1, y2, y3, y4] = Some (dt_year dt, 4)"
    by (rule printf4 [of "dt_year dt"]) (use assms in auto)
  obtain m1 m2 where m: "printf_0d 2 (dt_month dt) = [m1, m2]" "from_chars_i32 [m1, m2] = Some (dt_month dt, 2)"
    by (rule printf2 [of "dt_month dt"]) (use assms tod in auto)
  obtain d1 d2 where d: "printf_0d 2 (dt_day dt) = [d1, d2]" "from_chars_i32 [d1, d2] = Some (dt_day dt, 2)"
    by (rule printf2 [of "dt_day dt"]) (use assms tod in auto)
  obtain h1 h2 where h: "printf_0d 2 (dt_hour dt) = [h1, h2]" "from_chars_i32 [h1, h2] = Some (dt_hour dt, 2)"
    by (rule printf2 [of "dt_hour dt"]) (use assms tod in auto)
  obtain n1 n2 where n: "printf_0d 2 (dt_minute dt) = [n1, n2]" "from_chars_i32 [n1, n2] = Some (dt_minute dt, 2)"
    by (rule printf2 [of "dt_minute dt"]) (use assms tod in auto)
  obtain s1 s2 where s: "printf_0d 2 (dt_second dt) = [s1, s2]" "from_chars_i32 [s1, s2] = Some (dt_second dt, 2)"
    by (rule printf2 [of "dt_second dt"]) (use assms tod in auto)
  have fmt: "format_iso8601 dt = [y1, y2, y3, y4, CHR ''-'', m1, m2, CHR ''-'', d1, d2, CHR ''T'',
      h1, h2, CHR '':'', n1, n2, CHR '':'', s1, s2]"
    by (simp add: format_iso8601_def y m d h n s)
  have "parse_iso8601 (format_iso8601 dt) = Inr (mk_date_time (dt_year dt) (dt_month dt) (dt_day dt)
      (dt_hour dt) (dt_minute dt) (dt_second dt) 0)"
    using assms tod by (simp add: fmt parse_iso8601_def check_sep_def parse_int_field_def y m d h n s)
  moreover have "dt = mk_date_time (dt_year dt) (dt_month dt) (dt_day dt)
      (dt_hour dt) (dt_minute dt) (dt_second dt) 0"
    using assms(8) by (simp add: mk_date_time_eq_iff)
  ultimately show ?thesis by (simp add: fmt)
qed

theorem iso8601_roundtrip_witness:
  "parse_iso8601 (format_iso8601 (mk_date_time 2026 2 28 23 59 7 0)) = Inr (mk_date_time 2026 2 28 23 59 7 0)"
  using iso8601_roundtrip [of "mk_date_time 2026 2 28 23 59 7 0"] by (simp add: time_of_day_ok_def)

lemma parse_accepts_negative_zero:
  "parse_iso8601 ''2026-01-01T-0:-0:-0'' = Inr (mk_date_time 2026 1 1 0 0 0 0)"
  by code_simp

end
