(* ===== verification/Tick_Calendar.thy ===== *)
theory Tick_Calendar
  imports Tick_Date
begin

text \<open>
  The calendar interface of TICK: the \<open>Calendar\<close> concept of \<^verbatim>\<open>tick/calendar.hpp\<close>.

  The concept is a record of the four operations a calendar type provides, together with a
  tag for the type tests of the aliasing engine. The locale \<open>calendar_laws\<close> states what the
  clients of a calendar rely on. The locale \<open>day_numbering\<close> is what a calendar
  implementation provides: a day number for each date, its inverse, and conversions that
  combine it with the nanoseconds of the day. A sublocale derives the laws from it, once
  for the three calendars.
\<close>

section \<open>The calendar interface\<close>

datatype calendar_kind = Gregorian_Kind | NoLeap_Kind | Cal360_Kind

record calendar =
  cal_kind :: calendar_kind
  cal_to_date_time :: "Time_Point \<Rightarrow> Date_Time result"
  cal_to_time_point :: "Date_Time \<Rightarrow> Time_Point result"
  cal_days_in_month :: "int \<Rightarrow> int \<Rightarrow> int result"
  cal_days_in_year :: "int \<Rightarrow> int"

definition day_ok :: "calendar \<Rightarrow> Date_Time \<Rightarrow> bool" where
  "day_ok C dt \<longleftrightarrow>
     is_i32 (dt_year dt) \<and> 1 \<le> dt_month dt \<and> dt_month dt \<le> 12 \<and> 1 \<le> dt_day dt \<and>
     (case cal_days_in_month C (dt_year dt) (dt_month dt) of
        Inl _ \<Rightarrow> False | Inr max_day \<Rightarrow> dt_day dt \<le> max_day)"

definition valid_date_time :: "calendar \<Rightarrow> Date_Time \<Rightarrow> bool" where
  "valid_date_time C dt \<longleftrightarrow> day_ok C dt \<and> time_of_day_ok dt"

definition nanos_of_day :: "Date_Time \<Rightarrow> int" where
  "nanos_of_day dt =
     dt_hour dt * nanos_per_hour + dt_minute dt * nanos_per_minute +
     dt_second dt * nanos_per_second + dt_nanosecond dt"

lemma nanos_of_day_bounds:
  "time_of_day_ok dt \<Longrightarrow> 0 \<le> nanos_of_day dt \<and> nanos_of_day dt < nanos_per_day"
  by (simp add: time_of_day_ok_def nanos_of_day_def)

text \<open>
  What the clients of a calendar rely on. \<open>dim\<close>: every month has between 28 and 31 days.
  \<open>to_dt_defined\<close>: every time point from the first whole day of the \<open>int64_t\<close> range on is
  decomposed. \<open>to_dt_valid\<close>, \<open>roundtrip\<close>, \<open>inverse\<close>: the two conversions are inverse to each
  other and only valid dates are produced or accepted. \<open>mono\<close>: later dates are later
  time points.
\<close>

locale calendar_laws =
  fixes C :: calendar
  assumes dim: "1 \<le> m \<Longrightarrow> m \<le> 12 \<Longrightarrow> \<exists>d. cal_days_in_month C y m = Inr d \<and> 28 \<le> d \<and> d \<le> 31"
    and to_dt_defined: "is_i64 n \<Longrightarrow> - 9223286400000000000 \<le> n \<Longrightarrow> is_ok (cal_to_date_time C (Time_Point n))"
    and to_dt_valid: "is_i64 (tp_nanos t) \<Longrightarrow> - 9223286400000000000 \<le> tp_nanos t \<Longrightarrow>
        cal_to_date_time C t = Inr dt \<Longrightarrow> valid_date_time C dt"
    and roundtrip: "is_i64 (tp_nanos t) \<Longrightarrow> - 9223286400000000000 \<le> tp_nanos t \<Longrightarrow>
        cal_to_date_time C t = Inr dt \<Longrightarrow> cal_to_time_point C dt = Inr t"
    and inverse: "is_i32 (dt_year dt) \<Longrightarrow> cal_to_time_point C dt = Inr t \<Longrightarrow>
        is_i64 (tp_nanos t) \<and> - 9223286400000000000 \<le> tp_nanos t \<and> cal_to_date_time C t = Inr dt"
    and invalid: "is_i32 (dt_year dt) \<Longrightarrow> \<not> valid_date_time C dt \<Longrightarrow>
        \<exists>msg. cal_to_time_point C dt = Inl (Invalid_argument msg)"
    and mono: "is_i32 (dt_year a) \<Longrightarrow> is_i32 (dt_year b) \<Longrightarrow> date_time_less a b \<Longrightarrow>
        cal_to_time_point C a = Inr t \<Longrightarrow> cal_to_time_point C b = Inr u \<Longrightarrow> t < u"
begin

lemma day_ok_iff:
  "1 \<le> dt_month dt \<Longrightarrow> dt_month dt \<le> 12 \<Longrightarrow> cal_days_in_month C (dt_year dt) (dt_month dt) = Inr k \<Longrightarrow>
     day_ok C dt \<longleftrightarrow> is_i32 (dt_year dt) \<and> 1 \<le> dt_day dt \<and> dt_day dt \<le> k"
  by (auto simp: day_ok_def)

lemma to_tp_valid:
  "is_i32 (dt_year dt) \<Longrightarrow> cal_to_time_point C dt = Inr t \<Longrightarrow> valid_date_time C dt"
  using inverse to_dt_valid by blast

lemma to_tp_inj:
  assumes "is_i32 (dt_year a)" "is_i32 (dt_year b)"
    and "cal_to_time_point C a = Inr t" "cal_to_time_point C b = Inr t"
  shows "a = b"
  using inverse [OF assms(1,3)] inverse [OF assms(2,4)] by simp

lemma to_dt_inj:
  assumes "is_i64 (tp_nanos t)" "is_i64 (tp_nanos u)"
    and "- 9223286400000000000 \<le> tp_nanos t" "- 9223286400000000000 \<le> tp_nanos u"
    and "cal_to_date_time C t = Inr dt" "cal_to_date_time C u = Inr dt"
  shows "t = u"
  using roundtrip [OF assms(1,3,5)] roundtrip [OF assms(2,4,6)] by simp

lemma year_i32:
  "is_i64 (tp_nanos t) \<Longrightarrow> - 9223286400000000000 \<le> tp_nanos t \<Longrightarrow> cal_to_date_time C t = Inr dt \<Longrightarrow> is_i32 (dt_year dt)"
  using to_dt_valid by (fastforce simp: valid_date_time_def day_ok_def)

text \<open>Time points and dates have the same order.\<close>

lemma to_dt_mono_iff:
  assumes t: "is_i64 (tp_nanos t)" "- 9223286400000000000 \<le> tp_nanos t" "cal_to_date_time C t = Inr a"
    and u: "is_i64 (tp_nanos u)" "- 9223286400000000000 \<le> tp_nanos u" "cal_to_date_time C u = Inr b"
  shows "t < u \<longleftrightarrow> date_time_less a b"
proof -
  note ta = roundtrip [OF t] and ub = roundtrip [OF u]
  note ya = year_i32 [OF t] and yb = year_i32 [OF u]
  show ?thesis
  proof
    assume "t < u"
    then have "a \<noteq> b" using ta ub by auto
    moreover have "\<not> date_time_less b a"
      using mono [OF yb ya _ ub ta] \<open>t < u\<close> by auto
    ultimately show "date_time_less a b" using date_time_less_linear by blast
  next
    assume "date_time_less a b"
    then show "t < u" using mono [OF ya yb _ ta ub] by simp
  qed
qed

text \<open>
  Moving a valid date to another year with the day clamped to the length of its month
  gives a valid date again; the conversion can then fail by overflow only.
\<close>

lemma clamped_date_valid:
  assumes dt: "valid_date_time C' dt" and y: "is_i32 y"
    and k: "cal_days_in_month C y (dt_month dt) = Inr max_day"
  shows "valid_date_time C (dt\<lparr>dt_year := y, dt_day := if dt_day dt > max_day then max_day else dt_day dt\<rparr>)"
proof -
  from dt have m: "1 \<le> dt_month dt" "dt_month dt \<le> 12" "1 \<le> dt_day dt"
    by (auto simp: valid_date_time_def day_ok_def)
  with dim [of "dt_month dt" y] k have "28 \<le> max_day" by auto
  with dt y k m show ?thesis
    by (auto simp: valid_date_time_def day_ok_def time_of_day_ok_def)
qed

lemma clamped_month_valid:
  assumes dt: "valid_date_time C dt" and y: "is_i32 y" and m: "1 \<le> m" "m \<le> 12"
    and k: "cal_days_in_month C y m = Inr k"
  shows "valid_date_time C
    (mk_date_time y m (min (dt_day dt) k) (dt_hour dt) (dt_minute dt) (dt_second dt) (dt_nanosecond dt))"
  using assms dim [OF m, of y] by (auto simp: valid_date_time_def day_ok_def time_of_day_ok_def)

end

section \<open>Calendars from day numbers\<close>

text \<open>The nanoseconds of a day determine and are determined by the time-of-day fields.\<close>

definition date_with_nanos :: "int \<times> int \<times> int \<Rightarrow> int \<Rightarrow> Date_Time" where
  "date_with_nanos ymd s = (case ymd of (y, m, d) \<Rightarrow>
     mk_date_time y m d (s div nanos_per_hour) (s mod nanos_per_hour div nanos_per_minute)
       (s mod nanos_per_minute div nanos_per_second) (s mod nanos_per_second))"

lemma date_with_nanos_date [simp]:
  "dt_year (date_with_nanos (y, m, d) s) = y"
  "dt_month (date_with_nanos (y, m, d) s) = m"
  "dt_day (date_with_nanos (y, m, d) s) = d"
  by (simp_all add: date_with_nanos_def)

lemma date_with_nanos_tod:
  assumes "0 \<le> s" "s < nanos_per_day"
  shows "time_of_day_ok (date_with_nanos (y, m, d) s)" "nanos_of_day (date_with_nanos (y, m, d) s) = s"
proof -
  have mm: "s mod nanos_per_hour mod nanos_per_minute = s mod nanos_per_minute"
    "s mod nanos_per_minute mod nanos_per_second = s mod nanos_per_second"
    by (simp_all add: mod_mod_cancel)
  have eqs: "s = nanos_per_hour * (s div nanos_per_hour) + s mod nanos_per_hour"
    "s mod nanos_per_hour = nanos_per_minute * (s mod nanos_per_hour div nanos_per_minute) + s mod nanos_per_minute"
    "s mod nanos_per_minute = nanos_per_second * (s mod nanos_per_minute div nanos_per_second) + s mod nanos_per_second"
    by (simp, metis mm(1) mult_div_mod_eq, metis mm(2) mult_div_mod_eq)
  have bounds: "0 \<le> s mod nanos_per_hour" "s mod nanos_per_hour < nanos_per_hour"
    "0 \<le> s mod nanos_per_minute" "s mod nanos_per_minute < nanos_per_minute"
    "0 \<le> s mod nanos_per_second" "s mod nanos_per_second < nanos_per_second"
    by simp_all
  obtain h mi sec r1 r2 ns where v: "s div nanos_per_hour = h" "s mod nanos_per_hour = r1"
      "r1 div nanos_per_minute = mi" "s mod nanos_per_minute = r2" "r2 div nanos_per_second = sec"
      "s mod nanos_per_second = ns"
    by blast
  note lin = eqs [unfolded v] bounds [unfolded v]
  have "0 \<le> h" "h \<le> 23" "0 \<le> mi" "mi \<le> 59" "0 \<le> sec" "sec \<le> 59" "0 \<le> ns" "ns \<le> 999999999"
    using lin assms by linarith+
  then show "time_of_day_ok (date_with_nanos (y, m, d) s)"
    by (simp add: time_of_day_ok_def date_with_nanos_def v)
  have "nanos_of_day (date_with_nanos (y, m, d) s) =
      h * nanos_per_hour + mi * nanos_per_minute + sec * nanos_per_second + ns"
    by (simp add: nanos_of_day_def date_with_nanos_def v)
  with lin show "nanos_of_day (date_with_nanos (y, m, d) s) = s" by linarith
qed

lemma date_with_nanos_unique:
  assumes "time_of_day_ok dt"
  shows "date_with_nanos (dt_year dt, dt_month dt, dt_day dt) (nanos_of_day dt) = dt"
proof -
  let ?s = "nanos_of_day dt"
  have t: "0 \<le> dt_hour dt" "0 \<le> dt_minute dt" "dt_minute dt \<le> 59" "0 \<le> dt_second dt" "dt_second dt \<le> 59"
    "0 \<le> dt_nanosecond dt" "dt_nanosecond dt \<le> 999999999"
    using assms by (auto simp: time_of_day_ok_def)
  let ?r1 = "dt_minute dt * nanos_per_minute + dt_second dt * nanos_per_second + dt_nanosecond dt"
  let ?r2 = "dt_second dt * nanos_per_second + dt_nanosecond dt"
  have h: "?s div nanos_per_hour = dt_hour dt" "?s mod nanos_per_hour = ?r1"
    using t int_div_pos_eq [of ?s nanos_per_hour "dt_hour dt" ?r1]
      int_mod_pos_eq [of ?s nanos_per_hour "dt_hour dt" ?r1] by (simp_all add: nanos_of_day_def)
  have e1: "?s mod nanos_per_minute = ?r2"
    using t int_mod_pos_eq [of ?s nanos_per_minute "dt_hour dt * 60 + dt_minute dt" ?r2]
    by (simp add: nanos_of_day_def)
  have e2: "?r1 div nanos_per_minute = dt_minute dt"
    using t int_div_pos_eq [of ?r1 nanos_per_minute "dt_minute dt" ?r2] by simp
  have e3: "?r2 div nanos_per_second = dt_second dt"
    using t int_div_pos_eq [of ?r2 nanos_per_second "dt_second dt" "dt_nanosecond dt"] by simp
  have e4: "?s mod nanos_per_second = dt_nanosecond dt"
    using t int_mod_pos_eq [of ?s nanos_per_second
        "dt_hour dt * 3600 + dt_minute dt * 60 + dt_second dt" "dt_nanosecond dt"]
    by (simp add: nanos_of_day_def)
  show ?thesis
    unfolding date_with_nanos_def prod.case h e1 e2 e3 e4 by (simp add: mk_date_time_def)
qed

lemma nanos_of_day_mono:
  assumes a: "time_of_day_ok a" and b: "time_of_day_ok b" and "date_time_less a b"
    and "dt_year a = dt_year b" "dt_month a = dt_month b" "dt_day a = dt_day b"
  shows "nanos_of_day a < nanos_of_day b"
proof -
  have t: "dt_minute a \<le> 59" "dt_second a \<le> 59" "dt_nanosecond a \<le> 999999999"
    "0 \<le> dt_minute b" "0 \<le> dt_second b" "0 \<le> dt_nanosecond b"
    using a b by (simp_all add: time_of_day_ok_def)
  consider "dt_hour a < dt_hour b"
    | "dt_hour a = dt_hour b" "dt_minute a < dt_minute b"
    | "dt_hour a = dt_hour b" "dt_minute a = dt_minute b" "dt_second a < dt_second b"
    | "dt_hour a = dt_hour b" "dt_minute a = dt_minute b" "dt_second a = dt_second b"
      "dt_nanosecond a < dt_nanosecond b"
    using assms(3-6) by (auto simp: date_time_less_def)
  then show ?thesis
    by cases (use t in \<open>simp_all add: nanos_of_day_def\<close>)
qed

text \<open>
  The decomposition of the nanoseconds of a day in the sources: truncating operations and
  narrowing casts, none of which truncates or narrows.
\<close>

lemma wrap32_sdiv:
  "0 \<le> a \<Longrightarrow> 0 < b \<Longrightarrow> a div b \<le> 2147483647 \<Longrightarrow> wrap32 (a sdiv b) = a div b"
  using pos_imp_zdiv_nonneg_iff [of b a] by (simp add: sdiv_nonneg is_i32_def)

lemma subday_casts:
  assumes "0 \<le> s" "s < nanos_per_day"
  shows "wrap32 (s sdiv nanos_per_hour) = s div nanos_per_hour"
    and "s smod nanos_per_hour = s mod nanos_per_hour"
    and "wrap32 ((s mod nanos_per_hour) sdiv nanos_per_minute) = s mod nanos_per_hour div nanos_per_minute"
    and "(s mod nanos_per_hour) smod nanos_per_minute = s mod nanos_per_minute"
    and "wrap32 ((s mod nanos_per_minute) sdiv nanos_per_second) = s mod nanos_per_minute div nanos_per_second"
    and "wrap32 ((s mod nanos_per_minute) smod nanos_per_second) = s mod nanos_per_second"
proof -
  have "time_of_day_ok (date_with_nanos (0, 0, 0) s)"
    by (rule date_with_nanos_tod [OF assms])
  then have r: "s div nanos_per_hour \<le> 23" "s mod nanos_per_hour div nanos_per_minute \<le> 59"
    "s mod nanos_per_minute div nanos_per_second \<le> 59" "0 \<le> s mod nanos_per_second"
    "s mod nanos_per_second \<le> 999999999"
    unfolding time_of_day_ok_def date_with_nanos_def prod.case mk_date_time_sel by blast+
  have n: "0 \<le> s mod nanos_per_hour" "0 \<le> s mod nanos_per_minute" by (rule pos_mod_sign; simp)+
  show "s smod nanos_per_hour = s mod nanos_per_hour"
    by (rule smod_nonneg) (use assms in auto)
  show "(s mod nanos_per_hour) smod nanos_per_minute = s mod nanos_per_minute"
    using smod_nonneg [OF n(1), of nanos_per_minute] mod_mod_cancel [of nanos_per_minute nanos_per_hour s] by simp
  have "(s mod nanos_per_minute) smod nanos_per_second = s mod nanos_per_second"
    using smod_nonneg [OF n(2), of nanos_per_second] mod_mod_cancel [of nanos_per_second nanos_per_minute s] by simp
  moreover have "is_i32 (s mod nanos_per_second)" using r(4,5) unfolding is_i32_def by linarith
  ultimately show "wrap32 ((s mod nanos_per_minute) smod nanos_per_second) = s mod nanos_per_second"
    by (simp only: wrap32_id)
  show "wrap32 (s sdiv nanos_per_hour) = s div nanos_per_hour"
    by (rule wrap32_sdiv [OF assms(1) _ order_trans [OF r(1)]]) simp_all
  show "wrap32 ((s mod nanos_per_hour) sdiv nanos_per_minute) = s mod nanos_per_hour div nanos_per_minute"
    by (rule wrap32_sdiv [OF n(1) _ order_trans [OF r(2)]]) simp_all
  show "wrap32 ((s mod nanos_per_minute) sdiv nanos_per_second) = s mod nanos_per_minute div nanos_per_second"
    by (rule wrap32_sdiv [OF n(2) _ order_trans [OF r(3)]]) simp_all
qed

text \<open>
  The sums of the sources: the day start and the four time-of-day terms, each addition an
  \<open>int64_t\<close> operation. It is defined exactly when the day start and the total fit.
\<close>

definition instant :: "int \<Rightarrow> Date_Time \<Rightarrow> Time_Point result" where
  "instant D dt =
     (if is_i64 (D * nanos_per_day) \<and> is_i64 (D * nanos_per_day + nanos_of_day dt)
      then Inr (Time_Point (D * nanos_per_day + nanos_of_day dt)) else Inl Undefined_behaviour)"

lemma instant_chain:
  assumes "time_of_day_ok dt"
  shows "bindR (ub64 (D * nanos_per_day)) (\<lambda>n0.
         bindR (ub64 (n0 + dt_hour dt * nanos_per_hour)) (\<lambda>n1.
         bindR (ub64 (n1 + dt_minute dt * nanos_per_minute)) (\<lambda>n2.
         bindR (ub64 (n2 + dt_second dt * nanos_per_second)) (\<lambda>n3.
         bindR (ub64 (n3 + dt_nanosecond dt)) (\<lambda>n4.
           Inr (Time_Point n4)))))) = instant D dt"
proof -
  have "0 \<le> dt_hour dt * nanos_per_hour" "0 \<le> dt_minute dt * nanos_per_minute"
    "0 \<le> dt_second dt * nanos_per_second" "0 \<le> dt_nanosecond dt"
    using assms by (simp_all add: time_of_day_ok_def)
  then show ?thesis
    by (auto simp: instant_def ub64_def is_i64_def nanos_of_day_def)
qed

lemma day_start_i64:
  assumes "is_i64 n" "- 9223286400000000000 \<le> n"
  shows "is_i64 (n div nanos_per_day * nanos_per_day)"
proof -
  have "- 106751 \<le> n div nanos_per_day"
    using zdiv_mono1 [OF assms(2), of nanos_per_day] by simp
  moreover have "nanos_per_day * (n div nanos_per_day) + n mod nanos_per_day = n" "0 \<le> n mod nanos_per_day"
    by simp_all
  ultimately show ?thesis
    using assms(1) unfolding is_i64_def by (simp add: mult.commute; linarith)
qed

lemma instant_eq_Inr:
  "instant D dt = Inr t \<longleftrightarrow>
     is_i64 (D * nanos_per_day) \<and> is_i64 (tp_nanos t) \<and> tp_nanos t = D * nanos_per_day + nanos_of_day dt"
  by (cases t) (auto simp: instant_def)

definition civil_less :: "int \<times> int \<times> int \<Rightarrow> int \<times> int \<times> int \<Rightarrow> bool" where
  "civil_less a b = (case a of (y, m, d) \<Rightarrow> case b of (y', m', d') \<Rightarrow>
     y < y' \<or> y = y' \<and> (m < m' \<or> m = m' \<and> d < d'))"

definition civil_ok :: "(int \<Rightarrow> int \<Rightarrow> int result) \<Rightarrow> int \<times> int \<times> int \<Rightarrow> bool" where
  "civil_ok dim ymd = (case ymd of (y, m, d) \<Rightarrow> 1 \<le> m \<and> m \<le> 12 \<and> 1 \<le> d \<and>
     (case dim y m of Inl _ \<Rightarrow> False | Inr k \<Rightarrow> d \<le> k))"

lemma civil_less_linear: "civil_less a b \<or> a = b \<or> civil_less b a"
  by (cases a; cases b) (auto simp: civil_less_def)

locale day_numbering =
  fixes C :: calendar and dn :: "int \<Rightarrow> int \<Rightarrow> int \<Rightarrow> int" and civ :: "int \<Rightarrow> int \<times> int \<times> int"
  assumes month_length: "1 \<le> m \<Longrightarrow> m \<le> 12 \<Longrightarrow> \<exists>d. cal_days_in_month C y m = Inr d \<and> 28 \<le> d \<and> d \<le> 31"
    and to_tp_invalid: "is_i32 (dt_year dt) \<Longrightarrow> \<not> valid_date_time C dt \<Longrightarrow>
        \<exists>msg. cal_to_time_point C dt = Inl (Invalid_argument msg)"
    and to_tp_instant: "valid_date_time C dt \<Longrightarrow>
        cal_to_time_point C dt = instant (dn (dt_year dt) (dt_month dt) (dt_day dt)) dt"
    and to_dt_split: "is_i64 n \<Longrightarrow> - 9223286400000000000 \<le> n \<Longrightarrow>
        cal_to_date_time C (Time_Point n) = Inr (date_with_nanos (civ (n div nanos_per_day)) (n mod nanos_per_day))"
    and civ_correct: "- 106751 \<le> D \<Longrightarrow> D \<le> 106751 \<Longrightarrow> civ D = (y, m, d) \<Longrightarrow>
        civil_ok (cal_days_in_month C) (y, m, d) \<and> is_i32 y \<and> dn y m d = D"
    and dn_mono: "civil_ok (cal_days_in_month C) (y, m, d) \<Longrightarrow> civil_ok (cal_days_in_month C) (y', m', d') \<Longrightarrow>
        civil_less (y, m, d) (y', m', d') \<Longrightarrow> dn y m d < dn y' m' d'"
begin

lemma dn_inj:
  assumes "civil_ok (cal_days_in_month C) (y, m, d)" "civil_ok (cal_days_in_month C) (y', m', d')"
    and "dn y m d = dn y' m' d'"
  shows "(y, m, d) = (y', m', d')"
  using civil_less_linear [of "(y, m, d)" "(y', m', d')"] dn_mono [OF assms(1,2)] dn_mono [OF assms(2,1)] assms(3)
  by auto

lemma day_ok_civil_ok:
  "day_ok C dt \<longleftrightarrow> is_i32 (dt_year dt) \<and> civil_ok (cal_days_in_month C) (dt_year dt, dt_month dt, dt_day dt)"
  by (auto simp: day_ok_def civil_ok_def)

lemma day_range:
  assumes "is_i64 n" "- 9223286400000000000 \<le> n"
  shows "- 106751 \<le> n div nanos_per_day" "n div nanos_per_day \<le> 106751"
proof -
  have n: "n = nanos_per_day * (n div nanos_per_day) + n mod nanos_per_day"
    and "0 \<le> n mod nanos_per_day" "n mod nanos_per_day < nanos_per_day"
    by simp_all
  with assms show "- 106751 \<le> n div nanos_per_day" "n div nanos_per_day \<le> 106751"
    unfolding is_i64_def by linarith+
qed

lemma to_dt_parts:
  assumes "is_i64 n" "- 9223286400000000000 \<le> n" "cal_to_date_time C (Time_Point n) = Inr dt"
  shows "valid_date_time C dt" "dn (dt_year dt) (dt_month dt) (dt_day dt) = n div nanos_per_day"
    "nanos_of_day dt = n mod nanos_per_day"
proof -
  obtain y m d where ymd: "civ (n div nanos_per_day) = (y, m, d)" by (cases "civ (n div nanos_per_day)")
  note c = civ_correct [OF day_range [OF assms(1,2)] ymd]
  have s: "0 \<le> n mod nanos_per_day" "n mod nanos_per_day < nanos_per_day" by simp_all
  have dt: "dt = date_with_nanos (y, m, d) (n mod nanos_per_day)"
    using to_dt_split [OF assms(1,2)] assms(3) ymd by simp
  with c s show "valid_date_time C dt"
    by (simp add: valid_date_time_def day_ok_civil_ok date_with_nanos_tod)
  from c dt show "dn (dt_year dt) (dt_month dt) (dt_day dt) = n div nanos_per_day" by simp
  from dt s show "nanos_of_day dt = n mod nanos_per_day" by (simp add: date_with_nanos_tod)
qed

lemma to_tp_parts:
  assumes "is_i32 (dt_year dt)" "cal_to_time_point C dt = Inr t"
  shows "valid_date_time C dt" "is_i64 (tp_nanos t)" "- 9223286400000000000 \<le> tp_nanos t"
    "tp_nanos t div nanos_per_day = dn (dt_year dt) (dt_month dt) (dt_day dt)"
    "tp_nanos t mod nanos_per_day = nanos_of_day dt"
proof -
  let ?D = "dn (dt_year dt) (dt_month dt) (dt_day dt)"
  show v: "valid_date_time C dt"
    using to_tp_invalid [OF assms(1)] assms(2) by fastforce
  then have i: "is_i64 (?D * nanos_per_day)" "is_i64 (tp_nanos t)"
    and n: "tp_nanos t = ?D * nanos_per_day + nanos_of_day dt"
    using assms(2) to_tp_instant [OF v] instant_eq_Inr [of ?D dt t] by auto
  have s: "0 \<le> nanos_of_day dt" "nanos_of_day dt < nanos_per_day"
    using v nanos_of_day_bounds by (auto simp: valid_date_time_def)
  show "is_i64 (tp_nanos t)" by (rule i)
  have "\<not> ?D \<le> - 106752"
    using i(1) unfolding is_i64_def by linarith
  then show "- 9223286400000000000 \<le> tp_nanos t"
    using n s by linarith
  show "tp_nanos t div nanos_per_day = ?D"
    using n s by (intro int_div_pos_eq [where r = "nanos_of_day dt"]) auto
  show "tp_nanos t mod nanos_per_day = nanos_of_day dt"
    using n s by (intro int_mod_pos_eq [where q = ?D]) auto
qed

lemma to_tp_in_range:
  assumes v: "valid_date_time C dt" and D: "\<bar>dn (dt_year dt) (dt_month dt) (dt_day dt)\<bar> \<le> B" and B: "B \<le> 106749"
  shows "\<exists>u. cal_to_time_point C dt = Inr u \<and> \<bar>tp_nanos u\<bar> \<le> (B + 1) * nanos_per_day"
proof -
  let ?D = "dn (dt_year dt) (dt_month dt) (dt_day dt)"
  have s: "0 \<le> nanos_of_day dt" "nanos_of_day dt < nanos_per_day"
    using v nanos_of_day_bounds by (auto simp: valid_date_time_def)
  then have i: "is_i64 (?D * nanos_per_day)" "is_i64 (?D * nanos_per_day + nanos_of_day dt)"
    using D B by (auto simp: is_i64_def)
  have "\<bar>?D * nanos_per_day + nanos_of_day dt\<bar> \<le> (B + 1) * nanos_per_day"
    using s D by (auto simp: abs_if)
  with i show ?thesis by (simp add: to_tp_instant [OF v] instant_def)
qed

lemma midnight_nanos:
  assumes "is_i32 y" "cal_to_time_point C (mk_date_time y m d 0 0 0 0) = Inr u"
  shows "tp_nanos u = dn y m d * nanos_per_day"
  using to_tp_parts(4,5) [of "mk_date_time y m d 0 0 0 0" u] assms mult_div_mod_eq [of nanos_per_day "tp_nanos u"]
  by (simp add: nanos_of_day_def)

end

sublocale day_numbering \<subseteq> calendar_laws C
proof
  fix m y :: int
  assume "1 \<le> m" "m \<le> 12"
  then show "\<exists>d. cal_days_in_month C y m = Inr d \<and> 28 \<le> d \<and> d \<le> 31" by (rule month_length)
next
  fix n :: int
  assume "is_i64 n" "- 9223286400000000000 \<le> n"
  then show "is_ok (cal_to_date_time C (Time_Point n))" by (simp add: to_dt_split)
next
  fix t dt
  assume t: "is_i64 (tp_nanos t)" "- 9223286400000000000 \<le> tp_nanos t" "cal_to_date_time C t = Inr dt"
  then have parts: "valid_date_time C dt" "dn (dt_year dt) (dt_month dt) (dt_day dt) = tp_nanos t div nanos_per_day"
      "nanos_of_day dt = tp_nanos t mod nanos_per_day"
    using to_dt_parts [of "tp_nanos t" dt] by simp_all
  then show "valid_date_time C dt" by simp
  have "is_i64 (tp_nanos t div nanos_per_day * nanos_per_day)"
    using day_range [OF t(1,2)] by (simp add: is_i64_def)
  with parts t show "cal_to_time_point C dt = Inr t"
    by (simp add: to_tp_instant instant_eq_Inr)
next
  fix dt t
  assume dt: "is_i32 (dt_year dt)" "cal_to_time_point C dt = Inr t"
  note p = to_tp_parts [OF dt]
  obtain y m d where ymd: "civ (tp_nanos t div nanos_per_day) = (y, m, d)"
    by (cases "civ (tp_nanos t div nanos_per_day)")
  have "civil_ok (cal_days_in_month C) (dt_year dt, dt_month dt, dt_day dt)"
    using p(1) by (simp add: valid_date_time_def day_ok_civil_ok)
  then have "(y, m, d) = (dt_year dt, dt_month dt, dt_day dt)"
    using civ_correct [OF day_range [OF p(2,3)] ymd] p(4) by (intro dn_inj) auto
  then have "cal_to_date_time C (Time_Point (tp_nanos t)) = Inr dt"
    using to_dt_split [OF p(2,3)] ymd p(1,5) date_with_nanos_unique [of dt]
    by (simp add: valid_date_time_def)
  with p show "is_i64 (tp_nanos t) \<and> - 9223286400000000000 \<le> tp_nanos t \<and> cal_to_date_time C t = Inr dt"
    by simp
next
  fix dt
  assume "is_i32 (dt_year dt)" "\<not> valid_date_time C dt"
  then show "\<exists>msg. cal_to_time_point C dt = Inl (Invalid_argument msg)" by (rule to_tp_invalid)
next
  fix a b t u
  assume y: "is_i32 (dt_year a)" "is_i32 (dt_year b)" and less: "date_time_less a b"
    and t: "cal_to_time_point C a = Inr t" and u: "cal_to_time_point C b = Inr u"
  note pa = to_tp_parts [OF y(1) t] and pb = to_tp_parts [OF y(2) u]
  have ok: "civil_ok (cal_days_in_month C) (dt_year a, dt_month a, dt_day a)"
      "civil_ok (cal_days_in_month C) (dt_year b, dt_month b, dt_day b)" "time_of_day_ok a" "time_of_day_ok b"
    using pa(1) pb(1) by (simp_all add: valid_date_time_def day_ok_civil_ok)
  show "t < u"
  proof (cases "civil_less (dt_year a, dt_month a, dt_day a) (dt_year b, dt_month b, dt_day b)")
    case True
    then have "tp_nanos t div nanos_per_day < tp_nanos u div nanos_per_day"
      using dn_mono [OF ok(1,2)] pa(4) pb(4) by simp
    then show ?thesis
      by (metis time_point_order(2) linorder_not_le zdiv_mono1 zero_less_numeral)
  next
    case False
    then have eq: "dt_year a = dt_year b" "dt_month a = dt_month b" "dt_day a = dt_day b"
      using less by (auto simp: civil_less_def date_time_less_def)
    then have "nanos_of_day a < nanos_of_day b"
      using nanos_of_day_mono [OF ok(3,4) less] by simp
    moreover have "tp_nanos t div nanos_per_day = tp_nanos u div nanos_per_day"
      using eq pa(4) pb(4) by simp
    ultimately show ?thesis
      using pa(5) pb(5) mult_div_mod_eq [of nanos_per_day "tp_nanos t"]
        mult_div_mod_eq [of nanos_per_day "tp_nanos u"]
      unfolding time_point_order(2) by linarith
  qed
qed

text \<open>
  The whole years from 1737 to 2315 can be converted, with two years left to the end of the
  range, and \<open>days_in_year\<close> is the distance between two new years.
\<close>

locale calendar_range = calendar_laws +
  assumes in_range: "valid_date_time C dt \<Longrightarrow> 1737 \<le> dt_year dt \<Longrightarrow> dt_year dt \<le> 2315 \<Longrightarrow>
      \<exists>u. cal_to_time_point C dt = Inr u \<and> \<bar>tp_nanos u\<bar> \<le> 9158400000000000000"
    and year_length: "1737 \<le> y \<Longrightarrow> y \<le> 2314 \<Longrightarrow> cal_to_time_point C (mk_date_time y 1 1 0 0 0 0) = Inr u \<Longrightarrow>
      cal_to_time_point C (mk_date_time (y + 1) 1 1 0 0 0 0) = Inr v \<Longrightarrow>
      tp_nanos v = tp_nanos u + cal_days_in_year C y * nanos_per_day"
    and year_days: "cal_days_in_year C y \<le> 366"
begin

lemma new_year:
  assumes "1737 \<le> y" "y \<le> 2315"
  obtains u where "cal_to_time_point C (mk_date_time y 1 1 0 0 0 0) = Inr u"
    "\<bar>tp_nanos u\<bar> \<le> 9158400000000000000" "valid_date_time C (mk_date_time y 1 1 0 0 0 0)"
proof -
  have v: "valid_date_time C (mk_date_time y 1 1 0 0 0 0)"
    using assms dim [of 1 y] by (auto simp: valid_date_time_def day_ok_def time_of_day_ok_def is_i32_def)
  then show ?thesis using in_range [OF v] assms that by auto
qed

end

section \<open>Counting days\<close>

text \<open>
  The reference a calendar is compared with: the date of the next day, read off the month
  lengths. A calendar whose day number goes up by one with each such step is the calendar
  one obtains by counting days.
\<close>

definition next_civil :: "(int \<Rightarrow> int \<Rightarrow> int result) \<Rightarrow> int \<times> int \<times> int \<Rightarrow> int \<times> int \<times> int" where
  "next_civil dim ymd = (case ymd of (y, m, d) \<Rightarrow>
     if dim y m \<noteq> Inr d then (y, m, d + 1) else if m < 12 then (y, m + 1, 1) else (y + 1, 1, 1))"

definition next_day :: "(int \<Rightarrow> int \<Rightarrow> int result) \<Rightarrow> Date_Time \<Rightarrow> Date_Time" where
  "next_day dim dt = (case next_civil dim (dt_year dt, dt_month dt, dt_day dt) of (y, m, d) \<Rightarrow>
     dt\<lparr>dt_year := y, dt_month := m, dt_day := d\<rparr>)"

lemma next_day_with_nanos: "next_day dim (date_with_nanos ymd s) = date_with_nanos (next_civil dim ymd) s"
  by (cases ymd) (simp add: next_day_def date_with_nanos_def mk_date_time_def split: prod.splits)

locale day_counting = day_numbering +
  assumes dn_next: "civil_ok (cal_days_in_month C) (y, m, d) \<Longrightarrow>
      next_civil (cal_days_in_month C) (y, m, d) = (y', m', d') \<Longrightarrow> dn y' m' d' = dn y m d + 1"
begin

lemma next_civil_ok:
  assumes "civil_ok (cal_days_in_month C) (y, m, d)"
  shows "civil_ok (cal_days_in_month C) (next_civil (cal_days_in_month C) (y, m, d))"
proof -
  from assms obtain k where k: "1 \<le> m" "m \<le> 12" "1 \<le> d" "cal_days_in_month C y m = Inr k" "d \<le> k"
    by (auto simp: civil_ok_def split: sum.splits)
  have "m < 12 \<Longrightarrow> \<exists>k'. cal_days_in_month C y (m + 1) = Inr k' \<and> 1 \<le> k'"
    "\<exists>k'. cal_days_in_month C (y + 1) 1 = Inr k' \<and> 1 \<le> k'"
    using month_length [of "m + 1" y] month_length [of 1 "y + 1"] k(1) by fastforce+
  with k show ?thesis by (auto simp: next_civil_def civil_ok_def)
qed

lemma civ_next:
  assumes "- 106751 \<le> D" "D + 1 \<le> 106751"
  shows "civ (D + 1) = next_civil (cal_days_in_month C) (civ D)"
proof -
  obtain y m d where ymd: "civ D = (y, m, d)" by (cases "civ D")
  obtain y1 m1 d1 where ymd1: "civ (D + 1) = (y1, m1, d1)" by (cases "civ (D + 1)")
  obtain y2 m2 d2 where next1: "next_civil (cal_days_in_month C) (y, m, d) = (y2, m2, d2)"
    by (cases "next_civil (cal_days_in_month C) (y, m, d)")
  have c: "civil_ok (cal_days_in_month C) (y, m, d)" "dn y m d = D"
    using civ_correct [OF _ _ ymd] assms by auto
  have c1: "civil_ok (cal_days_in_month C) (y1, m1, d1)" "dn y1 m1 d1 = D + 1"
    using civ_correct [OF _ _ ymd1] assms by auto
  have "(y1, m1, d1) = (y2, m2, d2)"
    using dn_inj [OF c1(1)] next_civil_ok [OF c(1)] dn_next [OF c(1) next1] c(2) c1(2) next1 by auto
  with ymd ymd1 next1 show ?thesis by simp
qed

lemma to_dt_next:
  assumes n: "- 9223286400000000000 \<le> n" "is_i64 (n + nanos_per_day)"
    and dt: "cal_to_date_time C (Time_Point n) = Inr dt"
  shows "cal_to_date_time C (Time_Point (n + nanos_per_day)) = Inr (next_day (cal_days_in_month C) dt)"
proof -
  have i: "is_i64 n" and n': "- 9223286400000000000 \<le> n + nanos_per_day"
    using n by (auto simp: is_i64_def)
  have dm: "(n + nanos_per_day) div nanos_per_day = n div nanos_per_day + 1"
      "(n + nanos_per_day) mod nanos_per_day = n mod nanos_per_day"
    by simp_all
  have "civ (n div nanos_per_day + 1) = next_civil (cal_days_in_month C) (civ (n div nanos_per_day))"
    using day_range [OF i n(1)] day_range [OF n(2) n'] dm by (intro civ_next) simp_all
  then show ?thesis
    using dt to_dt_split [OF i n(1)] to_dt_split [OF n(2) n', unfolded dm] by (auto simp: next_day_with_nanos)
qed

end

end
