(* ===== verification/Tick_Gregorian.thy ===== *)
theory Tick_Gregorian
  imports Tick_Calendar
begin

unbundle bit_operations_syntax

text \<open>
  TICK's Gregorian calendar: \<^verbatim>\<open>tick/gregorian_calendar.hpp\<close>.

  The operations follow the source, with its day-number algorithms over a March-based year.
  The proofs go through a closed form of the day number, from which monotonicity, hence
  injectivity, follows; the inverse algorithm is checked on the 400 years of an era and
  extended to all days by monotonicity of its year formula. The calendar interface is
  interpreted at the end.
\<close>

section \<open>Operations\<close>

definition is_leap_year :: "int \<Rightarrow> bool" where
  "is_leap_year y \<longleftrightarrow> (y smod 4 = 0 \<and> y smod 100 \<noteq> 0) \<or> y smod 400 = 0"

definition common_month_table :: "int list" where
  "common_month_table = [31, 28, 31, 30, 31, 30, 31, 31, 30, 31, 30, 31]"

definition greg_days_in_month :: "int \<Rightarrow> int \<Rightarrow> int result" where
  "greg_days_in_month y m =
     (if m < 1 \<or> m > 12 then Inl (Invalid_argument ''Invalid month: '')
      else if m = 2 \<and> is_leap_year y then Inr 29
      else Inr (common_month_table ! nat (m - 1)))"

definition greg_days_in_year :: "int \<Rightarrow> int" where
  "greg_days_in_year y = (if is_leap_year y then 366 else 365)"

definition greg_validate :: "Date_Time \<Rightarrow> unit result" where
  "greg_validate dt =
     (if dt_month dt < 1 \<or> dt_month dt > 12 then Inl (Invalid_argument ''Invalid month: '')
      else bindR (greg_days_in_month (dt_year dt) (dt_month dt)) (\<lambda>max_day.
        if dt_day dt < 1 \<or> dt_day dt > max_day then Inl (Invalid_argument ''Invalid day: '')
        else if dt_hour dt < 0 \<or> dt_hour dt > 23 then Inl (Invalid_argument ''Invalid hour: '')
        else if dt_minute dt < 0 \<or> dt_minute dt > 59 then Inl (Invalid_argument ''Invalid minute: '')
        else if dt_second dt < 0 \<or> dt_second dt > 59 then Inl (Invalid_argument ''Invalid second: '')
        else if dt_nanosecond dt < 0 \<or> dt_nanosecond dt > 999999999
          then Inl (Invalid_argument ''Invalid nanosecond: '')
        else Inr ()))"

definition civil_to_days :: "int \<Rightarrow> int \<Rightarrow> int \<Rightarrow> int" where
  "civil_to_days y m d =
     (let yr = y - (if m \<le> 2 then 1 else 0);
          era = (if yr \<ge> 0 then yr else yr - 399) sdiv 400;
          yoe = yr - era * 400;
          mp = m + (if m > 2 then - 3 else 9);
          doy = (153 * mp + 2) sdiv 5 + d - 1;
          doe = yoe * 365 + yoe sdiv 4 - yoe sdiv 100 + doy;
          days = era * 146097 + doe
      in days - 719468)"

definition days_to_civil :: "int \<Rightarrow> int \<times> int \<times> int" where
  "days_to_civil z0 =
     (let z = z0 + 719468;
          era = (if z \<ge> 0 then z else z - 146096) sdiv 146097;
          doe = z - era * 146097;
          yoe = (doe - doe sdiv 1460 + doe sdiv 36524 - doe sdiv 146096) sdiv 365;
          y = yoe + era * 400;
          doy = doe - (365 * yoe + yoe sdiv 4 - yoe sdiv 100);
          mp = (5 * doy + 2) sdiv 153;
          d = doy - (153 * mp + 2) sdiv 5 + 1;
          m = mp + (if mp < 10 then 3 else - 9);
          yr = y + (if m \<le> 2 then 1 else 0)
      in (wrap32 yr, wrap32 m, wrap32 d))"

definition epoch_day_offset :: int where
  "epoch_day_offset = civil_to_days 2026 1 1"

definition greg_floor_div :: "int \<Rightarrow> int \<Rightarrow> int" where
  "greg_floor_div a b = a sdiv b - (if a smod b \<noteq> 0 \<and> (a XOR b) < 0 then 1 else 0)"

definition greg_day_of_week :: "Date_Time \<Rightarrow> int result" where
  "greg_day_of_week dt =
     bindR (greg_validate dt) (\<lambda>_.
       let z = civil_to_days (dt_year dt) (dt_month dt) (dt_day dt);
           w = (z + 3) smod 7;
           w' = (if w < 0 then w + 7 else w)
       in Inr (wrap32 (w' + 1)))"

definition days_before_month_common :: "int list" where
  "days_before_month_common = [0, 31, 59, 90, 120, 151, 181, 212, 243, 273, 304, 334]"

definition days_before_month_leap :: "int list" where
  "days_before_month_leap = [0, 31, 60, 91, 121, 152, 182, 213, 244, 274, 305, 335]"

definition greg_day_of_year :: "Date_Time \<Rightarrow> int result" where
  "greg_day_of_year dt =
     bindR (greg_validate dt) (\<lambda>_.
       let offset = (if is_leap_year (dt_year dt)
                     then days_before_month_leap ! nat (dt_month dt - 1)
                     else days_before_month_common ! nat (dt_month dt - 1))
       in Inr (offset + dt_day dt))"

definition greg_to_time_point :: "Date_Time \<Rightarrow> Time_Point result" where
  "greg_to_time_point dt =
     bindR (greg_validate dt) (\<lambda>_.
       let days = civil_to_days (dt_year dt) (dt_month dt) (dt_day dt) - epoch_day_offset in
       bindR (ub64 (days * nanos_per_day)) (\<lambda>n0.
       bindR (ub64 (n0 + dt_hour dt * nanos_per_hour)) (\<lambda>n1.
       bindR (ub64 (n1 + dt_minute dt * nanos_per_minute)) (\<lambda>n2.
       bindR (ub64 (n2 + dt_second dt * nanos_per_second)) (\<lambda>n3.
       bindR (ub64 (n3 + dt_nanosecond dt)) (\<lambda>n4.
         Inr (Time_Point n4)))))))"

definition greg_to_date_time :: "Time_Point \<Rightarrow> Date_Time result" where
  "greg_to_date_time tp =
     (let nanos = tp_nanos tp;
          day_offset = greg_floor_div nanos nanos_per_day
      in bindR (ub64 (day_offset * nanos_per_day)) (\<lambda>day_start.
        let sub_day = nanos - day_start;
            (y, mo, d) = days_to_civil (day_offset + epoch_day_offset);
            h = wrap32 (sub_day sdiv nanos_per_hour);
            sub_day1 = sub_day smod nanos_per_hour;
            mi = wrap32 (sub_day1 sdiv nanos_per_minute);
            sub_day2 = sub_day1 smod nanos_per_minute;
            s = wrap32 (sub_day2 sdiv nanos_per_second);
            ns = wrap32 (sub_day2 smod nanos_per_second)
        in Inr (mk_date_time y mo d h mi s ns)))"

definition greg_add_months :: "Time_Point \<Rightarrow> int \<Rightarrow> Time_Point result" where
  "greg_add_months tp months =
     bindR (greg_to_date_time tp) (\<lambda>dt.
     bindR (ub32 ((dt_year dt * 12 + (dt_month dt - 1)) + months)) (\<lambda>total_months.
       let new_year = greg_floor_div total_months 12;
           new_month = total_months - new_year * 12 + 1
       in bindR (greg_days_in_month new_year new_month) (\<lambda>max_day.
         let new_day = (if dt_day dt < max_day then dt_day dt else max_day)
         in greg_to_time_point (mk_date_time new_year new_month new_day (dt_hour dt)
              (dt_minute dt) (dt_second dt) (dt_nanosecond dt)))))"

definition greg_add_years :: "Time_Point \<Rightarrow> int \<Rightarrow> Time_Point result" where
  "greg_add_years tp years = bindR (ub32 (years * 12)) (\<lambda>months. greg_add_months tp months)"

definition Gregorian_Calendar :: calendar where
  "Gregorian_Calendar =
     \<lparr>cal_kind = Gregorian_Kind, cal_to_date_time = greg_to_date_time,
      cal_to_time_point = greg_to_time_point, cal_days_in_month = greg_days_in_month,
      cal_days_in_year = greg_days_in_year\<rparr>"

lemma Gregorian_Calendar_sel [simp]:
  "cal_kind Gregorian_Calendar = Gregorian_Kind"
  "cal_to_date_time Gregorian_Calendar = greg_to_date_time"
  "cal_to_time_point Gregorian_Calendar = greg_to_time_point"
  "cal_days_in_month Gregorian_Calendar = greg_days_in_month"
  "cal_days_in_year Gregorian_Calendar = greg_days_in_year"
  by (simp_all add: Gregorian_Calendar_def)

section \<open>The day number in closed form\<close>

definition march_days :: "int \<Rightarrow> int" where
  "march_days yr = 365 * yr + yr div 4 - yr div 100 + yr div 400"

definition month_start :: "int \<Rightarrow> int" where
  "month_start mp = (153 * mp + 2) div 5"

definition march_year :: "int \<Rightarrow> int \<Rightarrow> int" where
  "march_year y m = y - (if m \<le> 2 then 1 else 0)"

definition march_month :: "int \<Rightarrow> int" where
  "march_month m = m + (if m > 2 then - 3 else 9)"

lemma is_leap_year_alt: "is_leap_year y \<longleftrightarrow> (4 dvd y \<and> \<not> 100 dvd y) \<or> 400 dvd y"
  by (simp add: is_leap_year_def smod_eq_0_iff)

lemma div_Suc_if:
  fixes a k :: int
  assumes "0 < k"
  shows "(a + 1) div k = a div k + (if k dvd a + 1 then 1 else 0)"
proof (cases "k dvd a + 1")
  case True
  then obtain q where q: "a + 1 = k * q" ..
  then have "a div k = q - 1"
    using assms by (intro int_div_pos_eq [where r = "k - 1"]) (auto simp: algebra_simps)
  then show ?thesis using True q assms by simp
next
  case False
  have "a mod k + 1 \<noteq> k"
  proof
    assume "a mod k + 1 = k"
    then have "a + 1 = k * (a div k + 1)"
      using mult_div_mod_eq [of k a] by (simp add: algebra_simps; linarith)
    with False show False by simp
  qed
  moreover have "a mod k < k" "0 \<le> a mod k" using assms by simp_all
  ultimately have "(a + 1) div k = a div k"
    by (intro int_div_pos_eq [where r = "a mod k + 1"]) auto
  then show ?thesis using False by simp
qed

lemma march_days_Suc:
  "march_days (yr + 1) = march_days yr + 365 + (if is_leap_year (yr + 1) then 1 else 0)"
proof -
  have dvd: "100 dvd yr + 1 \<Longrightarrow> 4 dvd yr + 1" "400 dvd yr + 1 \<Longrightarrow> 100 dvd yr + 1"
    by (auto elim: dvd_trans [rotated])
  show ?thesis
    using dvd by (auto simp: march_days_def is_leap_year_alt div_Suc_if)
qed

lemma floor_sdiv:
  fixes a b :: int
  assumes "0 < b"
  shows "(if a \<ge> 0 then a else a - (b - 1)) sdiv b = a div b"
proof (cases "a \<ge> 0")
  case True
  then show ?thesis using assms by (simp add: sdiv_nonneg)
next
  case False
  have "(a - (b - 1)) sdiv b = - ((b - 1 - a) div b)"
    using False assms by (simp add: sdiv_neg)
  moreover have "- 1 < a mod b" using assms pos_mod_sign [of b a] by linarith
  then have "(b - 1 - a) div b = - (a div b)"
    using assms pos_mod_bound [of b a]
    by (intro int_div_pos_eq [where r = "b - 1 - a mod b"])
       (simp_all add: minus_mod_eq_mult_div [symmetric])
  ultimately show ?thesis using False by simp
qed

lemma march_days_mono: "yr \<le> yr' \<Longrightarrow> march_days yr \<le> march_days yr'"
proof (induction yr' rule: int_ge_induct)
  case base
  then show ?case by simp
next
  case (step i)
  then show ?case by (simp add: march_days_Suc)
qed

lemma month_cases:
  assumes "1 \<le> (m::int)" and "m \<le> 12"
  shows "m = 1 \<or> m = 2 \<or> m = 3 \<or> m = 4 \<or> m = 5 \<or> m = 6 \<or>
    m = 7 \<or> m = 8 \<or> m = 9 \<or> m = 10 \<or> m = 11 \<or> m = 12"
  using assms by presburger

lemma march_days_era:
  "march_days yr = 146097 * (yr div 400) + 365 * (yr mod 400) + yr mod 400 div 4 - yr mod 400 div 100"
proof -
  let ?e = "yr div 400" and ?q = "yr mod 400"
  have yr: "yr = ?q + 400 * ?e" by simp
  have "yr div 4 = 100 * ?e + ?q div 4" "yr div 100 = 4 * ?e + ?q div 100"
    using div_mult_self1 [of 4 ?q "100 * ?e"] div_mult_self1 [of 100 ?q "4 * ?e"]
    by (simp_all add: add.commute)
  moreover have "365 * yr = 146000 * e + 365 * q" if "yr = q + 400 * e" for e q using that by simp
  note this [OF yr]
  ultimately show ?thesis unfolding march_days_def by simp
qed

lemma civil_to_days_closed:
  assumes "1 \<le> m" and "m \<le> 12"
  shows "civil_to_days y m d =
    march_days (march_year y m) + month_start (march_month m) + d - 1 - 719468"
proof -
  define yr where "yr = march_year y m"
  define era where "era = yr div 400"
  define yoe where "yoe = yr mod 400"
  have yr: "yr = 400 * era + yoe" and yoe: "0 \<le> yoe" "yoe < 400"
    by (simp_all add: era_def yoe_def)
  have e: "(if yr \<ge> 0 then yr else yr - 399) sdiv 400 = era"
    using floor_sdiv [of 400 yr] by (auto simp: era_def)
  have "0 \<le> march_month m"
    using assms by (auto simp: march_month_def)
  then have mp: "(153 * march_month m + 2) sdiv 5 = month_start (march_month m)"
    by (simp add: sdiv_nonneg month_start_def)
  have "yr - era * 400 = yoe" using yr by simp
  then show ?thesis
    using e mp yoe march_days_era [of yr]
    by (simp add: civil_to_days_def Let_def sdiv_nonneg era_def yoe_def
        march_year_def [symmetric] march_month_def [symmetric] yr_def [symmetric])
qed

lemma month_length:
  assumes "1 \<le> m" "m \<le> 12" "greg_days_in_month y m = Inr k"
  shows "march_month m < 11 \<Longrightarrow> month_start (march_month m) + k = month_start (march_month m + 1)"
    and "march_month m = 11 \<Longrightarrow>
      month_start (march_month m) + k = 365 + (if is_leap_year (march_year y m + 1) then 1 else 0)"
    and "0 \<le> march_month m" and "march_month m \<le> 11"
  using month_cases [OF assms(1,2)] assms(3)
  by (elim disjE; auto simp: march_month_def march_year_def month_start_def greg_days_in_month_def
      common_month_table_def nth_Cons' split: if_splits)+

lemma greg_dim:
  assumes "1 \<le> m" "m \<le> 12"
  shows "\<exists>k. greg_days_in_month y m = Inr k \<and> 28 \<le> k \<and> k \<le> 31"
  using month_cases [OF assms]
  by (elim disjE; simp add: greg_days_in_month_def common_month_table_def nth_Cons')

lemma civil_okE:
  assumes "civil_ok dim (y, m, d)"
  obtains k where "1 \<le> m" "m \<le> 12" "1 \<le> d" "dim y m = Inr k" "d \<le> k"
  using assms by (auto simp: civil_ok_def split: sum.splits)

lemma month_start_mono: "mp \<le> mp' \<Longrightarrow> month_start mp \<le> month_start mp'"
  by (simp add: month_start_def zdiv_mono1)

lemma month_start_0 [simp]: "month_start 0 = 0"
  by (simp add: month_start_def)

lemma civil_to_days_mono:
  assumes a: "civil_ok greg_days_in_month (y, m, d)" and b: "civil_ok greg_days_in_month (y', m', d')"
    and less: "civil_less (y, m, d) (y', m', d')"
  shows "civil_to_days y m d < civil_to_days y' m' d'"
proof -
  let ?yr = "march_year y m" and ?yr' = "march_year y' m'"
  let ?mp = "march_month m" and ?mp' = "march_month m'"
  from a obtain k where k: "1 \<le> m" "m \<le> 12" "1 \<le> d" "greg_days_in_month y m = Inr k" "d \<le> k"
    by (rule civil_okE)
  from b obtain k' where k': "1 \<le> m'" "m' \<le> 12" "1 \<le> d'" "greg_days_in_month y' m' = Inr k'"
    by (rule civil_okE)
  note len = month_length [OF k(1,2,4)] and len' = month_length [OF k'(1,2,4)]
  have start': "0 \<le> month_start ?mp'"
    using month_start_mono [OF len'(3)] by simp
  consider "?yr < ?yr'" | "?yr = ?yr'" "?mp < ?mp'" | "?yr = ?yr'" "?mp = ?mp'" "d < d'"
    using less k(1,2) k'(1,2)
    by (force simp: civil_less_def march_year_def march_month_def split: if_splits)
  then show ?thesis
  proof cases
    case 1
    have "month_start ?mp + d \<le> 365 + (if is_leap_year (?yr + 1) then 1 else 0)"
    proof (cases "?mp < 11")
      case True
      then have "month_start (?mp + 1) \<le> month_start 11" by (intro month_start_mono) simp
      then show ?thesis using len(1) [OF True] k(5) by (simp add: month_start_def)
    next
      case False
      then show ?thesis using len(2,4) k(5) by simp
    qed
    moreover have "march_days (?yr + 1) \<le> march_days ?yr'"
      using 1 by (intro march_days_mono) simp
    ultimately show ?thesis
      using start' k' by (simp add: civil_to_days_closed k march_days_Suc)
  next
    case 2
    then have "month_start (?mp + 1) \<le> month_start ?mp'" by (intro month_start_mono) simp
    moreover have "?mp < 11" using 2 len'(4) by simp
    ultimately show ?thesis
      using 2 len(1) k k' by (simp add: civil_to_days_closed)
  next
    case 3
    then show ?thesis using k k' by (simp add: civil_to_days_closed)
  qed
qed

section \<open>The inverse algorithm\<close>

definition era_year :: "int \<Rightarrow> int" where
  "era_year doe = (doe - doe div 1460 + doe div 36524 - doe div 146096) div 365"

definition era_year_start :: "int \<Rightarrow> int" where
  "era_year_start yoe = 365 * yoe + yoe div 4 - yoe div 100"

definition era_year_last :: "int \<Rightarrow> int" where
  "era_year_last yoe = (if yoe = 399 then 146096 else era_year_start (yoe + 1) - 1)"

lemma era_year_mono: "x \<le> x' \<Longrightarrow> era_year x \<le> era_year x'"
proof (induction x' rule: int_ge_induct)
  case base
  then show ?case by simp
next
  case (step i)
  have "(i + 1) div 1460 \<le> i div 1460 + 1" by (simp add: div_Suc_if)
  moreover have "(i + 1) div 36524 - (i + 1) div 146096 \<ge> i div 36524 - i div 146096"
  proof -
    have "i div 146096 = (i div 36524) div 4" "(i + 1) div 146096 = ((i + 1) div 36524) div 4"
      by (simp_all add: div_mult2_eq')
    then show ?thesis by (simp add: div_Suc_if)
  qed
  ultimately have "era_year i \<le> era_year (i + 1)"
    unfolding era_year_def by (intro zdiv_mono1) auto
  with step.IH show ?case by linarith
qed

lemma era_year_split:
  assumes "0 \<le> y" "y \<le> 399"
  obtains c q r where "y = 100 * c + 4 * q + r" "0 \<le> c" "c \<le> 3" "0 \<le> q" "q \<le> 24" "0 \<le> r" "r \<le> 3"
    "era_year_start y = 36524 * c + 1461 * q + 365 * r"
proof -
  define c where "c = y div 100"
  define q where "q = y mod 100 div 4"
  define r where "r = y mod 100 mod 4"
  have y: "y = 100 * c + 4 * q + r" by (simp add: c_def q_def r_def)
  have c: "0 \<le> c" "c \<le> 3" and q: "0 \<le> q" "q \<le> 24" and r: "0 \<le> r" "r \<le> 3"
    using assms pos_mod_bound [of 100 y] pos_mod_bound [of 4 "y mod 100"]
    by (simp_all add: c_def q_def r_def)
  have "y div 4 = 25 * c + q"
    using y r by (intro int_div_pos_eq [where r = r]) auto
  moreover have "y div 100 = c" by (simp add: c_def)
  ultimately have "era_year_start y = 36524 * c + 1461 * q + 365 * r"
    using y by (simp add: era_year_start_def)
  with that y c q r show ?thesis by blast
qed

lemma era_year_eqI:
  fixes c :: int
  assumes "doe = 36524 * c + e" "0 \<le> e" "e < 36524" "0 \<le> c" "c \<le> 3"
    and "doe = 1460 * k + t" "0 \<le> t" "t < 1460"
    and "365 * y \<le> doe - k + c" "doe - k + c < 365 * y + 365"
  shows "era_year doe = y"
proof -
  have "doe div 36524 = c" using assms by (intro int_div_pos_eq [where r = e]) auto
  moreover have "doe div 146096 = 0" using assms by (intro div_pos_pos_trivial) linarith+
  moreover have "doe div 1460 = k" using assms by (intro int_div_pos_eq [where r = t]) auto
  moreover have "(doe - k + c) div 365 = y"
    using assms by (intro int_div_pos_eq [where r = "doe - k + c - 365 * y"]) linarith+
  ultimately show ?thesis by (simp add: era_year_def)
qed

lemma era_year_at:
  assumes "0 \<le> y" "y \<le> 399"
  shows "era_year (era_year_start y) = y" and "era_year (era_year_last y) = y"
proof -
  obtain c q r where y: "y = 100 * c + 4 * q + r" and cqr: "0 \<le> c" "c \<le> 3" "0 \<le> q" "q \<le> 24" "0 \<le> r" "r \<le> 3"
    and start: "era_year_start y = 36524 * c + 1461 * q + 365 * r"
    using era_year_split [OF assms] by blast
  show "era_year (era_year_start y) = y"
    unfolding start using y cqr
    by (intro era_year_eqI [where c = c and e = "1461 * q + 365 * r" and k = "25 * c + q"
          and t = "24 * c + q + 365 * r"]) auto
  show "era_year (era_year_last y) = y"
  proof (cases "y = 399")
    case True
    have "era_year 146096 = 399" by code_simp
    with True show ?thesis by (simp add: era_year_last_def)
  next
    case False
    have "(y + 1) div 4 = y div 4 + (if 4 dvd y + 1 then 1 else 0)"
      "(y + 1) div 100 = y div 100 + (if 100 dvd y + 1 then 1 else 0)"
      by (simp_all add: div_Suc_if)
    then have last: "era_year_last y = 36524 * c + 1461 * q + 365 * r + 364
        + (if 4 dvd y + 1 \<and> \<not> 100 dvd y + 1 then 1 else 0)"
      using False start dvd_trans [of 4 100 "y + 1"]
      by (auto simp: era_year_last_def era_year_start_def)
    have "y + 1 = (r + 1) + 4 * (25 * c + q)" "y + 1 = (4 * q + r + 1) + 100 * c" using y by simp_all
    then have dvd: "4 dvd y + 1 \<longleftrightarrow> 4 dvd r + 1" "100 dvd y + 1 \<longleftrightarrow> 100 dvd 4 * q + r + 1"
      by (metis dvd_add_left_iff dvd_triv_left)+
    have d4: "4 dvd y + 1 \<longleftrightarrow> r = 3"
      unfolding dvd using zdvd_imp_le [of 4 "r + 1"] cqr by auto
    have d100: "100 dvd y + 1 \<longleftrightarrow> 4 * q + r = 99"
      unfolding dvd using zdvd_imp_le [of 100 "4 * q + r + 1"] cqr by auto
    show ?thesis
    proof (cases "r = 3")
      case True
      let ?l = "if 4 * q + r = 99 then 0 else 1 :: int"
      have "era_year_last y = 36524 * c + 1461 * q + 1459 + ?l"
        using last d4 d100 True by simp
      moreover have "c \<noteq> 3 \<or> q \<noteq> 24" using True False y by auto
      moreover have "24 * c + q + ?l \<noteq> 0" using True cqr by auto
      ultimately show ?thesis
        using y cqr True
        by (intro era_year_eqI [where c = c and e = "1461 * q + 1459 + ?l" and k = "25 * c + q + 1"
              and t = "24 * c + q - 1 + ?l"]) (auto split: if_splits)
    next
      case r: False
      then have "era_year_last y = 36524 * c + 1461 * q + 365 * r + 364"
        using last d4 by simp
      then show ?thesis
        using y cqr r
        by (intro era_year_eqI [where c = c and e = "1461 * q + 365 * r + 364" and k = "25 * c + q"
              and t = "24 * c + q + 365 * r + 364"]) auto
    qed
  qed
qed

lemma era_year_bounds:
  assumes "0 \<le> doe" "doe \<le> 146096"
  shows "0 \<le> era_year doe" "era_year doe \<le> 399"
    "era_year_start (era_year doe) \<le> doe" "doe \<le> era_year_last (era_year doe)"
proof -
  let ?y = "era_year doe"
  have "era_year 0 = 0" "era_year 146096 = 399" by code_simp+
  with era_year_mono [OF assms(1)] era_year_mono [OF assms(2)]
  show y: "0 \<le> ?y" "?y \<le> 399" by simp_all
  show "era_year_start ?y \<le> doe"
  proof (cases "?y = 0")
    case True
    then show ?thesis using assms by (simp add: era_year_start_def)
  next
    case False
    show ?thesis
    proof (rule ccontr)
      assume "\<not> ?thesis"
      with False y have "doe \<le> era_year_last (?y - 1)"
        by (simp add: era_year_last_def)
      from era_year_mono [OF this] era_year_at(2) [of "?y - 1"] False y show False by simp
    qed
  qed
  show "doe \<le> era_year_last ?y"
  proof (rule ccontr)
    assume n: "\<not> ?thesis"
    with assms have "?y \<noteq> 399" by (auto simp: era_year_last_def)
    with n y have "era_year_start (?y + 1) \<le> doe" by (simp add: era_year_last_def)
    from era_year_mono [OF this] era_year_at(1) [of "?y + 1"] \<open>?y \<noteq> 399\<close> y show False by simp
  qed
qed

text \<open>Splitting a day of the March-based year into month and day.\<close>

definition split_doy_ok :: "int \<Rightarrow> bool" where
  "split_doy_ok doy =
     (let mp = (5 * doy + 2) div 153; d = doy - (153 * mp + 2) div 5 + 1 in
      0 \<le> mp \<and> mp \<le> 11 \<and> 1 \<le> d \<and> d \<le> 31 \<and>
      (mp < 11 \<longrightarrow> d \<le> (153 * (mp + 1) + 2) div 5 - (153 * mp + 2) div 5) \<and>
      (mp = 11 \<longrightarrow> d \<le> (if doy < 365 then 28 else 29)))"

lemma split_doy_table: "\<forall>doy \<in> set [0..365]. split_doy_ok doy"
  by code_simp

lemma split_doy:
  assumes "0 \<le> doy" "doy \<le> 365"
  shows "split_doy_ok doy"
  using split_doy_table assms by auto

lemma era_year_length:
  assumes "0 \<le> y" "y \<le> 399"
  shows "era_year_last y = era_year_start y + 364 + (if is_leap_year (y + 1) then 1 else 0)"
proof (cases "y = 399")
  case True
  then show ?thesis by (simp add: era_year_last_def era_year_start_def is_leap_year_alt)
next
  case False
  with assms have "\<not> 400 dvd y + 1"
    using zdvd_imp_le [of 400 "y + 1"] by auto
  then show ?thesis
    using False dvd_trans [of 4 100 "y + 1"]
    by (auto simp: era_year_last_def era_year_start_def is_leap_year_alt div_Suc_if)
qed

lemma is_leap_year_shift: "is_leap_year (y + 400 * e) \<longleftrightarrow> is_leap_year y"
proof -
  have "y + 400 * e = y + 4 * (100 * e)" "y + 400 * e = y + 100 * (4 * e)" by simp_all
  then show ?thesis
    unfolding is_leap_year_alt by (metis dvd_add_left_iff dvd_triv_left)
qed

text \<open>The day number counts days.\<close>

lemma civil_to_days_next:
  assumes "civil_ok greg_days_in_month (y, m, d)"
    and "next_civil greg_days_in_month (y, m, d) = (y', m', d')"
  shows "civil_to_days y' m' d' = civil_to_days y m d + 1"
proof -
  from assms(1) obtain k where k: "1 \<le> m" "m \<le> 12" "1 \<le> d" "greg_days_in_month y m = Inr k" "d \<le> k"
    by (rule civil_okE)
  note len = month_length [OF k(1,2,4)]
  consider "d < k" | "d = k" "m = 12" | "d = k" "m = 2" | "d = k" "m < 12" "m \<noteq> 2"
    using k by linarith
  then show ?thesis
  proof cases
    case 1
    then show ?thesis using assms(2) k by (auto simp: next_civil_def civil_to_days_closed)
  next
    case 2
    then show ?thesis using assms(2) k len
      by (auto simp: next_civil_def civil_to_days_closed march_month_def march_year_def)
  next
    case 3
    then show ?thesis using assms(2) k len march_days_Suc [of "y - 1"]
      by (auto simp: next_civil_def civil_to_days_closed march_month_def march_year_def)
  next
    case 4
    then have "march_month (m + 1) = march_month m + 1" "march_year y (m + 1) = march_year y m"
      "march_month m < 11"
      using k by (auto simp: march_month_def march_year_def)
    then show ?thesis using 4 assms(2) k len(1)
      by (auto simp: next_civil_def civil_to_days_closed)
  qed
qed

text \<open>The inverse algorithm finds a valid date whose day number is the given one.\<close>

lemma days_to_civil_correct:
  assumes z: "\<bar>z\<bar> \<le> 1000000000" and r: "days_to_civil z = (y, m, d)"
  shows "civil_ok greg_days_in_month (y, m, d) \<and> civil_to_days y m d = z \<and> is_i32 y"
proof -
  define era where "era = (z + 719468) div 146097"
  define doe where "doe = (z + 719468) mod 146097"
  define yoe where "yoe = era_year doe"
  define doy where "doy = doe - era_year_start yoe"
  define mp where "mp = (5 * doy + 2) div 153"
  define dd where "dd = doy - (153 * mp + 2) div 5 + 1"
  define mm where "mm = mp + (if mp < 10 then 3 else - 9)"
  define yy where "yy = yoe + era * 400 + (if mm \<le> 2 then 1 else 0)"
  have zeq: "z + 719468 = era * 146097 + doe" by (simp add: era_def doe_def)
  have doe: "0 \<le> doe" "doe \<le> 146096" by (simp_all add: doe_def)
  note yb = era_year_bounds [OF doe, folded yoe_def]
  have doy: "0 \<le> doy" "doy \<le> 364 + (if is_leap_year (yoe + 1) then 1 else 0)" "doy \<le> 365"
    using yb era_year_length [OF yb(1,2)] by (auto simp: doy_def split: if_splits)
  have sd: "0 \<le> mp" "mp \<le> 11" "1 \<le> dd" "dd \<le> 31"
    "mp < 11 \<Longrightarrow> dd \<le> month_start (mp + 1) - month_start mp"
    "mp = 11 \<Longrightarrow> dd \<le> (if doy < 365 then 28 else 29)"
    using split_doy [OF doy(1,3)]
    unfolding split_doy_ok_def Let_def mp_def [symmetric] dd_def [symmetric]
    by (simp_all add: month_start_def)
  have mm: "1 \<le> mm" "mm \<le> 12" "march_month mm = mp" "march_year yy mm = yoe + era * 400"
    using sd by (auto simp: mm_def march_month_def march_year_def yy_def)
  have yy: "is_i32 yy" using z zeq doe yb by (auto simp: yy_def is_i32_def)
  have e: "(if z + 719468 \<ge> 0 then z + 719468 else z + 719468 - 146096) sdiv 146097 = era"
    using floor_sdiv [of 146097 "z + 719468"] by (auto simp: era_def)
  have d2: "z + 719468 - era * 146097 = doe" using zeq by simp
  have yo: "(doe - doe sdiv 1460 + doe sdiv 36524 - doe sdiv 146096) sdiv 365 = yoe"
  proof -
    have "0 \<le> doe - doe div 1460 + doe div 36524 - doe div 146096"
      using doe zdiv_mono2 [of doe 1 1460] zdiv_mono2 [of doe 36524 146096] by simp
    then show ?thesis using doe by (simp add: sdiv_nonneg yoe_def era_year_def)
  qed
  have st: "365 * yoe + yoe sdiv 4 - yoe sdiv 100 = era_year_start yoe"
    using yb by (simp add: sdiv_nonneg era_year_start_def)
  have res: "days_to_civil z = (yy, mm, dd)"
    unfolding days_to_civil_def Let_def e d2 yo st doy_def [symmetric]
    using doy sd mm yy
    by (simp add: sdiv_nonneg mp_def [symmetric] dd_def [symmetric] mm_def [symmetric]
        yy_def [symmetric] is_i32_def)
  obtain k where k: "greg_days_in_month yy mm = Inr k"
    using mm greg_dim by blast
  note len = month_length [OF mm(1,2) k, unfolded mm(3,4)]
  have "is_leap_year (yoe + era * 400 + 1) = is_leap_year (yoe + 1)"
    using is_leap_year_shift [of "yoe + 1" era] by (simp add: algebra_simps)
  then have "dd \<le> k"
    using sd len doy by (cases "mp = 11") (auto simp: month_start_def split: if_splits)
  then have ok: "civil_ok greg_days_in_month (yy, mm, dd)" using mm sd k by (simp add: civil_ok_def)
  have "(yoe + era * 400) div 400 = era" "(yoe + era * 400) mod 400 = yoe"
    using yb by simp_all
  then have "march_days (yoe + era * 400) = era * 146097 + era_year_start yoe"
    by (simp add: march_days_era era_year_start_def)
  then have "civil_to_days yy mm dd = z"
    using zeq mm by (simp add: civil_to_days_closed dd_def doy_def month_start_def)
  with ok yy res r show ?thesis by simp
qed

section \<open>The calendar interface\<close>

lemma greg_floor_div_eq: "0 < b \<Longrightarrow> greg_floor_div a b = a div b"
  by (cases "a < 0")
     (auto simp: greg_floor_div_def neg_div_ceiling smod_eq_0_iff sdiv_nonneg xor_negative_int_iff)

lemma epoch_day_offset_val: "epoch_day_offset = 20454"
  by (simp add: epoch_day_offset_def civil_to_days_closed march_days_def march_year_def
      march_month_def month_start_def)

lemma greg_validate_iff:
  assumes "is_i32 (dt_year dt)"
  shows "greg_validate dt = Inr u \<longleftrightarrow> valid_date_time Gregorian_Calendar dt"
  using assms
  by (auto simp: greg_validate_def valid_date_time_def day_ok_def time_of_day_ok_def bindR_def
      split: sum.splits if_splits)

lemma greg_validate_Inl: "greg_validate dt = Inl e \<Longrightarrow> \<exists>msg. e = Invalid_argument msg"
  by (auto simp: greg_validate_def greg_days_in_month_def bindR_eq_Inl split: if_splits)

lemma greg_to_time_point_instant:
  assumes "valid_date_time Gregorian_Calendar dt"
  shows "greg_to_time_point dt =
    instant (civil_to_days (dt_year dt) (dt_month dt) (dt_day dt) - epoch_day_offset) dt"
proof -
  have "greg_validate dt = Inr ()"
    using assms greg_validate_iff [of dt] by (simp add: valid_date_time_def day_ok_def)
  moreover have "time_of_day_ok dt" using assms by (simp add: valid_date_time_def)
  ultimately show ?thesis
    by (simp add: greg_to_time_point_def Let_def instant_chain)
qed

lemma greg_to_date_time_split:
  assumes "is_i64 n" "- 9223286400000000000 \<le> n"
  shows "greg_to_date_time (Time_Point n) =
    Inr (date_with_nanos (days_to_civil (n div nanos_per_day + epoch_day_offset)) (n mod nanos_per_day))"
proof -
  have s: "0 \<le> n mod nanos_per_day" "n mod nanos_per_day < nanos_per_day" by simp_all
  have ub: "ub64 (n div nanos_per_day * nanos_per_day) = Inr (n div nanos_per_day * nanos_per_day)"
    by (rule ub64_ok [OF day_start_i64 [OF assms]])
  have sub: "n - n div nanos_per_day * nanos_per_day = n mod nanos_per_day"
    by (simp add: minus_div_mult_eq_mod)
  show ?thesis
    by (cases "days_to_civil (n div nanos_per_day + epoch_day_offset)")
      (simp add: greg_to_date_time_def greg_floor_div_eq Let_def ub sub subday_casts [OF s] date_with_nanos_def)
qed

interpretation greg: day_counting Gregorian_Calendar
  "\<lambda>y m d. civil_to_days y m d - epoch_day_offset" "\<lambda>D. days_to_civil (D + epoch_day_offset)"
proof
  fix m y :: int
  assume "1 \<le> m" "m \<le> 12"
  then show "\<exists>d. cal_days_in_month Gregorian_Calendar y m = Inr d \<and> 28 \<le> d \<and> d \<le> 31"
    by (simp add: greg_dim)
next
  fix dt
  assume "is_i32 (dt_year dt)" "\<not> valid_date_time Gregorian_Calendar dt"
  then obtain e where "greg_validate dt = Inl e"
    using greg_validate_iff by (cases "greg_validate dt") auto
  then show "\<exists>msg. cal_to_time_point Gregorian_Calendar dt = Inl (Invalid_argument msg)"
    using greg_validate_Inl by (fastforce simp: greg_to_time_point_def)
next
  fix dt
  assume "valid_date_time Gregorian_Calendar dt"
  then show "cal_to_time_point Gregorian_Calendar dt =
      instant (civil_to_days (dt_year dt) (dt_month dt) (dt_day dt) - epoch_day_offset) dt"
    by (simp add: greg_to_time_point_instant)
next
  fix n
  assume "is_i64 n" "- 9223286400000000000 \<le> n"
  then show "cal_to_date_time Gregorian_Calendar (Time_Point n) =
      Inr (date_with_nanos (days_to_civil (n div nanos_per_day + epoch_day_offset)) (n mod nanos_per_day))"
    by (simp add: greg_to_date_time_split)
next
  fix D y m d
  assume "- 106751 \<le> D" "D \<le> 106751" "days_to_civil (D + epoch_day_offset) = (y, m, d)"
  then show "civil_ok (cal_days_in_month Gregorian_Calendar) (y, m, d) \<and> is_i32 y \<and>
      civil_to_days y m d - epoch_day_offset = D"
    using days_to_civil_correct [of "D + epoch_day_offset" y m d] by (simp add: epoch_day_offset_val)
next
  fix y m d y' m' d'
  assume "civil_ok (cal_days_in_month Gregorian_Calendar) (y, m, d)"
    "civil_ok (cal_days_in_month Gregorian_Calendar) (y', m', d')" "civil_less (y, m, d) (y', m', d')"
  then show "civil_to_days y m d - epoch_day_offset < civil_to_days y' m' d' - epoch_day_offset"
    by (simp add: civil_to_days_mono)
next
  fix y m d y' m' d'
  assume "civil_ok (cal_days_in_month Gregorian_Calendar) (y, m, d)"
    "next_civil (cal_days_in_month Gregorian_Calendar) (y, m, d) = (y', m', d')"
  then show "civil_to_days y' m' d' - epoch_day_offset = civil_to_days y m d - epoch_day_offset + 1"
    by (simp add: civil_to_days_next)
qed

section \<open>Properties\<close>

text \<open>
  C6. The Gregorian calendar has no drift: every time point from the first whole day of the
  64-bit nanosecond range to its end is decomposed into a valid date, and converting that
  date back gives exactly that time point.
\<close>

theorem gregorian_roundtrip:
  assumes "is_i64 n" "- 9223286400000000000 \<le> n"
  shows "\<exists>dt. greg_to_date_time (Time_Point n) = Inr dt \<and> valid_date_time Gregorian_Calendar dt \<and>
    greg_to_time_point dt = Inr (Time_Point n)"
  using greg.to_dt_defined [OF assms] greg.to_dt_valid [of "Time_Point n"] greg.roundtrip [of "Time_Point n"] assms
  by (auto simp: is_ok_iff)

theorem gregorian_roundtrip_witness:
  "\<exists>dt. greg_to_date_time (Time_Point (- 1)) = Inr dt \<and> valid_date_time Gregorian_Calendar dt \<and>
    greg_to_time_point dt = Inr (Time_Point (- 1))"
  using gregorian_roundtrip [of "- 1"] by (simp add: is_i64_def)

text \<open>
  The Gregorian conversion rejects exactly the invalid dates with an invalid-argument
  exception; a date it accepts is read back unchanged from the time point it produces.
\<close>

theorem gregorian_inverse:
  assumes "is_i32 (dt_year dt)"
  shows "(\<not> valid_date_time Gregorian_Calendar dt \<longrightarrow>
      (\<exists>msg. greg_to_time_point dt = Inl (Invalid_argument msg))) \<and>
    (\<forall>t. greg_to_time_point dt = Inr t \<longrightarrow>
      valid_date_time Gregorian_Calendar dt \<and> greg_to_date_time t = Inr dt)"
  using greg.invalid [OF assms] greg.inverse [OF assms] greg.to_tp_valid [OF assms] by auto

theorem gregorian_inverse_witness:
  "(\<exists>msg. greg_to_time_point (mk_date_time 2025 2 29 0 0 0 0) = Inl (Invalid_argument msg)) \<and>
   greg_to_date_time (Time_Point 86400000000000) = Inr (mk_date_time 2026 1 2 0 0 0 0)"
proof -
  have "\<not> valid_date_time Gregorian_Calendar (mk_date_time 2025 2 29 0 0 0 0)"
    by (simp add: valid_date_time_def day_ok_def greg_days_in_month_def common_month_table_def is_leap_year_alt)
  moreover have "greg_to_time_point (mk_date_time 2026 1 2 0 0 0 0) = Inr (Time_Point 86400000000000)"
    by code_simp
  ultimately show ?thesis
    using gregorian_inverse [of "mk_date_time 2025 2 29 0 0 0 0"] gregorian_inverse [of "mk_date_time 2026 1 2 0 0 0 0"]
    by (simp add: is_i32_def)
qed

text \<open>
  C5. The closed-form Gregorian algorithm is the calendar obtained by counting days: time
  point 0 is midnight of 2026-01-01, and advancing by 24 hours gives the same time of
  day on the next date as read off the month lengths.
\<close>

theorem gregorian_counts_days:
  assumes "- 9223286400000000000 \<le> n" "is_i64 (n + nanos_per_day)"
  shows "greg_to_date_time (Time_Point 0) = Inr (mk_date_time 2026 1 1 0 0 0 0) \<and>
    (\<exists>dt. greg_to_date_time (Time_Point n) = Inr dt \<and>
      greg_to_date_time (Time_Point (n + nanos_per_day)) = Inr (next_day greg_days_in_month dt))"
proof -
  have "greg_to_date_time (Time_Point 0) = Inr (mk_date_time 2026 1 1 0 0 0 0)" by code_simp
  moreover have "is_i64 n" using assms by (auto simp: is_i64_def)
  then obtain dt where "greg_to_date_time (Time_Point n) = Inr dt"
    using greg.to_dt_defined assms(1) by (auto simp: is_ok_iff)
  ultimately show ?thesis using greg.to_dt_next [OF assms] by auto
qed

theorem gregorian_counts_days_witness:
  "greg_to_date_time (Time_Point (0 + nanos_per_day)) = Inr (next_day greg_days_in_month (mk_date_time 2026 1 1 0 0 0 0))"
  using gregorian_counts_days [of 0] by (auto simp: is_i64_def)

text \<open>Whole years that fit the 64-bit nanosecond range.\<close>

lemma greg_day_bounds:
  assumes v: "valid_date_time Gregorian_Calendar dt" and y: "a \<le> dt_year dt" "dt_year dt < b"
  shows "civil_to_days a 1 1 \<le> civil_to_days (dt_year dt) (dt_month dt) (dt_day dt)"
    "civil_to_days (dt_year dt) (dt_month dt) (dt_day dt) < civil_to_days b 1 1"
proof -
  have ok: "civil_ok greg_days_in_month (dt_year dt, dt_month dt, dt_day dt)"
    using v greg.day_ok_civil_ok by (simp add: valid_date_time_def)
  have jan: "civil_ok greg_days_in_month (x, 1, 1)" for x
    by (simp add: civil_ok_def greg_days_in_month_def common_month_table_def)
  show "civil_to_days a 1 1 \<le> civil_to_days (dt_year dt) (dt_month dt) (dt_day dt)"
  proof (cases "(a, 1, 1) = (dt_year dt, dt_month dt, dt_day dt)")
    case False
    then have "civil_less (a, 1, 1) (dt_year dt, dt_month dt, dt_day dt)"
      using y(1) ok by (auto simp: civil_less_def civil_ok_def)
    then show ?thesis using civil_to_days_mono [OF jan ok, of a] by simp
  qed auto
  show "civil_to_days (dt_year dt) (dt_month dt) (dt_day dt) < civil_to_days b 1 1"
    using civil_to_days_mono [OF ok jan, of b] y by (simp add: civil_less_def)
qed

lemmas new_year_days = civil_to_days_closed march_days_def march_year_def march_month_def month_start_def
  epoch_day_offset_val

lemma greg_in_range:
  assumes v: "valid_date_time Gregorian_Calendar dt" and y: "1734 \<le> dt_year dt" "dt_year dt \<le> 2317"
  shows "\<exists>u. greg_to_time_point dt = Inr u"
proof -
  have "\<bar>civil_to_days (dt_year dt) (dt_month dt) (dt_day dt) - epoch_day_offset\<bar> \<le> 106749"
    using greg_day_bounds [OF v y(1), of 2318] y(2) by (simp add: new_year_days abs_le_iff)
  then show ?thesis using greg.to_tp_in_range [OF v, of 106749] by auto
qed

interpretation greg_range: calendar_range Gregorian_Calendar
proof
  fix dt
  assume v: "valid_date_time Gregorian_Calendar dt" and y: "1737 \<le> dt_year dt" "dt_year dt \<le> 2315"
  have "\<bar>civil_to_days (dt_year dt) (dt_month dt) (dt_day dt) - epoch_day_offset\<bar> \<le> 105999"
    using greg_day_bounds [OF v y(1), of 2316] y(2) by (simp add: new_year_days abs_le_iff)
  then show "\<exists>u. cal_to_time_point Gregorian_Calendar dt = Inr u \<and> \<bar>tp_nanos u\<bar> \<le> 9158400000000000000"
    using greg.to_tp_in_range [OF v, of 105999] by auto
next
  fix y u v
  assume "1737 \<le> y" "y \<le> 2314" "cal_to_time_point Gregorian_Calendar (mk_date_time y 1 1 0 0 0 0) = Inr u"
    "cal_to_time_point Gregorian_Calendar (mk_date_time (y + 1) 1 1 0 0 0 0) = Inr v"
  then show "tp_nanos v = tp_nanos u + cal_days_in_year Gregorian_Calendar y * nanos_per_day"
    using greg.midnight_nanos [of y 1 1 u] greg.midnight_nanos [of "y + 1" 1 1 v] march_days_Suc [of "y - 1"]
    by (simp add: is_i32_def greg_days_in_year_def civil_to_days_closed march_year_def march_month_def)
next
  fix y
  show "cal_days_in_year Gregorian_Calendar y \<le> 366" by (simp add: greg_days_in_year_def)
qed

text \<open>
  Month arithmetic never changes the time of day and lands exactly the requested number of
  months away: when the target month lies in the years 1734 to 2317, \<open>add_months\<close> succeeds
  and the day of the result is the original day, or the last day of a shorter target month.
\<close>

theorem greg_add_months_correct:
  assumes tp: "is_i64 (tp_nanos tp)" "- 9223286400000000000 \<le> tp_nanos tp" "greg_to_date_time tp = Inr dt"
    and tm: "tm = dt_year dt * 12 + (dt_month dt - 1) + months" "20808 \<le> tm" "tm \<le> 27815"
  shows "\<exists>u k. greg_add_months tp months = Inr u \<and>
    greg_days_in_month (tm div 12) (tm mod 12 + 1) = Inr k \<and>
    greg_to_date_time u = Inr (dt\<lparr>dt_year := tm div 12, dt_month := tm mod 12 + 1,
      dt_day := min (dt_day dt) k\<rparr>)"
proof -
  have v: "valid_date_time Gregorian_Calendar dt"
    using greg.to_dt_valid [OF tp(1,2)] tp(3) by simp
  have y: "1734 \<le> tm div 12" "tm div 12 \<le> 2317"
    using zdiv_mono1 [OF tm(2), of 12] zdiv_mono1 [OF tm(3), of 12] by simp_all
  then have i: "is_i32 (tm div 12)" by (simp add: is_i32_def)
  have m: "1 \<le> tm mod 12 + 1" "tm mod 12 + 1 \<le> 12"
    using pos_mod_bound [of 12 tm] pos_mod_sign [of 12 tm] by linarith+
  obtain k where k: "greg_days_in_month (tm div 12) (tm mod 12 + 1) = Inr k"
    using greg_dim [OF m] by blast
  let ?d = "mk_date_time (tm div 12) (tm mod 12 + 1) (min (dt_day dt) k) (dt_hour dt)
    (dt_minute dt) (dt_second dt) (dt_nanosecond dt)"
  have vd: "valid_date_time Gregorian_Calendar ?d"
    using greg.clamped_month_valid [OF v i m] k by simp
  then obtain u where u: "greg_to_time_point ?d = Inr u"
    using greg_in_range y by fastforce
  have "tm - tm div 12 * 12 + 1 = tm mod 12 + 1" by (simp add: minus_div_mult_eq_mod)
  moreover have "is_i32 tm" using tm by (simp add: is_i32_def)
  ultimately have "greg_add_months tp months = greg_to_time_point ?d"
    using tp(3) tm(1) k by (simp add: greg_add_months_def Let_def ub32_ok greg_floor_div_eq min_def)
  moreover have "greg_to_date_time u = Inr ?d"
    using greg.inverse [of ?d u] u i by simp
  moreover have "?d = dt\<lparr>dt_year := tm div 12, dt_month := tm mod 12 + 1, dt_day := min (dt_day dt) k\<rparr>"
    by (cases dt) (simp add: mk_date_time_def)
  ultimately show ?thesis using u k by metis
qed

theorem greg_add_months_correct_witness:
  "\<exists>u. greg_add_months (Time_Point 2592000000000000) 1 = Inr u \<and>
    greg_to_date_time u = Inr (mk_date_time 2026 2 28 0 0 0 0)"
proof -
  have "greg_to_date_time (Time_Point 2592000000000000) = Inr (mk_date_time 2026 1 31 0 0 0 0)" by code_simp
  moreover have "greg_days_in_month 2026 2 = Inr 28" by code_simp
  ultimately show ?thesis
    using greg_add_months_correct [of "Time_Point 2592000000000000" "mk_date_time 2026 1 31 0 0 0 0" 24313 1]
    by (simp add: is_i64_def mk_date_time_def)
qed

text \<open>
  The day of the year counts from 1 January, and the day of the week is the ISO number
  1 to 7 that goes round by one with each day, with 1970-01-01 a Thursday.
\<close>

theorem greg_day_fields:
  assumes v: "valid_date_time Gregorian_Calendar dt"
  shows "greg_day_of_year dt =
      Inr (civil_to_days (dt_year dt) (dt_month dt) (dt_day dt) - civil_to_days (dt_year dt) 1 1 + 1) \<and>
    greg_day_of_week dt = Inr ((civil_to_days (dt_year dt) (dt_month dt) (dt_day dt) + 3) mod 7 + 1) \<and>
    civil_to_days 1970 1 1 = 0"
proof -
  have val: "greg_validate dt = Inr ()"
    using v greg_validate_iff [of dt] by (simp add: valid_date_time_def day_ok_def)
  have m: "1 \<le> dt_month dt" "dt_month dt \<le> 12"
    using v by (auto simp: valid_date_time_def day_ok_def)
  note simps = greg_day_of_year_def val Let_def civil_to_days_closed march_month_def march_year_def
    days_before_month_leap_def days_before_month_common_def nth_Cons' month_start_def
  have "greg_day_of_year dt =
      Inr (civil_to_days (dt_year dt) (dt_month dt) (dt_day dt) - civil_to_days (dt_year dt) 1 1 + 1)"
    using month_cases [OF m] march_days_Suc [of "dt_year dt - 1"]
    by (elim disjE) (simp_all add: simps)
  moreover have "greg_day_of_week dt =
      Inr ((civil_to_days (dt_year dt) (dt_month dt) (dt_day dt) + 3) mod 7 + 1)"
  proof -
    let ?z = "civil_to_days (dt_year dt) (dt_month dt) (dt_day dt) + 3"
    have "is_i32 (?z mod 7 + 1)"
      using pos_mod_bound [of 7 ?z] pos_mod_sign [of 7 ?z] by (auto simp: is_i32_def)
    then show ?thesis
      unfolding greg_day_of_week_def val bindR_simps Let_def smod_plus_mod [of 7 ?z, simplified] by simp
  qed
  moreover have "civil_to_days 1970 1 1 = 0" by code_simp
  ultimately show ?thesis by blast
qed

theorem greg_day_fields_witness:
  "greg_day_of_year (mk_date_time 2024 12 31 0 0 0 0) = Inr 366 \<and>
   greg_day_of_week (mk_date_time 2024 12 31 0 0 0 0) = Inr 2"
proof -
  have "valid_date_time Gregorian_Calendar (mk_date_time 2024 12 31 0 0 0 0)"
    by code_simp
  moreover have "civil_to_days 2024 12 31 = 20088" "civil_to_days 2024 1 1 = 19723" by code_simp+
  ultimately show ?thesis
    using greg_day_fields [of "mk_date_time 2024 12 31 0 0 0 0"] by simp
qed

end
