(* ===== verification/Tick_NoLeap.thy ===== *)
theory Tick_NoLeap
  imports Tick_Calendar
begin

text \<open>
  TICK's NoLeap calendar: \<^verbatim>\<open>tick/noleap_calendar.hpp\<close>. Every year has 365 days; the month of
  a day is found by walking a table of cumulative days backwards.
\<close>

section \<open>Operations\<close>

definition noleap_days_in_year :: "int \<Rightarrow> int" where
  "noleap_days_in_year year = 365"

definition noleap_month_table :: "int list" where
  "noleap_month_table = [31, 28, 31, 30, 31, 30, 31, 31, 30, 31, 30, 31]"

definition noleap_days_in_month :: "int \<Rightarrow> int \<Rightarrow> int result" where
  "noleap_days_in_month year month =
     (if month < 1 \<or> month > 12 then Inl (Invalid_argument ''Invalid month: value not in range [1, 12]'')
      else Inr (noleap_month_table ! nat (month - 1)))"

definition cum_days :: "int list" where
  "cum_days = [0, 31, 59, 90, 120, 151, 181, 212, 243, 273, 304, 334]"

text \<open>The backwards search: the loop index runs from the argument minus one down to 0.\<close>

fun noleap_find_month :: "int \<Rightarrow> nat \<Rightarrow> int" where
  "noleap_find_month day_in_year 0 = 12"
| "noleap_find_month day_in_year (Suc m) =
     (if cum_days ! m \<le> day_in_year then int m + 1 else noleap_find_month day_in_year m)"

definition noleap_civil :: "int \<Rightarrow> int \<times> int \<times> int" where
  "noleap_civil day_offset =
     (let (year_offset, day_in_year) =
            (if day_offset \<ge> 0 then (day_offset sdiv 365, day_offset smod 365)
             else let yo = (day_offset + 1) sdiv 365 - 1 in (yo, day_offset - yo * 365));
          year = wrap32 year_offset + 2026;
          month = noleap_find_month day_in_year 12;
          day = wrap32 (day_in_year - cum_days ! nat (month - 1)) + 1
      in (year, month, day))"

definition noleap_to_date_time :: "Time_Point \<Rightarrow> Date_Time result" where
  "noleap_to_date_time tp =
     (let nanos = tp_nanos tp;
          day_offset0 = nanos sdiv nanos_per_day;
          sub_day0 = nanos smod nanos_per_day;
          (day_offset, sub_day_nanos) =
            (if sub_day0 < 0 then (day_offset0 - 1, sub_day0 + nanos_per_day) else (day_offset0, sub_day0));
          (year, month, day) = noleap_civil day_offset;
          hour = wrap32 (sub_day_nanos sdiv nanos_per_hour);
          rem = sub_day_nanos smod nanos_per_hour;
          minute = wrap32 (rem sdiv nanos_per_minute);
          rem' = rem smod nanos_per_minute;
          second = wrap32 (rem' sdiv nanos_per_second);
          nano = wrap32 (rem' smod nanos_per_second)
      in Inr (mk_date_time year month day hour minute second nano))"

definition noleap_validate :: "Date_Time \<Rightarrow> unit result" where
  "noleap_validate dt =
     (if dt_month dt < 1 \<or> dt_month dt > 12
      then Inl (Invalid_argument ''Invalid month: value not in range [1, 12]'')
      else bindR (noleap_days_in_month (dt_year dt) (dt_month dt)) (\<lambda>max_day.
        if dt_month dt = 2 \<and> dt_day dt = 29
          then Inl (Invalid_argument ''Invalid day: February 29 is invalid in the NoLeap calendar'')
        else if dt_day dt < 1 \<or> dt_day dt > max_day
          then Inl (Invalid_argument ''Invalid day: value out of range for the given month'')
        else if dt_hour dt < 0 \<or> dt_hour dt > 23
          then Inl (Invalid_argument ''Invalid hour: value not in range [0, 23]'')
        else if dt_minute dt < 0 \<or> dt_minute dt > 59
          then Inl (Invalid_argument ''Invalid minute: value not in range [0, 59]'')
        else if dt_second dt < 0 \<or> dt_second dt > 59
          then Inl (Invalid_argument ''Invalid second: value not in range [0, 59]'')
        else if dt_nanosecond dt < 0 \<or> dt_nanosecond dt > 999999999
          then Inl (Invalid_argument ''Invalid nanosecond: value not in range [0, 999999999]'')
        else Inr ()))"

definition noleap_days :: "int \<Rightarrow> int \<Rightarrow> int \<Rightarrow> int" where
  "noleap_days year month day = (year - 2026) * 365 + cum_days ! nat (month - 1) + (day - 1)"

definition noleap_to_time_point :: "Date_Time \<Rightarrow> Time_Point result" where
  "noleap_to_time_point dt =
     bindR (noleap_validate dt) (\<lambda>_.
       let day_offset = noleap_days (dt_year dt) (dt_month dt) (dt_day dt) in
       bindR (ub64 (day_offset * nanos_per_day)) (\<lambda>n0.
       bindR (ub64 (n0 + dt_hour dt * nanos_per_hour)) (\<lambda>n1.
       bindR (ub64 (n1 + dt_minute dt * nanos_per_minute)) (\<lambda>n2.
       bindR (ub64 (n2 + dt_second dt * nanos_per_second)) (\<lambda>n3.
       bindR (ub64 (n3 + dt_nanosecond dt)) (\<lambda>n4.
         Inr (Time_Point n4)))))))"

definition noleap_add_months :: "Time_Point \<Rightarrow> int \<Rightarrow> Time_Point result" where
  "noleap_add_months tp months =
     bindR (noleap_to_date_time tp) (\<lambda>dt.
     bindR (ub32 ((dt_year dt - 1) * 12 + (dt_month dt - 1) + months)) (\<lambda>total_months.
     bindR (if total_months \<ge> 0 then Inr (total_months sdiv 12 + 1, total_months smod 12 + 1)
            else bindR (ub32 (total_months - 11)) (\<lambda>t.
              let target_year = t sdiv 12 + 1
              in Inr (target_year, total_months - (target_year - 1) * 12 + 1))) (\<lambda>(target_year, target_month).
     bindR (noleap_days_in_month target_year target_month) (\<lambda>max_day.
       let target_day = (if dt_day dt > max_day then max_day else dt_day dt)
       in noleap_to_time_point (mk_date_time target_year target_month target_day (dt_hour dt)
            (dt_minute dt) (dt_second dt) (dt_nanosecond dt))))))"

definition noleap_add_years :: "Time_Point \<Rightarrow> int \<Rightarrow> Time_Point result" where
  "noleap_add_years tp years = bindR (ub32 (years * 12)) (\<lambda>months. noleap_add_months tp months)"

definition NoLeap_Calendar :: calendar where
  "NoLeap_Calendar =
     \<lparr>cal_kind = NoLeap_Kind, cal_to_date_time = noleap_to_date_time,
      cal_to_time_point = noleap_to_time_point, cal_days_in_month = noleap_days_in_month,
      cal_days_in_year = noleap_days_in_year\<rparr>"

lemma NoLeap_Calendar_sel [simp]:
  "cal_kind NoLeap_Calendar = NoLeap_Kind"
  "cal_to_date_time NoLeap_Calendar = noleap_to_date_time"
  "cal_to_time_point NoLeap_Calendar = noleap_to_time_point"
  "cal_days_in_month NoLeap_Calendar = noleap_days_in_month"
  "cal_days_in_year NoLeap_Calendar = noleap_days_in_year"
  by (simp_all add: NoLeap_Calendar_def)

section \<open>The table walk\<close>

definition month_walk_ok :: "int \<Rightarrow> bool" where
  "month_walk_ok diy \<longleftrightarrow>
     (let m = noleap_find_month diy 12; d = diy - cum_days ! nat (m - 1) + 1
      in 1 \<le> m \<and> m \<le> 12 \<and> 1 \<le> d \<and> d \<le> noleap_month_table ! nat (m - 1))"

lemma month_walk_table: "\<forall>diy \<in> set [0..364]. month_walk_ok diy"
  by code_simp

lemma month_walk: "0 \<le> diy \<Longrightarrow> diy < 365 \<Longrightarrow> month_walk_ok diy"
  using month_walk_table by auto

definition cum_step_ok :: "int \<Rightarrow> bool" where
  "cum_step_ok m \<longleftrightarrow>
     28 \<le> noleap_month_table ! nat (m - 1) \<and> noleap_month_table ! nat (m - 1) \<le> 31 \<and> 0 \<le> cum_days ! nat (m - 1) \<and>
     (if m = 12 then cum_days ! nat (m - 1) + noleap_month_table ! nat (m - 1) = 365
      else cum_days ! nat m = cum_days ! nat (m - 1) + noleap_month_table ! nat (m - 1))"

lemma cum_step_table: "\<forall>m \<in> set [1..12]. cum_step_ok m"
  by code_simp

lemma cum_step: "1 \<le> m \<Longrightarrow> m \<le> 12 \<Longrightarrow> cum_step_ok m"
  using cum_step_table by auto

definition cum_mono_ok :: "int \<Rightarrow> int \<Rightarrow> bool" where
  "cum_mono_ok m m' \<longleftrightarrow>
     (m < m' \<longrightarrow> cum_days ! nat (m - 1) + noleap_month_table ! nat (m - 1) \<le> cum_days ! nat (m' - 1)) \<and>
     cum_days ! nat (m - 1) + noleap_month_table ! nat (m - 1) \<le> 365"

lemma cum_mono_table: "\<forall>m \<in> set [1..12]. \<forall>m' \<in> set [1..12]. cum_mono_ok m m'"
  by code_simp

lemma cum_mono: "1 \<le> m \<Longrightarrow> m \<le> 12 \<Longrightarrow> 1 \<le> m' \<Longrightarrow> m' \<le> 12 \<Longrightarrow> cum_mono_ok m m'"
  using cum_mono_table by auto

lemma noleap_dim: "1 \<le> m \<Longrightarrow> m \<le> 12 \<Longrightarrow> noleap_days_in_month y m = Inr (noleap_month_table ! nat (m - 1))"
  by (simp add: noleap_days_in_month_def)

lemma noleap_civil_correct:
  assumes D: "\<bar>D\<bar> \<le> 100000000" and r: "noleap_civil D = (y, m, d)"
  shows "civil_ok noleap_days_in_month (y, m, d) \<and> is_i32 y \<and> noleap_days y m d = D"
proof -
  define yo where "yo = D div 365"
  define diy where "diy = D mod 365"
  have D': "D = 365 * yo + diy" and diy: "0 \<le> diy" "diy < 365" by (simp_all add: yo_def diy_def)
  have split: "(if D \<ge> 0 then (D sdiv 365, D smod 365)
      else let yo = (D + 1) sdiv 365 - 1 in (yo, D - yo * 365)) = (yo, diy)"
  proof (cases "D \<ge> 0")
    case True
    then show ?thesis by (simp add: sdiv_nonneg smod_nonneg yo_def diy_def)
  next
    case False
    have "(- (D + 1)) div 365 = - yo - 1"
      using D' diy by (intro int_div_pos_eq [where r = "364 - diy"]) auto
    moreover have "(D + 1) sdiv 365 = - ((- (D + 1)) div 365)"
      using False sdiv_neg [of "D + 1" 365] by (cases "D + 1 = 0") (auto simp: sdiv_nonneg)
    ultimately have "(D + 1) sdiv 365 - 1 = yo" by simp
    then show ?thesis using False D' by (simp add: Let_def)
  qed
  let ?m = "noleap_find_month diy 12"
  have w: "1 \<le> ?m" "?m \<le> 12" "1 \<le> diy - cum_days ! nat (?m - 1) + 1"
      "diy - cum_days ! nat (?m - 1) + 1 \<le> noleap_month_table ! nat (?m - 1)"
    using month_walk [OF diy] by (simp_all add: month_walk_ok_def Let_def)
  have "noleap_month_table ! nat (?m - 1) \<le> 31"
    using cum_step [OF w(1,2)] by (simp add: cum_step_ok_def)
  moreover have "is_i32 yo" unfolding is_i32_def using D D' diy by (intro conjI; linarith)
  ultimately have casts: "wrap32 yo = yo" "is_i32 (yo + 2026)"
      "wrap32 (diy - cum_days ! nat (?m - 1)) = diy - cum_days ! nat (?m - 1)"
    using w D D' diy by (auto simp: is_i32_def)
  have "(y, m, d) = (yo + 2026, ?m, diy - cum_days ! nat (?m - 1) + 1)"
    using r unfolding noleap_civil_def split by (auto simp: casts Let_def)
  with w casts(2) D' show ?thesis
    by (simp add: civil_ok_def noleap_dim noleap_days_def)
qed

lemma noleap_days_mono:
  assumes "civil_ok noleap_days_in_month (y, m, d)" "civil_ok noleap_days_in_month (y', m', d')"
    and less: "civil_less (y, m, d) (y', m', d')"
  shows "noleap_days y m d < noleap_days y' m' d'"
proof -
  have m: "1 \<le> m" "m \<le> 12" "1 \<le> d" "d \<le> noleap_month_table ! nat (m - 1)"
    and m': "1 \<le> m'" "m' \<le> 12" "1 \<le> d'"
    using assms(1,2) by (auto simp: civil_ok_def noleap_dim split: sum.splits)
  note c = cum_mono [OF m(1,2) m'(1,2), unfolded cum_mono_ok_def]
  have "0 \<le> cum_days ! nat (m' - 1)" using cum_step [OF m'(1,2)] by (simp add: cum_step_ok_def)
  with c m m' less show ?thesis
    by (auto simp: civil_less_def noleap_days_def)
qed

lemma noleap_days_next:
  assumes "civil_ok noleap_days_in_month (y, m, d)"
    and "next_civil noleap_days_in_month (y, m, d) = (y', m', d')"
  shows "noleap_days y' m' d' = noleap_days y m d + 1"
proof -
  have m: "1 \<le> m" "m \<le> 12" using assms(1) by (auto simp: civil_ok_def)
  have "cum_days ! 0 = 0" by (simp add: cum_days_def)
  with assms cum_step [OF m] m show ?thesis
    by (auto simp: next_civil_def noleap_dim noleap_days_def cum_step_ok_def split: if_splits)
qed

section \<open>The calendar interface\<close>

lemma noleap_validate_iff:
  assumes "is_i32 (dt_year dt)"
  shows "noleap_validate dt = Inr u \<longleftrightarrow> valid_date_time NoLeap_Calendar dt"
proof -
  have "noleap_month_table ! 1 = 28" by (simp add: noleap_month_table_def)
  with assms show ?thesis
    by (auto simp: noleap_validate_def valid_date_time_def day_ok_def time_of_day_ok_def
        noleap_days_in_month_def split: if_splits)
qed

lemma noleap_validate_Inl: "noleap_validate dt = Inl e \<Longrightarrow> \<exists>msg. e = Invalid_argument msg"
  by (auto simp: noleap_validate_def noleap_days_in_month_def bindR_eq_Inl split: if_splits)

lemma noleap_to_time_point_instant:
  assumes "valid_date_time NoLeap_Calendar dt"
  shows "noleap_to_time_point dt = instant (noleap_days (dt_year dt) (dt_month dt) (dt_day dt)) dt"
proof -
  have "noleap_validate dt = Inr ()"
    using assms noleap_validate_iff [of dt] by (simp add: valid_date_time_def day_ok_def)
  moreover have "time_of_day_ok dt" using assms by (simp add: valid_date_time_def)
  ultimately show ?thesis
    by (simp add: noleap_to_time_point_def Let_def instant_chain)
qed

lemma trunc_to_floor:
  fixes n b :: int
  assumes "0 < b"
  shows "(if n smod b < 0 then (n sdiv b - 1, n smod b + b) else (n sdiv b, n smod b)) = (n div b, n mod b)"
proof (cases "0 \<le> n")
  case False
  have e: "n sdiv b = - ((- n) div b)" "n smod b = - ((- n) mod b)"
    using False assms by (simp_all add: sdiv_neg signed_modulo_int_def sgn_if)
  have r: "0 \<le> (- n) mod b" "(- n) mod b < b" using assms by simp_all
  then have "(- n) mod b = 0 \<or> 0 < (- n) mod b" by linarith
  then show ?thesis
    using e zmod_zminus1_eq_if [of "- n" b] zdiv_zminus1_eq_if [of b "- n"] assms by auto
qed (use assms in \<open>simp add: sdiv_nonneg smod_nonneg not_less\<close>)

lemma noleap_to_date_time_split:
  "noleap_to_date_time (Time_Point n) =
    Inr (date_with_nanos (noleap_civil (n div nanos_per_day)) (n mod nanos_per_day))"
proof -
  have s: "0 \<le> n mod nanos_per_day" "n mod nanos_per_day < nanos_per_day" by simp_all
  show ?thesis
    unfolding noleap_to_date_time_def Let_def Time_Point.sel trunc_to_floor [of nanos_per_day n, simplified]
    by (cases "noleap_civil (n div nanos_per_day)") (simp add: subday_casts [OF s] date_with_nanos_def)
qed

interpretation noleap: day_counting NoLeap_Calendar noleap_days noleap_civil
proof
  fix m y :: int
  assume "1 \<le> m" "m \<le> 12"
  then show "\<exists>d. cal_days_in_month NoLeap_Calendar y m = Inr d \<and> 28 \<le> d \<and> d \<le> 31"
    using cum_step [of m] by (simp add: noleap_dim cum_step_ok_def)
next
  fix dt
  assume "is_i32 (dt_year dt)" "\<not> valid_date_time NoLeap_Calendar dt"
  then obtain e where "noleap_validate dt = Inl e"
    using noleap_validate_iff by (cases "noleap_validate dt") auto
  then show "\<exists>msg. cal_to_time_point NoLeap_Calendar dt = Inl (Invalid_argument msg)"
    using noleap_validate_Inl by (fastforce simp: noleap_to_time_point_def)
next
  fix dt
  assume "valid_date_time NoLeap_Calendar dt"
  then show "cal_to_time_point NoLeap_Calendar dt =
      instant (noleap_days (dt_year dt) (dt_month dt) (dt_day dt)) dt"
    by (simp add: noleap_to_time_point_instant)
next
  fix n
  assume "is_i64 n" "- 9223286400000000000 \<le> n"
  show "cal_to_date_time NoLeap_Calendar (Time_Point n) =
      Inr (date_with_nanos (noleap_civil (n div nanos_per_day)) (n mod nanos_per_day))"
    by (simp add: noleap_to_date_time_split)
next
  fix D y m d
  assume "- 106751 \<le> D" "D \<le> 106751" "noleap_civil D = (y, m, d)"
  then show "civil_ok (cal_days_in_month NoLeap_Calendar) (y, m, d) \<and> is_i32 y \<and> noleap_days y m d = D"
    using noleap_civil_correct [of D y m d] by simp
next
  fix y m d y' m' d'
  assume "civil_ok (cal_days_in_month NoLeap_Calendar) (y, m, d)"
    "civil_ok (cal_days_in_month NoLeap_Calendar) (y', m', d')" "civil_less (y, m, d) (y', m', d')"
  then show "noleap_days y m d < noleap_days y' m' d'" by (simp add: noleap_days_mono)
next
  fix y m d y' m' d'
  assume "civil_ok (cal_days_in_month NoLeap_Calendar) (y, m, d)"
    "next_civil (cal_days_in_month NoLeap_Calendar) (y, m, d) = (y', m', d')"
  then show "noleap_days y' m' d' = noleap_days y m d + 1" by (simp add: noleap_days_next)
qed

section \<open>Properties\<close>

text \<open>
  The NoLeap calendar is an exact encoding: every time point from the first whole day of
  the 64-bit range on is decomposed into a valid date (so never 29 February), the date
  converts back to that time point, and one day later is the next date by month lengths.
\<close>

theorem noleap_roundtrip_counts_days:
  assumes "- 9223286400000000000 \<le> n" "is_i64 (n + nanos_per_day)"
  shows "\<exists>dt. noleap_to_date_time (Time_Point n) = Inr dt \<and> valid_date_time NoLeap_Calendar dt \<and>
    \<not> (dt_month dt = 2 \<and> dt_day dt = 29) \<and> noleap_to_time_point dt = Inr (Time_Point n) \<and>
    noleap_to_date_time (Time_Point (n + nanos_per_day)) = Inr (next_day noleap_days_in_month dt)"
proof -
  have i: "is_i64 n" using assms by (auto simp: is_i64_def)
  obtain dt where dt: "noleap_to_date_time (Time_Point n) = Inr dt"
    using noleap.to_dt_defined [OF i assms(1)] by (auto simp: is_ok_iff)
  have v: "valid_date_time NoLeap_Calendar dt"
    using noleap.to_dt_valid [of "Time_Point n" dt] dt i assms(1) by simp
  then have "\<not> (dt_month dt = 2 \<and> dt_day dt = 29)"
    by (auto simp: valid_date_time_def day_ok_def noleap_dim noleap_month_table_def)
  moreover have "noleap_to_time_point dt = Inr (Time_Point n)"
    using noleap.roundtrip [of "Time_Point n" dt] dt i assms(1) by simp
  ultimately show ?thesis
    using dt v noleap.to_dt_next [OF assms] by simp
qed

theorem noleap_roundtrip_counts_days_witness:
  "noleap_to_date_time (Time_Point (5011200000000000 + nanos_per_day)) =
     Inr (next_day noleap_days_in_month (mk_date_time 2026 2 28 0 0 0 0))"
proof -
  have "noleap_to_date_time (Time_Point 5011200000000000) = Inr (mk_date_time 2026 2 28 0 0 0 0)"
    by code_simp
  then show ?thesis
    using noleap_roundtrip_counts_days [of 5011200000000000] by (simp add: is_i64_def)
qed

lemma noleap_day_bounds:
  assumes v: "valid_date_time NoLeap_Calendar dt"
  shows "(dt_year dt - 2026) * 365 \<le> noleap_days (dt_year dt) (dt_month dt) (dt_day dt)"
    "noleap_days (dt_year dt) (dt_month dt) (dt_day dt) < (dt_year dt - 2025) * 365"
proof -
  have m: "1 \<le> dt_month dt" "dt_month dt \<le> 12" "1 \<le> dt_day dt"
      "dt_day dt \<le> noleap_month_table ! nat (dt_month dt - 1)"
    using v by (auto simp: valid_date_time_def day_ok_def noleap_dim split: sum.splits)
  have "0 \<le> cum_days ! nat (dt_month dt - 1)"
      "cum_days ! nat (dt_month dt - 1) + noleap_month_table ! nat (dt_month dt - 1) \<le> 365"
    using cum_step [OF m(1,2)] cum_mono [OF m(1,2) m(1,2)] by (simp_all add: cum_step_ok_def cum_mono_ok_def)
  then show "(dt_year dt - 2026) * 365 \<le> noleap_days (dt_year dt) (dt_month dt) (dt_day dt)"
    "noleap_days (dt_year dt) (dt_month dt) (dt_day dt) < (dt_year dt - 2025) * 365"
    using m by (simp_all add: noleap_days_def)
qed

lemma noleap_in_range:
  assumes v: "valid_date_time NoLeap_Calendar dt" and y: "1734 \<le> dt_year dt" "dt_year dt \<le> 2317"
  shows "\<exists>u. noleap_to_time_point dt = Inr u"
proof -
  have "\<bar>noleap_days (dt_year dt) (dt_month dt) (dt_day dt)\<bar> \<le> 106749"
    using noleap_day_bounds [OF v] y by (auto simp: abs_le_iff)
  then show ?thesis using noleap.to_tp_in_range [OF v, of 106749] by auto
qed

interpretation noleap_range: calendar_range NoLeap_Calendar
proof
  fix dt
  assume v: "valid_date_time NoLeap_Calendar dt" and y: "1737 \<le> dt_year dt" "dt_year dt \<le> 2315"
  have "\<bar>noleap_days (dt_year dt) (dt_month dt) (dt_day dt)\<bar> \<le> 105999"
    using noleap_day_bounds [OF v] y by (auto simp: abs_le_iff)
  then show "\<exists>u. cal_to_time_point NoLeap_Calendar dt = Inr u \<and> \<bar>tp_nanos u\<bar> \<le> 9158400000000000000"
    using noleap.to_tp_in_range [OF v, of 105999] by auto
next
  fix y u v
  assume "1737 \<le> y" "y \<le> 2314" "cal_to_time_point NoLeap_Calendar (mk_date_time y 1 1 0 0 0 0) = Inr u"
    "cal_to_time_point NoLeap_Calendar (mk_date_time (y + 1) 1 1 0 0 0 0) = Inr v"
  then show "tp_nanos v = tp_nanos u + cal_days_in_year NoLeap_Calendar y * nanos_per_day"
    using noleap.midnight_nanos [of y 1 1 u] noleap.midnight_nanos [of "y + 1" 1 1 v]
    by (simp add: is_i32_def noleap_days_in_year_def noleap_days_def)
next
  fix y
  show "cal_days_in_year NoLeap_Calendar y \<le> 366" by (simp add: noleap_days_in_year_def)
qed

text \<open>
  NoLeap month arithmetic lands exactly the requested number of months away, with the
  day clamped to the length of the target month and the time of day kept, for every
  target month in the years 1734 to 2317.
\<close>

theorem noleap_add_months_correct:
  assumes tp: "is_i64 (tp_nanos tp)" "- 9223286400000000000 \<le> tp_nanos tp" "noleap_to_date_time tp = Inr dt"
    and tm: "tm = dt_year dt * 12 + (dt_month dt - 1) + months" "20808 \<le> tm" "tm \<le> 27815"
  shows "\<exists>u. noleap_add_months tp months = Inr u \<and>
    noleap_to_date_time u = Inr (dt\<lparr>dt_year := tm div 12, dt_month := tm mod 12 + 1,
      dt_day := min (dt_day dt) (noleap_month_table ! nat (tm mod 12))\<rparr>)"
proof -
  have v: "valid_date_time NoLeap_Calendar dt"
    using noleap.to_dt_valid [OF tp(1,2)] tp(3) by simp
  have y: "1734 \<le> tm div 12" "tm div 12 \<le> 2317"
    using zdiv_mono1 [OF tm(2), of 12] zdiv_mono1 [OF tm(3), of 12] by simp_all
  then have i: "is_i32 (tm div 12)" by (simp add: is_i32_def)
  have m: "1 \<le> tm mod 12 + 1" "tm mod 12 + 1 \<le> 12"
    using pos_mod_bound [of 12 tm] pos_mod_sign [of 12 tm] by linarith+
  define k where "k = noleap_month_table ! nat (tm mod 12)"
  have k: "noleap_days_in_month (tm div 12) (tm mod 12 + 1) = Inr k"
    using noleap_dim [OF m] by (simp add: k_def)
  let ?d = "mk_date_time (tm div 12) (tm mod 12 + 1) (min (dt_day dt) k) (dt_hour dt)
    (dt_minute dt) (dt_second dt) (dt_nanosecond dt)"
  have vd: "valid_date_time NoLeap_Calendar ?d"
    using noleap.clamped_month_valid [OF v i m] k by simp
  then obtain u where u: "noleap_to_time_point ?d = Inr u"
    using noleap_in_range y by fastforce
  have t: "(dt_year dt - 1) * 12 + (dt_month dt - 1) + months = tm - 12" "is_i32 (tm - 12)"
    using tm by (simp_all add: is_i32_def)
  have "tm - 12 = tm + (- 1) * 12" by simp
  then have "(tm - 12) div 12 = tm div 12 - 1" "(tm - 12) mod 12 = tm mod 12"
    using div_mult_self1 [of 12 tm "- 1"] mod_mult_self1 [of tm "- 1" 12] by simp_all
  then have "(tm - 12) sdiv 12 + 1 = tm div 12" "(tm - 12) smod 12 + 1 = tm mod 12 + 1"
    using tm by (simp_all add: sdiv_nonneg smod_nonneg)
  then have "noleap_add_months tp months = noleap_to_time_point ?d"
    unfolding noleap_add_months_def tp(3) bindR_simps t(1) ub32_ok [OF t(2)]
    using k tm(2) by (simp add: Let_def min_def not_le)
  moreover have "noleap_to_date_time u = Inr ?d"
    using noleap.inverse [of ?d u] u i by simp
  moreover have "?d = dt\<lparr>dt_year := tm div 12, dt_month := tm mod 12 + 1, dt_day := min (dt_day dt) k\<rparr>"
    by (cases dt) (simp add: mk_date_time_def)
  ultimately show ?thesis unfolding k_def [symmetric] using u by metis
qed

theorem noleap_add_months_correct_witness:
  "\<exists>u. noleap_add_months (Time_Point 2592000000000000) 25 = Inr u \<and>
    noleap_to_date_time u = Inr (mk_date_time 2028 2 28 0 0 0 0)"
proof -
  have "noleap_to_date_time (Time_Point 2592000000000000) = Inr (mk_date_time 2026 1 31 0 0 0 0)" by code_simp
  then show ?thesis
    using noleap_add_months_correct [of "Time_Point 2592000000000000" "mk_date_time 2026 1 31 0 0 0 0" 24337 25]
    by (simp add: is_i64_def mk_date_time_def noleap_month_table_def)
qed

end
