(* ===== verification/Tick_Cal360.thy ===== *)
theory Tick_Cal360
  imports Tick_Calendar
begin

unbundle bit_operations_syntax

text \<open>
  TICK's 360-day calendar: \<^verbatim>\<open>tick/cal360_calendar.hpp\<close>. Twelve months of 30 days; month and
  year arithmetic are fixed shifts of the nanosecond count.
\<close>

section \<open>Operations\<close>

definition c360_epoch_year :: int where
  "c360_epoch_year = 2026"

definition c360_floor_div :: "int \<Rightarrow> int \<Rightarrow> int" where
  "c360_floor_div a b =
     (let q = a sdiv b; r = a smod b in if r \<noteq> 0 \<and> (r XOR b) < 0 then q - 1 else q)"

definition c360_civil :: "int \<Rightarrow> int \<times> int \<times> int" where
  "c360_civil day_offset =
     (let year_offset = wrap32 (c360_floor_div day_offset 360);
          day_in_year = day_offset - year_offset * 360;
          month = wrap32 (day_in_year sdiv 30) + 1;
          day = wrap32 (day_in_year smod 30) + 1
      in (c360_epoch_year + year_offset, month, day))"

definition c360_to_date_time :: "Time_Point \<Rightarrow> Date_Time result" where
  "c360_to_date_time tp =
     (let total_nanos = tp_nanos tp;
          day_offset = c360_floor_div total_nanos nanos_per_day
      in bindR (ub64 (day_offset * nanos_per_day)) (\<lambda>day_start.
        let sub_day_nanos = total_nanos - day_start;
            (year, month, day) = c360_civil day_offset;
            hour = wrap32 (sub_day_nanos sdiv nanos_per_hour);
            remainder = sub_day_nanos smod nanos_per_hour;
            minute = wrap32 (remainder sdiv nanos_per_minute);
            remainder' = remainder smod nanos_per_minute;
            second = wrap32 (remainder' sdiv nanos_per_second);
            nanosecond = wrap32 (remainder' smod nanos_per_second)
        in Inr (mk_date_time year month day hour minute second nanosecond)))"

definition c360_validate :: "Date_Time \<Rightarrow> unit result" where
  "c360_validate dt =
     (if dt_month dt < 1 \<or> dt_month dt > 12
      then Inl (Invalid_argument ''Invalid month: value not in range [1, 12]'')
      else if dt_day dt < 1 \<or> dt_day dt > 30
        then Inl (Invalid_argument ''Invalid day: value not in range [1, 30]'')
      else if dt_hour dt < 0 \<or> dt_hour dt > 23
        then Inl (Invalid_argument ''Invalid hour: value not in range [0, 23]'')
      else if dt_minute dt < 0 \<or> dt_minute dt > 59
        then Inl (Invalid_argument ''Invalid minute: value not in range [0, 59]'')
      else if dt_second dt < 0 \<or> dt_second dt > 59
        then Inl (Invalid_argument ''Invalid second: value not in range [0, 59]'')
      else if dt_nanosecond dt < 0 \<or> dt_nanosecond dt > 999999999
        then Inl (Invalid_argument ''Invalid nanosecond: value not in range [0, 999999999]'')
      else Inr ())"

definition c360_to_time_point :: "Date_Time \<Rightarrow> Time_Point result" where
  "c360_to_time_point dt =
     bindR (c360_validate dt) (\<lambda>_.
     bindR (ub32 (dt_year dt - c360_epoch_year)) (\<lambda>year_offset.
       let day_offset = year_offset * 360 + (dt_month dt - 1) * 30 + (dt_day dt - 1);
           sub_day_nanos = dt_hour dt * nanos_per_hour + dt_minute dt * nanos_per_minute +
             dt_second dt * nanos_per_second + dt_nanosecond dt
       in bindR (ub64 (day_offset * nanos_per_day)) (\<lambda>day_start.
          bindR (ub64 (day_start + sub_day_nanos)) (\<lambda>total_nanos.
            Inr (Time_Point total_nanos)))))"

definition c360_days_in_month :: "int \<Rightarrow> int \<Rightarrow> int result" where
  "c360_days_in_month year month =
     (if month < 1 \<or> month > 12 then Inl (Invalid_argument ''Invalid month: value not in range [1, 12]'')
      else Inr 30)"

definition c360_days_in_year :: "int \<Rightarrow> int" where
  "c360_days_in_year year = 360"

definition c360_add_months :: "Time_Point \<Rightarrow> int \<Rightarrow> Time_Point result" where
  "c360_add_months tp months =
     bindR (ub64 (months * 30 * nanos_per_day)) (\<lambda>shift.
     bindR (ub64 (tp_nanos tp + shift)) (\<lambda>n. Inr (Time_Point n)))"

definition c360_add_years :: "Time_Point \<Rightarrow> int \<Rightarrow> Time_Point result" where
  "c360_add_years tp years =
     bindR (ub64 (years * 360 * nanos_per_day)) (\<lambda>shift.
     bindR (ub64 (tp_nanos tp + shift)) (\<lambda>n. Inr (Time_Point n)))"

definition Cal360_Calendar :: calendar where
  "Cal360_Calendar =
     \<lparr>cal_kind = Cal360_Kind, cal_to_date_time = c360_to_date_time,
      cal_to_time_point = c360_to_time_point, cal_days_in_month = c360_days_in_month,
      cal_days_in_year = c360_days_in_year\<rparr>"

lemma Cal360_Calendar_sel [simp]:
  "cal_kind Cal360_Calendar = Cal360_Kind"
  "cal_to_date_time Cal360_Calendar = c360_to_date_time"
  "cal_to_time_point Cal360_Calendar = c360_to_time_point"
  "cal_days_in_month Cal360_Calendar = c360_days_in_month"
  "cal_days_in_year Cal360_Calendar = c360_days_in_year"
  by (simp_all add: Cal360_Calendar_def)

section \<open>Day numbers\<close>

definition c360_days :: "int \<Rightarrow> int \<Rightarrow> int \<Rightarrow> int" where
  "c360_days y m d = (y - 2026) * 360 + (m - 1) * 30 + (d - 1)"

lemma c360_floor_div_eq: "0 < b \<Longrightarrow> c360_floor_div a b = a div b"
proof -
  assume b: "0 < b"
  show ?thesis
  proof (cases "0 \<le> a")
    case False
    have "a smod b = - ((- a) mod b)" using False b by (simp add: signed_modulo_int_def sgn_if)
    moreover have "(- a) mod b = 0 \<or> 0 < (- a) mod b" using pos_mod_sign [OF b, of "- a"] by linarith
    moreover have "(- a) mod b = 0 \<longleftrightarrow> b dvd a" by (simp add: mod_eq_0_iff_dvd)
    ultimately show ?thesis
      using False b neg_div_ceiling [of a b] by (auto simp: c360_floor_div_def Let_def xor_negative_int_iff)
  qed (use b in \<open>simp add: c360_floor_div_def Let_def sdiv_nonneg smod_nonneg xor_negative_int_iff not_less\<close>)
qed

lemma c360_ok: "civil_ok c360_days_in_month (y, m, d) \<longleftrightarrow> 1 \<le> m \<and> m \<le> 12 \<and> 1 \<le> d \<and> d \<le> 30"
  by (auto simp: civil_ok_def c360_days_in_month_def)

lemma c360_civil_correct:
  assumes D: "\<bar>D\<bar> \<le> 100000000" and r: "c360_civil D = (y, m, d)"
  shows "civil_ok c360_days_in_month (y, m, d) \<and> is_i32 y \<and> c360_days y m d = D"
proof -
  define yo where "yo = D div 360"
  define diy where "diy = D mod 360"
  define mi where "mi = diy div 30"
  define di where "di = diy mod 30"
  have D': "D = 360 * yo + diy" and diy: "0 \<le> diy" "diy < 360" by (simp_all add: yo_def diy_def)
  have md: "diy = 30 * mi + di" "0 \<le> di" "di < 30" by (simp_all add: mi_def di_def)
  have i: "is_i32 yo" unfolding is_i32_def using D D' diy by (intro conjI; linarith)
  have mi: "0 \<le> mi" "mi \<le> 11" using md diy by linarith+
  have "D - yo * 360 = diy" using D' by simp
  then have "(y, m, d) = (2026 + yo, mi + 1, di + 1)"
    using r i mi md(2,3) diy(1)
    by (simp add: c360_civil_def c360_floor_div_eq Let_def yo_def [symmetric] sdiv_nonneg smod_nonneg
        mi_def [symmetric] di_def [symmetric] is_i32_def c360_epoch_year_def)
  moreover have "is_i32 (2026 + yo)" unfolding is_i32_def using D D' diy by (intro conjI; linarith)
  ultimately show ?thesis
    using D' md mi by (simp add: c360_ok c360_days_def)
qed

section \<open>The calendar interface\<close>

lemma c360_validate_iff:
  assumes "is_i32 (dt_year dt)"
  shows "c360_validate dt = Inr u \<longleftrightarrow> valid_date_time Cal360_Calendar dt"
  using assms
  by (auto simp: c360_validate_def valid_date_time_def day_ok_def time_of_day_ok_def c360_days_in_month_def
      split: if_splits)

lemma c360_validate_Inl: "c360_validate dt = Inl e \<Longrightarrow> \<exists>msg. e = Invalid_argument msg"
  by (auto simp: c360_validate_def split: if_splits)

lemma c360_to_time_point_instant:
  assumes v: "valid_date_time Cal360_Calendar dt"
  shows "c360_to_time_point dt = instant (c360_days (dt_year dt) (dt_month dt) (dt_day dt)) dt"
proof -
  have "c360_validate dt = Inr ()"
    using v c360_validate_iff [of dt] by (simp add: valid_date_time_def day_ok_def)
  moreover have m: "1 \<le> dt_month dt" "dt_month dt \<le> 12" "1 \<le> dt_day dt" "dt_day dt \<le> 30"
    using v by (auto simp: valid_date_time_def day_ok_def c360_days_in_month_def)
  moreover have "\<not> is_i32 (dt_year dt - 2026) \<Longrightarrow>
      \<not> is_i64 (c360_days (dt_year dt) (dt_month dt) (dt_day dt) * nanos_per_day)"
  proof -
    assume "\<not> is_i32 (dt_year dt - 2026)"
    moreover have "is_i32 (dt_year dt)" using v by (simp add: valid_date_time_def day_ok_def)
    ultimately have "dt_year dt - 2026 < - 2147483648" by (auto simp: is_i32_def)
    with m have "c360_days (dt_year dt) (dt_month dt) (dt_day dt) < - 200000"
      by (simp add: c360_days_def algebra_simps)
    then show ?thesis unfolding is_i64_def by linarith
  qed
  ultimately show ?thesis
    by (auto simp: c360_to_time_point_def instant_def Let_def c360_days_def c360_epoch_year_def
        nanos_of_day_def ub32_def ub64_def)
qed

lemma c360_to_date_time_split:
  assumes "is_i64 n" "- 9223286400000000000 \<le> n"
  shows "c360_to_date_time (Time_Point n) =
    Inr (date_with_nanos (c360_civil (n div nanos_per_day)) (n mod nanos_per_day))"
proof -
  have s: "0 \<le> n mod nanos_per_day" "n mod nanos_per_day < nanos_per_day" by simp_all
  have ub: "ub64 (n div nanos_per_day * nanos_per_day) = Inr (n div nanos_per_day * nanos_per_day)"
    by (rule ub64_ok [OF day_start_i64 [OF assms]])
  have sub: "n - n div nanos_per_day * nanos_per_day = n mod nanos_per_day"
    by (simp add: minus_div_mult_eq_mod)
  show ?thesis
    by (cases "c360_civil (n div nanos_per_day)")
      (simp add: c360_to_date_time_def c360_floor_div_eq Let_def ub sub subday_casts [OF s] date_with_nanos_def)
qed

interpretation c360: day_counting Cal360_Calendar c360_days c360_civil
proof
  fix m y :: int
  assume "1 \<le> m" "m \<le> 12"
  then show "\<exists>d. cal_days_in_month Cal360_Calendar y m = Inr d \<and> 28 \<le> d \<and> d \<le> 31"
    by (simp add: c360_days_in_month_def)
next
  fix dt
  assume "is_i32 (dt_year dt)" "\<not> valid_date_time Cal360_Calendar dt"
  then obtain e where "c360_validate dt = Inl e"
    using c360_validate_iff by (cases "c360_validate dt") auto
  then show "\<exists>msg. cal_to_time_point Cal360_Calendar dt = Inl (Invalid_argument msg)"
    using c360_validate_Inl by (fastforce simp: c360_to_time_point_def)
next
  fix dt
  assume "valid_date_time Cal360_Calendar dt"
  then show "cal_to_time_point Cal360_Calendar dt =
      instant (c360_days (dt_year dt) (dt_month dt) (dt_day dt)) dt"
    by (simp add: c360_to_time_point_instant)
next
  fix n
  assume "is_i64 n" "- 9223286400000000000 \<le> n"
  then show "cal_to_date_time Cal360_Calendar (Time_Point n) =
      Inr (date_with_nanos (c360_civil (n div nanos_per_day)) (n mod nanos_per_day))"
    by (simp add: c360_to_date_time_split)
next
  fix D y m d
  assume "- 106751 \<le> D" "D \<le> 106751" "c360_civil D = (y, m, d)"
  then show "civil_ok (cal_days_in_month Cal360_Calendar) (y, m, d) \<and> is_i32 y \<and> c360_days y m d = D"
    using c360_civil_correct [of D y m d] by simp
next
  fix y m d y' m' d'
  assume "civil_ok (cal_days_in_month Cal360_Calendar) (y, m, d)"
    "civil_ok (cal_days_in_month Cal360_Calendar) (y', m', d')" "civil_less (y, m, d) (y', m', d')"
  then show "c360_days y m d < c360_days y' m' d'"
    by (auto simp: c360_ok c360_days_def civil_less_def)
next
  fix y m d y' m' d'
  assume "civil_ok (cal_days_in_month Cal360_Calendar) (y, m, d)"
    "next_civil (cal_days_in_month Cal360_Calendar) (y, m, d) = (y', m', d')"
  then show "c360_days y' m' d' = c360_days y m d + 1"
    by (auto simp: c360_ok c360_days_def next_civil_def c360_days_in_month_def split: if_splits)
qed

interpretation c360_range: calendar_range Cal360_Calendar
proof
  fix dt
  assume v: "valid_date_time Cal360_Calendar dt" and y: "1737 \<le> dt_year dt" "dt_year dt \<le> 2315"
  have "1 \<le> dt_month dt" "dt_month dt \<le> 12" "1 \<le> dt_day dt" "dt_day dt \<le> 30"
    using v by (auto simp: valid_date_time_def day_ok_def c360_days_in_month_def)
  then have "\<bar>c360_days (dt_year dt) (dt_month dt) (dt_day dt)\<bar> \<le> 105999"
    using y by (auto simp: c360_days_def abs_le_iff)
  then show "\<exists>u. cal_to_time_point Cal360_Calendar dt = Inr u \<and> \<bar>tp_nanos u\<bar> \<le> 9158400000000000000"
    using c360.to_tp_in_range [OF v, of 105999] by auto
next
  fix y u v
  assume "1737 \<le> y" "y \<le> 2314" "cal_to_time_point Cal360_Calendar (mk_date_time y 1 1 0 0 0 0) = Inr u"
    "cal_to_time_point Cal360_Calendar (mk_date_time (y + 1) 1 1 0 0 0 0) = Inr v"
  then show "tp_nanos v = tp_nanos u + cal_days_in_year Cal360_Calendar y * nanos_per_day"
    using c360.midnight_nanos [of y 1 1 u] c360.midnight_nanos [of "y + 1" 1 1 v]
    by (simp add: is_i32_def c360_days_in_year_def c360_days_def)
next
  fix y
  show "cal_days_in_year Cal360_Calendar y \<le> 366" by (simp add: c360_days_in_year_def)
qed

section \<open>Properties\<close>

text \<open>
  The 360-day calendar is an exact encoding: every time point from the first whole day of
  the 64-bit range on is decomposed into a valid date, the date converts back to that
  time point, and one day later is the next date by month lengths.
\<close>

theorem cal360_roundtrip_counts_days:
  assumes "- 9223286400000000000 \<le> n" "is_i64 (n + nanos_per_day)"
  shows "\<exists>dt. c360_to_date_time (Time_Point n) = Inr dt \<and> valid_date_time Cal360_Calendar dt \<and>
    c360_to_time_point dt = Inr (Time_Point n) \<and>
    c360_to_date_time (Time_Point (n + nanos_per_day)) = Inr (next_day c360_days_in_month dt)"
proof -
  have i: "is_i64 n" using assms by (auto simp: is_i64_def)
  obtain dt where dt: "c360_to_date_time (Time_Point n) = Inr dt"
    using c360.to_dt_defined [OF i assms(1)] by (auto simp: is_ok_iff)
  have v: "valid_date_time Cal360_Calendar dt" "c360_to_time_point dt = Inr (Time_Point n)"
    using c360.to_dt_valid [of "Time_Point n" dt] c360.roundtrip [of "Time_Point n" dt] dt i assms(1) by simp_all
  then show ?thesis
    using dt c360.to_dt_next [OF assms] by simp
qed

theorem cal360_roundtrip_counts_days_witness:
  "\<exists>dt. c360_to_date_time (Time_Point (- 5)) = Inr dt \<and> valid_date_time Cal360_Calendar dt \<and>
    c360_to_time_point dt = Inr (Time_Point (- 5)) \<and>
    c360_to_date_time (Time_Point (- 5 + nanos_per_day)) = Inr (next_day c360_days_in_month dt)"
  by (rule cal360_roundtrip_counts_days) (simp_all add: is_i64_def)

text \<open>Shifting the day number by whole months shifts the month count and keeps the day.\<close>

lemma c360_civil_shift:
  assumes D: "\<bar>D\<bar> \<le> 106751" "\<bar>D + 30 * k\<bar> \<le> 106751" and c: "c360_civil D = (y, m, d)"
  shows "c360_civil (D + 30 * k) = ((12 * y + (m - 1) + k) div 12, (12 * y + (m - 1) + k) mod 12 + 1, d)"
proof -
  let ?t = "12 * y + (m - 1) + k"
  obtain y' m' d' where c': "c360_civil (D + 30 * k) = (y', m', d')" by (cases "c360_civil (D + 30 * k)")
  have ok: "civil_ok c360_days_in_month (y, m, d)" "c360_days y m d = D"
    using c360_civil_correct [OF _ c] D by auto
  have ok': "civil_ok c360_days_in_month (y', m', d')" "c360_days y' m' d' = D + 30 * k"
    using c360_civil_correct [OF _ c'] D by auto
  have b: "0 \<le> ?t mod 12" "?t mod 12 < 12" and t: "?t = 12 * (?t div 12) + ?t mod 12" by simp_all
  have "civil_ok c360_days_in_month (?t div 12, ?t mod 12 + 1, d)"
    using ok(1) b by (simp add: c360_ok)
  moreover have "c360_days (?t div 12) (?t mod 12 + 1) d = D + 30 * k"
    using ok(2) t unfolding c360_days_def ring_distribs by linarith
  ultimately show ?thesis
    using c360.dn_inj [of y' m' d' "?t div 12" "?t mod 12 + 1" d] ok' c' by simp
qed

text \<open>
  In the 360-day calendar a month shift is exact: whenever \<open>add_months\<close> returns, and it
  does whenever the shifted nanosecond count fits, the result has the same day and time
  of day, exactly the requested number of months away.
\<close>

theorem cal360_add_months_exact:
  assumes n: "is_i64 n" "- 9223286400000000000 \<le> n" "c360_to_date_time (Time_Point n) = Inr dt"
    and s: "is_i64 (months * 30 * nanos_per_day)" "is_i64 (n + months * 30 * nanos_per_day)"
      "- 9223286400000000000 \<le> n + months * 30 * nanos_per_day"
  shows "\<exists>u. c360_add_months (Time_Point n) months = Inr u \<and>
    c360_to_date_time u = Inr (dt\<lparr>dt_year := (12 * dt_year dt + (dt_month dt - 1) + months) div 12,
      dt_month := (12 * dt_year dt + (dt_month dt - 1) + months) mod 12 + 1\<rparr>)"
proof -
  let ?n' = "n + months * 30 * nanos_per_day"
  have sh: "?n' = n + (30 * months) * nanos_per_day" by simp
  then have dm: "?n' div nanos_per_day = n div nanos_per_day + 30 * months" "?n' mod nanos_per_day = n mod nanos_per_day"
    using div_mult_self1 [of nanos_per_day n "30 * months"] mod_mult_self1 [of n "30 * months" nanos_per_day]
    by (simp_all add: algebra_simps)
  obtain y m d where c: "c360_civil (n div nanos_per_day) = (y, m, d)"
    by (cases "c360_civil (n div nanos_per_day)")
  have dt: "dt = date_with_nanos (y, m, d) (n mod nanos_per_day)"
    using n(3) c360_to_date_time_split [OF n(1,2)] c by simp
  have "\<bar>n div nanos_per_day\<bar> \<le> 106751" "\<bar>n div nanos_per_day + 30 * months\<bar> \<le> 106751"
    using c360.day_range [OF n(1,2)] c360.day_range [OF s(2,3)] dm by (simp_all add: abs_le_iff)
  note shift = c360_civil_shift [OF this c]
  have "c360_to_date_time (Time_Point ?n') =
      Inr (date_with_nanos ((12 * y + (m - 1) + months) div 12, (12 * y + (m - 1) + months) mod 12 + 1, d)
        (n mod nanos_per_day))"
    using c360_to_date_time_split [OF s(2,3)] unfolding dm shift .
  moreover have "c360_add_months (Time_Point n) months = Inr (Time_Point ?n')"
    using s(1,2) by (simp add: c360_add_months_def ub64_ok)
  ultimately show ?thesis
    using dt by (simp add: date_with_nanos_def mk_date_time_def)
qed

theorem cal360_add_months_exact_witness:
  "\<exists>u. c360_add_months (Time_Point 0) (- 11) = Inr u \<and> c360_to_date_time u = Inr (mk_date_time 2025 2 1 0 0 0 0)"
proof -
  have "c360_to_date_time (Time_Point 0) = Inr (mk_date_time 2026 1 1 0 0 0 0)" by code_simp
  then show ?thesis
    using cal360_add_months_exact [of 0 "mk_date_time 2026 1 1 0 0 0 0" "- 11"]
    by (simp add: is_i64_def mk_date_time_def)
qed

end
