(* ===== verification/Tick_Window.thy ===== *)
theory Tick_Window
  imports Tick_Arith
begin

text \<open>
  TICK windows, alarms and synchronisation: \<^verbatim>\<open>tick/time_window.hpp\<close>,
  \<^verbatim>\<open>tick/absolute_alarm.hpp\<close>, \<^verbatim>\<open>tick/interval_alarm.hpp\<close>, \<^verbatim>\<open>tick/sync.hpp\<close> and
  \<^verbatim>\<open>tick/sync.cpp\<close>.

  The unchecked \<open>int64_t\<close> subtractions and products of the sources are passed through
  \<open>ub64\<close>, so each theorem says for which arguments the code is free of overflow.
\<close>

section \<open>Windows\<close>

record Time_Window =
  tw_start :: Time_Point
  tw_end :: Time_Point

definition mk_time_window :: "Time_Point \<Rightarrow> Time_Point \<Rightarrow> Time_Window result" where
  "mk_time_window start end =
     (if \<not> (start < end) then Inl (Invalid_argument ''Time_Window requires start < end'')
      else Inr \<lparr>tw_start = start, tw_end = end\<rparr>)"

definition mk_time_window_for :: "Time_Point \<Rightarrow> Duration \<Rightarrow> Time_Window result" where
  "mk_time_window_for start duration = bindR (time_point_plus start duration) (mk_time_window start)"

definition tw_contains :: "Time_Window \<Rightarrow> Time_Point \<Rightarrow> bool" where
  "tw_contains w t \<longleftrightarrow> t \<ge> tw_start w \<and> t < tw_end w"

definition tw_duration :: "Time_Window \<Rightarrow> Duration result" where
  "tw_duration w = mapR Duration (ub64 (tp_nanos (tw_end w) - tp_nanos (tw_start w)))"

definition is_on_boundary :: "Time_Point \<Rightarrow> Duration \<Rightarrow> bool result" where
  "is_on_boundary current_time interval =
     (if dur_nanos interval \<le> 0 then Inl (Invalid_argument ''is_on_boundary interval must be positive'')
      else Inr (tp_nanos current_time smod dur_nanos interval = 0))"

definition compute_window :: "Time_Point \<Rightarrow> Duration \<Rightarrow> Time_Window result" where
  "compute_window current_time interval =
     (if dur_nanos interval \<le> 0 then Inl (Invalid_argument ''compute_window interval must be positive'')
      else let nanos = tp_nanos current_time; iv = dur_nanos interval in
        bindR (if nanos \<ge> 0 then ub64 (nanos sdiv iv * iv)
               else bindR (ub64 (nanos - iv)) (\<lambda>a. bindR (ub64 (a + 1)) (\<lambda>b. ub64 (b sdiv iv * iv))))
          (\<lambda>floor_nanos.
             let floor_time = Time_Point floor_nanos in
             bindR (time_point_plus floor_time interval) (mk_time_window floor_time)))"

section \<open>Alarms\<close>

record Absolute_Alarm =
  aa_trigger_time :: Time_Point

definition aa_is_ringing :: "Absolute_Alarm \<Rightarrow> Time_Point \<Rightarrow> bool" where
  "aa_is_ringing a current_time \<longleftrightarrow> current_time = aa_trigger_time a"

definition aa_has_passed :: "Absolute_Alarm \<Rightarrow> Time_Point \<Rightarrow> bool" where
  "aa_has_passed a current_time \<longleftrightarrow> current_time > aa_trigger_time a"

record Interval_Alarm =
  ia_interval :: Duration
  ia_reference :: Time_Point

definition mk_interval_alarm :: "Duration \<Rightarrow> Time_Point \<Rightarrow> Interval_Alarm result" where
  "mk_interval_alarm interval reference =
     (if dur_nanos interval \<le> 0 then Inl (Invalid_argument ''Interval_Alarm interval must be positive'')
      else Inr \<lparr>ia_interval = interval, ia_reference = reference\<rparr>)"

definition ia_is_ringing :: "Interval_Alarm \<Rightarrow> Time_Point \<Rightarrow> bool result" where
  "ia_is_ringing a current_time =
     (if current_time \<ge> ia_reference a then
        bindR (ub64 (tp_nanos current_time - tp_nanos (ia_reference a))) (\<lambda>d.
          Inr (d smod dur_nanos (ia_interval a) = 0))
      else Inr False)"

definition ia_next_ring_at :: "Interval_Alarm \<Rightarrow> Time_Point \<Rightarrow> Time_Point result" where
  "ia_next_ring_at a current_time =
     (if current_time < ia_reference a then Inr (ia_reference a)
      else bindR (ub64 (tp_nanos current_time - tp_nanos (ia_reference a))) (\<lambda>elapsed.
        bindR (ub64 (elapsed sdiv dur_nanos (ia_interval a) + 1)) (\<lambda>n.
        bindR (ub64 (n * dur_nanos (ia_interval a))) (\<lambda>p.
        bindR (ub64 (tp_nanos (ia_reference a) + p)) (\<lambda>r.
          Inr (Time_Point r))))))"

section \<open>Synchronisation of time steps\<close>

text \<open>The loops over the time steps; the first argument is \<open>result\<close>.\<close>

fun heartbeat_loop :: "int \<Rightarrow> Duration list \<Rightarrow> int result" where
  "heartbeat_loop result [] = Inr result"
| "heartbeat_loop result (step # steps) =
     (if dur_nanos step \<le> 0 then Inl (Invalid_argument ''All time steps must be positive'')
      else heartbeat_loop (gcd result (dur_nanos step)) steps)"

definition compute_heartbeat :: "Duration list \<Rightarrow> Duration result" where
  "compute_heartbeat time_steps =
     (if time_steps = [] then Inl (Invalid_argument ''At least one time step required'')
      else mapR Duration (heartbeat_loop 0 time_steps))"

fun sync_period_loop :: "int \<Rightarrow> Duration list \<Rightarrow> int result" where
  "sync_period_loop result [] = Inr result"
| "sync_period_loop result (step # steps) =
     (if dur_nanos step \<le> 0 then Inl (Invalid_argument ''All time steps must be positive'')
      else let g = gcd result (dur_nanos step); dv = result sdiv g in
        if dur_nanos step \<noteq> 0 \<and> dv > int64_max sdiv dur_nanos step
        then Inl (Overflow_error ''Integer overflow in LCM computation'')
        else bindR (ub64 (dv * dur_nanos step)) (\<lambda>r. sync_period_loop r steps))"

definition compute_sync_period :: "Duration list \<Rightarrow> Duration result" where
  "compute_sync_period time_steps =
     (if time_steps = [] then Inl (Invalid_argument ''At least one time step required'')
      else mapR Duration (sync_period_loop 1 time_steps))"

definition is_phase_aligned :: "Time_Point \<Rightarrow> Time_Point \<Rightarrow> Duration \<Rightarrow> bool result" where
  "is_phase_aligned current_time base_time time_step =
     (if dur_nanos time_step \<le> 0 then Inl (Invalid_argument ''time_step must be positive'')
      else if current_time < base_time then Inr False
      else bindR (ub64 (tp_nanos current_time - tp_nanos base_time)) (\<lambda>d.
        Inr (d smod dur_nanos time_step = 0)))"

section \<open>Lemmas\<close>

lemma floor_multiple:
  fixes n iv :: int
  assumes "0 < iv"
  shows "n div iv * iv \<le> n" "n < n div iv * iv + iv" "iv dvd n div iv * iv"
proof -
  have "n = iv * (n div iv) + n mod iv" "0 \<le> n mod iv" "n mod iv < iv" using assms by simp_all
  then show "n div iv * iv \<le> n" "n < n div iv * iv + iv" by (simp_all only: mult.commute [of "n div iv"]; linarith)+
qed simp

lemma neg_floor_sdiv:
  fixes n iv :: int
  assumes "n < 0" "0 < iv"
  shows "(n - iv + 1) sdiv iv = n div iv"
proof (cases "n - iv + 1 = 0")
  case True
  then have "n = 0" using assms by simp
  then show ?thesis using assms by simp
next
  case False
  have "(n - iv + 1) sdiv iv = - ((iv - 1 - n) div iv)"
    using assms sdiv_neg [of "n - iv + 1" iv] by (simp add: algebra_simps)
  moreover have "- 1 < n mod iv" using pos_mod_sign [OF assms(2), of n] by linarith
  then have "(iv - 1 - n) div iv = - (n div iv)"
    using assms pos_mod_bound [of iv n]
    by (intro int_div_pos_eq [where r = "iv - 1 - n mod iv"])
       (simp_all add: minus_mod_eq_mult_div [symmetric])
  ultimately show ?thesis by simp
qed

text \<open>
  \<open>compute_window\<close> in closed form: undefined when the bias of a negative time by the interval
  leaves the type, an overflow error when the end of the window does.
\<close>

lemma compute_window_closed:
  assumes n: "is_i64 n" and iv: "is_i64 iv" "0 < iv"
  shows "compute_window (Time_Point n) (Duration iv) =
    (let f = n div iv * iv in
     if n < 0 \<and> n - iv < int64_min then Inl Undefined_behaviour
     else if f + iv > int64_max then Inl (Overflow_error ''Integer overflow in addition'')
     else Inr \<lparr>tw_start = Time_Point f, tw_end = Time_Point (f + iv)\<rparr>)"
proof -
  note fm = floor_multiple [OF iv(2), of n]
  have tail: "is_i64 f \<Longrightarrow> bindR (time_point_plus (Time_Point f) (Duration iv)) (mk_time_window (Time_Point f)) =
     (if f + iv > int64_max then Inl (Overflow_error ''Integer overflow in addition'')
      else Inr \<lparr>tw_start = Time_Point f, tw_end = Time_Point (f + iv)\<rparr>)" for f
    using iv by (auto simp: time_point_plus_def checked_runtime mk_time_window_def time_point_order(2) is_i64_def)
  show ?thesis
  proof (cases "0 \<le> n")
    case True
    have "0 \<le> n div iv * iv" using True iv by (simp add: pos_imp_zdiv_nonneg_iff)
    then have f: "is_i64 (n div iv * iv)" using fm n unfolding is_i64_def by linarith
    then show ?thesis
      using True iv tail [OF f] by (simp add: compute_window_def Let_def sdiv_nonneg ub64_ok)
  next
    case False
    show ?thesis
    proof (cases "n - iv < int64_min")
      case True
      then have "\<not> is_i64 (n - iv)" by (simp add: is_i64_def)
      then show ?thesis using True False iv by (simp add: compute_window_def Let_def ub64_def)
    next
      case no: False
      have i: "is_i64 (n - iv)" "is_i64 (n - iv + 1)" "is_i64 (n div iv * iv)"
        using no False n iv fm unfolding is_i64_def by (intro conjI; linarith)+
      show ?thesis
        using no False iv(2) tail [OF i(3)] neg_floor_sdiv [of n iv] i
        by (simp add: compute_window_def Let_def ub64_ok)
    qed
  qed
qed

lemma heartbeat_loop_Gcd:
  assumes "0 \<le> r"
  shows "heartbeat_loop r steps =
    (if \<forall>s \<in> set steps. 0 < dur_nanos s then Inr (gcd r (Gcd (dur_nanos ` set steps)))
     else Inl (Invalid_argument ''All time steps must be positive''))"
  using assms
proof (induction steps arbitrary: r)
  case (Cons s steps)
  then show ?case by (auto simp: gcd.assoc)
qed simp

lemma lcm_step:
  fixes r s :: int
  assumes "0 < r" "0 < s"
  shows "r sdiv gcd r s * s = lcm r s" "r sdiv gcd r s > int64_max sdiv s \<longleftrightarrow> int64_max < lcm r s"
proof -
  have g: "0 < gcd r s" using assms by (simp add: gcd_pos_int)
  then have d: "r sdiv gcd r s = r div gcd r s" using assms by (simp add: sdiv_nonneg)
  have "lcm r s = r div gcd r s * s"
    using assms by (simp add: lcm_altdef_int dvd_div_mult)
  then show *: "r sdiv gcd r s * s = lcm r s" using d by simp
  show "r sdiv gcd r s > int64_max sdiv s \<longleftrightarrow> int64_max < lcm r s"
    using sdiv_bound_pos [OF assms(2), of int64_max "r sdiv gcd r s"] * by simp
qed

lemma sync_loop_Lcm:
  assumes "0 < r" "r \<le> int64_max" "\<forall>s \<in> set steps. 0 < dur_nanos s"
  shows "sync_period_loop r steps =
    (if lcm r (Lcm (dur_nanos ` set steps)) \<le> int64_max then Inr (lcm r (Lcm (dur_nanos ` set steps)))
     else Inl (Overflow_error ''Integer overflow in LCM computation''))"
  using assms
proof (induction steps arbitrary: r)
  case Nil
  then show ?case by (simp add: abs_of_pos)
next
  case (Cons s steps)
  let ?l = "lcm r (dur_nanos s)" and ?L = "Lcm (dur_nanos ` set steps)"
  have s: "0 < dur_nanos s" "?L \<noteq> 0" using Cons.prems(3) by (auto simp: Lcm_0_iff)
  have pos: "0 < ?l" "0 < lcm ?l ?L"
    using lcm_pos_int [of r "dur_nanos s"] lcm_pos_int [of ?l ?L] Cons.prems(1) s by simp_all
  have assoc: "lcm r (Lcm (dur_nanos ` set (s # steps))) = lcm ?l ?L"
    by (simp add: lcm.assoc)
  have step: "sync_period_loop r (s # steps) =
    (if int64_max < ?l then Inl (Overflow_error ''Integer overflow in LCM computation'')
     else bindR (ub64 ?l) (\<lambda>r. sync_period_loop r steps))"
    using s lcm_step [OF Cons.prems(1) s(1)] by (simp add: Let_def)
  have le: "?l \<le> lcm ?l ?L" using pos by (simp add: zdvd_imp_le)
  show ?case
  proof (cases "int64_max < ?l")
    case True
    then show ?thesis using step le unfolding assoc by simp
  next
    case False
    then have i: "is_i64 ?l" using pos by (simp add: is_i64_def)
    show ?thesis
      using False Cons.IH [of ?l] Cons.prems(3) pos(1) unfolding assoc step ub64_ok [OF i] by simp
  qed
qed

section \<open>Properties\<close>

text \<open>
  C21. \<open>compute_window\<close> returns the one window of the interval grid that contains the time:
  it starts at a multiple of the interval, lasts exactly the interval and contains the
  time, and any other such window equals it. The only failures are an overflow of the
  window's end and the overflow of the bias of a negative time.
\<close>

theorem compute_window_correct:
  assumes n: "is_i64 n" and iv: "is_i64 iv" "0 < iv" and bias: "0 \<le> n \<or> int64_min + iv \<le> n"
    and fits: "n div iv * iv + iv \<le> int64_max"
  shows "\<exists>w. compute_window (Time_Point n) (Duration iv) = Inr w \<and> tw_contains w (Time_Point n) \<and>
    iv dvd tp_nanos (tw_start w) \<and> tp_nanos (tw_end w) = tp_nanos (tw_start w) + iv \<and>
    (\<forall>w'. tw_contains w' (Time_Point n) \<and> iv dvd tp_nanos (tw_start w') \<and>
      tp_nanos (tw_end w') = tp_nanos (tw_start w') + iv \<longrightarrow> w' = w)"
proof -
  let ?f = "n div iv * iv"
  let ?w = "\<lparr>tw_start = Time_Point ?f, tw_end = Time_Point (?f + iv)\<rparr>"
  note fm = floor_multiple [OF iv(2), of n]
  have "compute_window (Time_Point n) (Duration iv) = Inr ?w"
    using compute_window_closed [OF n iv] bias fits by (auto simp: Let_def)
  moreover have "w' = ?w"
    if "tw_contains w' (Time_Point n)" "iv dvd tp_nanos (tw_start w')"
      "tp_nanos (tw_end w') = tp_nanos (tw_start w') + iv" for w' :: Time_Window
  proof -
    note dvd = that(2)
    obtain q where q: "tp_nanos (tw_start w') = iv * q" using dvd by (rule dvdE)
    have "iv * q \<le> n" "n < iv * q + iv"
      using that q by (simp_all add: tw_contains_def time_order_defs)
    then have "n div iv = q"
      by (intro int_div_pos_eq [where r = "n - iv * q"]) auto
    then show ?thesis
      using q that(3) by (cases w'; cases "tw_start w'"; cases "tw_end w'") (simp add: mult.commute)
  qed
  ultimately show ?thesis
    using fm by (intro exI [of _ ?w]) (auto simp: tw_contains_def time_order_defs)
qed

theorem compute_window_correct_witness:
  "compute_window (Time_Point (- 5)) (Duration 3) = Inr \<lparr>tw_start = Time_Point (- 6), tw_end = Time_Point (- 3)\<rparr> \<and>
   (\<exists>w. compute_window (Time_Point (- 5)) (Duration 3) = Inr w \<and> tw_contains w (Time_Point (- 5)))"
proof
  show "compute_window (Time_Point (- 5)) (Duration 3) = Inr \<lparr>tw_start = Time_Point (- 6), tw_end = Time_Point (- 3)\<rparr>"
    by code_simp
  show "\<exists>w. compute_window (Time_Point (- 5)) (Duration 3) = Inr w \<and> tw_contains w (Time_Point (- 5))"
    using compute_window_correct [of "- 5" 3] by (auto simp: is_i64_def)
qed

text \<open>
  An interval alarm's \<open>next_ring_at\<close> is the first ring after the current time: it rings
  there, it is later than the current time, and no time strictly in between rings, as long as the
  time of that ring and its distance from the reference fit the type.
\<close>

theorem next_ring_first:
  assumes a: "mk_interval_alarm (Duration iv) (Time_Point r) = Inr a" and iv: "is_i64 iv" and r: "is_i64 r"
    and c: "is_i64 c" "c - r \<le> int64_max - iv" and fits: "c + iv \<le> int64_max"
  shows "\<exists>t. ia_next_ring_at a (Time_Point c) = Inr t \<and> Time_Point c < t \<and>
    ia_is_ringing a t = Inr True \<and>
    (\<forall>u. Time_Point c < u \<and> u < t \<longrightarrow> ia_is_ringing a u = Inr False)"
proof (cases "c < r")
  case True
  have ad: "a = \<lparr>ia_interval = Duration iv, ia_reference = Time_Point r\<rparr>" and pos: "0 < iv"
    using a by (auto simp: mk_interval_alarm_def split: if_splits)
  then show ?thesis
    using True by (auto simp: ia_next_ring_at_def ia_is_ringing_def time_order_defs ub64_def is_i64_def
        smod_eq_0_iff)
next
  case False
  have ad: "a = \<lparr>ia_interval = Duration iv, ia_reference = Time_Point r\<rparr>" and pos: "0 < iv"
    using a by (auto simp: mk_interval_alarm_def split: if_splits)
  define e where "e = c - r"
  define n where "n = e div iv + 1"
  have e: "0 \<le> e" "is_i64 e" using False c pos by (auto simp: e_def is_i64_def)
  note fm = floor_multiple [OF pos, of e]
  have p: "n * iv = e div iv * iv + iv" by (simp add: n_def ring_distribs)
  have "0 \<le> e div iv" using e pos by (simp add: pos_imp_zdiv_nonneg_iff)
  moreover have "e div iv \<le> e div iv * iv" using calculation pos by (simp add: mult_le_cancel_left1)
  ultimately have i: "is_i64 n" "is_i64 (n * iv)" "is_i64 (r + n * iv)"
    using fm p c pos e r fits unfolding is_i64_def e_def n_def by linarith+
  have t: "ia_next_ring_at a (Time_Point c) = Inr (Time_Point (r + n * iv))"
    using False i e pos by (simp add: ad ia_next_ring_at_def time_order_defs ub64_ok e_def [symmetric]
        sdiv_nonneg n_def [symmetric])
  moreover have "c < r + n * iv" using fm(2) p by (simp add: e_def)
  moreover have "ia_is_ringing a (Time_Point (r + n * iv)) = Inr True"
    using i pos \<open>c < r + n * iv\<close> False
    by (simp add: ad ia_is_ringing_def time_order_defs ub64_ok smod_eq_0_iff)
  moreover have "ia_is_ringing a u = Inr False" if "Time_Point c < u" "u < Time_Point (r + n * iv)" for u
  proof -
    obtain x where u: "u = Time_Point x" by (cases u)
    have x: "e div iv * iv < x - r" "x - r < e div iv * iv + iv" "r \<le> x"
      using that fm(1) p False by (simp_all add: u time_order_defs e_def)
    have "\<not> iv dvd x - r"
    proof
      assume "iv dvd x - r"
      then have "iv dvd x - r - e div iv * iv" by simp
      then show False using zdvd_imp_le [of iv "x - r - e div iv * iv"] x by simp
    qed
    moreover have "is_i64 (x - r)" using x i(2) p e fm(1) unfolding is_i64_def by linarith
    ultimately show ?thesis
      using x pos by (simp add: u ad ia_is_ringing_def time_order_defs ub64_ok smod_eq_0_iff)
  qed
  ultimately show ?thesis by (auto simp: time_order_defs)
qed

theorem next_ring_first_witness:
  "\<exists>t. ia_next_ring_at \<lparr>ia_interval = Duration 10, ia_reference = Time_Point 3\<rparr> (Time_Point 14) = Inr t \<and>
    Time_Point 14 < t \<and> ia_is_ringing \<lparr>ia_interval = Duration 10, ia_reference = Time_Point 3\<rparr> t = Inr True"
  using next_ring_first [of 10 3 "\<lparr>ia_interval = Duration 10, ia_reference = Time_Point 3\<rparr>" 14]
  by (auto simp: mk_interval_alarm_def is_i64_def)

text \<open>
  The heartbeat of a set of time steps is their greatest common divisor and the
  synchronisation period their least common multiple; the overflow error is raised
  exactly when the least common multiple does not fit, and no other overflow occurs.
\<close>

theorem heartbeat_and_sync_period:
  assumes "steps \<noteq> []" and pos: "\<forall>s \<in> set steps. 0 < dur_nanos s"
  shows "compute_heartbeat steps = Inr (Duration (Gcd (dur_nanos ` set steps))) \<and>
    compute_sync_period steps =
      (if Lcm (dur_nanos ` set steps) \<le> int64_max then Inr (Duration (Lcm (dur_nanos ` set steps)))
       else Inl (Overflow_error ''Integer overflow in LCM computation''))"
  using assms heartbeat_loop_Gcd [of 0 steps] sync_loop_Lcm [of 1 steps]
  by (simp add: compute_heartbeat_def compute_sync_period_def)

theorem heartbeat_and_sync_period_witness:
  "compute_heartbeat [Duration 12, Duration 18] = Inr (Duration 6) \<and>
   compute_sync_period [Duration 12, Duration 18] = Inr (Duration 36)"
proof -
  have "compute_heartbeat [Duration 12, Duration 18] = Inr (Duration (Gcd {12, 18})) \<and>
    compute_sync_period [Duration 12, Duration 18] =
      (if Lcm {12, 18} \<le> int64_max then Inr (Duration (Lcm {12, 18}))
       else Inl (Overflow_error ''Integer overflow in LCM computation''))"
    using heartbeat_and_sync_period [of "[Duration 12, Duration 18]"] by simp
  moreover have "Gcd {12, 18 :: int} = 6" "Lcm {12, 18 :: int} = 36"
    by (simp_all, code_simp+)
  ultimately show ?thesis by simp
qed

lemma empty_steps_rejected:
  "compute_heartbeat [] = Inl (Invalid_argument ''At least one time step required'')"
  "compute_sync_period [] = Inl (Invalid_argument ''At least one time step required'')"
  by (simp_all add: compute_heartbeat_def compute_sync_period_def)

end
