(* ===== verification/Tick_C_Api.thy ===== *)
theory Tick_C_Api
  imports Tick_Gregorian Tick_NoLeap Tick_Cal360 Tick_Window
begin

text \<open>
  TICK's C interface: \<^verbatim>\<open>tick/tick_c.h\<close> and \<^verbatim>\<open>tick_c_api.cpp\<close>.

  A function of the interface takes an out-pointer, of which the model keeps whether it is
  non-null, and yields the status code together with the value stored through the
  pointer, if any. Undefined behaviour inside the body is the left value. The firewall
  macro \<open>TICK_C_TRY\<close> is \<open>c_try\<close>; the two calendar functions with a different order of
  handlers use \<open>c_try_date\<close>. A calendar code is the underlying integer of
  \<open>tick_calendar_t\<close>.
\<close>

section \<open>Status codes and the exception firewall\<close>

datatype tick_status =
    TICK_OK
  | TICK_ERR_OVERFLOW
  | TICK_ERR_INVALID_ARG
  | TICK_ERR_INVALID_CALENDAR
  | TICK_ERR_INVALID_DATE
  | TICK_ERR_INTERNAL

primrec tick_status_code :: "tick_status \<Rightarrow> int" where
  "tick_status_code TICK_OK = 0"
| "tick_status_code TICK_ERR_OVERFLOW = 1"
| "tick_status_code TICK_ERR_INVALID_ARG = 2"
| "tick_status_code TICK_ERR_INVALID_CALENDAR = 3"
| "tick_status_code TICK_ERR_INVALID_DATE = 4"
| "tick_status_code TICK_ERR_INTERNAL = 5"

definition tick_strerror :: "int \<Rightarrow> string" where
  "tick_strerror status =
     (if status = 0 then ''success''
      else if status = 1 then ''integer overflow''
      else if status = 2 then ''invalid argument''
      else if status = 3 then ''invalid calendar''
      else if status = 4 then ''invalid date''
      else if status = 5 then ''internal error''
      else ''unknown error'')"

type_synonym 'a capi = "exn + tick_status \<times> 'a option"

fun c_try :: "'a result \<Rightarrow> 'a capi" where
  "c_try (Inr v) = Inr (TICK_OK, Some v)"
| "c_try (Inl (Overflow_error _)) = Inr (TICK_ERR_OVERFLOW, None)"
| "c_try (Inl (Invalid_argument _)) = Inr (TICK_ERR_INVALID_ARG, None)"
| "c_try (Inl (Out_of_range _)) = Inr (TICK_ERR_INTERNAL, None)"
| "c_try (Inl (Runtime_error _)) = Inr (TICK_ERR_INTERNAL, None)"
| "c_try (Inl Undefined_behaviour) = Inl Undefined_behaviour"

fun c_try_date :: "'a result \<Rightarrow> 'a capi" where
  "c_try_date (Inr v) = Inr (TICK_OK, Some v)"
| "c_try_date (Inl (Invalid_argument _)) = Inr (TICK_ERR_INVALID_DATE, None)"
| "c_try_date (Inl (Overflow_error _)) = Inr (TICK_ERR_OVERFLOW, None)"
| "c_try_date (Inl (Out_of_range _)) = Inr (TICK_ERR_INTERNAL, None)"
| "c_try_date (Inl (Runtime_error _)) = Inr (TICK_ERR_INTERNAL, None)"
| "c_try_date (Inl Undefined_behaviour) = Inl Undefined_behaviour"

definition c_call :: "bool \<Rightarrow> 'a result \<Rightarrow> 'a capi" where
  "c_call out body = (if \<not> out then Inr (TICK_ERR_INVALID_ARG, None) else c_try body)"

definition bool_to_int :: "bool \<Rightarrow> int" where
  "bool_to_int b = (if b then 1 else 0)"

section \<open>Time points and durations\<close>

definition tick_time_point_create :: "int \<Rightarrow> bool \<Rightarrow> int capi" where
  "tick_time_point_create nanos out =
     c_call out (Inr (tp_nanos (Time_Point nanos)))"

definition tick_time_point_add_duration :: "int \<Rightarrow> int \<Rightarrow> bool \<Rightarrow> int capi" where
  "tick_time_point_add_duration tp dur out =
     c_call out (mapR tp_nanos (time_point_plus (Time_Point tp) (Duration dur)))"

definition tick_time_point_sub_duration :: "int \<Rightarrow> int \<Rightarrow> bool \<Rightarrow> int capi" where
  "tick_time_point_sub_duration tp dur out =
     c_call out (mapR tp_nanos (time_point_minus (Time_Point tp) (Duration dur)))"

definition tick_time_point_diff :: "int \<Rightarrow> int \<Rightarrow> bool \<Rightarrow> int capi" where
  "tick_time_point_diff lhs rhs out =
     c_call out (mapR dur_nanos (time_point_diff (Time_Point lhs) (Time_Point rhs)))"

definition tick_time_point_compare :: "int \<Rightarrow> int \<Rightarrow> bool \<Rightarrow> int capi" where
  "tick_time_point_compare lhs rhs out =
     c_call out (Inr (if Time_Point lhs < Time_Point rhs then - 1 else if Time_Point lhs > Time_Point rhs then 1 else 0))"

definition tick_duration_from_nanos :: "int \<Rightarrow> bool \<Rightarrow> int capi" where
  "tick_duration_from_nanos nanos out =
     c_call out (Inr nanos)"

definition tick_duration_from_seconds :: "int \<Rightarrow> bool \<Rightarrow> int capi" where
  "tick_duration_from_seconds count out =
     c_call out (checked_mul False count nanos_per_second)"

definition tick_duration_from_minutes :: "int \<Rightarrow> bool \<Rightarrow> int capi" where
  "tick_duration_from_minutes count out =
     c_call out (checked_mul False count nanos_per_minute)"

definition tick_duration_from_hours :: "int \<Rightarrow> bool \<Rightarrow> int capi" where
  "tick_duration_from_hours count out =
     c_call out (checked_mul False count nanos_per_hour)"

definition tick_duration_from_days :: "int \<Rightarrow> bool \<Rightarrow> int capi" where
  "tick_duration_from_days count out =
     c_call out (checked_mul False count nanos_per_day)"

definition tick_duration_add :: "int \<Rightarrow> int \<Rightarrow> bool \<Rightarrow> int capi" where
  "tick_duration_add lhs rhs out =
     c_call out (mapR dur_nanos (duration_plus (Duration lhs) (Duration rhs)))"

definition tick_duration_sub :: "int \<Rightarrow> int \<Rightarrow> bool \<Rightarrow> int capi" where
  "tick_duration_sub lhs rhs out =
     c_call out (mapR dur_nanos (duration_minus (Duration lhs) (Duration rhs)))"

definition tick_duration_mul :: "int \<Rightarrow> int \<Rightarrow> bool \<Rightarrow> int capi" where
  "tick_duration_mul dur scalar out =
     c_call out (mapR dur_nanos (duration_times (Duration dur) scalar))"

definition tick_duration_div :: "int \<Rightarrow> int \<Rightarrow> bool \<Rightarrow> int capi" where
  "tick_duration_div dur scalar out =
     c_call out (mapR dur_nanos (duration_divide (Duration dur) scalar))"

section \<open>Calendars\<close>

definition calendar_of_code :: "int \<Rightarrow> calendar option" where
  "calendar_of_code cal =
     (if cal = 0 then Some Gregorian_Calendar
      else if cal = 1 then Some NoLeap_Calendar
      else if cal = 2 then Some Cal360_Calendar
      else None)"

definition tick_to_date_time :: "int \<Rightarrow> int \<Rightarrow> bool \<Rightarrow> Date_Time capi" where
  "tick_to_date_time tp cal out =
     (if \<not> out then Inr (TICK_ERR_INVALID_ARG, None)
      else case calendar_of_code cal of
        None \<Rightarrow> Inr (TICK_ERR_INVALID_CALENDAR, None)
      | Some C \<Rightarrow> c_try (cal_to_date_time C (Time_Point tp)))"

definition tick_to_time_point :: "Date_Time \<Rightarrow> int \<Rightarrow> bool \<Rightarrow> int capi" where
  "tick_to_time_point dt cal out =
     (if \<not> out then Inr (TICK_ERR_INVALID_ARG, None)
      else case calendar_of_code cal of
        None \<Rightarrow> Inr (TICK_ERR_INVALID_CALENDAR, None)
      | Some C \<Rightarrow> c_try_date (mapR tp_nanos (cal_to_time_point C dt)))"

definition tick_days_in_month :: "int \<Rightarrow> int \<Rightarrow> int \<Rightarrow> bool \<Rightarrow> int capi" where
  "tick_days_in_month cal year month out =
     (if \<not> out then Inr (TICK_ERR_INVALID_ARG, None)
      else case calendar_of_code cal of
        None \<Rightarrow> Inr (TICK_ERR_INVALID_CALENDAR, None)
      | Some C \<Rightarrow> c_try_date (cal_days_in_month C year month))"

definition tick_days_in_year :: "int \<Rightarrow> int \<Rightarrow> bool \<Rightarrow> int capi" where
  "tick_days_in_year cal year out =
     (if \<not> out then Inr (TICK_ERR_INVALID_ARG, None)
      else case calendar_of_code cal of
        None \<Rightarrow> Inr (TICK_ERR_INVALID_CALENDAR, None)
      | Some C \<Rightarrow> c_try (Inr (cal_days_in_year C year)))"

section \<open>Alarms, synchronisation and windows\<close>

definition tick_interval_alarm_is_ringing :: "int \<Rightarrow> int \<Rightarrow> int \<Rightarrow> bool \<Rightarrow> int capi" where
  "tick_interval_alarm_is_ringing interval reference current out =
     c_call out (bindR (mk_interval_alarm (Duration interval) (Time_Point reference)) (\<lambda>alarm.
       mapR bool_to_int (ia_is_ringing alarm (Time_Point current))))"

definition tick_interval_alarm_next_ring :: "int \<Rightarrow> int \<Rightarrow> int \<Rightarrow> bool \<Rightarrow> int capi" where
  "tick_interval_alarm_next_ring interval reference current out =
     c_call out (bindR (mk_interval_alarm (Duration interval) (Time_Point reference)) (\<lambda>alarm.
       mapR tp_nanos (ia_next_ring_at alarm (Time_Point current))))"

definition tick_absolute_alarm_is_ringing :: "int \<Rightarrow> int \<Rightarrow> bool \<Rightarrow> int capi" where
  "tick_absolute_alarm_is_ringing trigger current out =
     c_call out (Inr (bool_to_int (aa_is_ringing \<lparr>aa_trigger_time = Time_Point trigger\<rparr> (Time_Point current))))"

text \<open>
  The array arguments: \<open>None\<close> is a null pointer; the caller guarantees that \<open>count\<close> elements
  are readable, so the array is a list of at least that length.
\<close>

definition tick_compute_heartbeat :: "int list option \<Rightarrow> int \<Rightarrow> bool \<Rightarrow> int capi" where
  "tick_compute_heartbeat timesteps count out =
     (case timesteps of
        None \<Rightarrow> Inr (TICK_ERR_INVALID_ARG, None)
      | Some ts \<Rightarrow>
          if count \<le> 0 then Inr (TICK_ERR_INVALID_ARG, None)
          else c_call out (mapR dur_nanos (compute_heartbeat (map Duration (take (nat count) ts)))))"

definition tick_compute_sync_period :: "int list option \<Rightarrow> int \<Rightarrow> bool \<Rightarrow> int capi" where
  "tick_compute_sync_period timesteps count out =
     (case timesteps of
        None \<Rightarrow> Inr (TICK_ERR_INVALID_ARG, None)
      | Some ts \<Rightarrow>
          if count \<le> 0 then Inr (TICK_ERR_INVALID_ARG, None)
          else c_call out (mapR dur_nanos (compute_sync_period (map Duration (take (nat count) ts)))))"

definition tick_is_phase_aligned :: "int \<Rightarrow> int \<Rightarrow> int \<Rightarrow> bool \<Rightarrow> int capi" where
  "tick_is_phase_aligned current base timestep out =
     c_call out (mapR bool_to_int (is_phase_aligned (Time_Point current) (Time_Point base) (Duration timestep)))"

definition tick_is_on_boundary :: "int \<Rightarrow> int \<Rightarrow> bool \<Rightarrow> int capi" where
  "tick_is_on_boundary current interval out =
     c_call out (mapR bool_to_int (is_on_boundary (Time_Point current) (Duration interval)))"

definition tick_compute_window :: "int \<Rightarrow> int \<Rightarrow> bool \<Rightarrow> bool \<Rightarrow> (int \<times> int) capi" where
  "tick_compute_window current interval out_start out_end =
     c_call (out_start \<and> out_end)
       (mapR (\<lambda>w. (tp_nanos (tw_start w), tp_nanos (tw_end w)))
         (compute_window (Time_Point current) (Duration interval)))"

definition tick_window_contains :: "int \<Rightarrow> int \<Rightarrow> int \<Rightarrow> bool \<Rightarrow> int capi" where
  "tick_window_contains win_start win_end query out =
     c_call out (mapR (\<lambda>w. bool_to_int (tw_contains w (Time_Point query)))
       (mk_time_window (Time_Point win_start) (Time_Point win_end)))"

section \<open>Properties\<close>

lemma c_try_ok: "c_try r = Inr (TICK_OK, v) \<longleftrightarrow> (\<exists>x. r = Inr x \<and> v = Some x)"
  by (cases r rule: c_try.cases) auto

lemma c_try_date_ok: "c_try_date r = Inr (TICK_OK, v) \<longleftrightarrow> (\<exists>x. r = Inr x \<and> v = Some x)"
  by (cases r rule: c_try_date.cases) auto

lemma c_try_stores: "c_try r = Inr (st, v) \<Longrightarrow> (st = TICK_OK) = (v \<noteq> None)"
  by (cases r rule: c_try.cases) auto

lemma c_call_stores: "c_call out r = Inr (st, v) \<Longrightarrow> (st = TICK_OK) = (v \<noteq> None)"
  by (auto simp: c_call_def c_try_stores split: if_splits)

lemma calendar_of_code_laws:
  assumes "calendar_of_code cal = Some C"
  shows "calendar_laws C"
  using assms greg.calendar_laws_axioms noleap.calendar_laws_axioms c360.calendar_laws_axioms
  by (auto simp: calendar_of_code_def split: if_splits)

lemma valid_instant_Inl:
  assumes "calendar_of_code cal = Some C" "valid_date_time C dt" "cal_to_time_point C dt = Inl e"
  shows "e = Undefined_behaviour"
  using assms greg.to_tp_instant [of dt] noleap.to_tp_instant [of dt] c360.to_tp_instant [of dt]
  by (auto simp: calendar_of_code_def instant_def split: if_splits)

text \<open>
  Across the C interface the three calendars are lossless: for a valid calendar code and
  every time point from the first whole day of the 64-bit range on, the date-time call
  returns \<open>TICK_OK\<close> and a date from which the time-point call returns \<open>TICK_OK\<close> and
  the original nanosecond count.
\<close>

theorem c_api_calendar_roundtrip:
  assumes cal: "cal \<in> {0, 1, 2}" and n: "is_i64 n" "- 9223286400000000000 \<le> n"
  shows "\<exists>dt. tick_to_date_time n cal True = Inr (TICK_OK, Some dt) \<and>
    tick_to_time_point dt cal True = Inr (TICK_OK, Some n)"
proof -
  obtain C where C: "calendar_of_code cal = Some C"
    using cal by (auto simp: calendar_of_code_def)
  note laws = calendar_of_code_laws [OF C]
  obtain dt where dt: "cal_to_date_time C (Time_Point n) = Inr dt"
    using calendar_laws.to_dt_defined [OF laws n] by (auto simp: is_ok_iff)
  have "cal_to_time_point C dt = Inr (Time_Point n)"
    using calendar_laws.roundtrip [OF laws, of "Time_Point n" dt] n dt by simp
  with C dt show ?thesis
    by (auto simp: tick_to_date_time_def tick_to_time_point_def)
qed

theorem c_api_calendar_roundtrip_witness:
  "\<exists>dt. tick_to_date_time (- 7) 2 True = Inr (TICK_OK, Some dt) \<and>
    tick_to_time_point dt 2 True = Inr (TICK_OK, Some (- 7))"
  by (rule c_api_calendar_roundtrip) (simp_all add: is_i64_def)

text \<open>
  The C interface separates its error classes: a null out-pointer, an unknown calendar
  and an invalid date have their own status each, nothing is stored in those cases, and a
  conversion that succeeds stores the time point of the calendar named by the code.
\<close>

theorem c_api_to_time_point_status:
  assumes "is_i32 (dt_year dt)" and "tick_to_time_point dt cal out = Inr (st, v)"
  shows "(st = TICK_OK) = (v \<noteq> None) \<and>
    st = (if \<not> out then TICK_ERR_INVALID_ARG
          else case calendar_of_code cal of None \<Rightarrow> TICK_ERR_INVALID_CALENDAR
          | Some C \<Rightarrow> if valid_date_time C dt then TICK_OK else TICK_ERR_INVALID_DATE)"
proof (cases "calendar_of_code cal")
  case None
  then show ?thesis using assms by (auto simp: tick_to_time_point_def split: if_splits)
next
  case (Some C)
  note laws = calendar_of_code_laws [OF Some]
  show ?thesis
  proof (cases "valid_date_time C dt")
    case True
    show ?thesis
      using assms Some True valid_instant_Inl [OF Some True]
      by (cases "cal_to_time_point C dt") (auto simp: tick_to_time_point_def split: if_splits)
  next
    case False
    then obtain msg where "cal_to_time_point C dt = Inl (Invalid_argument msg)"
      using calendar_laws.invalid [OF laws assms(1)] by blast
    then show ?thesis
      using assms Some False by (auto simp: tick_to_time_point_def split: if_splits)
  qed
qed

theorem c_api_to_time_point_status_witness:
  "tick_to_time_point (mk_date_time 2025 2 29 0 0 0 0) 1 True = Inr (TICK_ERR_INVALID_DATE, None) \<and>
   tick_to_time_point (mk_date_time 2025 2 28 0 0 0 0) 7 True = Inr (TICK_ERR_INVALID_CALENDAR, None)"
proof -
  obtain st v where 1: "tick_to_time_point (mk_date_time 2025 2 29 0 0 0 0) 1 True = Inr (st, v)"
    by (simp add: tick_to_time_point_def calendar_of_code_def noleap_to_time_point_def noleap_validate_def
        noleap_days_in_month_def)
  obtain st' v' where 2: "tick_to_time_point (mk_date_time 2025 2 28 0 0 0 0) 7 True = Inr (st', v')"
    by (simp add: tick_to_time_point_def calendar_of_code_def)
  have "\<not> valid_date_time NoLeap_Calendar (mk_date_time 2025 2 29 0 0 0 0)" by code_simp
  then show ?thesis
    using c_api_to_time_point_status [OF _ 1] c_api_to_time_point_status [OF _ 2] 1 2
    by (cases v; cases v') (simp_all add: is_i32_def calendar_of_code_def)
qed

text \<open>
  The duration factories of the C interface never overflow silently: each returns the
  exact product with its unit, or the overflow status, in contrast to the unchecked C++
  factories, which are undefined for exactly those counts.
\<close>

theorem c_api_duration_factories:
  "tick_duration_from_seconds count True =
     (if is_i64 (count * nanos_per_second) then Inr (TICK_OK, Some (count * nanos_per_second))
      else Inr (TICK_ERR_OVERFLOW, None)) \<and>
   tick_duration_from_minutes count True =
     (if is_i64 (count * nanos_per_minute) then Inr (TICK_OK, Some (count * nanos_per_minute))
      else Inr (TICK_ERR_OVERFLOW, None)) \<and>
   tick_duration_from_hours count True =
     (if is_i64 (count * nanos_per_hour) then Inr (TICK_OK, Some (count * nanos_per_hour))
      else Inr (TICK_ERR_OVERFLOW, None)) \<and>
   tick_duration_from_days count True =
     (if is_i64 (count * nanos_per_day) then Inr (TICK_OK, Some (count * nanos_per_day))
      else Inr (TICK_ERR_OVERFLOW, None)) \<and>
   (days count = Inl Undefined_behaviour \<longleftrightarrow> tick_duration_from_days count True = Inr (TICK_ERR_OVERFLOW, None))"
  by (auto simp: tick_duration_from_seconds_def tick_duration_from_minutes_def tick_duration_from_hours_def
      tick_duration_from_days_def c_call_def checked_runtime days_def ub64_def)

end
