(* ===== verification/Ieee_Double.thy ===== *)
theory Ieee_Double
  imports Complex_Main "HOL-Library.Log_Nat" Helm_Prelude
begin

text \<open>
  The fragment of IEEE 754 binary64 that the sources compute with: conversion of an
  \<open>int64_t\<close> to \<open>double\<close> and one division, both rounded to nearest with ties to even, on
  non-negative operands. A \<open>double\<close> is its significand and exponent; a converted
  integer is kept as the integer it denotes. The quotients of the sources are 0 or at
  least 2 to the power -64, so neither overflow nor subnormals arise.
\<close>

section \<open>Rounding\<close>

datatype double = Double (significand: int) (exponent: int)

definition dval :: "double \<Rightarrow> real" where
  "dval x = of_int (significand x) * 2 powi (exponent x)"

definition double_zero :: double where
  "double_zero = Double 0 0"

text \<open>The quotient of two non-negative integers rounded to the nearest integer, ties to even.\<close>

definition div_nearest_even :: "int \<Rightarrow> int \<Rightarrow> int" where
  "div_nearest_even a b =
     (let q = a div b; r = a mod b in
      if 2 * r < b then q else if 2 * r > b then q + 1 else if even q then q else q + 1)"

definition double_of_int64 :: "int \<Rightarrow> int" where
  "double_of_int64 n = (let e = nat (bitlen n - 53) in div_nearest_even n (2 ^ e) * 2 ^ e)"

definition double_divide :: "int \<Rightarrow> int \<Rightarrow> double" where
  "double_divide a b =
     (if a = 0 then double_zero
      else let k = bitlen a - bitlen b;
               e = (if a * 2 ^ nat (- k) < b * 2 ^ nat k then k - 53 else k - 52)
           in Double (div_nearest_even (a * 2 ^ nat (- e)) (b * 2 ^ nat e)) e)"

lemma dval_zero [simp]: "dval double_zero = 0"
  by (simp add: dval_def double_zero_def)

section \<open>Bounds\<close>

lemma div_nearest_even_le:
  assumes "0 < b" "a \<le> m * b"
  shows "div_nearest_even a b \<le> m"
proof (cases "a = m * b")
  case True
  then show ?thesis using assms by (simp add: div_nearest_even_def Let_def)
next
  case False
  then have "a div b < m"
    using assms by (simp add: div_lt_iff)
  then show ?thesis by (auto simp: div_nearest_even_def Let_def)
qed

lemma div_nearest_even_ge:
  assumes "0 < b" "m * b \<le> a"
  shows "m \<le> div_nearest_even a b"
proof -
  have "m \<le> a div b" using assms div_lt_iff [of b a m] by linarith
  then show ?thesis by (auto simp: div_nearest_even_def Let_def)
qed

lemma div_nearest_even_mono:
  assumes "0 < b" "a \<le> a'"
  shows "div_nearest_even a b \<le> div_nearest_even a' b"
proof (cases "a div b = a' div b")
  case True
  have "a mod b \<le> a' mod b"
    using True assms by (metis add_le_cancel_left mult_div_mod_eq)
  with True show ?thesis by (auto simp: div_nearest_even_def Let_def)
next
  case False
  moreover have "a div b \<le> a' div b" using assms by (intro zdiv_mono1) auto
  ultimately show ?thesis by (auto simp: div_nearest_even_def Let_def)
qed

lemma div_nearest_even_error:
  assumes "0 < b"
  shows "2 * \<bar>div_nearest_even a b * b - a\<bar> \<le> b"
proof -
  define q where "q = a div b"
  define r where "r = a mod b"
  have a: "a = q * b + r" "0 \<le> r" "r < b" using assms by (simp_all add: q_def r_def)
  have "(q + 1) * b = q * b + b" by (simp add: ring_distribs)
  then show ?thesis
    using a unfolding div_nearest_even_def Let_def q_def [symmetric] r_def [symmetric]
    by (auto simp: abs_if)
qed

lemma bitlen_mono: "a \<le> b \<Longrightarrow> bitlen a \<le> bitlen b"
  unfolding bitlen_def by (simp add: floorlog_mono nat_mono)

lemma double_of_int64_upper:
  assumes "0 \<le> n"
  shows "double_of_int64 n \<le> 2 ^ nat (bitlen n)"
proof -
  let ?L = "nat (bitlen n)" and ?e = "nat (bitlen n - 53)"
  have "?L = (?L - ?e) + ?e" by simp
  then have p: "(2::int) ^ (?L - ?e) * 2 ^ ?e = 2 ^ ?L" by (metis power_add)
  have "n \<le> 2 ^ ?L" using bitlen_bounds [of n] assms by (cases "n = 0") auto
  then have "div_nearest_even n (2 ^ ?e) \<le> 2 ^ (?L - ?e)"
    using p by (intro div_nearest_even_le) simp_all
  then have "div_nearest_even n (2 ^ ?e) * 2 ^ ?e \<le> 2 ^ (?L - ?e) * 2 ^ ?e" by simp
  then show ?thesis unfolding p by (simp add: double_of_int64_def Let_def)
qed

lemma double_of_int64_lower:
  assumes "0 < n"
  shows "2 ^ nat (bitlen n - 1) \<le> double_of_int64 n"
proof -
  let ?L = "nat (bitlen n - 1)" and ?e = "nat (bitlen n - 53)"
  have "?L = (?L - ?e) + ?e" by simp
  then have p: "(2::int) ^ (?L - ?e) * 2 ^ ?e = 2 ^ ?L" by (metis power_add)
  then have "2 ^ (?L - ?e) \<le> div_nearest_even n (2 ^ ?e)"
    using bitlen_bounds [OF assms] by (intro div_nearest_even_ge) simp_all
  then have "2 ^ (?L - ?e) * 2 ^ ?e \<le> div_nearest_even n (2 ^ ?e) * 2 ^ ?e" by simp
  then show ?thesis unfolding p by (simp add: double_of_int64_def Let_def)
qed

lemma double_of_int64_pos: "0 < n \<Longrightarrow> 0 < double_of_int64 n"
  using double_of_int64_lower [of n] zero_less_power [of "2::int" "nat (bitlen n - 1)"] by linarith

lemma double_of_int64_0 [simp]: "double_of_int64 0 = 0"
  by (simp add: double_of_int64_def div_nearest_even_def Let_def)

lemma double_of_int64_mono:
  assumes "0 \<le> a" "a \<le> b"
  shows "double_of_int64 a \<le> double_of_int64 b"
proof (cases "bitlen a = bitlen b")
  case True
  then show ?thesis
    using div_nearest_even_mono [OF _ assms(2), of "2 ^ nat (bitlen b - 53)"]
    by (simp add: double_of_int64_def Let_def)
next
  case False
  then have less: "bitlen a < bitlen b" using bitlen_mono [OF assms(2)] by simp
  then have b: "0 < b" using assms bitlen_nonneg [of a] by (cases "b = 0") auto
  have "double_of_int64 a \<le> 2 ^ nat (bitlen a)" by (rule double_of_int64_upper [OF assms(1)])
  also have "\<dots> \<le> (2::int) ^ nat (bitlen b - 1)"
    using less by (intro power_increasing) auto
  also have "\<dots> \<le> double_of_int64 b" by (rule double_of_int64_lower [OF b])
  finally show ?thesis .
qed

text \<open>Integers of at most 53 bits are converted exactly.\<close>

lemma double_of_int64_exact: "0 \<le> n \<Longrightarrow> n < 9007199254740992 \<Longrightarrow> double_of_int64 n = n"
  using bitlen_le_iff_power [of n 53] by (simp add: double_of_int64_def div_nearest_even_def Let_def)

text \<open>A quotient of at most one: in [0, 1], and within half a unit of the last place of one.\<close>

lemma double_divide_unit:
  assumes ab: "0 \<le> a" "a \<le> b" "0 < b"
  shows "0 \<le> dval (double_divide a b)" "dval (double_divide a b) \<le> 1"
    "\<bar>dval (double_divide a b) - of_int a / of_int b\<bar> \<le> 1 / 2 ^ 53"
proof -
  have "0 \<le> dval (double_divide a b) \<and> dval (double_divide a b) \<le> 1 \<and>
    \<bar>dval (double_divide a b) - of_int a / of_int b\<bar> \<le> 1 / 2 ^ 53"
  proof (cases "a = 0")
    case True
    then show ?thesis by (simp add: double_divide_def)
  next
    case False
    define k where "k = bitlen a - bitlen b"
    define e where "e = (if a * 2 ^ nat (- k) < b * 2 ^ nat k then k - 53 else k - 52)"
    define l where "l = nat (- e)"
    define m where "m = div_nearest_even (a * 2 ^ l) b"
    have "k \<le> 0" using bitlen_mono [OF ab(2)] by (simp add: k_def)
    then have e: "e \<le> - 52" by (simp add: e_def)
    then have l: "52 \<le> l" "e = - int l" by (simp_all add: l_def)
    have d: "double_divide a b = Double m e"
      using False e by (simp add: double_divide_def Let_def k_def [symmetric] e_def [symmetric] m_def l_def)
    have val: "dval (double_divide a b) = of_int m / 2 ^ l"
      by (simp add: d dval_def l(2) power_int_minus field_simps)
    have "m \<le> 2 ^ l" unfolding m_def using ab by (intro div_nearest_even_le) (auto simp: mult.commute)
    then have m1: "real_of_int m \<le> 2 ^ l" by (metis of_int_le_iff of_int_numeral of_int_power)
    have m0: "0 \<le> m" unfolding m_def using ab by (intro div_nearest_even_ge) auto
    have "2 * \<bar>m * b - a * 2 ^ l\<bar> \<le> b" unfolding m_def by (rule div_nearest_even_error [OF ab(3)])
    then have "real_of_int (2 * \<bar>m * b - a * 2 ^ l\<bar>) \<le> of_int b" by (simp only: of_int_le_iff)
    then have err: "2 * \<bar>real_of_int m * of_int b - of_int a * 2 ^ l\<bar> \<le> of_int b" by simp
    define p where "p = (2::real) ^ l"
    define B where "B = real_of_int b"
    have pos: "0 < p" "0 < B" using ab by (simp_all add: p_def B_def)
    have "\<bar>of_int m / p - of_int a / B\<bar> = \<bar>of_int m * B - of_int a * p\<bar> / (p * B)"
      using pos by (simp add: diff_frac_eq abs_divide abs_mult)
    also have "\<dots> \<le> (B / 2) / (p * B)"
      using err pos unfolding p_def [symmetric] B_def [symmetric] by (intro divide_right_mono) auto
    also have "\<dots> = 1 / (2 * p)" using pos by simp
    also have "\<dots> \<le> 1 / (2 * 2 ^ 52)"
      using power_increasing [OF l(1), of "2::real"] unfolding p_def by (intro divide_left_mono) auto
    also have "\<dots> = 1 / 2 ^ 53" by simp
    finally show ?thesis
      using m0 m1 unfolding val p_def B_def by (simp add: divide_le_eq_1)
  qed
  then show "0 \<le> dval (double_divide a b)" "dval (double_divide a b) \<le> 1"
    "\<bar>dval (double_divide a b) - of_int a / of_int b\<bar> \<le> 1 / 2 ^ 53" by blast+
qed

end
