(* ===== verification/Tick_Aliasing.thy ===== *)
theory Tick_Aliasing
  imports Tick_Gregorian Tick_NoLeap Tick_Cal360 Tick_Window Ieee_Double
begin

text \<open>
  TICK's temporal aliasing: \<^verbatim>\<open>tick/aliased_window.hpp\<close>, \<^verbatim>\<open>tick/out_of_bounds_policy.hpp\<close> and
  \<^verbatim>\<open>tick/aliasing_engine.hpp\<close>.

  The template parameters \<open>Sim_Cal\<close> and \<open>Ds_Cal\<close> are the two calendar arguments of the
  definitions; the compile-time type tests look at \<open>cal_kind\<close>. The weight is a binary64
  quotient as in \<open>Ieee_Double\<close>.
\<close>

section \<open>Operations\<close>

datatype OutOfBoundsPolicy = clamp_to_edge | cycle_last_year | pure_climatology | leap_hold

record AliasedWindow =
  aw_window :: Time_Window
  aw_alpha :: double

definition aliased_window_zero :: AliasedWindow where
  "aliased_window_zero =
     \<lparr>aw_window = \<lparr>tw_start = Time_Point 0, tw_end = Time_Point 1\<rparr>, aw_alpha = double_zero\<rparr>"

record Aliasing_Engine =
  ae_coverage :: Time_Window
  ae_snapshot_interval :: Duration
  ae_policy :: OutOfBoundsPolicy
  ae_climatological_year :: int

definition mk_aliasing_engine ::
    "calendar \<Rightarrow> Time_Window \<Rightarrow> Duration \<Rightarrow> OutOfBoundsPolicy \<Rightarrow> int \<Rightarrow> Aliasing_Engine result" where
  "mk_aliasing_engine Ds coverage snapshot_interval policy climatological_year =
     (let engine = \<lparr>ae_coverage = coverage, ae_snapshot_interval = snapshot_interval,
        ae_policy = policy, ae_climatological_year = climatological_year\<rparr>
      in if dur_nanos snapshot_interval \<le> 0
         then Inl (Invalid_argument ''Aliasing_Engine: snapshot_interval must be positive'')
         else bindR (tw_duration coverage) (\<lambda>d.
           if dur_nanos d smod dur_nanos snapshot_interval \<noteq> 0
           then Inl (Invalid_argument ''Aliasing_Engine: snapshot_interval must evenly divide coverage duration'')
           else if policy = pure_climatology then
             bindR (cal_to_date_time Ds (tw_start coverage)) (\<lambda>start_dt.
             bindR (time_point_minus (tw_end coverage) (Duration 1)) (\<lambda>last.
             bindR (cal_to_date_time Ds last) (\<lambda>end_dt.
               if climatological_year < dt_year start_dt \<or> climatological_year > dt_year end_dt
               then Inl (Invalid_argument
                 ''Aliasing_Engine: climatological_year must be within dataset coverage year range'')
               else Inr engine)))
           else Inr engine))"

definition calculate_weight :: "Time_Point \<Rightarrow> Time_Window \<Rightarrow> double result" where
  "calculate_weight current window =
     bindR (tw_duration window) (\<lambda>d.
       if dur_nanos d = 0
       then Inl (Invalid_argument ''calculate_weight: degenerate window with zero duration'')
       else if current < tw_start window \<or> current \<ge> tw_end window
       then Inl (Out_of_range ''calculate_weight: current time is not within the supplied window'')
       else bindR (ub64 (tp_nanos current - tp_nanos (tw_start window))) (\<lambda>numerator.
         bindR (ub64 (tp_nanos (tw_end window) - tp_nanos (tw_start window))) (\<lambda>denominator.
           Inr (double_divide (double_of_int64 numerator) (double_of_int64 denominator)))))"

definition enclosing_window :: "Time_Point \<Rightarrow> Time_Point \<Rightarrow> Duration \<Rightarrow> Time_Window result" where
  "enclosing_window t coverage_start interval =
     bindR (ub64 (tp_nanos t - tp_nanos coverage_start)) (\<lambda>offset_nanos.
       let iv = dur_nanos interval; floor_offset = offset_nanos sdiv iv * iv in
       bindR (ub64 (tp_nanos coverage_start + floor_offset)) (\<lambda>s.
         let floor_start = Time_Point s in
         bindR (time_point_plus floor_start interval) (mk_time_window floor_start)))"

definition is_feb29 :: "Date_Time \<Rightarrow> bool" where
  "is_feb29 dt \<longleftrightarrow> dt_month dt = 2 \<and> dt_day dt = 29"

definition resolve_in_bounds :: "Aliasing_Engine \<Rightarrow> Time_Point \<Rightarrow> AliasedWindow result" where
  "resolve_in_bounds e sim_time =
     bindR (enclosing_window sim_time (tw_start (ae_coverage e)) (ae_snapshot_interval e)) (\<lambda>window.
     bindR (calculate_weight sim_time window) (\<lambda>alpha.
       Inr \<lparr>aw_window = window, aw_alpha = alpha\<rparr>))"

definition resolve_clamp :: "Aliasing_Engine \<Rightarrow> Time_Point \<Rightarrow> AliasedWindow result" where
  "resolve_clamp e sim_time =
     (if sim_time \<ge> tw_end (ae_coverage e) then
        bindR (time_point_minus (tw_end (ae_coverage e)) (ae_snapshot_interval e)) (\<lambda>t_left.
        bindR (mk_time_window t_left (tw_end (ae_coverage e))) (\<lambda>window.
          Inr \<lparr>aw_window = window, aw_alpha = double_zero\<rparr>))
      else if sim_time < tw_start (ae_coverage e) then
        bindR (time_point_plus (tw_start (ae_coverage e)) (ae_snapshot_interval e)) (\<lambda>t_right.
        bindR (mk_time_window (tw_start (ae_coverage e)) t_right) (\<lambda>window.
          Inr \<lparr>aw_window = window, aw_alpha = double_zero\<rparr>))
      else resolve_in_bounds e sim_time)"

definition substitute_year :: "calendar \<Rightarrow> Date_Time \<Rightarrow> int \<Rightarrow> Date_Time result" where
  "substitute_year Ds dt target_year =
     bindR (cal_days_in_month Ds target_year (dt_month dt)) (\<lambda>max_day.
       Inr (dt\<lparr>dt_year := target_year, dt_day := if dt_day dt > max_day then max_day else dt_day dt\<rparr>))"

definition resolve_cycle :: "calendar \<Rightarrow> calendar \<Rightarrow> Aliasing_Engine \<Rightarrow> Time_Point \<Rightarrow> AliasedWindow result" where
  "resolve_cycle Sim Ds e sim_time =
     bindR (cal_to_date_time Sim sim_time) (\<lambda>dt.
     bindR (if sim_time \<ge> tw_end (ae_coverage e)
            then bindR (time_point_minus (tw_end (ae_coverage e)) (Duration 1)) (cal_to_date_time Ds)
            else cal_to_date_time Ds (tw_start (ae_coverage e))) (\<lambda>target_dt.
     bindR (substitute_year Ds dt (dt_year target_dt)) (\<lambda>remapped_dt.
     bindR (cal_to_time_point Ds remapped_dt) (\<lambda>remapped_tp.
       resolve_in_bounds e remapped_tp))))"

definition resolve_climatology :: "calendar \<Rightarrow> calendar \<Rightarrow> Aliasing_Engine \<Rightarrow> Time_Point \<Rightarrow> AliasedWindow result" where
  "resolve_climatology Sim Ds e sim_time =
     (let year = ae_climatological_year e in
      bindR (cal_to_date_time Sim sim_time) (\<lambda>dt.
      bindR (substitute_year Ds dt year) (\<lambda>remapped_dt.
      bindR (cal_to_time_point Ds remapped_dt) (\<lambda>remapped_tp.
      bindR (cal_to_time_point Ds (mk_date_time year 1 1 0 0 0 0)) (\<lambda>clim_year_start.
      bindR (enclosing_window remapped_tp clim_year_start (ae_snapshot_interval e)) (\<lambda>window0.
      bindR (cal_to_date_time Ds (tw_end window0)) (\<lambda>window_end_dt.
      bindR (if dt_year window_end_dt > year then
               bindR (ub32 (year + 1)) (\<lambda>next_year.
               bindR (cal_to_time_point Ds (mk_date_time next_year 1 1 0 0 0 0)) (\<lambda>t_right.
               bindR (time_point_minus t_right (ae_snapshot_interval e)) (\<lambda>t_left.
                 mk_time_window t_left t_right)))
             else Inr window0) (\<lambda>window.
      bindR (calculate_weight remapped_tp window) (\<lambda>alpha.
        Inr \<lparr>aw_window = window, aw_alpha = alpha\<rparr>)))))))))"

definition feb29_hold :: "calendar \<Rightarrow> int \<Rightarrow> AliasedWindow result" where
  "feb29_hold Ds year =
     bindR (cal_to_time_point Ds (mk_date_time year 2 28 0 0 0 0)) (\<lambda>t_left.
     bindR (cal_to_time_point Ds (mk_date_time year 3 1 0 0 0 0)) (\<lambda>t_right.
     bindR (mk_time_window t_left t_right) (\<lambda>window.
       Inr \<lparr>aw_window = window, aw_alpha = double_zero\<rparr>)))"

definition resolve_leap_hold :: "calendar \<Rightarrow> calendar \<Rightarrow> Aliasing_Engine \<Rightarrow> Time_Point \<Rightarrow> AliasedWindow result" where
  "resolve_leap_hold Sim Ds e sim_time =
     bindR (cal_to_date_time Sim sim_time) (\<lambda>dt.
       if cal_kind Sim = Gregorian_Kind \<and> cal_kind Ds = NoLeap_Kind \<and> is_feb29 dt
       then feb29_hold Ds (dt_year dt)
       else if sim_time \<ge> tw_end (ae_coverage e) \<or> sim_time < tw_start (ae_coverage e)
       then resolve_clamp e sim_time
       else resolve_in_bounds e sim_time)"

text \<open>
  \<open>resolve\<close>. The inner function is the part after the leap-day test, which is reached by
  every policy but \<open>pure_climatology\<close>.
\<close>

definition resolve_by_bounds :: "calendar \<Rightarrow> calendar \<Rightarrow> Aliasing_Engine \<Rightarrow> Time_Point \<Rightarrow> AliasedWindow result" where
  "resolve_by_bounds Sim Ds e sim_time =
     (if sim_time \<ge> tw_start (ae_coverage e) \<and> sim_time < tw_end (ae_coverage e)
      then resolve_in_bounds e sim_time
      else case ae_policy e of
        clamp_to_edge \<Rightarrow> resolve_clamp e sim_time
      | cycle_last_year \<Rightarrow> resolve_cycle Sim Ds e sim_time
      | leap_hold \<Rightarrow> resolve_leap_hold Sim Ds e sim_time
      | pure_climatology \<Rightarrow> resolve_clamp e sim_time)"

definition resolve :: "calendar \<Rightarrow> calendar \<Rightarrow> Aliasing_Engine \<Rightarrow> Time_Point \<Rightarrow> AliasedWindow result" where
  "resolve Sim Ds e sim_time =
     (if ae_policy e = pure_climatology then resolve_climatology Sim Ds e sim_time
      else if ae_policy e = leap_hold \<and> cal_kind Sim = Gregorian_Kind \<and> cal_kind Ds = NoLeap_Kind
      then bindR (cal_to_date_time Sim sim_time) (\<lambda>dt.
        if is_feb29 dt then feb29_hold Ds (dt_year dt) else resolve_by_bounds Sim Ds e sim_time)
      else resolve_by_bounds Sim Ds e sim_time)"

section \<open>Lemmas\<close>

lemma calculate_weight_ok:
  assumes w: "tw_contains w t" "is_i64 (tp_nanos (tw_end w) - tp_nanos (tw_start w))"
  shows "\<exists>a. calculate_weight t w = Inr a \<and> 0 \<le> dval a \<and> dval a \<le> 1"
proof -
  let ?n = "tp_nanos t - tp_nanos (tw_start w)" and ?d = "tp_nanos (tw_end w) - tp_nanos (tw_start w)"
  have n: "0 \<le> ?n" "?n < ?d" using w(1) by (auto simp: tw_contains_def time_order_defs)
  then have i: "is_i64 ?n" using w(2) by (simp add: is_i64_def)
  have "calculate_weight t w = Inr (double_divide (double_of_int64 ?n) (double_of_int64 ?d))"
    using n w(1) unfolding calculate_weight_def tw_duration_def ub64_ok [OF w(2)] ub64_ok [OF i]
    by (auto simp: tw_contains_def)
  moreover have "0 \<le> double_of_int64 ?n" "double_of_int64 ?n \<le> double_of_int64 ?d" "0 < double_of_int64 ?d"
    using double_of_int64_mono [of 0 ?n] double_of_int64_mono [of ?n ?d] double_of_int64_pos [of ?d] n by simp_all
  ultimately show ?thesis using double_divide_unit by blast
qed

lemma enclosing_window_ok:
  assumes s: "is_i64 s" and t: "is_i64 t" "s \<le> t" "t - s \<le> int64_max" and iv: "0 < iv"
    and fits: "(t - s) div iv * iv + s + iv \<le> int64_max"
  shows "\<exists>w. enclosing_window (Time_Point t) (Time_Point s) (Duration iv) = Inr w \<and>
    tw_contains w (Time_Point t) \<and> tp_nanos (tw_start w) = s + (t - s) div iv * iv \<and>
    tp_nanos (tw_end w) = tp_nanos (tw_start w) + iv"
proof -
  let ?f = "(t - s) div iv * iv"
  note fm = floor_multiple [OF iv, of "t - s"]
  have nn: "0 \<le> ?f" using t iv by (simp add: pos_imp_zdiv_nonneg_iff)
  have i: "is_i64 (t - s)" "is_i64 (s + ?f)" "is_i64 (s + ?f + iv)"
    using fm nn s t iv fits unfolding is_i64_def by linarith+
  have "(t - s) sdiv iv = (t - s) div iv" using t iv by (simp add: sdiv_nonneg)
  then have "enclosing_window (Time_Point t) (Time_Point s) (Duration iv) =
      Inr \<lparr>tw_start = Time_Point (s + ?f), tw_end = Time_Point (s + ?f + iv)\<rparr>"
    unfolding enclosing_window_def Time_Point.sel Duration.sel ub64_ok [OF i(1)] bindR_simps Let_def
    using ub64_ok [OF i(2)] i(3) iv
    by (simp add: time_point_plus_def checked_runtime mk_time_window_def time_order_defs)
  then show ?thesis using fm by (auto simp: tw_contains_def time_order_defs)
qed

text \<open>What the constructor guarantees of the engine it returns.\<close>

lemma mk_aliasing_engineE:
  assumes "mk_aliasing_engine Ds cov (Duration iv) policy year = Inr e"
  obtains "e = \<lparr>ae_coverage = cov, ae_snapshot_interval = Duration iv, ae_policy = policy,
      ae_climatological_year = year\<rparr>" "0 < iv"
    "is_i64 (tp_nanos (tw_end cov) - tp_nanos (tw_start cov))"
    "iv dvd tp_nanos (tw_end cov) - tp_nanos (tw_start cov)"
  using assms
  by (auto simp: mk_aliasing_engine_def Let_def tw_duration_def result_elims smod_eq_0_iff split: if_splits)

lemma resolve_in_bounds_ok:
  assumes e: "mk_aliasing_engine Ds cov (Duration iv) policy year = Inr e"
    and cov: "is_i64 (tp_nanos (tw_start cov))" "is_i64 (tp_nanos (tw_end cov))" and t: "tw_contains cov t"
  shows "\<exists>r. resolve_in_bounds e t = Inr r \<and> tw_contains (aw_window r) t \<and>
    tw_start cov \<le> tw_start (aw_window r) \<and> tw_end (aw_window r) \<le> tw_end cov \<and>
    iv dvd tp_nanos (tw_start (aw_window r)) - tp_nanos (tw_start cov) \<and>
    tp_nanos (tw_end (aw_window r)) = tp_nanos (tw_start (aw_window r)) + iv \<and>
    0 \<le> dval (aw_alpha r) \<and> dval (aw_alpha r) \<le> 1"
proof -
  from e have ed: "e = \<lparr>ae_coverage = cov, ae_snapshot_interval = Duration iv, ae_policy = policy,
        ae_climatological_year = year\<rparr>" and iv: "0 < iv"
    and len: "is_i64 (tp_nanos (tw_end cov) - tp_nanos (tw_start cov))"
      "iv dvd tp_nanos (tw_end cov) - tp_nanos (tw_start cov)"
    by (auto elim: mk_aliasing_engineE)
  obtain s n x where sn: "tw_start cov = Time_Point s" "t = Time_Point n" "tw_end cov = Time_Point x"
    by (cases "tw_start cov"; cases t; cases "tw_end cov")
  have r: "s \<le> n" "n < x" using t by (auto simp: tw_contains_def sn time_order_defs)
  note fm = floor_multiple [OF iv, of "n - s"]
  have le: "(n - s) div iv * iv + iv \<le> x - s"
  proof -
    obtain q where q: "x - s = iv * q" using len(2) by (auto simp: sn elim: dvdE)
    then have "(n - s) div iv < q" using r iv div_lt_iff [OF iv, of "n - s" q] by (simp add: mult.commute)
    then have "((n - s) div iv + 1) * iv \<le> q * iv" using iv by (intro mult_right_mono) auto
    then show ?thesis using q by (simp add: ring_distribs mult.commute)
  qed
  obtain w where w: "enclosing_window t (tw_start cov) (Duration iv) = Inr w" "tw_contains w t"
      "tp_nanos (tw_start w) = s + (n - s) div iv * iv" "tp_nanos (tw_end w) = tp_nanos (tw_start w) + iv"
    using enclosing_window_ok [of s n iv] cov r len(1) iv le by (auto simp: sn is_i64_def)
  have nn: "0 \<le> (n - s) div iv * iv" using r iv by (simp add: pos_imp_zdiv_nonneg_iff)
  have "is_i64 (tp_nanos (tw_end w) - tp_nanos (tw_start w))"
    using w(4) len(1) le nn iv unfolding sn Time_Point.sel is_i64_def by linarith
  then obtain a where "calculate_weight t w = Inr a" "0 \<le> dval a" "dval a \<le> 1"
    using calculate_weight_ok w(2) by blast
  moreover have "tw_start cov \<le> tw_start w" "tw_end w \<le> tw_end cov"
    using w(3,4) le nn by (simp_all add: time_order_defs sn)
  ultimately show ?thesis
    using w by (simp add: resolve_in_bounds_def ed sn(1))
qed

text \<open>Year substitution with the day clamped: the date is valid in the dataset calendar.\<close>

lemma substitute_year_valid:
  assumes Ds: "calendar_laws Ds" and dt: "valid_date_time Sim dt" and y: "is_i32 y"
  shows "\<exists>dt'. substitute_year Ds dt y = Inr dt' \<and> valid_date_time Ds dt' \<and> dt_year dt' = y \<and>
    dt_month dt' = dt_month dt \<and> nanos_of_day dt' = nanos_of_day dt"
proof -
  have m: "1 \<le> dt_month dt" "dt_month dt \<le> 12"
    using dt by (auto simp: valid_date_time_def day_ok_def)
  then obtain k where k: "cal_days_in_month Ds y (dt_month dt) = Inr k"
    using calendar_laws.dim [OF Ds] by blast
  show ?thesis
    using calendar_laws.clamped_date_valid [OF Ds dt y k] k by (simp add: substitute_year_def nanos_of_day_def)
qed

lemma new_year_first:
  assumes "valid_date_time C dt" "dt \<noteq> mk_date_time (dt_year dt) 1 1 0 0 0 0"
  shows "date_time_less (mk_date_time (dt_year dt) 1 1 0 0 0 0) dt"
  using assms
  by (auto simp: date_time_less_def mk_date_time_eq_iff valid_date_time_def day_ok_def time_of_day_ok_def)

lemma before_new_year:
  "valid_date_time C dt \<Longrightarrow> date_time_less dt (mk_date_time y 1 1 0 0 0 0) \<longleftrightarrow> dt_year dt < y"
  by (auto simp: date_time_less_def valid_date_time_def day_ok_def time_of_day_ok_def)

section \<open>Climatological years\<close>

text \<open>
  A time of the climatological year lies between its two new years, and the window that the
  climatology policy finally chooses contains it.
\<close>

context calendar_range
begin

lemma year_contains:
  assumes dt: "valid_date_time C dt" "cal_to_time_point C dt = Inr t"
    and s: "cal_to_time_point C (mk_date_time (dt_year dt) 1 1 0 0 0 0) = Inr s"
    and x: "cal_to_time_point C (mk_date_time (dt_year dt + 1) 1 1 0 0 0 0) = Inr x"
    and y: "1737 \<le> dt_year dt" "dt_year dt \<le> 2314"
  shows "s \<le> t" "t < x"
proof -
  have i: "is_i32 (dt_year dt)" "is_i32 (dt_year dt + 1)" using y by (simp_all add: is_i32_def)
  show "s \<le> t"
  proof (cases "dt = mk_date_time (dt_year dt) 1 1 0 0 0 0")
    case True
    then show ?thesis using dt(2) s by simp
  next
    case False
    then show ?thesis
      using mono [OF _ _ new_year_first [OF dt(1) False] s dt(2)] i by simp
  qed
  show "t < x"
    using mono [OF _ _ _ dt(2) x] before_new_year [OF dt(1), of "dt_year dt + 1"] i by simp
qed

lemma climatology_window:
  assumes dt: "valid_date_time C dt" "cal_to_time_point C dt = Inr t"
    and s: "cal_to_time_point C (mk_date_time (dt_year dt) 1 1 0 0 0 0) = Inr s"
    and y: "1737 \<le> dt_year dt" "dt_year dt \<le> 2314" and iv: "0 < iv" "iv \<le> 31622400000000000"
  shows "\<exists>w0 d w. enclosing_window t s (Duration iv) = Inr w0 \<and> cal_to_date_time C (tw_end w0) = Inr d \<and>
    (if dt_year d > dt_year dt then
       bindR (ub32 (dt_year dt + 1)) (\<lambda>next_year.
       bindR (cal_to_time_point C (mk_date_time next_year 1 1 0 0 0 0)) (\<lambda>t_right.
       bindR (time_point_minus t_right (Duration iv)) (\<lambda>t_left. mk_time_window t_left t_right)))
     else Inr w0) = Inr w \<and> tw_contains w t \<and> tp_nanos (tw_end w) = tp_nanos (tw_start w) + iv"
proof -
  obtain x where x: "cal_to_time_point C (mk_date_time (dt_year dt + 1) 1 1 0 0 0 0) = Inr x"
      "\<bar>tp_nanos x\<bar> \<le> 9158400000000000000" "valid_date_time C (mk_date_time (dt_year dt + 1) 1 1 0 0 0 0)"
    by (rule new_year [of "dt_year dt + 1"]) (use y in auto)
  obtain s' where "cal_to_time_point C (mk_date_time (dt_year dt) 1 1 0 0 0 0) = Inr s'"
      "\<bar>tp_nanos s'\<bar> \<le> 9158400000000000000"
    by (rule new_year [of "dt_year dt"]) (use y in auto)
  then have sb: "\<bar>tp_nanos s\<bar> \<le> 9158400000000000000" using s by simp
  note yc = year_contains [OF dt s x(1) y]
  obtain sn tn xn where n: "s = Time_Point sn" "t = Time_Point tn" "x = Time_Point xn"
    by (cases s; cases t; cases x)
  have len: "xn \<le> sn + 31622400000000000"
    using year_length [OF y s x(1)] year_days [of "dt_year dt"] by (simp add: n)
  have b: "- 9158400000000000000 \<le> sn" "sn \<le> tn" "tn < xn" "xn \<le> 9158400000000000000"
    using yc sb x(2) by (auto simp: n time_order_defs abs_le_iff)
  have i: "is_i64 sn" "is_i64 tn" "tn - sn \<le> int64_max" using b len by (auto simp: is_i64_def)
  have fl: "(tn - sn) div iv * iv \<le> tn - sn" using floor_multiple(1) [OF iv(1)] .
  then have fits: "(tn - sn) div iv * iv + sn + iv \<le> int64_max" using b iv by linarith
  obtain w0 where w0: "enclosing_window t s (Duration iv) = Inr w0" "tw_contains w0 t"
      "tp_nanos (tw_start w0) = sn + (tn - sn) div iv * iv" "tp_nanos (tw_end w0) = tp_nanos (tw_start w0) + iv"
    using enclosing_window_ok [OF i(1,2) b(2) i(3) iv(1) fits] by (auto simp: n)
  obtain e where e: "tw_end w0 = Time_Point e" by (cases "tw_end w0")
  have eb: "is_i64 e" "- 9223286400000000000 \<le> e"
    using w0(2,3,4) b iv fl by (auto simp: e n tw_contains_def time_order_defs is_i64_def)
  obtain d where d: "cal_to_date_time C (tw_end w0) = Inr d"
    using to_dt_defined [OF eb] by (auto simp: e is_ok_iff)
  show ?thesis
  proof (cases "dt_year d > dt_year dt")
    case False
    then show ?thesis using w0 d by auto
  next
    case True
    have vd: "valid_date_time C d" using to_dt_valid [of "Time_Point e" d] eb d by (simp add: e)
    have "\<not> Time_Point e < x"
    proof
      assume less: "Time_Point e < x"
      have "cal_to_date_time C x = Inr (mk_date_time (dt_year dt + 1) 1 1 0 0 0 0)"
        and "is_i64 (tp_nanos x)" "- 9223286400000000000 \<le> tp_nanos x"
        using inverse [OF _ x(1)] y by (simp_all add: is_i32_def)
      then have "date_time_less d (mk_date_time (dt_year dt + 1) 1 1 0 0 0 0)"
        using to_dt_mono_iff [of "Time_Point e" d x] eb d less by (simp add: e)
      then show False using before_new_year [OF vd] True by simp
    qed
    then have "xn - iv \<le> tn"
      using w0(2,4) by (auto simp: e n tw_contains_def time_order_defs)
    moreover have "is_i32 (dt_year dt + 1)" "is_i64 (xn - iv)" using y b iv by (auto simp: is_i32_def is_i64_def)
    ultimately show ?thesis
      using w0(1) d True x(1) iv(1) b(3)
      by (auto simp: n time_point_minus_def checked_runtime mk_time_window_def tw_contains_def time_order_defs)
  qed
qed

end

section \<open>Properties\<close>

definition tick_calendars :: "calendar list" where
  "tick_calendars = [Gregorian_Calendar, NoLeap_Calendar, Cal360_Calendar]"

lemma tick_calendars_range: "C \<in> set tick_calendars \<Longrightarrow> calendar_range C"
  using greg_range.calendar_range_axioms noleap_range.calendar_range_axioms c360_range.calendar_range_axioms
  by (auto simp: tick_calendars_def)

lemma tick_calendars_laws: "C \<in> set tick_calendars \<Longrightarrow> calendar_laws C"
  using tick_calendars_range by (auto simp: calendar_range_def)

text \<open>
  Inside the dataset coverage an engine interpolates between the two right snapshots: for
  the clamping and cycling policies, and for every pair of calendars, a covered time
  resolves to the snapshot window of the grid that contains it, the window lies
  within the coverage and the weight is between 0 and 1.
\<close>

theorem aliasing_in_bounds:
  assumes e: "mk_aliasing_engine Ds cov (Duration iv) policy year = Inr e"
    and p: "policy = clamp_to_edge \<or> policy = cycle_last_year"
    and cov: "is_i64 (tp_nanos (tw_start cov))" "is_i64 (tp_nanos (tw_end cov))" and t: "tw_contains cov t"
  shows "\<exists>r. resolve Sim Ds e t = Inr r \<and> tw_contains (aw_window r) t \<and>
    tw_start cov \<le> tw_start (aw_window r) \<and> tw_end (aw_window r) \<le> tw_end cov \<and>
    iv dvd tp_nanos (tw_start (aw_window r)) - tp_nanos (tw_start cov) \<and>
    tp_nanos (tw_end (aw_window r)) = tp_nanos (tw_start (aw_window r)) + iv \<and>
    0 \<le> dval (aw_alpha r) \<and> dval (aw_alpha r) \<le> 1"
proof -
  have "ae_policy e = policy" "ae_coverage e = cov"
    using e by (auto elim: mk_aliasing_engineE)
  then have "resolve Sim Ds e t = resolve_in_bounds e t"
    using p t by (auto simp: resolve_def resolve_by_bounds_def tw_contains_def)
  then show ?thesis using resolve_in_bounds_ok [OF e cov t] by simp
qed

theorem aliasing_in_bounds_witness:
  "\<exists>e r. mk_aliasing_engine NoLeap_Calendar \<lparr>tw_start = Time_Point 0, tw_end = Time_Point 12\<rparr> (Duration 4)
      clamp_to_edge 0 = Inr e \<and>
    resolve Gregorian_Calendar NoLeap_Calendar e (Time_Point 5) = Inr r \<and> tw_contains (aw_window r) (Time_Point 5)"
proof -
  let ?cov = "\<lparr>tw_start = Time_Point 0, tw_end = Time_Point 12\<rparr>"
  obtain e where e: "mk_aliasing_engine NoLeap_Calendar ?cov (Duration 4) clamp_to_edge 0 = Inr e"
    by (simp add: mk_aliasing_engine_def tw_duration_def is_i64_def smod_eq_0_iff)
  show ?thesis
    using aliasing_in_bounds [OF e, of "Time_Point 5" Gregorian_Calendar] e
    by (auto simp: is_i64_def tw_contains_def time_order_defs)
qed

text \<open>
  The clamping policy freezes at the edges: a time before the coverage resolves to the
  first snapshot window, a time at or after its end to the last one, both with weight 0, and
  both windows lie within the coverage.
\<close>

theorem aliasing_clamp:
  assumes e: "mk_aliasing_engine Ds cov (Duration iv) clamp_to_edge year = Inr e"
    and cov: "is_i64 (tp_nanos (tw_start cov))" "is_i64 (tp_nanos (tw_end cov))" "tw_start cov < tw_end cov"
    and t: "\<not> tw_contains cov t"
  shows "\<exists>w. resolve Sim Ds e t = Inr \<lparr>aw_window = w, aw_alpha = double_zero\<rparr> \<and>
    tw_start cov \<le> tw_start w \<and> tw_end w \<le> tw_end cov \<and> tp_nanos (tw_end w) = tp_nanos (tw_start w) + iv \<and>
    (if t < tw_start cov then tw_start w = tw_start cov else tw_end w = tw_end cov)"
proof -
  from e have ed: "e = \<lparr>ae_coverage = cov, ae_snapshot_interval = Duration iv, ae_policy = clamp_to_edge,
        ae_climatological_year = year\<rparr>" and iv: "0 < iv"
    and dvd: "iv dvd tp_nanos (tw_end cov) - tp_nanos (tw_start cov)"
    by (auto elim: mk_aliasing_engineE)
  obtain s x where sx: "tw_start cov = Time_Point s" "tw_end cov = Time_Point x"
    by (cases "tw_start cov"; cases "tw_end cov")
  have le: "iv \<le> x - s" using dvd cov(3) zdvd_imp_le [of iv "x - s"] by (simp add: sx time_order_defs)
  then have i: "is_i64 (s + iv)" "is_i64 (x - iv)" using cov iv by (auto simp: sx is_i64_def)
  have "resolve Sim Ds e t = resolve_clamp e t"
    using t by (auto simp: ed resolve_def resolve_by_bounds_def tw_contains_def)
  then show ?thesis
    using t le iv i by (auto simp: ed resolve_clamp_def tw_contains_def sx time_point_plus_def time_point_minus_def
        checked_runtime mk_time_window_def time_order_defs)
qed

theorem aliasing_clamp_witness:
  "\<exists>e w. mk_aliasing_engine NoLeap_Calendar \<lparr>tw_start = Time_Point 0, tw_end = Time_Point 12\<rparr> (Duration 4)
      clamp_to_edge 0 = Inr e \<and>
    resolve Gregorian_Calendar NoLeap_Calendar e (Time_Point 100) = Inr \<lparr>aw_window = w, aw_alpha = double_zero\<rparr> \<and>
    tw_end w = Time_Point 12"
proof -
  let ?cov = "\<lparr>tw_start = Time_Point 0, tw_end = Time_Point 12\<rparr>"
  obtain e where e: "mk_aliasing_engine NoLeap_Calendar ?cov (Duration 4) clamp_to_edge 0 = Inr e"
    by (simp add: mk_aliasing_engine_def tw_duration_def is_i64_def smod_eq_0_iff)
  show ?thesis
    using aliasing_clamp [OF e, of "Time_Point 100" Gregorian_Calendar] e
    by (auto simp: is_i64_def tw_contains_def time_order_defs)
qed

text \<open>
  The climatology policy is total and never leaves the reference year: for any two of the three
  calendars, any simulation time of the range, a reference year from 1737 to 2314 and
  snapshots at most 366 days apart, \<open>resolve\<close> returns a window of one snapshot interval
  that contains the time remapped to the reference year (month and time of day kept,
  day clamped), with a weight between 0 and 1. This covers the window over the new year.
\<close>

theorem aliasing_climatology:
  assumes e: "mk_aliasing_engine Ds cov (Duration iv) pure_climatology year = Inr e"
    and cals: "Sim \<in> set tick_calendars" "Ds \<in> set tick_calendars"
    and n: "is_i64 n" "- 9223286400000000000 \<le> n" and y: "1737 \<le> year" "year \<le> 2314"
    and iv: "iv \<le> 31622400000000000"
  shows "\<exists>dt dt' t r. cal_to_date_time Sim (Time_Point n) = Inr dt \<and> substitute_year Ds dt year = Inr dt' \<and>
    cal_to_time_point Ds dt' = Inr t \<and> cal_to_date_time Ds t = Inr dt' \<and> dt_year dt' = year \<and>
    dt_month dt' = dt_month dt \<and> nanos_of_day dt' = nanos_of_day dt \<and>
    resolve Sim Ds e (Time_Point n) = Inr r \<and> tw_contains (aw_window r) t \<and>
    tp_nanos (tw_end (aw_window r)) = tp_nanos (tw_start (aw_window r)) + iv \<and>
    0 \<le> dval (aw_alpha r) \<and> dval (aw_alpha r) \<le> 1"
proof -
  from e have ed: "e = \<lparr>ae_coverage = cov, ae_snapshot_interval = Duration iv, ae_policy = pure_climatology,
        ae_climatological_year = year\<rparr>" and iv0: "0 < iv"
    by (auto elim: mk_aliasing_engineE)
  note S = tick_calendars_laws [OF cals(1)] and D = tick_calendars_laws [OF cals(2)]
    and R = tick_calendars_range [OF cals(2)]
  have yi: "is_i32 year" using y by (simp add: is_i32_def)
  obtain dt where dt: "cal_to_date_time Sim (Time_Point n) = Inr dt"
    using calendar_laws.to_dt_defined [OF S n] by (auto simp: is_ok_iff)
  have "valid_date_time Sim dt" using calendar_laws.to_dt_valid [OF S, of "Time_Point n" dt] n dt by simp
  then obtain dt' where dt': "substitute_year Ds dt year = Inr dt'" "valid_date_time Ds dt'" "dt_year dt' = year"
      "dt_month dt' = dt_month dt" "nanos_of_day dt' = nanos_of_day dt"
    using substitute_year_valid [OF D _ yi] by blast
  obtain t where t: "cal_to_time_point Ds dt' = Inr t"
    using calendar_range.in_range [OF R dt'(2)] dt'(3) y by auto
  then have t': "cal_to_date_time Ds t = Inr dt'" using calendar_laws.inverse [OF D _ t] dt'(3) yi by simp
  obtain s where s: "cal_to_time_point Ds (mk_date_time year 1 1 0 0 0 0) = Inr s"
    by (rule calendar_range.new_year [OF R, of year]) (use y in auto)
  obtain w0 d w where w: "enclosing_window t s (Duration iv) = Inr w0" "cal_to_date_time Ds (tw_end w0) = Inr d"
      "(if dt_year d > year then
         bindR (ub32 (year + 1)) (\<lambda>next_year.
         bindR (cal_to_time_point Ds (mk_date_time next_year 1 1 0 0 0 0)) (\<lambda>t_right.
         bindR (time_point_minus t_right (Duration iv)) (\<lambda>t_left. mk_time_window t_left t_right)))
       else Inr w0) = Inr w" "tw_contains w t" "tp_nanos (tw_end w) = tp_nanos (tw_start w) + iv"
    using calendar_range.climatology_window [OF R dt'(2) t _ _ _ iv0 iv, of s] s y dt'(3) by auto
  have "is_i64 (tp_nanos (tw_end w) - tp_nanos (tw_start w))" using w(5) iv iv0 by (simp add: is_i64_def)
  then obtain a where a: "calculate_weight t w = Inr a" "0 \<le> dval a" "dval a \<le> 1"
    using calculate_weight_ok w(4) by blast
  have "resolve Sim Ds e (Time_Point n) = Inr \<lparr>aw_window = w, aw_alpha = a\<rparr>"
    unfolding resolve_def resolve_climatology_def Let_def
    by (simp only: ed Aliasing_Engine.select_convs dt dt'(1) t s w(1,2,3) a(1) bindR_simps if_True refl)
  then show ?thesis using dt dt' t t' w(4,5) a by auto
qed

lemma monthly_engine:
  "mk_aliasing_engine Cal360_Calendar \<lparr>tw_start = Time_Point 0, tw_end = Time_Point 31104000000000000\<rparr>
     (Duration 2592000000000000) pure_climatology 2026 =
   Inr \<lparr>ae_coverage = \<lparr>tw_start = Time_Point 0, tw_end = Time_Point 31104000000000000\<rparr>,
     ae_snapshot_interval = Duration 2592000000000000, ae_policy = pure_climatology, ae_climatological_year = 2026\<rparr>"
proof -
  have "c360_to_date_time (Time_Point 0) = Inr (mk_date_time 2026 1 1 0 0 0 0)"
      "c360_to_date_time (Time_Point 31103999999999999) = Inr (mk_date_time 2026 12 30 23 59 59 999999999)"
    by code_simp+
  then show ?thesis
    by (simp add: mk_aliasing_engine_def tw_duration_def is_i64_def smod_eq_0_iff time_point_minus_def
        checked_runtime)
qed

theorem aliasing_climatology_witness:
  "\<exists>r. resolve Gregorian_Calendar Cal360_Calendar
     \<lparr>ae_coverage = \<lparr>tw_start = Time_Point 0, tw_end = Time_Point 31104000000000000\<rparr>,
      ae_snapshot_interval = Duration 2592000000000000, ae_policy = pure_climatology, ae_climatological_year = 2026\<rparr>
     (Time_Point (- 1)) = Inr r \<and> 0 \<le> dval (aw_alpha r) \<and> dval (aw_alpha r) \<le> 1"
  using aliasing_climatology [OF monthly_engine, of Gregorian_Calendar "- 1"]
  by (auto simp: tick_calendars_def is_i64_def)

text \<open>
  The cycling policy keeps the season: a time outside the coverage resolves as the time of
  the last (or, before the coverage, the first) covered year with the same month and
  time of day. Whenever that time is covered, the window returned lies within the coverage
  and contains it, with a weight between 0 and 1.
\<close>

theorem aliasing_cycle:
  assumes e: "mk_aliasing_engine Ds cov (Duration iv) cycle_last_year year = Inr e"
    and cals: "Sim \<in> set tick_calendars" "Ds \<in> set tick_calendars"
    and cov: "is_i64 (tp_nanos (tw_start cov))" "is_i64 (tp_nanos (tw_end cov))" "tw_start cov < tw_end cov"
      "- 9223286400000000000 \<le> tp_nanos (tw_start cov)"
    and n: "is_i64 n" "- 9223286400000000000 \<le> n" "\<not> tw_contains cov (Time_Point n)"
  shows "\<exists>dt target dt'. cal_to_date_time Sim (Time_Point n) = Inr dt \<and>
    cal_to_date_time Ds (if Time_Point n < tw_start cov then tw_start cov
      else Time_Point (tp_nanos (tw_end cov) - 1)) = Inr target \<and>
    substitute_year Ds dt (dt_year target) = Inr dt' \<and> valid_date_time Ds dt' \<and>
    dt_year dt' = dt_year target \<and> dt_month dt' = dt_month dt \<and> nanos_of_day dt' = nanos_of_day dt \<and>
    (\<forall>t. cal_to_time_point Ds dt' = Inr t \<and> tw_contains cov t \<longrightarrow>
      (\<exists>r. resolve Sim Ds e (Time_Point n) = Inr r \<and> tw_contains (aw_window r) t \<and>
        tw_start cov \<le> tw_start (aw_window r) \<and> tw_end (aw_window r) \<le> tw_end cov \<and>
        0 \<le> dval (aw_alpha r) \<and> dval (aw_alpha r) \<le> 1))"
proof -
  from e have ed: "e = \<lparr>ae_coverage = cov, ae_snapshot_interval = Duration iv, ae_policy = cycle_last_year,
        ae_climatological_year = year\<rparr>"
    by (auto elim: mk_aliasing_engineE)
  note S = tick_calendars_laws [OF cals(1)] and D = tick_calendars_laws [OF cals(2)]
  obtain dt where dt: "cal_to_date_time Sim (Time_Point n) = Inr dt"
    using calendar_laws.to_dt_defined [OF S n(1,2)] by (auto simp: is_ok_iff)
  have v: "valid_date_time Sim dt" using calendar_laws.to_dt_valid [OF S, of "Time_Point n" dt] n dt by simp
  define m where "m = (if Time_Point n < tw_start cov then tp_nanos (tw_start cov) else tp_nanos (tw_end cov) - 1)"
  have m: "is_i64 m" "- 9223286400000000000 \<le> m" using cov by (auto simp: m_def is_i64_def time_order_defs)
  obtain target where tg: "cal_to_date_time Ds (Time_Point m) = Inr target"
    using calendar_laws.to_dt_defined [OF D m] by (auto simp: is_ok_iff)
  have "valid_date_time Ds target" using calendar_laws.to_dt_valid [OF D, of "Time_Point m" target] m tg by simp
  then have "is_i32 (dt_year target)" by (simp add: valid_date_time_def day_ok_def)
  then obtain dt' where dt': "substitute_year Ds dt (dt_year target) = Inr dt'" "valid_date_time Ds dt'"
      "dt_year dt' = dt_year target" "dt_month dt' = dt_month dt" "nanos_of_day dt' = nanos_of_day dt"
    using substitute_year_valid [OF D v] by blast
  have side: "Time_Point n < tw_start cov \<or> tw_end cov \<le> Time_Point n"
    using n(3) by (auto simp: tw_contains_def)
  have "(if Time_Point n \<ge> tw_end cov then bindR (time_point_minus (tw_end cov) (Duration 1)) (cal_to_date_time Ds)
      else cal_to_date_time Ds (tw_start cov)) = Inr target"
    using tg side cov m by (cases "tw_start cov") (auto simp: m_def time_point_minus_def checked_runtime
        time_order_defs is_i64_def split: if_splits)
  then have res: "resolve Sim Ds e (Time_Point n) = bindR (cal_to_time_point Ds dt') (resolve_in_bounds e)"
    using n(3) by (auto simp: resolve_def resolve_by_bounds_def resolve_cycle_def ed tw_contains_def dt dt'(1))
  have covered: "\<exists>r. resolve Sim Ds e (Time_Point n) = Inr r \<and> tw_contains (aw_window r) t \<and>
      tw_start cov \<le> tw_start (aw_window r) \<and> tw_end (aw_window r) \<le> tw_end cov \<and>
      0 \<le> dval (aw_alpha r) \<and> dval (aw_alpha r) \<le> 1"
    if "cal_to_time_point Ds dt' = Inr t" "tw_contains cov t" for t
    using resolve_in_bounds_ok [OF e cov(1,2) that(2)] that(1) unfolding res by auto
  have "(if Time_Point n < tw_start cov then tw_start cov else Time_Point (tp_nanos (tw_end cov) - 1)) = Time_Point m"
    by (simp add: m_def)
  then show ?thesis
    using dt tg dt' covered by (intro exI [of _ dt] exI [of _ target] exI [of _ dt']) auto
qed

theorem aliasing_cycle_witness:
  "\<exists>r. resolve Cal360_Calendar Cal360_Calendar
     \<lparr>ae_coverage = \<lparr>tw_start = Time_Point 0, tw_end = Time_Point 31104000000000000\<rparr>,
      ae_snapshot_interval = Duration 2592000000000000, ae_policy = cycle_last_year, ae_climatological_year = 0\<rparr>
     (Time_Point 31104000000000000) = Inr r \<and> tw_contains (aw_window r) (Time_Point 0)"
proof -
  let ?cov = "\<lparr>tw_start = Time_Point 0, tw_end = Time_Point 31104000000000000\<rparr>"
  have e: "mk_aliasing_engine Cal360_Calendar ?cov (Duration 2592000000000000) cycle_last_year 0 =
      Inr \<lparr>ae_coverage = ?cov, ae_snapshot_interval = Duration 2592000000000000,
        ae_policy = cycle_last_year, ae_climatological_year = 0\<rparr>"
    by code_simp
  have dates: "c360_to_date_time (Time_Point 31104000000000000) = Inr (mk_date_time 2027 1 1 0 0 0 0)"
      "c360_to_date_time (Time_Point 31103999999999999) = Inr (mk_date_time 2026 12 30 23 59 59 999999999)"
      "substitute_year Cal360_Calendar (mk_date_time 2027 1 1 0 0 0 0) 2026 = Inr (mk_date_time 2026 1 1 0 0 0 0)"
      "c360_to_time_point (mk_date_time 2026 1 1 0 0 0 0) = Inr (Time_Point 0)"
    by code_simp+
  show ?thesis
    using aliasing_cycle [OF e, of Cal360_Calendar 31104000000000000] dates
    by (auto simp: tick_calendars_def is_i64_def tw_contains_def time_order_defs)
qed

text \<open>
  The covered case is the one to rely on. When the first covered year is only partly covered, a
  remapped time can precede the coverage; the window search truncates towards the coverage
  start, and the weight computation rejects the window it finds.
\<close>

lemma cycle_partial_year_throws:
  "resolve Cal360_Calendar Cal360_Calendar
     \<lparr>ae_coverage = \<lparr>tw_start = Time_Point 15552000000000000, tw_end = Time_Point 46656000000000000\<rparr>,
      ae_snapshot_interval = Duration 2592000000000000, ae_policy = cycle_last_year, ae_climatological_year = 0\<rparr>
     (Time_Point 6393600000000000) =
   Inl (Out_of_range ''calculate_weight: current time is not within the supplied window'')"
  by code_simp

text \<open>
  Leap days are held: with a Gregorian simulation clock and a NoLeap dataset under the
  \<open>leap_hold\<close> policy, every instant of 29 February in the years 1737 to 2315 resolves to the same
  one-day window, from 28 February to 1 March of that year in the dataset calendar, with
  weight 0, whether or not the time is covered.
\<close>

theorem aliasing_leap_hold:
  assumes p: "ae_policy e = leap_hold" and dt: "greg_to_date_time t = Inr dt" "dt_month dt = 2" "dt_day dt = 29"
    and y: "1737 \<le> dt_year dt" "dt_year dt \<le> 2315"
  shows "\<exists>w. resolve Gregorian_Calendar NoLeap_Calendar e t = Inr \<lparr>aw_window = w, aw_alpha = double_zero\<rparr> \<and>
    noleap_to_date_time (tw_start w) = Inr (mk_date_time (dt_year dt) 2 28 0 0 0 0) \<and>
    noleap_to_date_time (tw_end w) = Inr (mk_date_time (dt_year dt) 3 1 0 0 0 0) \<and>
    tp_nanos (tw_end w) = tp_nanos (tw_start w) + nanos_per_day"
proof -
  let ?l = "mk_date_time (dt_year dt) 2 28 0 0 0 0" and ?r = "mk_date_time (dt_year dt) 3 1 0 0 0 0"
  have i: "is_i32 (dt_year dt)" using y by (simp add: is_i32_def)
  have v: "valid_date_time NoLeap_Calendar ?l" "valid_date_time NoLeap_Calendar ?r"
    using i by (simp_all add: valid_date_time_def day_ok_def time_of_day_ok_def noleap_dim noleap_month_table_def)
  obtain a b where ab: "noleap_to_time_point ?l = Inr a" "noleap_to_time_point ?r = Inr b"
    using noleap_range.in_range [OF v(1)] noleap_range.in_range [OF v(2)] y by auto
  have len: "tp_nanos b = tp_nanos a + nanos_per_day"
    using noleap.midnight_nanos [OF i, of 2 28 a] noleap.midnight_nanos [OF i, of 3 1 b] ab
    by (simp add: noleap_days_def cum_days_def)
  have "noleap_to_date_time a = Inr ?l" "noleap_to_date_time b = Inr ?r"
    using noleap.inverse [of ?l a] noleap.inverse [of ?r b] ab i by simp_all
  then show ?thesis
    using ab len dt p by (simp add: resolve_def is_feb29_def feb29_hold_def mk_time_window_def time_order_defs)
qed

theorem aliasing_leap_hold_witness:
  "\<exists>w. resolve Gregorian_Calendar NoLeap_Calendar
     \<lparr>ae_coverage = \<lparr>tw_start = Time_Point 0, tw_end = Time_Point 4\<rparr>, ae_snapshot_interval = Duration 4,
      ae_policy = leap_hold, ae_climatological_year = 0\<rparr> (Time_Point 68212800000000000) =
     Inr \<lparr>aw_window = w, aw_alpha = double_zero\<rparr>"
proof -
  have "greg_to_date_time (Time_Point 68212800000000000) = Inr (mk_date_time 2028 2 29 12 0 0 0)" by code_simp
  then show ?thesis
    using aliasing_leap_hold [of "\<lparr>ae_coverage = \<lparr>tw_start = Time_Point 0, tw_end = Time_Point 4\<rparr>,
        ae_snapshot_interval = Duration 4, ae_policy = leap_hold, ae_climatological_year = 0\<rparr>"
        "Time_Point 68212800000000000" "mk_date_time 2028 2 29 12 0 0 0"]
    by auto
qed

text \<open>
  The interpolation weight is the correctly rounded fraction: for windows of less than
  2 to the power 53 nanoseconds (about 104 days) the weight differs from the exact quotient by at
  most 2 to the power -53.
\<close>

theorem calculate_weight_precise:
  assumes "tw_contains w t" "tp_nanos (tw_end w) - tp_nanos (tw_start w) < 9007199254740992"
  shows "\<exists>a. calculate_weight t w = Inr a \<and>
    \<bar>dval a - (tp_nanos t - tp_nanos (tw_start w)) / (tp_nanos (tw_end w) - tp_nanos (tw_start w))\<bar> \<le> 1 / 2 ^ 53"
proof -
  let ?n = "tp_nanos t - tp_nanos (tw_start w)" and ?d = "tp_nanos (tw_end w) - tp_nanos (tw_start w)"
  have n: "0 \<le> ?n" "?n < ?d" using assms(1) by (auto simp: tw_contains_def time_order_defs)
  then have i: "is_i64 ?n" "is_i64 ?d" using assms(2) by (simp_all add: is_i64_def)
  have "double_of_int64 ?n = ?n" "double_of_int64 ?d = ?d"
    using n assms(2) by (simp_all add: double_of_int64_exact)
  then have "calculate_weight t w = Inr (double_divide ?n ?d)"
    using n i assms(1) by (auto simp: calculate_weight_def tw_duration_def tw_contains_def)
  then show ?thesis using double_divide_unit(3) [of ?n ?d] n by auto
qed

theorem calculate_weight_precise_witness:
  "\<exists>a. calculate_weight (Time_Point 1) \<lparr>tw_start = Time_Point 0, tw_end = Time_Point 3\<rparr> = Inr a \<and>
    \<bar>dval a - 1 / 3\<bar> \<le> 1 / 2 ^ 53"
  using calculate_weight_precise [of "\<lparr>tw_start = Time_Point 0, tw_end = Time_Point 3\<rparr>" "Time_Point 1"]
  by (simp add: tw_contains_def time_order_defs)

text \<open>
  For longer windows the conversion to binary64 rounds, and the weight of a time strictly
  inside the window can be exactly one.
\<close>

lemma weight_can_reach_one:
  "calculate_weight (Time_Point 31535999999999999) \<lparr>tw_start = Time_Point 0, tw_end = Time_Point 31536000000000000\<rparr> =
     Inr (Double 4503599627370496 (- 52)) \<and>
   dval (Double 4503599627370496 (- 52)) = 1"
proof
  show "calculate_weight (Time_Point 31535999999999999) \<lparr>tw_start = Time_Point 0, tw_end = Time_Point 31536000000000000\<rparr> =
     Inr (Double 4503599627370496 (- 52))"
    by code_simp
  show "dval (Double 4503599627370496 (- 52)) = 1"
    by (simp add: dval_def power_int_def power_one_over)
qed

end
