(* ===== verification/Span_Triple_Buffer.thy ===== *)
theory Span_Triple_Buffer
  imports Helm_Prelude
begin

text \<open>
  SPAN's triple buffer: \<^verbatim>\<open>span/triple_buffer.hpp\<close>.

  A buffer pointer is an address, 0 being null. Rotation and release run under the mutex
  and are single steps. The step relation at the end adds the two threads that use the buffer: the
  model thread, which writes through the write pointer and asks for rotation, and the I/O
  thread, which streams the I/O buffer and releases it.
\<close>

section \<open>Operations\<close>

record TripleBuffer =
  tb_write :: nat
  tb_read :: nat
  tb_io :: nat
  tb_n_elements :: nat
  tb_io_locked :: bool

definition mk_triple_buffer :: "nat \<Rightarrow> nat \<Rightarrow> nat \<Rightarrow> nat \<Rightarrow> TripleBuffer result" where
  "mk_triple_buffer buf_write buf_read buf_io n_elements =
     (if buf_write = 0 then Inl (Invalid_argument ''TripleBuffer: buf_write must not be null'')
      else if buf_read = 0 then Inl (Invalid_argument ''TripleBuffer: buf_read must not be null'')
      else if buf_io = 0 then Inl (Invalid_argument ''TripleBuffer: buf_io must not be null'')
      else if n_elements = 0 then Inl (Invalid_argument ''TripleBuffer: n_elements must be > 0'')
      else if buf_write = buf_read \<or> buf_write = buf_io \<or> buf_read = buf_io
        then Inl (Invalid_argument ''TripleBuffer: all three buffer pointers must be distinct'')
      else Inr \<lparr>tb_write = buf_write, tb_read = buf_read, tb_io = buf_io, tb_n_elements = n_elements,
                tb_io_locked = False\<rparr>)"

definition swap_buffers_for_amio :: "TripleBuffer \<Rightarrow> bool \<times> TripleBuffer" where
  "swap_buffers_for_amio tb =
     (if tb_io_locked tb then (False, tb)
      else let old_write = tb_write tb; old_read = tb_read tb; old_io = tb_io tb in
        (True, tb\<lparr>tb_read := old_write, tb_io := old_read, tb_write := old_io, tb_io_locked := True\<rparr>))"

definition release_io :: "TripleBuffer \<Rightarrow> TripleBuffer" where
  "release_io tb = tb\<lparr>tb_io_locked := False\<rparr>"

section \<open>The two threads\<close>

text \<open>
  The state joins the buffer with the contents of the three allocations. The label records what
  the I/O thread can observe: the contents it streams, or that the model completed a snapshot.
\<close>

datatype 'a tb_event = Model_Write 'a | Rotate bool | Stream 'a | Release

inductive tb_step :: "TripleBuffer \<times> (nat \<Rightarrow> 'a) \<Rightarrow> 'a tb_event \<Rightarrow> TripleBuffer \<times> (nat \<Rightarrow> 'a) \<Rightarrow> bool" where
  model_write: "tb_step (tb, c) (Model_Write x) (tb, c(tb_write tb := x))"
| rotate: "swap_buffers_for_amio tb = (ok, tb') \<Longrightarrow> tb_step (tb, c) (Rotate ok) (tb', c)"
| stream: "tb_io_locked tb \<Longrightarrow> tb_step (tb, c) (Stream (c (tb_io tb))) (tb, c)"
| release: "tb_io_locked tb \<Longrightarrow> tb_step (tb, c) Release (release_io tb, c)"

inductive tb_run :: "TripleBuffer \<times> (nat \<Rightarrow> 'a) \<Rightarrow> 'a tb_event list \<Rightarrow> TripleBuffer \<times> (nat \<Rightarrow> 'a) \<Rightarrow> bool" where
  tb_nil: "tb_run s [] s"
| tb_cons: "tb_step s e s' \<Longrightarrow> tb_run s' es s'' \<Longrightarrow> tb_run s (e # es) s''"

inductive_simps tb_step_simps: "tb_step (tb, c) e (tb', c')"
inductive_simps tb_run_simps: "tb_run s [] s'" "tb_run s (e # es) s''"

section \<open>Invariant\<close>

definition tb_inv :: "nat set \<Rightarrow> TripleBuffer \<Rightarrow> bool" where
  "tb_inv B tb \<longleftrightarrow>
     tb_write tb \<noteq> tb_read tb \<and> tb_write tb \<noteq> tb_io tb \<and> tb_read tb \<noteq> tb_io tb \<and>
     {tb_write tb, tb_read tb, tb_io tb} = B \<and> 0 \<notin> B \<and> 0 < tb_n_elements tb"

lemma mk_triple_buffer_inv:
  "mk_triple_buffer w r i n = Inr tb \<Longrightarrow> tb_inv {w, r, i} tb \<and> \<not> tb_io_locked tb"
  by (auto simp: mk_triple_buffer_def tb_inv_def)

lemma swap_inv: "tb_inv B tb \<Longrightarrow> swap_buffers_for_amio tb = (ok, tb') \<Longrightarrow> tb_inv B tb'"
  by (auto simp: swap_buffers_for_amio_def tb_inv_def split: if_splits)

lemma release_inv: "tb_inv B tb \<Longrightarrow> tb_inv B (release_io tb)"
  by (simp add: release_io_def tb_inv_def)

lemma tb_step_inv: "tb_step (tb, c) e (tb', c') \<Longrightarrow> tb_inv B tb \<Longrightarrow> tb_inv B tb'"
  by (auto simp: tb_step_simps swap_inv release_inv)

lemma tb_run_inv: "tb_run s es s' \<Longrightarrow> tb_inv B (fst s) \<Longrightarrow> tb_inv B (fst s')"
  by (induction rule: tb_run.induct) (auto dest: tb_step_inv)

text \<open>While the I/O track is locked no step but a release changes it or what it holds.\<close>

lemma tb_step_locked:
  assumes "tb_step (tb, c) e (tb', c')" "tb_inv B tb" "tb_io_locked tb" "e \<noteq> Release"
  shows "tb_io_locked tb' \<and> tb_io tb' = tb_io tb \<and> c' (tb_io tb') = c (tb_io tb)"
  using assms by (auto simp: tb_step_simps swap_buffers_for_amio_def tb_inv_def)

lemma tb_run_locked:
  assumes "tb_run (tb, c) es (tb', c')" "tb_inv B tb" "tb_io_locked tb" "Release \<notin> set es"
  shows "tb_io_locked tb' \<and> tb_io tb' = tb_io tb \<and> c' (tb_io tb') = c (tb_io tb)"
  using assms
proof (induction "(tb, c)" es "(tb', c')" arbitrary: tb c rule: tb_run.induct)
  case (tb_cons e s' es)
  obtain tb1 c1 where s': "s' = (tb1, c1)" by (cases s')
  then show ?case
    using tb_cons tb_step_locked [of tb c e tb1 c1 B] tb_step_inv [of tb c e tb1 c1 B] by auto
qed simp

text \<open>Without a rotation in between, the read and I/O tracks are untouched by the model.\<close>

lemma tb_run_tracks:
  assumes "tb_run (tb, c) es (tb', c')" "tb_inv B tb" "Rotate True \<notin> set es"
  shows "tb_write tb' = tb_write tb \<and> tb_read tb' = tb_read tb \<and> tb_io tb' = tb_io tb \<and>
    c' (tb_read tb) = c (tb_read tb) \<and> c' (tb_io tb) = c (tb_io tb)"
  using assms
proof (induction "(tb, c)" es "(tb', c')" arbitrary: tb c rule: tb_run.induct)
  case (tb_cons e s' es)
  obtain tb1 c1 where s': "s' = (tb1, c1)" by (cases s')
  have "tb_write tb1 = tb_write tb \<and> tb_read tb1 = tb_read tb \<and> tb_io tb1 = tb_io tb \<and>
      c1 (tb_read tb) = c (tb_read tb) \<and> c1 (tb_io tb) = c (tb_io tb)"
    using tb_cons.hyps(1) tb_cons.prems by (auto simp: s' tb_step_simps swap_buffers_for_amio_def release_io_def tb_inv_def
        split: if_splits)
  then show ?case
    using tb_cons tb_step_inv [of tb c e tb1 c1 B] by (auto simp: s')
qed simp

section \<open>Properties\<close>

text \<open>
  C4. Streaming is isolated from the model: in every run of the two threads from a freshly
  constructed buffer, the three tracks stay a permutation of the three allocations, and
  once the I/O track is locked, whatever the model writes and however often it asks for
  rotation, the I/O pointer and the contents behind it do not change until the release, and
  the model's write pointer never designates it.
\<close>

theorem triple_buffer_isolation:
  assumes "mk_triple_buffer w r i n = Inr tb0" "tb_run (tb0, c0) es (tb, c)" "tb_io_locked tb"
    and "tb_run (tb, c) es' (tb', c')" "Release \<notin> set es'"
  shows "{tb_write tb', tb_read tb', tb_io tb'} = {w, r, i} \<and> tb_write tb' \<noteq> tb_io tb' \<and>
    tb_io_locked tb' \<and> tb_io tb' = tb_io tb \<and> c' (tb_io tb') = c (tb_io tb)"
proof -
  have inv: "tb_inv {w, r, i} tb" using tb_run_inv [OF assms(2)] mk_triple_buffer_inv [OF assms(1)] by auto
  moreover have "tb_inv {w, r, i} tb'" using tb_run_inv [OF assms(4)] inv by auto
  ultimately show ?thesis using tb_run_locked [OF assms(4) inv assms(3,5)] by (auto simp: tb_inv_def)
qed

theorem triple_buffer_isolation_witness:
  "\<exists>tb c tb' c'. tb_run (tb, c) [Model_Write (7::int), Rotate False] (tb', c') \<and> tb_io tb' = tb_io tb \<and>
    c' (tb_io tb') = c (tb_io tb)"
proof -
  let ?init = "\<lparr>tb_write = 1, tb_read = 2, tb_io = 3, tb_n_elements = 4, tb_io_locked = False\<rparr>"
  let ?tb = "\<lparr>tb_write = 3, tb_read = 1, tb_io = 2, tb_n_elements = 4, tb_io_locked = True\<rparr>"
  let ?c = "(\<lambda>_. 0) :: nat \<Rightarrow> int"
  have mk: "mk_triple_buffer 1 2 3 4 = Inr ?init" by (simp add: mk_triple_buffer_def)
  have "tb_step (?init, ?c) (Rotate True) (?tb, ?c)" "tb_step (?tb, ?c(3 := 7)) (Rotate False) (?tb, ?c(3 := 7))"
    by (rule rotate; simp add: swap_buffers_for_amio_def)+
  moreover have "tb_step (?tb, ?c) (Model_Write 7) (?tb, ?c(3 := 7))"
    using model_write [of ?tb ?c 7] by simp
  ultimately have run: "tb_run (?init, ?c) [Rotate True] (?tb, ?c)"
      "tb_run (?tb, ?c) [Model_Write 7, Rotate False] (?tb, ?c(3 := 7))"
    by (blast intro: tb_run.intros)+
  have "(?c(3 := 7)) (tb_io ?tb) = ?c (tb_io ?tb)"
    using triple_buffer_isolation [OF mk run(1) _ run(2)] by simp
  with run(2) show ?thesis by blast
qed

text \<open>
  The pipeline has a depth of one rotation: the I/O thread must release between two
  successful rotations, and what it streams after the second one is what the model had
  written when the first one happened, whatever the model wrote since.
\<close>

theorem triple_buffer_pipeline:
  assumes inv: "tb_inv B tb1" and r1: "tb_step (tb1, c1) (Rotate True) (tb2, c2)"
    and run: "tb_run (tb2, c2) es (tb3, c3)" "Rotate True \<notin> set es"
    and r2: "tb_step (tb3, c3) (Rotate True) (tb4, c4)"
  shows "Release \<in> set es \<and> tb_io_locked tb4 \<and> tb_io tb4 = tb_write tb1 \<and> c4 (tb_io tb4) = c1 (tb_write tb1)"
proof -
  have t2: "tb_io_locked tb2" "tb_read tb2 = tb_write tb1" "c2 = c1"
    using r1 by (auto simp: tb_step_simps swap_buffers_for_amio_def split: if_splits)
  have t4: "\<not> tb_io_locked tb3" "tb_io tb4 = tb_read tb3" "tb_io_locked tb4" "c4 = c3"
    using r2 by (auto simp: tb_step_simps swap_buffers_for_amio_def split: if_splits)
  have inv2: "tb_inv B tb2" by (rule tb_step_inv [OF r1 inv])
  have "Release \<in> set es" using tb_run_locked [OF run(1) inv2 t2(1)] t4(1) by auto
  then show ?thesis using tb_run_tracks [OF run(1) inv2 run(2)] t2 t4 by simp
qed

theorem triple_buffer_pipeline_witness:
  "\<exists>tb4 c4. tb_step (\<lparr>tb_write = 3, tb_read = 1, tb_io = 2, tb_n_elements = 4, tb_io_locked = False\<rparr>,
      (\<lambda>_. 0)(1 := 5)) (Rotate True) (tb4, c4) \<and> c4 (tb_io tb4) = (5::int)"
proof -
  let ?first = "\<lparr>tb_write = 1, tb_read = 2, tb_io = 3, tb_n_elements = 4, tb_io_locked = False\<rparr>"
  let ?second = "\<lparr>tb_write = 3, tb_read = 1, tb_io = 2, tb_n_elements = 4, tb_io_locked = True\<rparr>"
  let ?fourth = "\<lparr>tb_write = 2, tb_read = 3, tb_io = 1, tb_n_elements = 4, tb_io_locked = True\<rparr>"
  let ?c = "((\<lambda>_. 0)(1 := 5)) :: nat \<Rightarrow> int"
  let ?third = "\<lparr>tb_write = 3, tb_read = 1, tb_io = 2, tb_n_elements = 4, tb_io_locked = False\<rparr>"
  have st: "tb_step (?first, ?c) (Rotate True) (?second, ?c)" "tb_step (?second, ?c) Release (?third, ?c)"
    "tb_step (?third, ?c) (Rotate True) (?fourth, ?c)"
    by (simp_all add: ex_bool_eq tb_step_simps swap_buffers_for_amio_def release_io_def)
  have "tb_inv {1, 2, 3} ?first" by (auto simp: tb_inv_def)
  moreover have "tb_run (?second, ?c) [Release] (?third, ?c)" using st(2) by (blast intro: tb_run.intros)
  ultimately have "?c (tb_io ?fourth) = ?c (tb_write ?first)"
    using triple_buffer_pipeline [of "{1, 2, 3}" ?first ?c ?second ?c "[Release]" ?third ?c ?fourth ?c] st by simp
  then show ?thesis using st(3) by (intro exI [of _ ?fourth] exI [of _ ?c] conjI) simp_all
qed

end
