(* ===== verification/Handle_Store.thy ===== *)
theory Handle_Store
  imports Helm_Prelude
begin

text \<open>
  The contract of a handle registry: a mutable table that hands out handles for objects.

  The HELM libraries keep the objects behind their C interfaces in such tables. The locale
  states what the interfaces rely on: a new handle is one that was not live, operations
  on one handle leave the others alone, a refused operation changes nothing. Seen through
  \<open>lookup\<close> a registry is a partial map, and the client lemmas follow from that.
\<close>

datatype ('h, 'v) store_op = Register 'v | Unregister 'h

locale handle_store =
  fixes inv :: "'st \<Rightarrow> bool"
    and lookup :: "'st \<Rightarrow> 'h \<Rightarrow> 'v option"
    and register :: "'v \<Rightarrow> 'st \<Rightarrow> 'h option \<times> 'st"
    and unregister :: "'h \<Rightarrow> 'st \<Rightarrow> bool \<times> 'st"
  assumes register_some: "inv s \<Longrightarrow> register v s = (Some h, s') \<Longrightarrow>
      inv s' \<and> lookup s h = None \<and> lookup s' = (lookup s)(h \<mapsto> v)"
    and register_none: "inv s \<Longrightarrow> register v s = (None, s') \<Longrightarrow> s' = s"
    and unregister_spec: "inv s \<Longrightarrow> unregister h s = (ok, s') \<Longrightarrow>
      inv s' \<and> ok = (lookup s h \<noteq> None) \<and> lookup s' = (lookup s)(h := None)"
begin

definition apply_op :: "('h, 'v) store_op \<Rightarrow> 'st \<Rightarrow> 'st" where
  "apply_op op s = (case op of Register v \<Rightarrow> snd (register v s) | Unregister h \<Rightarrow> snd (unregister h s))"

lemma apply_op_inv: "inv s \<Longrightarrow> inv (apply_op op s)"
proof (cases op)
  case (Register v)
  assume "inv s"
  then show ?thesis
    using Register register_some [of s v] register_none [of s v]
    by (cases "register v s"; cases "fst (register v s)") (auto simp: apply_op_def)
next
  case (Unregister h)
  assume "inv s"
  then show ?thesis
    using Unregister unregister_spec [of s h] by (cases "unregister h s") (auto simp: apply_op_def)
qed

lemma run_inv: "inv s \<Longrightarrow> inv (fold apply_op ops s)"
  by (induction ops arbitrary: s) (auto simp: apply_op_inv)

text \<open>A live handle keeps its object as long as it is not unregistered itself.\<close>

lemma apply_op_keeps:
  assumes "inv s" "lookup s h = Some v" "op \<noteq> Unregister h"
  shows "lookup (apply_op op s) h = Some v"
proof (cases op)
  case (Register w)
  then show ?thesis
    using assms register_some [of s w] register_none [of s w]
    by (cases "register w s"; cases "fst (register w s)") (auto simp: apply_op_def)
next
  case (Unregister k)
  then show ?thesis
    using assms unregister_spec [of s k] by (cases "unregister k s") (auto simp: apply_op_def)
qed

lemma live_handle_stable:
  assumes "inv s" "lookup s h = Some v" "Unregister h \<notin> set ops"
  shows "lookup (fold apply_op ops s) h = Some v"
  using assms by (induction ops arbitrary: s) (auto simp: apply_op_keeps apply_op_inv)

text \<open>Two registrations in a row give different handles.\<close>

lemma register_distinct:
  assumes "inv s" "register v s = (Some h, s')" "register w s' = (Some k, s'')"
  shows "h \<noteq> k"
  using register_some [OF assms(1,2)] register_some [OF _ assms(3)] by auto

text \<open>After unregistering, the handle is dead and unregistering again is refused.\<close>

lemma unregister_twice:
  assumes "inv s" "unregister h s = (ok, s')" "unregister h s' = (ok', s'')"
  shows "\<not> ok' \<and> lookup s' h = None \<and> lookup s'' = lookup s'"
  using unregister_spec [OF assms(1,2)] unregister_spec [OF _ assms(3)] by (auto simp: fun_eq_iff)

end

end
