(* ===== verification/Span_Registry.thy ===== *)
theory Span_Registry
  imports Handle_Store
begin

text \<open>
  SPAN's handle registry: \<^verbatim>\<open>span/src/handle_registry.hpp\<close>.

  The two vectors of 65536 entries are functions on indices; an access outside them is
  undefined behaviour, which the invariant excludes. A shared pointer is an option, null being
  \<open>None\<close>. Each member function runs under the registry's mutex, so it is one step on the state.
\<close>

section \<open>Operations\<close>

definition MAX_CAPACITY :: nat where
  "MAX_CAPACITY = 65536"

definition HELM_SPAN_ERR_REGISTRY_FULL :: int where
  "HELM_SPAN_ERR_REGISTRY_FULL = - 5"

record 'v HandleRegistry =
  hr_slots :: "nat \<Rightarrow> 'v option"
  hr_occupied :: "nat \<Rightarrow> bool"
  hr_free_list :: "int list"
  hr_next_handle :: int
  hr_active_count :: nat

definition mk_registry :: "'v HandleRegistry" where
  "mk_registry = \<lparr>hr_slots = (\<lambda>_. None), hr_occupied = (\<lambda>_. False), hr_free_list = [],
     hr_next_handle = 1, hr_active_count = 0\<rparr>"

definition slot_index :: "int \<Rightarrow> nat" where
  "slot_index handle = nat (handle - 1)"

definition store_slot :: "int \<Rightarrow> 'v option \<Rightarrow> 'v HandleRegistry \<Rightarrow> 'v HandleRegistry result" where
  "store_slot handle view r =
     (if handle < 1 \<or> slot_index handle \<ge> MAX_CAPACITY then Inl Undefined_behaviour
      else Inr (r\<lparr>hr_slots := (hr_slots r)(slot_index handle := view),
                  hr_occupied := (hr_occupied r)(slot_index handle := True)\<rparr>))"

definition register_view :: "'v option \<Rightarrow> 'v HandleRegistry \<Rightarrow> (int \<times> 'v HandleRegistry) result" where
  "register_view view r =
     (if hr_active_count r \<ge> MAX_CAPACITY then Inr (HELM_SPAN_ERR_REGISTRY_FULL, r)
      else
        bindR (case hr_free_list r of
            handle # rest \<Rightarrow>
              bindR (store_slot handle view (r\<lparr>hr_free_list := rest\<rparr>)) (\<lambda>r'. Inr (handle, r'))
          | [] \<Rightarrow>
              let handle = hr_next_handle r in
              bindR (store_slot handle view (r\<lparr>hr_next_handle := handle + 1\<rparr>)) (\<lambda>r'. Inr (handle, r')))
        (\<lambda>(handle, r'). Inr (handle, r'\<lparr>hr_active_count := hr_active_count r' + 1\<rparr>)))"

definition is_valid_unlocked :: "'v HandleRegistry \<Rightarrow> int \<Rightarrow> bool" where
  "is_valid_unlocked r handle =
     (if handle \<le> 0 then False
      else if slot_index handle \<ge> MAX_CAPACITY then False
      else hr_occupied r (slot_index handle))"

definition registry_lookup :: "'v HandleRegistry \<Rightarrow> int \<Rightarrow> 'v option" where
  "registry_lookup r handle =
     (if \<not> is_valid_unlocked r handle then None else hr_slots r (slot_index handle))"

definition registry_unregister :: "int \<Rightarrow> 'v HandleRegistry \<Rightarrow> bool \<times> 'v HandleRegistry" where
  "registry_unregister handle r =
     (if \<not> is_valid_unlocked r handle then (False, r)
      else (True, r\<lparr>hr_slots := (hr_slots r)(slot_index handle := None),
                    hr_occupied := (hr_occupied r)(slot_index handle := False),
                    hr_free_list := hr_free_list r @ [handle],
                    hr_active_count := hr_active_count r - 1\<rparr>))"

definition registry_valid :: "'v HandleRegistry \<Rightarrow> int \<Rightarrow> bool" where
  "registry_valid r handle = is_valid_unlocked r handle"

section \<open>The invariant\<close>

text \<open>
  Handles from 1 up to the next one have been given out; those not on the free list are
  occupied. Every occupied slot holds an object, which is how the C interface uses the registry.
\<close>

definition registry_inv :: "'v HandleRegistry \<Rightarrow> bool" where
  "registry_inv r \<longleftrightarrow>
     1 \<le> hr_next_handle r \<and> hr_next_handle r \<le> int MAX_CAPACITY + 1 \<and>
     distinct (hr_free_list r) \<and>
     (\<forall>h \<in> set (hr_free_list r). 1 \<le> h \<and> h < hr_next_handle r) \<and>
     (\<forall>i. hr_occupied r i \<longleftrightarrow> int i + 1 < hr_next_handle r \<and> int i + 1 \<notin> set (hr_free_list r)) \<and>
     (\<forall>i. hr_occupied r i \<longleftrightarrow> hr_slots r i \<noteq> None) \<and>
     int (hr_active_count r) + int (length (hr_free_list r)) = hr_next_handle r - 1"

lemma mk_registry_inv: "registry_inv mk_registry"
  by (auto simp: registry_inv_def mk_registry_def MAX_CAPACITY_def)

lemma slot_index_inj: "1 \<le> h \<Longrightarrow> 1 \<le> k \<Longrightarrow> slot_index h = slot_index k \<longleftrightarrow> h = k"
  by (auto simp: slot_index_def)

lemma int_slot_index [simp]: "1 \<le> h \<Longrightarrow> int (slot_index h) + 1 = h"
  by (simp add: slot_index_def)

lemma slot_index_Suc [simp]: "slot_index (int i + 1) = i"
  by (simp add: slot_index_def)

lemma registry_invD:
  assumes "registry_inv r"
  shows "1 \<le> hr_next_handle r" "hr_next_handle r \<le> int MAX_CAPACITY + 1" "distinct (hr_free_list r)"
    and "h \<in> set (hr_free_list r) \<Longrightarrow> 1 \<le> h" "h \<in> set (hr_free_list r) \<Longrightarrow> h < hr_next_handle r"
    and "hr_occupied r i \<longleftrightarrow> int i + 1 < hr_next_handle r \<and> int i + 1 \<notin> set (hr_free_list r)"
    and "hr_slots r i = None \<longleftrightarrow> \<not> hr_occupied r i"
    and "int (hr_active_count r) + int (length (hr_free_list r)) = hr_next_handle r - 1"
  using assms unfolding registry_inv_def by blast+

lemma registry_lookup_alt:
  assumes "registry_inv r"
  shows "registry_lookup r h = (if 1 \<le> h then hr_slots r (slot_index h) else None)"
proof (cases "1 \<le> h \<and> \<not> hr_occupied r (slot_index h)")
  case True
  then show ?thesis
    using registry_invD(7) [OF assms, of "slot_index h"] by (simp add: registry_lookup_def is_valid_unlocked_def)
next
  case False
  then have "1 \<le> h \<Longrightarrow> h < hr_next_handle r"
    using registry_invD(6) [OF assms, of "slot_index h"] by auto
  then have "1 \<le> h \<Longrightarrow> slot_index h < MAX_CAPACITY"
    using registry_invD(2) [OF assms] by (auto simp: slot_index_def)
  with False show ?thesis
    by (auto simp: registry_lookup_def is_valid_unlocked_def)
qed

lemma is_valid_lookup: "registry_inv r \<Longrightarrow> is_valid_unlocked r h \<longleftrightarrow> registry_lookup r h \<noteq> None"
  by (auto simp: registry_lookup_def registry_inv_def is_valid_unlocked_def)

text \<open>The handle chosen by \<open>register_view\<close>: the head of the free list, else the next one.\<close>

lemma register_view_cases:
  assumes inv: "registry_inv r"
  shows "register_view (Some v) r =
    (if hr_active_count r \<ge> MAX_CAPACITY then Inr (HELM_SPAN_ERR_REGISTRY_FULL, r)
     else let h = (case hr_free_list r of k # _ \<Rightarrow> k | [] \<Rightarrow> hr_next_handle r) in
       Inr (h, r\<lparr>hr_slots := (hr_slots r)(slot_index h := Some v),
                hr_occupied := (hr_occupied r)(slot_index h := True),
                hr_free_list := tl (hr_free_list r),
                hr_next_handle := (if hr_free_list r = [] then hr_next_handle r + 1 else hr_next_handle r),
                hr_active_count := hr_active_count r + 1\<rparr>))"
proof -
  have "hr_next_handle r \<le> int MAX_CAPACITY" if "hr_free_list r = []" "hr_active_count r < MAX_CAPACITY"
    using inv that by (auto simp: registry_inv_def)
  moreover have "h \<le> int MAX_CAPACITY \<and> 1 \<le> h" if "h \<in> set (hr_free_list r)" for h
    using inv that by (fastforce simp: registry_inv_def)
  moreover have "1 \<le> hr_next_handle r" using inv by (simp add: registry_inv_def)
  ultimately show ?thesis
    by (cases "hr_free_list r")
      (fastforce simp: register_view_def store_slot_def slot_index_def Let_def)+
qed

lemma register_view_ok:
  assumes inv: "registry_inv r" and reg: "register_view (Some v) r = Inr (h, r')" and h: "h \<noteq> HELM_SPAN_ERR_REGISTRY_FULL"
  shows "registry_inv r'" "registry_lookup r h = None" "registry_lookup r' = (registry_lookup r)(h \<mapsto> v)"
    "1 \<le> h" "h \<le> int MAX_CAPACITY"
proof -
  have notfull: "hr_active_count r < MAX_CAPACITY"
    using reg h register_view_cases [OF inv, of v] by (auto split: if_splits)
  define k where "k = (case hr_free_list r of k # _ \<Rightarrow> k | [] \<Rightarrow> hr_next_handle r)"
  have hk: "h = k" and r': "r' = r\<lparr>hr_slots := (hr_slots r)(slot_index k := Some v),
      hr_occupied := (hr_occupied r)(slot_index k := True), hr_free_list := tl (hr_free_list r),
      hr_next_handle := (if hr_free_list r = [] then hr_next_handle r + 1 else hr_next_handle r),
      hr_active_count := hr_active_count r + 1\<rparr>"
    using reg register_view_cases [OF inv, of v] notfull by (auto simp: Let_def k_def)
  have k: "1 \<le> k" "k \<le> int MAX_CAPACITY" "\<not> hr_occupied r (slot_index k)"
    using inv notfull by (auto simp: k_def registry_inv_def split: list.splits)
  show "1 \<le> h" "h \<le> int MAX_CAPACITY" using k hk by simp_all
  show inv': "registry_inv r'"
  proof (cases "hr_free_list r")
    case Nil
    then show ?thesis
      using inv k(2) by (auto simp: registry_inv_def r' k_def slot_index_def)
  next
    case (Cons x xs)
    have "i = slot_index x \<or> int i + 1 \<noteq> x" for i by (auto simp: slot_index_def)
    with Cons show ?thesis
      using inv k(2) by (auto simp: registry_inv_def r' k_def slot_index_def)
  qed
  show "registry_lookup r h = None"
    using k hk registry_invD(7) [OF inv, of "slot_index k"] by (simp add: registry_lookup_alt [OF inv])
  show "registry_lookup r' = (registry_lookup r)(h \<mapsto> v)"
    using inv inv' k(1) hk by (auto simp: registry_lookup_alt fun_eq_iff r' slot_index_inj)
qed

lemma registry_unregister_ok:
  assumes inv: "registry_inv r" and un: "registry_unregister h r = (ok, r')"
  shows "registry_inv r'" "ok = (registry_lookup r h \<noteq> None)" "registry_lookup r' = (registry_lookup r)(h := None)"
proof -
  show "ok = (registry_lookup r h \<noteq> None)"
    using un is_valid_lookup [OF inv, of h] by (auto simp: registry_unregister_def split: if_splits)
  have "registry_inv r' \<and> registry_lookup r' = (registry_lookup r)(h := None)"
  proof (cases "is_valid_unlocked r h")
    case False
    then show ?thesis
      using un inv is_valid_lookup [OF inv, of h] by (auto simp: registry_unregister_def fun_eq_iff)
  next
    case True
    then have h: "1 \<le> h" "hr_occupied r (slot_index h)" by (auto simp: is_valid_unlocked_def split: if_splits)
    have r': "r' = r\<lparr>hr_slots := (hr_slots r)(slot_index h := None),
        hr_occupied := (hr_occupied r)(slot_index h := False),
        hr_free_list := hr_free_list r @ [h], hr_active_count := hr_active_count r - 1\<rparr>"
      using un True by (auto simp: registry_unregister_def)
    have hn: "h < hr_next_handle r" "h \<notin> set (hr_free_list r)"
      using inv h by (auto simp: registry_inv_def)
    have "insert h (set (hr_free_list r)) \<subseteq> {1..<hr_next_handle r}"
      using inv h(1) hn by (auto simp: registry_inv_def)
    then have "card (insert h (set (hr_free_list r))) \<le> nat (hr_next_handle r - 1)"
      using card_mono [of "{1..<hr_next_handle r}"] by simp
    then have "Suc (length (hr_free_list r)) \<le> nat (hr_next_handle r - 1)"
      using inv hn(2) by (simp add: registry_inv_def distinct_card)
    then have pos: "0 < hr_active_count r" using inv by (auto simp: registry_inv_def)
    have "slot_index h = i \<longleftrightarrow> int i + 1 = h" for i using h(1) by (auto simp: slot_index_def)
    then have "registry_inv r'"
      using inv h hn pos by (auto simp: registry_inv_def r')
    moreover have "registry_lookup r' = (registry_lookup r)(h := None)"
      using inv calculation h(1) by (auto simp: registry_lookup_alt fun_eq_iff r' slot_index_inj)
    ultimately show ?thesis ..
  qed
  then show "registry_inv r'" "registry_lookup r' = (registry_lookup r)(h := None)" by auto
qed

section \<open>The registry is a handle store\<close>

definition register_object :: "'v \<Rightarrow> 'v HandleRegistry \<Rightarrow> int option \<times> 'v HandleRegistry" where
  "register_object v r =
     (case register_view (Some v) r of
        Inl _ \<Rightarrow> (None, r)
      | Inr (h, r') \<Rightarrow> (if h = HELM_SPAN_ERR_REGISTRY_FULL then None else Some h, r'))"

definition registry_step :: "(int, 'v) store_op \<Rightarrow> 'v HandleRegistry \<Rightarrow> 'v HandleRegistry" where
  "registry_step op r =
     (case op of Register v \<Rightarrow> snd (register_object v r) | Unregister h \<Rightarrow> snd (registry_unregister h r))"

lemma register_full:
  assumes "registry_inv r" "register_view (Some v) r = Inr (HELM_SPAN_ERR_REGISTRY_FULL, r')"
  shows "r' = r \<and> MAX_CAPACITY \<le> hr_active_count r"
proof (rule ccontr)
  assume n: "\<not> (r' = r \<and> MAX_CAPACITY \<le> hr_active_count r)"
  then have "hr_active_count r < MAX_CAPACITY"
    using assms register_view_cases [OF assms(1), of v] by (auto split: if_splits)
  then have "HELM_SPAN_ERR_REGISTRY_FULL = (case hr_free_list r of k # _ \<Rightarrow> k | [] \<Rightarrow> hr_next_handle r)"
    using assms register_view_cases [OF assms(1), of v] by (auto simp: Let_def)
  then show False
    using registry_invD(1,4) [OF assms(1)]
    by (cases "hr_free_list r") (fastforce simp: HELM_SPAN_ERR_REGISTRY_FULL_def)+
qed

interpretation span_store: handle_store registry_inv registry_lookup register_object registry_unregister
proof
  fix s :: "'v HandleRegistry" and v :: 'v and h s'
  assume inv: "registry_inv s" and "register_object v s = (Some h, s')"
  then have "register_view (Some v) s = Inr (h, s')" "h \<noteq> HELM_SPAN_ERR_REGISTRY_FULL"
    by (auto simp: register_object_def split: sum.splits prod.splits if_splits)
  then show "registry_inv s' \<and> registry_lookup s h = None \<and> registry_lookup s' = (registry_lookup s)(h \<mapsto> v)"
    using register_view_ok [OF inv] by blast
next
  fix s :: "'v HandleRegistry" and v :: 'v and s'
  assume inv: "registry_inv s" and "register_object v s = (None, s')"
  then show "s' = s"
    using register_full [OF inv, of v] by (auto simp: register_object_def split: sum.splits prod.splits if_splits)
next
  fix s :: "'v HandleRegistry" and h ok s'
  assume "registry_inv s" "registry_unregister h s = (ok, s')"
  then show "registry_inv s' \<and> ok = (registry_lookup s h \<noteq> None) \<and> registry_lookup s' = (registry_lookup s)(h := None)"
    using registry_unregister_ok by blast
qed

lemma registry_step_apply: "registry_step = span_store.apply_op"
  by (auto simp: registry_step_def span_store.apply_op_def fun_eq_iff)

lemma registry_dom:
  assumes "registry_inv r"
  shows "dom (registry_lookup r) = {1..<hr_next_handle r} - set (hr_free_list r)"
proof (rule set_eqI)
  fix x
  show "x \<in> dom (registry_lookup r) \<longleftrightarrow> x \<in> {1..<hr_next_handle r} - set (hr_free_list r)"
    using registry_invD(6,7) [OF assms, of "slot_index x"] registry_lookup_alt [OF assms, of x]
    by (cases "1 \<le> x") (auto simp: dom_def)
qed

lemma active_count_card:
  assumes "registry_inv r"
  shows "hr_active_count r = card (dom (registry_lookup r))"
proof -
  have sub: "set (hr_free_list r) \<subseteq> {1..<hr_next_handle r}" using registry_invD(4,5) [OF assms] by fastforce
  have "card (dom (registry_lookup r)) = nat (hr_next_handle r - 1) - length (hr_free_list r)"
    using sub registry_invD(3) [OF assms] by (simp add: registry_dom [OF assms] card_Diff_subset distinct_card)
  then show ?thesis using registry_invD(1,8) [OF assms] by linarith
qed

lemma register_view_total:
  assumes inv: "registry_inv r"
  shows "\<exists>h r'. register_view (Some v) r = Inr (h, r') \<and> registry_inv r' \<and>
    hr_active_count r' = card (dom (registry_lookup r')) \<and>
    (if card (dom (registry_lookup r)) = MAX_CAPACITY then h = HELM_SPAN_ERR_REGISTRY_FULL \<and> r' = r
     else 1 \<le> h \<and> h \<le> int MAX_CAPACITY \<and> registry_lookup r h = None \<and>
       registry_lookup r' = (registry_lookup r)(h \<mapsto> v))"
proof -
  have "is_ok (register_view (Some v) r)" by (simp add: register_view_cases [OF inv] Let_def)
  then obtain h r' where reg: "register_view (Some v) r = Inr (h, r')" by (auto simp: is_ok_iff)
  have le: "hr_active_count r \<le> MAX_CAPACITY"
    using registry_invD(2,8) [OF inv] by linarith
  show ?thesis
  proof (cases "hr_active_count r = MAX_CAPACITY")
    case True
    then have "h = HELM_SPAN_ERR_REGISTRY_FULL" "r' = r"
      using reg register_view_cases [OF inv, of v] by auto
    then show ?thesis using reg inv True active_count_card [OF inv] by simp
  next
    case False
    then have "h \<noteq> HELM_SPAN_ERR_REGISTRY_FULL"
      using register_full [OF inv, of v r'] reg le by auto
    then show ?thesis
      using register_view_ok [OF inv reg] reg False active_count_card [OF inv] active_count_card [of r'] by auto
  qed
qed

section \<open>Properties\<close>

text \<open>
  The SPAN registry implements a bounded partial map: in every consistent state,
  registering an object either reports that the registry is full, which happens exactly
  when 65536 objects are live and changes nothing, or returns a positive handle that was not
  live and maps it to the object; no slot access is out of bounds, and the live-object
  counter is exact.
\<close>

theorem span_register_refines_map:
  assumes inv: "registry_inv r"
  shows "\<exists>h r'. register_view (Some v) r = Inr (h, r') \<and> registry_inv r' \<and>
    hr_active_count r' = card (dom (registry_lookup r')) \<and>
    (if card (dom (registry_lookup r)) = MAX_CAPACITY then h = HELM_SPAN_ERR_REGISTRY_FULL \<and> r' = r
     else 1 \<le> h \<and> h \<le> int MAX_CAPACITY \<and> registry_lookup r h = None \<and>
       registry_lookup r' = (registry_lookup r)(h \<mapsto> v))"
  by (rule register_view_total [OF inv])

theorem span_register_refines_map_witness:
  "\<exists>h r'. register_view (Some ''field'') mk_registry = Inr (h, r') \<and> registry_lookup r' h = Some ''field''"
proof -
  have "card (dom (registry_lookup (mk_registry :: string HandleRegistry))) = 0"
    using active_count_card [OF mk_registry_inv] by (simp add: mk_registry_def)
  then show ?thesis
    using span_register_refines_map [OF mk_registry_inv, of "''field''"] by (auto simp: MAX_CAPACITY_def)
qed

text \<open>
  Handles are stable and revocable: starting from a consistent registry and running any
  sequence of registrations and unregistrations, a live handle keeps designating its object
  until it is itself unregistered; once unregistered it designates nothing and a second
  unregistration is refused.
\<close>

theorem span_handle_lifetime:
  assumes "registry_inv r" "registry_lookup r h = Some v" "Unregister h \<notin> set ops"
    and "registry_unregister h (fold registry_step ops r) = (ok, r')"
  shows "registry_lookup (fold registry_step ops r) h = Some v \<and> ok \<and> registry_lookup r' h = None \<and>
    \<not> fst (registry_unregister h r')"
proof -
  have inv: "registry_inv (fold registry_step ops r)"
    unfolding registry_step_apply by (rule span_store.run_inv [OF assms(1)])
  have live: "registry_lookup (fold registry_step ops r) h = Some v"
    unfolding registry_step_apply by (rule span_store.live_handle_stable [OF assms(1,2,3)])
  obtain ok' r'' where "registry_unregister h r' = (ok', r'')" by (cases "registry_unregister h r'")
  then show ?thesis
    using live span_store.unregister_spec [OF inv assms(4)] span_store.unregister_twice [OF inv assms(4)] by auto
qed

theorem span_handle_lifetime_witness:
  "\<exists>r. registry_lookup r 1 = Some ''a'' \<and>
     registry_lookup (fold registry_step [Register ''b'', Unregister 2] r) 1 = Some ''a''"
proof -
  let ?r = "registry_step (Register ''a'') mk_registry"
  have inv: "registry_inv ?r"
    unfolding registry_step_apply using span_store.apply_op_inv [OF mk_registry_inv] .
  have a: "registry_lookup ?r 1 = Some ''a''"
    by (simp add: registry_step_def register_object_def register_view_def mk_registry_def store_slot_def
        slot_index_def MAX_CAPACITY_def registry_lookup_def is_valid_unlocked_def HELM_SPAN_ERR_REGISTRY_FULL_def)
  obtain ok r' where "registry_unregister 1 (fold registry_step [Register ''b'', Unregister 2] ?r) = (ok, r')"
    by (cases "registry_unregister 1 (fold registry_step [Register ''b'', Unregister 2] ?r)")
  then show ?thesis
    using span_handle_lifetime [OF inv a, of "[Register ''b'', Unregister 2]"] a by auto
qed

end
