(* ===== verification/Span_Field_View.thy ===== *)
theory Span_Field_View
  imports Helm_Prelude
begin

text \<open>
  SPAN's field views: \<^verbatim>\<open>span/coherency_state.hpp\<close> and \<^verbatim>\<open>span/field_view.hpp\<close>.

  A pointer is an address, 0 being null; the rank of the template is the length of the
  extents list. The two memories a view joins are one store from addresses to elements.
  \<open>Kokkos::deep_copy\<close> is not part of the sources: it is a parameter of the
  synchronisation, and \<open>deep_copy_ok\<close> states what its documentation promises. The Kokkos backend
  of the build is the parameter \<open>hip\<close> of the device constructors. \<open>std::mdspan\<close> with
  \<open>layout_left\<close> is the column-major offset.
\<close>

section \<open>State\<close>

datatype CoherencyState = HOST_CLEAN | HOST_DIRTY | DEVICE_DIRTY

datatype MemorySpaceToken = Host | CudaDevice | HipDevice

record FieldView =
  fv_host_ptr :: nat
  fv_device_ptr :: nat
  fv_extents :: "nat list"
  fv_total_size :: nat
  fv_state :: CoherencyState
  fv_mem_space :: MemorySpaceToken
  fv_triple_buf :: nat

section \<open>Construction\<close>

definition compute_total_size :: "nat list \<Rightarrow> nat" where
  "compute_total_size exts = foldl (\<lambda>s e. s * e mod 2 ^ 64) 1 exts"

definition validate_extents :: "nat list \<Rightarrow> unit result" where
  "validate_extents exts =
     (if \<exists>e \<in> set exts. e = 0 then Inl (Invalid_argument ''FieldView: extent[i] must be > 0'') else Inr ())"

definition validate_host_construction :: "nat \<Rightarrow> nat list \<Rightarrow> unit result" where
  "validate_host_construction host_ptr exts =
     (if host_ptr = 0 then Inl (Invalid_argument ''FieldView: host pointer must not be null'')
      else validate_extents exts)"

definition validate_device_construction :: "nat \<Rightarrow> nat list \<Rightarrow> unit result" where
  "validate_device_construction device_ptr exts =
     (if device_ptr = 0 then Inl (Invalid_argument ''FieldView: device pointer must not be null'')
      else validate_extents exts)"

definition determine_device_memory_space :: "bool \<Rightarrow> MemorySpaceToken" where
  "determine_device_memory_space hip = (if hip then HipDevice else CudaDevice)"

definition empty_field_view :: "nat \<Rightarrow> FieldView" where
  "empty_field_view rk =
     \<lparr>fv_host_ptr = 0, fv_device_ptr = 0, fv_extents = replicate rk 0, fv_total_size = 0,
      fv_state = HOST_CLEAN, fv_mem_space = Host, fv_triple_buf = 0\<rparr>"

definition mk_host_view :: "nat \<Rightarrow> nat list \<Rightarrow> FieldView result" where
  "mk_host_view host_ptr exts =
     bindR (validate_host_construction host_ptr exts) (\<lambda>_.
       Inr \<lparr>fv_host_ptr = host_ptr, fv_device_ptr = 0, fv_extents = exts,
            fv_total_size = compute_total_size exts, fv_state = HOST_CLEAN, fv_mem_space = Host,
            fv_triple_buf = 0\<rparr>)"

definition mk_device_view :: "bool \<Rightarrow> nat \<Rightarrow> nat list \<Rightarrow> FieldView result" where
  "mk_device_view hip device_ptr exts =
     bindR (validate_device_construction device_ptr exts) (\<lambda>_.
       Inr \<lparr>fv_host_ptr = 0, fv_device_ptr = device_ptr, fv_extents = exts,
            fv_total_size = compute_total_size exts, fv_state = HOST_CLEAN,
            fv_mem_space = determine_device_memory_space hip, fv_triple_buf = 0\<rparr>)"

definition mk_dual_view :: "bool \<Rightarrow> nat \<Rightarrow> nat \<Rightarrow> nat list \<Rightarrow> FieldView result" where
  "mk_dual_view hip host_ptr device_ptr exts =
     (let fv = \<lparr>fv_host_ptr = host_ptr, fv_device_ptr = device_ptr, fv_extents = exts,
        fv_total_size = compute_total_size exts, fv_state = HOST_CLEAN,
        fv_mem_space = (if device_ptr \<noteq> 0 \<and> host_ptr = 0 then determine_device_memory_space hip else Host),
        fv_triple_buf = 0\<rparr>
      in if host_ptr = 0 \<and> device_ptr = 0
         then Inr (fv\<lparr>fv_extents := replicate (length exts) 0, fv_total_size := 0\<rparr>)
         else bindR (validate_extents exts) (\<lambda>_. Inr fv))"

section \<open>Access and queries\<close>

type_synonym mdspan = "nat \<times> nat list"

definition fv_view :: "FieldView \<Rightarrow> mdspan result" where
  "fv_view fv =
     (if fv_host_ptr fv = 0 then Inl (Runtime_error ''FieldView::view(): host pointer is null'')
      else Inr (fv_host_ptr fv, fv_extents fv))"

text \<open>The address of an element of a column-major \<open>mdspan\<close>.\<close>

fun layout_left_offset :: "nat list \<Rightarrow> nat list \<Rightarrow> nat" where
  "layout_left_offset (e # es) (i # is) = i + e * layout_left_offset es is"
| "layout_left_offset _ _ = 0"

definition mdspan_address :: "mdspan \<Rightarrow> nat list \<Rightarrow> nat" where
  "mdspan_address m is = fst m + layout_left_offset (snd m) is"

definition fv_extent :: "FieldView \<Rightarrow> nat \<Rightarrow> nat result" where
  "fv_extent fv dim =
     (if dim \<ge> length (fv_extents fv) then Inl (Out_of_range ''FieldView::extent(): dim '')
      else Inr (fv_extents fv ! dim))"

definition fv_valid :: "FieldView \<Rightarrow> bool" where
  "fv_valid fv \<longleftrightarrow> fv_host_ptr fv \<noteq> 0 \<or> fv_device_ptr fv \<noteq> 0"

definition fv_has_host_ptr :: "FieldView \<Rightarrow> bool" where
  "fv_has_host_ptr fv \<longleftrightarrow> fv_host_ptr fv \<noteq> 0"

definition fv_has_device_ptr :: "FieldView \<Rightarrow> bool" where
  "fv_has_device_ptr fv \<longleftrightarrow> fv_device_ptr fv \<noteq> 0"

definition fv_is_triple_buffered :: "FieldView \<Rightarrow> bool" where
  "fv_is_triple_buffered fv \<longleftrightarrow> fv_triple_buf fv \<noteq> 0"

definition fv_attach_triple_buffer :: "nat \<Rightarrow> FieldView \<Rightarrow> FieldView" where
  "fv_attach_triple_buffer tb fv = fv\<lparr>fv_triple_buf := tb\<rparr>"

section \<open>Coherency\<close>

definition mark_host_dirty :: "FieldView \<Rightarrow> FieldView" where
  "mark_host_dirty fv = fv\<lparr>fv_state := HOST_DIRTY\<rparr>"

definition mark_device_dirty :: "FieldView \<Rightarrow> FieldView" where
  "mark_device_dirty fv = fv\<lparr>fv_state := DEVICE_DIRTY\<rparr>"

text \<open>\<open>deep_copy dst src n\<close> copies \<open>n\<close> elements.\<close>

type_synonym 'a memory = "nat \<Rightarrow> 'a"
type_synonym 'a deep_copy = "nat \<Rightarrow> nat \<Rightarrow> nat \<Rightarrow> 'a memory \<Rightarrow> 'a memory"

definition sync_for_device :: "'a deep_copy \<Rightarrow> FieldView \<Rightarrow> 'a memory \<Rightarrow> FieldView \<times> 'a memory" where
  "sync_for_device deep_copy fv m =
     (if fv_state fv = HOST_DIRTY \<and> fv_host_ptr fv \<noteq> 0 \<and> fv_device_ptr fv \<noteq> 0
      then (fv\<lparr>fv_state := HOST_CLEAN\<rparr>, deep_copy (fv_device_ptr fv) (fv_host_ptr fv) (fv_total_size fv) m)
      else (fv, m))"

definition sync_for_host :: "'a deep_copy \<Rightarrow> FieldView \<Rightarrow> 'a memory \<Rightarrow> FieldView \<times> 'a memory" where
  "sync_for_host deep_copy fv m =
     (if fv_state fv = DEVICE_DIRTY \<and> fv_host_ptr fv \<noteq> 0 \<and> fv_device_ptr fv \<noteq> 0
      then (fv\<lparr>fv_state := HOST_CLEAN\<rparr>, deep_copy (fv_host_ptr fv) (fv_device_ptr fv) (fv_total_size fv) m)
      else (fv, m))"

section \<open>Kokkos adapters\<close>

definition to_kokkos_view :: "FieldView \<Rightarrow> (nat \<times> nat) result" where
  "to_kokkos_view fv =
     (if \<not> fv_valid fv then Inl (Invalid_argument ''to_kokkos_view: FieldView is invalid'')
      else Inr (fv_host_ptr fv, fv_total_size fv))"

definition to_kokkos_device_view :: "FieldView \<Rightarrow> (nat \<times> nat) result" where
  "to_kokkos_device_view fv =
     (if fv_device_ptr fv = 0 then Inl (Invalid_argument ''to_kokkos_device_view: no device pointer'')
      else Inr (fv_device_ptr fv, fv_total_size fv))"

definition from_kokkos_view :: "nat \<Rightarrow> nat \<times> nat \<Rightarrow> FieldView result" where
  "from_kokkos_view rk kv =
     (case kv of (data, extent0) \<Rightarrow>
       if data = 0 then Inl (Invalid_argument ''from_kokkos_view: null data pointer'')
       else mk_host_view data (extent0 # replicate (rk - 1) 1))"

section \<open>Sizes and offsets\<close>

lemma foldl_mult_mod:
  "foldl (\<lambda>s e. s * e mod M) a xs mod M = (a * prod_list xs) mod (M::nat)"
proof (induction xs arbitrary: a)
  case (Cons x xs)
  then show ?case by (simp add: mod_mult_left_eq mult.assoc)
qed simp

lemma compute_total_size_prod: "compute_total_size exts = prod_list exts mod 2 ^ 64"
proof (cases exts rule: rev_cases)
  case (snoc xs x)
  have "compute_total_size exts = (foldl (\<lambda>s e. s * e mod 2 ^ 64) 1 xs * x) mod 2 ^ 64"
    by (simp add: snoc compute_total_size_def)
  also have "\<dots> = (prod_list xs * x) mod 2 ^ 64"
    by (rule mod_mult_cong [OF _ refl]) (simp only: foldl_mult_mod mult_1)
  finally show ?thesis by (simp add: snoc)
qed (simp add: compute_total_size_def)

definition index_ok :: "nat list \<Rightarrow> nat list \<Rightarrow> bool" where
  "index_ok exts is = list_all2 (\<lambda>e i. i < e) exts is"

lemma layout_left_bound: "index_ok exts is \<Longrightarrow> layout_left_offset exts is < prod_list exts"
  unfolding index_ok_def
proof (induction rule: list_all2_induct)
  case (Cons e es i "is")
  have "i + e * layout_left_offset es is < e + e * layout_left_offset es is" using Cons(1) by simp
  also have "\<dots> = e * Suc (layout_left_offset es is)" by simp
  also have "\<dots> \<le> e * prod_list es" using Cons(3) by (intro mult_le_mono) auto
  finally show ?case by simp
qed simp

lemma layout_left_inj:
  "index_ok exts is \<Longrightarrow> index_ok exts js \<Longrightarrow> layout_left_offset exts is = layout_left_offset exts js \<Longrightarrow> is = js"
  unfolding index_ok_def
proof (induction exts arbitrary: "is" js)
  case (Cons e es)
  obtain i is' j js' where [simp]: "is = i # is'" "js = j # js'" "i < e" "j < e"
    "list_all2 (\<lambda>e i. i < e) es is'" "list_all2 (\<lambda>e i. i < e) es js'"
    using Cons.prems by (auto simp: list_all2_Cons1)
  have eq: "i + e * layout_left_offset es is' = j + e * layout_left_offset es js'" using Cons.prems(3) by simp
  have "i = j" using arg_cong [OF eq, of "\<lambda>x. x mod e"] by simp
  moreover have "layout_left_offset es is' = layout_left_offset es js'" using eq \<open>i = j\<close> \<open>i < e\<close> by simp
  ultimately show ?case using Cons.IH [of is' js'] by simp
qed simp

section \<open>Coherency as one logical array\<close>

text \<open>
  What \<open>Kokkos::deep_copy\<close> promises for two disjoint ranges: the destination equals the old
  source, everything else is unchanged.
\<close>

definition range_of :: "nat \<Rightarrow> nat \<Rightarrow> nat set" where
  "range_of p n = {p..<p + n}"

definition deep_copy_ok :: "'a deep_copy \<Rightarrow> bool" where
  "deep_copy_ok dc \<longleftrightarrow>
     (\<forall>dst src n m. range_of dst n \<inter> range_of src n = {} \<longrightarrow>
        (\<forall>i < n. dc dst src n m (dst + i) = m (src + i)) \<and>
        (\<forall>a. a \<notin> range_of dst n \<longrightarrow> dc dst src n m a = m a))"

definition contents :: "nat \<Rightarrow> nat \<Rightarrow> 'a memory \<Rightarrow> 'a list" where
  "contents p n m = map (\<lambda>i. m (p + i)) [0..<n]"

definition dual_view :: "FieldView \<Rightarrow> bool" where
  "dual_view fv \<longleftrightarrow> fv_host_ptr fv \<noteq> 0 \<and> fv_device_ptr fv \<noteq> 0 \<and>
     range_of (fv_device_ptr fv) (fv_total_size fv) \<inter> range_of (fv_host_ptr fv) (fv_total_size fv) = {}"

abbreviation host_contents :: "FieldView \<Rightarrow> 'a memory \<Rightarrow> 'a list" where
  "host_contents fv m \<equiv> contents (fv_host_ptr fv) (fv_total_size fv) m"

abbreviation device_contents :: "FieldView \<Rightarrow> 'a memory \<Rightarrow> 'a list" where
  "device_contents fv m \<equiv> contents (fv_device_ptr fv) (fv_total_size fv) m"

text \<open>The abstraction: the up-to-date copy is the device one exactly when the device is dirty.\<close>

definition logical :: "FieldView \<Rightarrow> 'a memory \<Rightarrow> 'a list" where
  "logical fv m = (if fv_state fv = DEVICE_DIRTY then device_contents fv m else host_contents fv m)"

definition coherent :: "FieldView \<Rightarrow> 'a memory \<Rightarrow> bool" where
  "coherent fv m \<longleftrightarrow> (fv_state fv = HOST_CLEAN \<longrightarrow> host_contents fv m = device_contents fv m)"

lemma contents_eqI: "(\<And>i. i < n \<Longrightarrow> m (p + i) = m' (q + i)) \<Longrightarrow> contents p n m = contents q n m'"
  by (simp add: contents_def)

lemma deep_copy_contents:
  assumes "deep_copy_ok dc" "range_of dst n \<inter> range_of src n = {}"
  shows "contents dst n (dc dst src n m) = contents src n m" "contents src n (dc dst src n m) = contents src n m"
proof -
  have d: "\<forall>i < n. dc dst src n m (dst + i) = m (src + i)" "\<forall>a. a \<notin> range_of dst n \<longrightarrow> dc dst src n m a = m a"
    using assms unfolding deep_copy_ok_def by blast+
  show "contents dst n (dc dst src n m) = contents src n m" using d(1) by (intro contents_eqI) simp
  have "src + i \<notin> range_of dst n" if "i < n" for i
    using assms(2) that by (auto simp: range_of_def)
  then show "contents src n (dc dst src n m) = contents src n m" using d(2) by (intro contents_eqI) simp
qed

text \<open>
  The discipline of use: the host writes only when its copy is current and then marks it dirty,
  likewise the device; either side may ask for synchronisation at any time.
\<close>

inductive fv_step :: "'a deep_copy \<Rightarrow> FieldView \<times> 'a memory \<Rightarrow> FieldView \<times> 'a memory \<Rightarrow> bool" for dc where
  host_write: "fv_state fv \<noteq> DEVICE_DIRTY \<Longrightarrow>
     (\<forall>a. a \<notin> range_of (fv_host_ptr fv) (fv_total_size fv) \<longrightarrow> m' a = m a) \<Longrightarrow>
     fv_step dc (fv, m) (mark_host_dirty fv, m')"
| device_write: "fv_state fv \<noteq> HOST_DIRTY \<Longrightarrow>
     (\<forall>a. a \<notin> range_of (fv_device_ptr fv) (fv_total_size fv) \<longrightarrow> m' a = m a) \<Longrightarrow>
     fv_step dc (fv, m) (mark_device_dirty fv, m')"
| to_device: "fv_step dc (fv, m) (sync_for_device dc fv m)"
| to_host: "fv_step dc (fv, m) (sync_for_host dc fv m)"

lemma sync_for_device_effect:
  assumes dc: "deep_copy_ok dc" and d: "dual_view fv" and c: "coherent fv m"
    and s: "sync_for_device dc fv m = (fv', m')"
  shows "coherent fv' m'" "dual_view fv'" "logical fv' m' = logical fv m"
    "fv_state fv \<noteq> DEVICE_DIRTY \<Longrightarrow> device_contents fv' m' = logical fv m \<and> fv_state fv' = HOST_CLEAN"
proof -
  have "coherent fv' m' \<and> dual_view fv' \<and> logical fv' m' = logical fv m \<and>
    (fv_state fv \<noteq> DEVICE_DIRTY \<longrightarrow> device_contents fv' m' = logical fv m \<and> fv_state fv' = HOST_CLEAN)"
  proof (cases "fv_state fv = HOST_DIRTY")
    case True
    then have f: "fv' = fv\<lparr>fv_state := HOST_CLEAN\<rparr>"
        "m' = dc (fv_device_ptr fv) (fv_host_ptr fv) (fv_total_size fv) m"
      using s d by (auto simp: sync_for_device_def dual_view_def)
    note dcc = deep_copy_contents [OF dc, of "fv_device_ptr fv" "fv_total_size fv" "fv_host_ptr fv" m]
    show ?thesis
      using d dcc True by (simp add: f coherent_def logical_def dual_view_def)
  next
    case False
    then have "fv' = fv" "m' = m" using s by (auto simp: sync_for_device_def)
    then show ?thesis
      using c d False by (cases "fv_state fv") (auto simp: coherent_def logical_def)
  qed
  then show "coherent fv' m'" "dual_view fv'" "logical fv' m' = logical fv m"
    "fv_state fv \<noteq> DEVICE_DIRTY \<Longrightarrow> device_contents fv' m' = logical fv m \<and> fv_state fv' = HOST_CLEAN" by auto
qed

lemma sync_for_host_effect:
  assumes dc: "deep_copy_ok dc" and d: "dual_view fv" and c: "coherent fv m"
    and s: "sync_for_host dc fv m = (fv', m')"
  shows "coherent fv' m'" "dual_view fv'" "logical fv' m' = logical fv m" "host_contents fv' m' = logical fv m"
    "fv_state fv' \<noteq> DEVICE_DIRTY"
proof -
  have "coherent fv' m' \<and> dual_view fv' \<and> logical fv' m' = logical fv m \<and> host_contents fv' m' = logical fv m \<and>
    fv_state fv' \<noteq> DEVICE_DIRTY"
  proof (cases "fv_state fv = DEVICE_DIRTY")
    case True
    then have f: "fv' = fv\<lparr>fv_state := HOST_CLEAN\<rparr>"
        "m' = dc (fv_host_ptr fv) (fv_device_ptr fv) (fv_total_size fv) m"
      using s d by (auto simp: sync_for_host_def dual_view_def)
    have "range_of (fv_host_ptr fv) (fv_total_size fv) \<inter> range_of (fv_device_ptr fv) (fv_total_size fv) = {}"
      using d by (auto simp: dual_view_def)
    note dcc = deep_copy_contents [OF dc this, of m]
    show ?thesis
      using d dcc True by (simp add: f coherent_def logical_def dual_view_def)
  next
    case False
    then have "fv' = fv" "m' = m" using s by (auto simp: sync_for_host_def)
    then show ?thesis
      using c d False by (auto simp: coherent_def logical_def)
  qed
  then show "coherent fv' m'" "dual_view fv'" "logical fv' m' = logical fv m" "host_contents fv' m' = logical fv m"
    "fv_state fv' \<noteq> DEVICE_DIRTY" by auto
qed

lemma fv_step_coherent:
  assumes dc: "deep_copy_ok dc" and "fv_step dc (fv, m) (fv', m')" "dual_view fv" "coherent fv m"
  shows "dual_view fv' \<and> coherent fv' m'"
  using assms(2)
proof cases
  case to_device
  then show ?thesis using sync_for_device_effect [OF dc assms(3,4), of fv' m'] by auto
next
  case to_host
  then show ?thesis using sync_for_host_effect [OF dc assms(3,4), of fv' m'] by auto
qed (use assms(3) in \<open>auto simp: mark_host_dirty_def mark_device_dirty_def dual_view_def coherent_def\<close>)

lemma fv_steps_coherent:
  assumes dc: "deep_copy_ok dc" and "(fv_step dc)\<^sup>*\<^sup>* (fv, m) (fv', m')" "dual_view fv" "coherent fv m"
  shows "dual_view fv' \<and> coherent fv' m'"
  using assms(2)
proof (induction "(fv', m')" arbitrary: fv' m' rule: rtranclp_induct)
  case base
  then show ?case using assms by auto
next
  case (step y)
  then show ?case by (cases y) (auto dest: fv_step_coherent [OF dc])
qed

section \<open>Properties\<close>

text \<open>
  A host view maps every in-range index tuple to its own element inside the wrapped
  allocation, in column-major order: addresses stay below the total size and no two
  tuples share one, as long as the number of elements is below 2 to the power 64.
\<close>

theorem field_view_layout:
  assumes fv: "mk_host_view p exts = Inr fv" and small: "prod_list exts < 2 ^ 64"
  shows "fv_total_size fv = prod_list exts \<and> 0 < fv_total_size fv \<and>
    (\<exists>v. fv_view fv = Inr v \<and>
      (\<forall>is. index_ok exts is \<longrightarrow> p \<le> mdspan_address v is \<and> mdspan_address v is < p + fv_total_size fv) \<and>
      (\<forall>is js. index_ok exts is \<longrightarrow> index_ok exts js \<longrightarrow> mdspan_address v is = mdspan_address v js \<longrightarrow> is = js))"
proof -
  have p: "p \<noteq> 0" "0 \<notin> set exts" "fv_host_ptr fv = p" "fv_extents fv = exts"
      "fv_total_size fv = prod_list exts"
    using fv small by (auto simp: mk_host_view_def validate_host_construction_def validate_extents_def
        result_elims compute_total_size_prod split: if_splits)
  have "0 < prod_list exts" using p(2) by (metis gr0I prod_list_zero_iff)
  moreover have "fv_view fv = Inr (p, exts)" using p by (simp add: fv_view_def)
  ultimately show ?thesis
    using p layout_left_bound layout_left_inj by (auto simp: mdspan_address_def)
qed

theorem field_view_layout_witness:
  "\<exists>fv v. mk_host_view 100 [2, 3] = Inr fv \<and> fv_view fv = Inr v \<and> mdspan_address v [1, 2] < 100 + fv_total_size fv"
proof -
  obtain fv where fv: "mk_host_view 100 [2, 3] = Inr fv"
    by (simp add: mk_host_view_def validate_host_construction_def validate_extents_def)
  show ?thesis
    using field_view_layout [OF fv] fv by (auto simp: index_ok_def)
qed

text \<open>
  C8. Coherency tracking makes the host and device copies behave as one array: along every
  sequence of disciplined writes and synchronisations, starting from equal copies,
  synchronising for the host leaves the host with the up-to-date values, synchronising for
  the device likewise when the device is not the side that is ahead, and neither changes
  the up-to-date values.
\<close>

theorem coherency_refines_one_array:
  assumes dc: "deep_copy_ok dc" and start: "dual_view fv" "coherent fv m"
    and steps: "(fv_step dc)\<^sup>*\<^sup>* (fv, m) (fv1, m1)"
    and h: "sync_for_host dc fv1 m1 = (fv2, m2)" and d: "sync_for_device dc fv2 m2 = (fv3, m3)"
  shows "host_contents fv2 m2 = logical fv1 m1 \<and> device_contents fv3 m3 = logical fv1 m1 \<and>
    logical fv2 m2 = logical fv1 m1 \<and> logical fv3 m3 = logical fv1 m1 \<and> fv_state fv3 = HOST_CLEAN"
proof -
  have c1: "dual_view fv1" "coherent fv1 m1" using fv_steps_coherent [OF dc steps start] by auto
  note hh = sync_for_host_effect [OF dc c1 h]
  note dd = sync_for_device_effect [OF dc hh(2) hh(1) d]
  show ?thesis using hh dd(3) dd(4) [OF hh(5)] by simp
qed

definition list_copy :: "'a deep_copy" where
  "list_copy dst src n m = (\<lambda>a. if dst \<le> a \<and> a < dst + n then m (src + (a - dst)) else m a)"

theorem coherency_refines_one_array_witness:
  "\<exists>fv2 m2 fv3 m3.
     sync_for_host list_copy \<lparr>fv_host_ptr = 1, fv_device_ptr = 5, fv_extents = [2], fv_total_size = 2,
       fv_state = HOST_DIRTY, fv_mem_space = Host, fv_triple_buf = 0\<rparr> (\<lambda>a. a) = (fv2, m2) \<and>
     sync_for_device list_copy fv2 m2 = (fv3, m3) \<and> device_contents fv3 m3 = [1, 2]"
proof -
  let ?fv = "\<lparr>fv_host_ptr = 1, fv_device_ptr = 5, fv_extents = [2], fv_total_size = 2, fv_state = HOST_DIRTY,
    fv_mem_space = Host, fv_triple_buf = 0\<rparr>" and ?m = "\<lambda>a::nat. a"
  have ok: "deep_copy_ok list_copy"
    unfolding deep_copy_ok_def list_copy_def range_of_def by auto
  have c: "dual_view ?fv" "coherent ?fv ?m" by (auto simp: dual_view_def range_of_def coherent_def)
  obtain fv2 m2 where h: "sync_for_host list_copy ?fv ?m = (fv2, m2)" by (cases "sync_for_host list_copy ?fv ?m")
  obtain fv3 m3 where d: "sync_for_device list_copy fv2 m2 = (fv3, m3)" by (cases "sync_for_device list_copy fv2 m2")
  have "logical ?fv ?m = [1, 2]" by (simp add: logical_def contents_def upt_rec numeral_2_eq_2)
  then show ?thesis
    using coherency_refines_one_array [OF ok c rtranclp.rtrancl_refl h d] h d by auto
qed

end
