(* ===== verification/Span_C_Api.thy ===== *)
theory Span_C_Api
  imports Span_Registry Span_Field_View
begin

text \<open>
  SPAN's C interface: \<^verbatim>\<open>span/src/span_c_api.cpp\<close> and the codes of
  \<^verbatim>\<open>span/span_constants.h\<close>.

  The functions run on the process-wide registry, which they take and return. Which GPU backends the
  build enables are the parameters \<open>cuda\<close> and \<open>hip\<close>. An array argument is a list; reading
  behind its end is undefined behaviour. The exception barrier turns every exception into
  the internal error code.
\<close>

section \<open>Codes and records\<close>

abbreviation HELM_SPAN_SUCCESS :: int where "HELM_SPAN_SUCCESS \<equiv> 0"
abbreviation HELM_SPAN_ERR_NULL_PTR :: int where "HELM_SPAN_ERR_NULL_PTR \<equiv> - 1"
abbreviation HELM_SPAN_ERR_INVALID_RANK :: int where "HELM_SPAN_ERR_INVALID_RANK \<equiv> - 2"
abbreviation HELM_SPAN_ERR_INVALID_HANDLE :: int where "HELM_SPAN_ERR_INVALID_HANDLE \<equiv> - 3"
abbreviation HELM_SPAN_ERR_INVALID_MEMORY_SPACE :: int where "HELM_SPAN_ERR_INVALID_MEMORY_SPACE \<equiv> - 4"
abbreviation HELM_SPAN_ERR_INTERNAL :: int where "HELM_SPAN_ERR_INTERNAL \<equiv> - 99"
abbreviation HELM_SPAN_MAX_RANK :: int where "HELM_SPAN_MAX_RANK \<equiv> 7"

record RegisteredField =
  rf_field_view :: FieldView
  rf_rank :: int
  rf_mem_space :: MemorySpaceToken
  rf_dims :: "int list"
  rf_raw_ptr :: nat

type_synonym span_state = "RegisteredField HandleRegistry"

section \<open>Operations\<close>

definition is_memory_space_valid :: "bool \<Rightarrow> bool \<Rightarrow> int \<Rightarrow> bool" where
  "is_memory_space_valid cuda hip token =
     (if token = 0 then True else if token = 1 then cuda else if token = 2 then hip else False)"

definition memory_space_of_token :: "int \<Rightarrow> MemorySpaceToken" where
  "memory_space_of_token token = (if token = 0 then Host else if token = 1 then CudaDevice else HipDevice)"

definition make_extents :: "nat \<Rightarrow> int list \<Rightarrow> nat list" where
  "make_extents n dims = map (\<lambda>d. nat (d mod 2 ^ 64)) (take n dims)"

definition create_field_view :: "bool \<Rightarrow> nat \<Rightarrow> nat \<Rightarrow> int list \<Rightarrow> MemorySpaceToken \<Rightarrow> FieldView result" where
  "create_field_view hip n ptr dims mem_space =
     (let exts = make_extents n dims in
      if mem_space = Host then mk_host_view ptr exts else mk_device_view hip ptr exts)"

fun check_dims :: "nat \<Rightarrow> int list \<Rightarrow> bool result" where
  "check_dims 0 _ = Inr True"
| "check_dims (Suc n) [] = Inl Undefined_behaviour"
| "check_dims (Suc n) (d # ds) = (if d \<le> 0 then Inr False else check_dims n ds)"

text \<open>The result: the return code, the handle written through \<open>handle_out\<close> if any, and the registry.\<close>

definition helm_span_register_legacy_ptr ::
    "bool \<Rightarrow> bool \<Rightarrow> nat \<Rightarrow> int list \<Rightarrow> int \<Rightarrow> int \<Rightarrow> bool \<Rightarrow> span_state \<Rightarrow> (int \<times> int option \<times> span_state) result" where
  "helm_span_register_legacy_ptr cuda hip ptr dims rnk memory_space_token handle_out registry =
     (if ptr = 0 then Inr (HELM_SPAN_ERR_NULL_PTR, None, registry)
      else if rnk < 1 \<or> rnk > HELM_SPAN_MAX_RANK then Inr (HELM_SPAN_ERR_INVALID_RANK, None, registry)
      else if \<not> is_memory_space_valid cuda hip memory_space_token
      then Inr (HELM_SPAN_ERR_INVALID_MEMORY_SPACE, None, registry)
      else bindR (check_dims (nat rnk) dims) (\<lambda>dims_ok.
        if \<not> dims_ok then Inr (HELM_SPAN_ERR_NULL_PTR, None, registry)
        else let mem_space = memory_space_of_token memory_space_token in
          case create_field_view hip (nat rnk) ptr dims mem_space of
            Inl _ \<Rightarrow> Inr (HELM_SPAN_ERR_INTERNAL, None, registry)
          | Inr fv \<Rightarrow>
              let reg_field = \<lparr>rf_field_view = fv, rf_rank = rnk, rf_mem_space = mem_space,
                    rf_dims = take (nat rnk) dims, rf_raw_ptr = ptr\<rparr> in
              bindR (register_view (Some reg_field) registry) (\<lambda>(handle, registry').
                if handle = HELM_SPAN_ERR_REGISTRY_FULL then Inr (HELM_SPAN_ERR_REGISTRY_FULL, None, registry')
                else if \<not> handle_out then Inl Undefined_behaviour
                else Inr (HELM_SPAN_SUCCESS, Some handle, registry'))))"

definition helm_span_get_view :: "int \<Rightarrow> span_state \<Rightarrow> int \<times> (nat \<times> int list \<times> int) option" where
  "helm_span_get_view handle registry =
     (case registry_lookup registry handle of
        None \<Rightarrow> (HELM_SPAN_ERR_INVALID_HANDLE, None)
      | Some reg \<Rightarrow>
          (HELM_SPAN_SUCCESS, Some (rf_raw_ptr reg, map ((!) (rf_dims reg)) [0..<nat (rf_rank reg)], rf_rank reg)))"

definition helm_span_unregister :: "int \<Rightarrow> span_state \<Rightarrow> int \<times> span_state" where
  "helm_span_unregister handle registry =
     (case registry_unregister handle registry of
        (ok, registry') \<Rightarrow> (if \<not> ok then HELM_SPAN_ERR_INVALID_HANDLE else HELM_SPAN_SUCCESS, registry'))"

section \<open>Lemmas\<close>

lemma check_dims_true: "check_dims n ds = Inr True \<longleftrightarrow> n \<le> length ds \<and> (\<forall>d \<in> set (take n ds). 0 < d)"
  by (induction n ds rule: check_dims.induct) auto

lemma check_dims_readable: "n \<le> length ds \<Longrightarrow> check_dims n ds = Inr (\<forall>d \<in> set (take n ds). 0 < d)"
  by (induction n ds rule: check_dims.induct) auto

lemma create_field_view_ok:
  assumes "ptr \<noteq> 0" "\<forall>d \<in> set (take n dims). 0 < d \<and> d \<le> int64_max"
  shows "\<exists>fv. create_field_view hip n ptr dims ms = Inr fv \<and> fv_extents fv = map nat (take n dims) \<and>
    (if ms = Host then fv_host_ptr fv = ptr \<and> fv_device_ptr fv = 0 else fv_host_ptr fv = 0 \<and> fv_device_ptr fv = ptr)"
proof -
  have "make_extents n dims = map nat (take n dims)"
    using assms(2) by (auto simp: make_extents_def)
  moreover have "\<forall>e \<in> set (map nat (take n dims)). e \<noteq> 0" using assms(2) by auto
  ultimately show ?thesis
    using assms(1)
    by (auto simp: create_field_view_def Let_def mk_host_view_def mk_device_view_def validate_host_construction_def
        validate_device_construction_def validate_extents_def)
qed

section \<open>Properties\<close>

text \<open>
  Registering a pointer through the C interface and asking for it back is lossless: a
  successful registration returns a positive handle, the view queried for it has the
  pointer, rank and dimensions that were registered, every handle that was live still
  answers as before, and unregistering makes exactly this handle invalid.
\<close>

theorem span_register_get_roundtrip:
  assumes inv: "registry_inv st"
    and reg: "helm_span_register_legacy_ptr cuda hip ptr dims rnk token True st = Inr (HELM_SPAN_SUCCESS, h, st')"
  shows "\<exists>k. h = Some k \<and> 0 < k \<and> registry_inv st' \<and>
    helm_span_get_view k st' = (HELM_SPAN_SUCCESS, Some (ptr, take (nat rnk) dims, rnk)) \<and>
    (\<forall>j. registry_lookup st j \<noteq> None \<longrightarrow> j \<noteq> k \<and> helm_span_get_view j st' = helm_span_get_view j st) \<and>
    helm_span_unregister k st' = (HELM_SPAN_SUCCESS, snd (registry_unregister k st')) \<and>
    helm_span_get_view k (snd (registry_unregister k st')) = (HELM_SPAN_ERR_INVALID_HANDLE, None)"
proof -
  obtain rf k where k: "register_view (Some rf) st = Inr (k, st')" "k \<noteq> HELM_SPAN_ERR_REGISTRY_FULL" "h = Some k"
      "rf_rank rf = rnk" "rf_dims rf = take (nat rnk) dims" "rf_raw_ptr rf = ptr" "nat rnk \<le> length dims"
    using reg check_dims_true [of "nat rnk" dims]
    by (auto simp: helm_span_register_legacy_ptr_def Let_def result_elims HELM_SPAN_ERR_REGISTRY_FULL_def
        split: if_splits sum.splits)
  note r = register_view_ok [OF inv k(1,2)]
  have get: "helm_span_get_view k st' = (HELM_SPAN_SUCCESS, Some (ptr, take (nat rnk) dims, rnk))"
  proof -
    have "map ((!) (take (nat rnk) dims)) [0..<nat rnk] = take (nat rnk) dims"
      using k(7) by (intro nth_equalityI) auto
    then show ?thesis using r(3) k by (simp add: helm_span_get_view_def)
  qed
  obtain ok st'' where un: "registry_unregister k st' = (ok, st'')" by (cases "registry_unregister k st'")
  note u = registry_unregister_ok [OF r(1) un]
  show ?thesis
    using r k(3) get u un by (auto simp: helm_span_get_view_def helm_span_unregister_def)
qed

theorem span_register_get_roundtrip_witness:
  "\<exists>k st'. helm_span_register_legacy_ptr False False 4096 [10, 20] 2 0 True mk_registry = Inr (0, Some k, st') \<and>
    helm_span_get_view k st' = (0, Some (4096, [10, 20], 2))"
proof -
  have "is_ok (helm_span_register_legacy_ptr False False 4096 [10, 20] 2 0 True mk_registry) \<and>
    (\<forall>c h s. helm_span_register_legacy_ptr False False 4096 [10, 20] 2 0 True mk_registry = Inr (c, h, s) \<longrightarrow> c = 0)"
    by (auto simp: helm_span_register_legacy_ptr_def is_memory_space_valid_def memory_space_of_token_def
        create_field_view_def make_extents_def mk_host_view_def validate_host_construction_def validate_extents_def
        register_view_def mk_registry_def store_slot_def slot_index_def MAX_CAPACITY_def Let_def numeral_2_eq_2
        HELM_SPAN_ERR_REGISTRY_FULL_def)
  then obtain h st' where reg: "helm_span_register_legacy_ptr False False 4096 [10, 20] 2 0 True mk_registry = Inr (0, h, st')"
    by (auto simp: is_ok_iff)
  show ?thesis
    using span_register_get_roundtrip [OF mk_registry_inv reg] reg by auto
qed

text \<open>The specification of the return code: the checks in their order of priority.\<close>

definition span_register_status :: "bool \<Rightarrow> bool \<Rightarrow> nat \<Rightarrow> int list \<Rightarrow> int \<Rightarrow> int \<Rightarrow> span_state \<Rightarrow> int" where
  "span_register_status cuda hip ptr dims rnk token st =
     (if ptr = 0 then HELM_SPAN_ERR_NULL_PTR
      else if rnk < 1 \<or> rnk > 7 then HELM_SPAN_ERR_INVALID_RANK
      else if \<not> is_memory_space_valid cuda hip token then HELM_SPAN_ERR_INVALID_MEMORY_SPACE
      else if \<not> (\<forall>d \<in> set (take (nat rnk) dims). 0 < d) then HELM_SPAN_ERR_NULL_PTR
      else if card (dom (registry_lookup st)) = MAX_CAPACITY then HELM_SPAN_ERR_REGISTRY_FULL
      else HELM_SPAN_SUCCESS)"

lemma register_legacy_registers:
  assumes inv: "registry_inv st" and dims: "nat rnk \<le> length dims" "\<forall>d \<in> set dims. d \<le> int64_max"
    and main: "ptr \<noteq> 0" "\<not> (rnk < 1 \<or> rnk > 7)" "is_memory_space_valid cuda hip token"
    and pos: "\<forall>d \<in> set (take (nat rnk) dims). 0 < d"
  shows "\<exists>h st'. helm_span_register_legacy_ptr cuda hip ptr dims rnk token True st =
      (if card (dom (registry_lookup st)) = MAX_CAPACITY then Inr (HELM_SPAN_ERR_REGISTRY_FULL, None, st)
       else Inr (HELM_SPAN_SUCCESS, Some h, st'))"
proof -
  have cd: "check_dims (nat rnk) dims = Inr True" using pos check_dims_readable [OF dims(1)] by simp
  have "\<forall>d \<in> set (take (nat rnk) dims). 0 < d \<and> d \<le> int64_max"
    using pos dims(2) set_take_subset [of "nat rnk" dims] by blast
  from create_field_view_ok [OF main(1) this, of hip "memory_space_of_token token"]
  obtain fv where fv: "create_field_view hip (nat rnk) ptr dims (memory_space_of_token token) = Inr fv"
    by (elim exE conjE)
  let ?rf = "\<lparr>rf_field_view = fv, rf_rank = rnk, rf_mem_space = memory_space_of_token token,
    rf_dims = take (nat rnk) dims, rf_raw_ptr = ptr\<rparr>"
  obtain h st' where r: "register_view (Some ?rf) st = Inr (h, st')"
    and full: "if card (dom (registry_lookup st)) = MAX_CAPACITY then h = HELM_SPAN_ERR_REGISTRY_FULL \<and> st' = st
      else 1 \<le> h \<and> h \<le> int MAX_CAPACITY \<and> registry_lookup st h = None \<and>
        registry_lookup st' = (registry_lookup st)(h \<mapsto> ?rf)"
    using register_view_total [OF inv, of ?rf] by (elim exE conjE)
  have res: "helm_span_register_legacy_ptr cuda hip ptr dims rnk token True st =
      (if h = HELM_SPAN_ERR_REGISTRY_FULL then Inr (HELM_SPAN_ERR_REGISTRY_FULL, None, st')
       else Inr (HELM_SPAN_SUCCESS, Some h, st'))"
    unfolding helm_span_register_legacy_ptr_def cd Let_def using main fv r by simp
  have "h = HELM_SPAN_ERR_REGISTRY_FULL \<longleftrightarrow> card (dom (registry_lookup st)) = MAX_CAPACITY"
    using full by (cases "card (dom (registry_lookup st)) = MAX_CAPACITY") (auto simp: HELM_SPAN_ERR_REGISTRY_FULL_def)
  with full show ?thesis
    unfolding res by (intro exI [of _ h] exI [of _ st']) (simp split: if_splits)
qed

text \<open>
  Errors of the C interface have a fixed priority and no effect: for readable dimension
  arguments the call never raises an internal error; the code reported is the null pointer, then
  the rank, then the memory space, then the dimensions, then the full registry, and in every
  error case the registry is unchanged and no handle is written.
\<close>

theorem span_register_error_priority:
  assumes inv: "registry_inv st" and dims: "nat rnk \<le> length dims" "\<forall>d \<in> set dims. d \<le> int64_max"
    and status: "span_register_status cuda hip ptr dims rnk token st = code"
  shows "(code \<noteq> HELM_SPAN_SUCCESS \<longrightarrow>
      helm_span_register_legacy_ptr cuda hip ptr dims rnk token True st = Inr (code, None, st)) \<and>
    (code = HELM_SPAN_SUCCESS \<longrightarrow>
      (\<exists>h st'. helm_span_register_legacy_ptr cuda hip ptr dims rnk token True st = Inr (code, Some h, st')))"
proof (cases "ptr \<noteq> 0 \<and> \<not> (rnk < 1 \<or> rnk > 7) \<and> is_memory_space_valid cuda hip token \<and>
    (\<forall>d \<in> set (take (nat rnk) dims). 0 < d)")
  case True
  then have code: "code = (if card (dom (registry_lookup st)) = MAX_CAPACITY then HELM_SPAN_ERR_REGISTRY_FULL
      else HELM_SPAN_SUCCESS)"
    using status by (simp add: span_register_status_def)
  have "HELM_SPAN_ERR_REGISTRY_FULL \<noteq> HELM_SPAN_SUCCESS" by (simp add: HELM_SPAN_ERR_REGISTRY_FULL_def)
  then show ?thesis
    using register_legacy_registers [OF inv dims, of ptr cuda hip token] True unfolding code by (auto split: if_splits)
next
  case False
  have "check_dims (nat rnk) dims = Inr (\<forall>d \<in> set (take (nat rnk) dims). 0 < d)"
    by (rule check_dims_readable [OF dims(1)])
  with False have "helm_span_register_legacy_ptr cuda hip ptr dims rnk token True st =
      Inr (span_register_status cuda hip ptr dims rnk token st, None, st)"
    by (auto simp: helm_span_register_legacy_ptr_def span_register_status_def)
  moreover have "code \<noteq> HELM_SPAN_SUCCESS" using False status by (auto simp: span_register_status_def split: if_splits)
  ultimately show ?thesis using status by simp
qed

theorem span_register_error_priority_witness:
  "helm_span_register_legacy_ptr False False 8 [3, 0] 2 0 True mk_registry = Inr (HELM_SPAN_ERR_NULL_PTR, None, mk_registry)"
  using span_register_error_priority [OF mk_registry_inv, of 2 "[3, 0]" False False 8 0 "HELM_SPAN_ERR_NULL_PTR"]
  by (simp add: span_register_status_def is_memory_space_valid_def numeral_2_eq_2)

end
