(* ===== verification/Dagr_Config.thy ===== *)
theory Dagr_Config
  imports Tick_Arith
begin

text \<open>
  The pipeline configuration of DAGR (\<^verbatim>\<open>dagr/pipeline_config.hpp\<close>) and the task nodes of the
  scheduling graph (\<^verbatim>\<open>dagr/detail/task_node.hpp\<close>), shared by the parser, the validator, the event
  loop and the orchestrator.

  A \<open>std::uint32_t\<close> is a natural below \<open>2\<^sup>3\<^sup>2\<close>; increments and decrements are the wrapping
  \<open>inc_u32\<close> and \<open>dec_u32\<close>, and a narrowing cast is \<open>to_u32\<close>. A filesystem path is the string it
  was made of. \<open>Task_Status\<close> has the constructors of the enumeration.
\<close>

abbreviation u32_limit :: nat where
  "u32_limit \<equiv> 4294967296"

definition inc_u32 :: "nat \<Rightarrow> nat" where
  "inc_u32 n = (n + 1) mod 4294967296"

definition to_u32 :: "int \<Rightarrow> nat" where
  "to_u32 x = nat (x mod 4294967296)"

lemma inc_u32_small [simp]: "n + 1 < u32_limit \<Longrightarrow> inc_u32 n = Suc n"
  by (simp add: inc_u32_def)

lemma dec_u32_Suc [simp]: "dec_u32 (Suc n) = n"
  by (simp add: dec_u32_def)

lemma dec_u32_pos: "0 < n \<Longrightarrow> dec_u32 n = n - 1"
  by (simp add: dec_u32_def)

lemma to_u32_of_nat [simp]: "n < u32_limit \<Longrightarrow> to_u32 (int n) = n"
  by (simp add: to_u32_def)

datatype Temporal_Profile = Profile_linear | Profile_step

datatype OutOfBounds_Policy = Policy_clamp | Policy_cycle

record Stream_Descriptor =
  sd_name :: string
  sd_temporal_profile :: Temporal_Profile
  sd_oob_policy :: OutOfBounds_Policy
  sd_dataset_path :: string
  sd_snapshot_interval :: Duration

record Dependency_Edge =
  producer_id :: nat
  consumer_id :: nat

record Pipeline_Config =
  pc_streams :: "Stream_Descriptor list"
  pc_task_names :: "string list"
  pc_edges :: "Dependency_Edge list"
  pc_max_concurrency :: nat
  pc_deadlock_timeout_s :: nat
  pc_shutdown_timeout_s :: nat

datatype Task_Status = Pending | Ready | Running | Completed | Failed | Cancelled

record TaskNode =
  tn_id :: nat
  tn_name :: string
  pending_deps :: nat
  tn_status :: Task_Status
  required_ranks :: nat
  dependents :: "nat list"

definition edge_rel :: "Dependency_Edge list \<Rightarrow> (nat \<times> nat) set" where
  "edge_rel es = (\<lambda>e. (producer_id e, consumer_id e)) ` set es"

lemma edge_rel_simps [simp]:
  "edge_rel [] = {}"
  "edge_rel (e # es) = insert (producer_id e, consumer_id e) (edge_rel es)"
  by (auto simp: edge_rel_def)

lemma finite_edge_rel [simp]: "finite (edge_rel es)"
  by (simp add: edge_rel_def)

end
