(* ===== verification/Dagr_Kahn.thy ===== *)
theory Dagr_Kahn
  imports Dagr_Config
begin

text \<open>
  Validation of the task graph by Kahn's algorithm: \<open>validate_dag\<close> and \<open>populate_nodes\<close> of
  \<^verbatim>\<open>dagr/src/graph_orchestrator.cpp\<close>. The parser repeats the same loop on its own arrays.

  The loop runs on fuel: \<open>None\<close> is a loop that has not ended. One more than the number of
  tasks is enough (\<open>kahn_loop_correct\<close>), so the validator always returns. It accepts
  exactly the graphs without dangling ids and without a cycle.
\<close>

section \<open>Operations\<close>

fun add_edges :: "Dependency_Edge list \<Rightarrow> nat list \<Rightarrow> nat list list \<Rightarrow> nat list \<times> nat list list" where
  "add_edges [] in_degree downstream = (in_degree, downstream)"
| "add_edges (e # es) in_degree downstream =
     add_edges es (in_degree[consumer_id e := inc_u32 (in_degree ! consumer_id e)])
       (downstream[producer_id e := downstream ! producer_id e @ [consumer_id e]])"

definition build_adjacency :: "nat \<Rightarrow> Dependency_Edge list \<Rightarrow> nat list \<times> nat list list" where
  "build_adjacency num_tasks es = add_edges es (replicate num_tasks 0) (replicate num_tasks [])"

fun relax :: "nat list \<Rightarrow> nat list \<Rightarrow> nat list \<Rightarrow> nat list \<times> nat list" where
  "relax [] in_degree queue = (in_degree, queue)"
| "relax (dep # deps) in_degree queue =
     (let d = dec_u32 (in_degree ! dep) in
      relax deps (in_degree[dep := d]) (if d = 0 then queue @ [dep] else queue))"

fun kahn_loop :: "nat \<Rightarrow> nat list list \<Rightarrow> nat list \<Rightarrow> nat list \<Rightarrow> nat \<Rightarrow> (nat \<times> nat list) option" where
  "kahn_loop fuel downstream in_degree [] sorted_count = Some (sorted_count, in_degree)"
| "kahn_loop 0 downstream in_degree (node # queue) sorted_count = None"
| "kahn_loop (Suc fuel) downstream in_degree (node # queue) sorted_count =
     (case relax (downstream ! node) in_degree queue of
        (in_degree', queue') \<Rightarrow> kahn_loop fuel downstream in_degree' queue' (inc_u32 sorted_count))"

definition initial_queue :: "nat \<Rightarrow> nat list \<Rightarrow> nat list" where
  "initial_queue num_tasks in_degree = filter (\<lambda>i. in_degree ! i = 0) [0..<num_tasks]"

fun contains_arrow :: "string \<Rightarrow> bool" where
  "contains_arrow [] = False"
| "contains_arrow (c # s) = (take 4 (c # s) = '' -> '' \<or> contains_arrow s)"

fun cycle_path_loop :: "(nat \<times> string) list \<Rightarrow> string \<Rightarrow> string" where
  "cycle_path_loop [] path = path"
| "cycle_path_loop ((d, name) # rest) path =
     (if d > 0 then
        let path' = (if path \<noteq> [] then path @ '' -> '' else path) @ name in
        if contains_arrow path' then path' else cycle_path_loop rest path'
      else cycle_path_loop rest path)"

fun find_dangling :: "nat \<Rightarrow> Dependency_Edge list \<Rightarrow> nat option" where
  "find_dangling num_tasks [] = None"
| "find_dangling num_tasks (e # es) =
     (if producer_id e \<ge> num_tasks then Some (producer_id e)
      else if consumer_id e \<ge> num_tasks then Some (consumer_id e)
      else find_dangling num_tasks es)"

definition validate_dag :: "nat \<Rightarrow> Pipeline_Config \<Rightarrow> unit result option" where
  "validate_dag fuel cfg =
     (let num_tasks = to_u32 (int (length (pc_task_names cfg))) in
      case find_dangling num_tasks (pc_edges cfg) of
        Some i \<Rightarrow> Some (Inl (Invalid_argument ''GraphOrchestrator: edge references unresolved task ID ''))
      | None \<Rightarrow>
          case build_adjacency num_tasks (pc_edges cfg) of (in_degree, downstream) \<Rightarrow>
          case kahn_loop fuel downstream in_degree (initial_queue num_tasks in_degree) 0 of
            None \<Rightarrow> None
          | Some (sorted_count, in_degree') \<Rightarrow>
              if sorted_count \<noteq> num_tasks
              then Some (Inl (Invalid_argument (''GraphOrchestrator: cycle detected in task dependencies: '' @
                     cycle_path_loop (zip in_degree' (pc_task_names cfg)) [])))
              else Some (Inr ()))"

definition validated_node_count :: "nat \<Rightarrow> Pipeline_Config \<Rightarrow> nat result option" where
  "validated_node_count fuel cfg =
     map_option (mapR (\<lambda>_. to_u32 (int (length (pc_task_names cfg))))) (validate_dag fuel cfg)"

definition populate_nodes :: "Pipeline_Config \<Rightarrow> TaskNode list" where
  "populate_nodes cfg =
     (let num_tasks = to_u32 (int (length (pc_task_names cfg))) in
      case build_adjacency num_tasks (pc_edges cfg) of (in_degree, downstream) \<Rightarrow>
        map (\<lambda>i. \<lparr>tn_id = i, tn_name = pc_task_names cfg ! i, pending_deps = in_degree ! i,
                   tn_status = Pending, required_ranks = 1, dependents = downstream ! i\<rparr>)
          [0..<num_tasks])"

section \<open>The adjacency arrays\<close>

definition edges_ok :: "nat \<Rightarrow> Dependency_Edge list \<Rightarrow> bool" where
  "edges_ok n es \<longleftrightarrow> list_all (\<lambda>e. producer_id e < n \<and> consumer_id e < n) es \<and> length es < u32_limit"

definition succs :: "Dependency_Edge list \<Rightarrow> nat \<Rightarrow> nat list" where
  "succs es i = map consumer_id (filter (\<lambda>e. producer_id e = i) es)"

definition preds :: "Dependency_Edge list \<Rightarrow> nat \<Rightarrow> nat list" where
  "preds es j = map producer_id (filter (\<lambda>e. consumer_id e = j) es)"

lemma find_dangling_None:
  "find_dangling n es = None \<longleftrightarrow> list_all (\<lambda>e. producer_id e < n \<and> consumer_id e < n) es"
  by (induction es) auto

lemma set_succs: "j \<in> set (succs es i) \<longleftrightarrow> (i, j) \<in> edge_rel es"
  by (auto simp: succs_def edge_rel_def)

lemma set_preds: "i \<in> set (preds es j) \<longleftrightarrow> (i, j) \<in> edge_rel es"
  by (auto simp: preds_def edge_rel_def)

lemma count_succs_preds: "count_list (succs es i) j = count_list (preds es j) i"
  by (induction es) (auto simp: succs_def preds_def)

lemma add_edges_spec:
  assumes "list_all (\<lambda>e. producer_id e < n \<and> consumer_id e < n) es" "length deg = n" "length ds = n"
    and "\<forall>j<n. deg ! j + length es < u32_limit" and "add_edges es deg ds = (deg', ds')"
  shows "length deg' = n \<and> length ds' = n \<and> (\<forall>j<n. deg' ! j = deg ! j + length (preds es j)) \<and>
    (\<forall>i<n. ds' ! i = ds ! i @ succs es i)"
  using assms
proof (induction es arbitrary: deg ds)
  case (Cons e es)
  let ?deg = "deg[consumer_id e := inc_u32 (deg ! consumer_id e)]"
  let ?ds = "ds[producer_id e := ds ! producer_id e @ [consumer_id e]]"
  have e: "producer_id e < n" "consumer_id e < n" using Cons.prems(1) by auto
  have deg: "?deg ! j = deg ! j + (if j = consumer_id e then 1 else 0)" if "j < n" for j
    using Cons.prems(2,4) that e by (auto simp: nth_list_update)
  have "\<forall>j<n. ?deg ! j + length es < u32_limit"
    using Cons.prems(4) by (auto simp: deg)
  then have "length deg' = n \<and> length ds' = n \<and> (\<forall>j<n. deg' ! j = ?deg ! j + length (preds es j)) \<and>
      (\<forall>i<n. ds' ! i = ?ds ! i @ succs es i)"
    using Cons.prems by (intro Cons.IH) auto
  then show ?case using e Cons.prems(3) by (auto simp: deg preds_def succs_def nth_list_update)
qed (auto simp: preds_def succs_def)

lemma build_adjacency_spec:
  assumes "edges_ok n es" "build_adjacency n es = (deg, ds)"
  shows "length deg = n" "length ds = n" "j < n \<Longrightarrow> deg ! j = length (preds es j)" "i < n \<Longrightarrow> ds ! i = succs es i"
  using add_edges_spec [of n es "replicate n 0" "replicate n []" deg ds] assms
  by (auto simp: edges_ok_def build_adjacency_def)

section \<open>The loop\<close>

text \<open>With the nodes of \<open>order\<close> sorted, a node's counter is the number of its remaining
  producers, and the queue holds the unsorted nodes whose counter is zero.\<close>

definition open_preds :: "Dependency_Edge list \<Rightarrow> nat set \<Rightarrow> nat \<Rightarrow> nat" where
  "open_preds es P j = length (filter (\<lambda>i. i \<notin> P) (preds es j))"

definition kahn_inv :: "nat \<Rightarrow> Dependency_Edge list \<Rightarrow> nat list \<Rightarrow> nat list \<Rightarrow> nat list \<Rightarrow> bool" where
  "kahn_inv n es order deg queue \<longleftrightarrow>
     distinct (order @ queue) \<and> set (order @ queue) \<subseteq> {..<n} \<and> length deg = n \<and>
     (\<forall>j<n. deg ! j = open_preds es (set order) j) \<and>
     (\<forall>j<n. deg ! j = 0 \<longleftrightarrow> j \<in> set (order @ queue)) \<and>
     (\<forall>k<length order. set (preds es (order ! k)) \<subseteq> set (take k order))"

lemma length_filter_notin_insert:
  "i \<notin> P \<Longrightarrow> length (filter (\<lambda>x. x \<notin> P) xs) = length (filter (\<lambda>x. x \<notin> insert i P) xs) + count_list xs i"
  by (induction xs) auto

lemma open_preds_step:
  "i \<notin> P \<Longrightarrow> open_preds es P j = open_preds es (insert i P) j + count_list (succs es i) j"
  unfolding count_succs_preds open_preds_def by (rule length_filter_notin_insert)

lemma relax_spec:
  assumes "set deps \<subseteq> {..<length deg}" "\<forall>j. count_list deps j \<le> (if j < length deg then deg ! j else 0)"
    and "relax deps deg queue = (deg', queue')"
  shows "length deg' = length deg \<and> (\<forall>j<length deg. deg' ! j = deg ! j - count_list deps j) \<and>
    (\<exists>new. queue' = queue @ new \<and> distinct new \<and> set new = {j \<in> set deps. deg ! j = count_list deps j})"
  using assms
proof (induction deps arbitrary: deg queue)
  case (Cons d ds)
  have d: "d < length deg" using Cons.prems(1) by simp
  then have pos: "0 < deg ! d" using Cons.prems(2) [rule_format, of d] by simp
  define deg1 where "deg1 = deg[d := deg ! d - 1]"
  define q1 where "q1 = (if deg ! d = 1 then queue @ [d] else queue)"
  have nth1: "deg1 ! j = (if j = d then deg ! j - 1 else deg ! j)" "length deg1 = length deg" for j
    using d by (auto simp: deg1_def nth_list_update)
  have r: "relax ds deg1 q1 = (deg', queue')"
  proof -
    have "dec_u32 (deg ! d) = deg ! d - 1" "deg ! d - 1 = 0 \<longleftrightarrow> deg ! d = 1"
      using pos by (auto simp: dec_u32_pos)
    then show ?thesis using Cons.prems(3) by (simp add: Let_def deg1_def q1_def)
  qed
  have c: "\<forall>j. count_list ds j \<le> (if j < length deg1 then deg1 ! j else 0)"
  proof
    fix j show "count_list ds j \<le> (if j < length deg1 then deg1 ! j else 0)"
      using Cons.prems(2) [rule_format, of j] d by (auto simp: nth1 split: if_splits)
  qed
  have "length deg' = length deg1 \<and> (\<forall>j<length deg1. deg' ! j = deg1 ! j - count_list ds j) \<and>
    (\<exists>new. queue' = q1 @ new \<and> distinct new \<and> set new = {j \<in> set ds. deg1 ! j = count_list ds j})"
    using Cons.prems(1) c r by (intro Cons.IH) (auto simp: nth1)
  then obtain new where l: "length deg' = length deg" "\<forall>j<length deg. deg' ! j = deg1 ! j - count_list ds j"
    and new: "queue' = q1 @ new" "distinct new" "set new = {j \<in> set ds. deg1 ! j = count_list ds j}"
    by (auto simp: nth1)
  have cd: "d \<in> set ds \<longleftrightarrow> 0 < count_list ds d" by (metis count_list_0_iff gr0I less_numeral_extra(3))
  have "\<exists>new. queue' = queue @ new \<and> distinct new \<and> set new = {j \<in> set (d # ds). deg ! j = count_list (d # ds) j}"
  proof (cases "deg ! d = 1")
    case True
    then have "count_list ds d = 0" using c [rule_format, of d] d by (simp add: nth1)
    then have nd: "d \<notin> set ds" by (simp add: count_list_0_iff)
    have "set (d # new) = {j \<in> set (d # ds). deg ! j = count_list (d # ds) j}"
      unfolding list.set new(3) using nd True \<open>count_list ds d = 0\<close> by (auto simp: nth1)
    moreover have "distinct (d # new)" using nd new(2,3) by simp
    moreover have "queue' = queue @ d # new" using new(1) True by (simp add: q1_def)
    ultimately show ?thesis by blast
  next
    case False
    have "set new = {j \<in> set (d # ds). deg ! j = count_list (d # ds) j}"
      unfolding new(3) using pos cd False by (auto simp: nth1)
    then show ?thesis using new(1,2) False by (simp add: q1_def)
  qed
  moreover have "\<forall>j<length deg. deg' ! j = deg ! j - count_list (d # ds) j" using l(2) by (auto simp: nth1)
  ultimately show ?case using l(1) by simp
qed auto

lemma kahn_inv_step:
  assumes inv: "kahn_inv n es order deg (v # queue)" and ok: "edges_ok n es"
    and r: "relax (succs es v) deg queue = (deg', queue')"
  shows "kahn_inv n es (order @ [v]) deg' queue'"
proof -
  have v: "v \<notin> set order" "v \<notin> set queue" "v < n" and len: "length deg = n"
    and dg: "\<And>j. j < n \<Longrightarrow> deg ! j = open_preds es (set order) j"
    and z: "\<And>j. j < n \<Longrightarrow> deg ! j = 0 \<longleftrightarrow> j \<in> set (order @ v # queue)"
    using inv by (auto simp: kahn_inv_def)
  have sub: "set (succs es v) \<subseteq> {..<n}" using ok by (auto simp: succs_def edges_ok_def list_all_iff)
  have step: "deg ! j = open_preds es (insert v (set order)) j + count_list (succs es v) j" if "j < n" for j
    using dg [OF that] open_preds_step [OF v(1)] by simp
  have c: "\<forall>j. count_list (succs es v) j \<le> (if j < length deg then deg ! j else 0)"
    using step sub len by (auto simp: count_list_0_iff)
  obtain new where new: "length deg' = n" "\<And>j. j < n \<Longrightarrow> deg' ! j = deg ! j - count_list (succs es v) j"
    "queue' = queue @ new" "distinct new" "set new = {j \<in> set (succs es v). deg ! j = count_list (succs es v) j}"
    using relax_spec [OF _ c r] sub len by auto
  have cpos: "j \<in> set (succs es v) \<longleftrightarrow> count_list (succs es v) j \<noteq> 0" for j by (simp add: count_list_0_iff)
  have deg': "deg' ! j = open_preds es (insert v (set order)) j" if "j < n" for j
    using new(2) [OF that] step [OF that] by simp
  have fresh: "set new \<inter> set (order @ v # queue) = {}"
  proof -
    have "j \<notin> set (order @ v # queue)" if "j \<in> set new" for j
    proof -
      have "j < n" "deg ! j \<noteq> 0" using that new(5) sub cpos [of j] by auto
      then show ?thesis using z [of j] by simp
    qed
    then show ?thesis by blast
  qed
  have zero: "deg' ! j = 0 \<longleftrightarrow> j \<in> set ((order @ [v]) @ queue')" if "j < n" for j
    using z [OF that] step [OF that] deg' [OF that] new(3,5) cpos [of j] by auto
  have pv: "set (preds es v) \<subseteq> set order"
    using z [OF v(3)] dg [OF v(3)] by (auto simp: open_preds_def filter_empty_conv)
  have "\<forall>k<length (order @ [v]). set (preds es ((order @ [v]) ! k)) \<subseteq> set (take k (order @ [v]))"
    using inv pv by (auto simp: kahn_inv_def nth_append less_Suc_eq)
  moreover have "distinct ((order @ [v]) @ queue')" "set ((order @ [v]) @ queue') \<subseteq> {..<n}"
    using inv new(3,4,5) fresh sub by (auto simp: kahn_inv_def)
  ultimately show ?thesis
    using deg' zero new(1) by (simp add: kahn_inv_def)
qed

lemma distinct_le: "distinct (xs :: nat list) \<Longrightarrow> set xs \<subseteq> {..<n} \<Longrightarrow> length xs \<le> n"
  using card_mono [of "{..<n}" "set xs"] by (simp add: distinct_card)

lemma kahn_loop_correct:
  assumes "kahn_inv n es order deg queue" "edges_ok n es" "n < u32_limit" "n - length order < fuel"
    and "\<And>i. i < n \<Longrightarrow> ds ! i = succs es i"
  shows "\<exists>order' deg'. kahn_loop fuel ds deg queue (length order) = Some (length order', deg') \<and> kahn_inv n es order' deg' []"
  using assms
proof (induction fuel arbitrary: order deg queue)
  case (Suc fuel)
  show ?case
  proof (cases queue)
    case Nil
    then show ?thesis using Suc.prems by auto
  next
    case (Cons v vs)
    obtain deg1 q1 where r: "relax (succs es v) deg vs = (deg1, q1)" by fastforce
    have inv1: "kahn_inv n es (order @ [v]) deg1 q1"
      using kahn_inv_step [OF Suc.prems(1) [unfolded Cons] Suc.prems(2) r] .
    have v: "v < n" using Suc.prems(1) Cons by (auto simp: kahn_inv_def)
    have le: "length (order @ [v]) \<le> n" using inv1 by (intro distinct_le) (auto simp: kahn_inv_def)
    then have "n - length (order @ [v]) < fuel" using Suc.prems(4) by simp
    from Suc.IH [OF inv1 Suc.prems(2,3) this Suc.prems(5)]
    show ?thesis using Cons r v le Suc.prems(3,5) by simp
  qed
qed simp

lemma kahn_inv_initial:
  assumes "edges_ok n es" "length deg = n" "\<And>j. j < n \<Longrightarrow> deg ! j = length (preds es j)"
  shows "kahn_inv n es [] deg (initial_queue n deg)"
  using assms by (auto simp: kahn_inv_def initial_queue_def open_preds_def)

section \<open>Sorted graphs are the acyclic graphs\<close>

lemma topological_acyclic:
  assumes "distinct order" "edge_rel es \<subseteq> set order \<times> set order"
    and topo: "\<forall>k<length order. set (preds es (order ! k)) \<subseteq> set (take k order)"
  shows "acyclic (edge_rel es)"
proof -
  define pos where "pos v = (LEAST k. k < length order \<and> order ! k = v)" for v
  have pos: "pos (order ! k) = k" if "k < length order" for k
    unfolding pos_def using that assms(1) by (intro Least_equality) (auto simp: nth_eq_iff_index_eq)
  have "edge_rel es \<subseteq> measure pos"
  proof
    fix e assume e: "e \<in> edge_rel es"
    obtain u v where uv: "e = (u, v)" by (cases e)
    then obtain k where k: "k < length order" "order ! k = v" using e assms(2) by (metis SigmaE2 in_set_conv_nth subsetD)
    then have "u \<in> set (take k order)" using topo e uv set_preds by blast
    then obtain m where "m < k" "order ! m = u" using k(1) by (auto simp: in_set_conv_nth)
    then show "e \<in> measure pos" using uv k pos by auto
  qed
  then show ?thesis using wf_acyclic wf_measure wf_subset by blast
qed

lemma kahn_final:
  assumes inv: "kahn_inv n es order deg []" and ok: "edges_ok n es"
  shows "length order = n \<longleftrightarrow> acyclic (edge_rel es)"
proof
  assume "length order = n"
  moreover have d: "distinct order" "set order \<subseteq> {..<n}" using inv by (auto simp: kahn_inv_def)
  ultimately have all: "set order = {..<n}" by (intro card_subset_eq) (auto simp: distinct_card)
  show "acyclic (edge_rel es)"
    using inv ok all by (intro topological_acyclic [of order])
      (auto simp: kahn_inv_def edges_ok_def list_all_iff edge_rel_def)
next
  assume ac: "acyclic (edge_rel es)"
  have d: "distinct order" "set order \<subseteq> {..<n}" using inv by (auto simp: kahn_inv_def)
  have "{..<n} \<subseteq> set order"
  proof (rule ccontr)
    assume "\<not> {..<n} \<subseteq> set order"
    then obtain v where v: "v \<in> {..<n} - set order" by auto
    have "wf (edge_rel es)" using ac by (intro finite_acyclic_wf) auto
    from wfE_min [OF this v] obtain m where m: "m \<in> {..<n} - set order"
      "\<And>u. (u, m) \<in> edge_rel es \<Longrightarrow> u \<notin> {..<n} - set order" by blast
    have "open_preds es (set order) m \<noteq> 0" using inv m(1) by (auto simp: kahn_inv_def)
    then obtain u where "u \<in> set (preds es m)" "u \<notin> set order"
      by (auto simp: open_preds_def filter_empty_conv)
    moreover from this have "u < n" using ok by (auto simp: preds_def edges_ok_def list_all_iff)
    ultimately show False using m(2) [of u] set_preds [of u es m] by auto
  qed
  then have "set order = {..<n}" using d by auto
  then show "length order = n" using d(1) distinct_card by fastforce
qed

section \<open>The validator\<close>

definition config_fits :: "Pipeline_Config \<Rightarrow> bool" where
  "config_fits cfg \<longleftrightarrow> length (pc_task_names cfg) < u32_limit \<and> length (pc_edges cfg) < u32_limit"

definition valid_graph :: "Pipeline_Config \<Rightarrow> bool" where
  "valid_graph cfg \<longleftrightarrow> edge_rel (pc_edges cfg) \<subseteq> {..<length (pc_task_names cfg)} \<times> {..<length (pc_task_names cfg)} \<and>
     acyclic (edge_rel (pc_edges cfg))"

lemma edges_ok_iff:
  "config_fits cfg \<Longrightarrow> edges_ok (length (pc_task_names cfg)) (pc_edges cfg) \<longleftrightarrow>
     edge_rel (pc_edges cfg) \<subseteq> {..<length (pc_task_names cfg)} \<times> {..<length (pc_task_names cfg)}"
  by (auto simp: config_fits_def edges_ok_def list_all_iff edge_rel_def)

lemma validate_dag_cases:
  assumes fit: "config_fits cfg" and fuel: "length (pc_task_names cfg) < fuel"
  shows "if valid_graph cfg then validate_dag fuel cfg = Some (Inr ())
    else \<exists>msg. validate_dag fuel cfg = Some (Inl (Invalid_argument msg))"
proof -
  let ?n = "length (pc_task_names cfg)" and ?es = "pc_edges cfg"
  have n: "to_u32 (int ?n) = ?n" "?n < u32_limit" using fit by (auto simp: config_fits_def)
  show ?thesis
  proof (cases "find_dangling ?n ?es")
    case (Some i)
    then have "\<not> edges_ok ?n ?es"
      using find_dangling_None [of ?n ?es] by (auto simp: edges_ok_def)
    then have "\<not> valid_graph cfg" using edges_ok_iff [OF fit] by (simp add: valid_graph_def)
    then show ?thesis using Some n by (simp add: validate_dag_def Let_def)
  next
    case None
    then have ok: "edges_ok ?n ?es" using fit by (simp add: find_dangling_None edges_ok_def config_fits_def)
    obtain deg ds where b: "build_adjacency ?n ?es = (deg, ds)" by fastforce
    note bs = build_adjacency_spec [OF ok b]
    obtain order deg' where k: "kahn_loop fuel ds deg (initial_queue ?n deg) 0 = Some (length order, deg')"
      and inv: "kahn_inv ?n ?es order deg' []"
      using kahn_loop_correct [OF kahn_inv_initial [OF ok bs(1,3)] ok n(2), of fuel ds] bs(4) fuel by auto
    have "valid_graph cfg \<longleftrightarrow> length order = ?n"
      using kahn_final [OF inv ok] edges_ok_iff [OF fit] ok by (simp add: valid_graph_def)
    then show ?thesis using None n b k by (simp add: validate_dag_def Let_def)
  qed
qed

lemma populate_nodes_spec:
  assumes fit: "config_fits cfg" and v: "valid_graph cfg"
  shows "length (populate_nodes cfg) = length (pc_task_names cfg)"
    "i < length (pc_task_names cfg) \<Longrightarrow> populate_nodes cfg ! i =
       \<lparr>tn_id = i, tn_name = pc_task_names cfg ! i, pending_deps = length (preds (pc_edges cfg) i),
        tn_status = Pending, required_ranks = 1, dependents = succs (pc_edges cfg) i\<rparr>"
proof -
  let ?n = "length (pc_task_names cfg)" and ?es = "pc_edges cfg"
  have n: "to_u32 (int ?n) = ?n" using fit by (simp add: config_fits_def)
  have ok: "edges_ok ?n ?es" using edges_ok_iff [OF fit] v by (simp add: valid_graph_def)
  obtain deg ds where b: "build_adjacency ?n ?es = (deg, ds)" by fastforce
  note bs = build_adjacency_spec [OF ok b]
  show "length (populate_nodes cfg) = ?n" using n b by (simp add: populate_nodes_def)
  show "i < ?n \<Longrightarrow> populate_nodes cfg ! i =
       \<lparr>tn_id = i, tn_name = pc_task_names cfg ! i, pending_deps = length (preds (pc_edges cfg) i),
        tn_status = Pending, required_ranks = 1, dependents = succs (pc_edges cfg) i\<rparr>"
    using n b bs by (simp add: populate_nodes_def)
qed

text \<open>
  C3. Graph validation is sound, complete and terminating: with as many loop iterations as there
  are tasks plus one, it returns; it accepts a configuration exactly when every edge
  refers to existing tasks and the dependency relation is acyclic, and otherwise throws an
  invalid-argument error.
\<close>

theorem validate_dag_iff_acyclic:
  assumes "config_fits cfg" "length (pc_task_names cfg) < fuel"
  shows "(\<exists>r. validate_dag fuel cfg = Some r \<and> (is_ok r \<longleftrightarrow> valid_graph cfg) \<and>
      (\<forall>e. r = Inl e \<longrightarrow> (\<exists>msg. e = Invalid_argument msg))) \<and>
    (valid_graph cfg \<longrightarrow> validated_node_count fuel cfg = Some (Inr (length (pc_task_names cfg))))"
  using validate_dag_cases [OF assms] assms(1)
  by (auto simp: validated_node_count_def config_fits_def split: if_splits)

definition diamond :: Pipeline_Config where
  "diamond = \<lparr>pc_streams = [], pc_task_names = [''a'', ''b'', ''c'', ''d''],
     pc_edges = [\<lparr>producer_id = 0, consumer_id = 1\<rparr>, \<lparr>producer_id = 0, consumer_id = 2\<rparr>,
                 \<lparr>producer_id = 1, consumer_id = 3\<rparr>, \<lparr>producer_id = 2, consumer_id = 3\<rparr>],
     pc_max_concurrency = 2, pc_deadlock_timeout_s = 30, pc_shutdown_timeout_s = 30\<rparr>"

lemma diamond_fits: "config_fits diamond"
  by (simp add: config_fits_def diamond_def)

lemma diamond_valid: "valid_graph diamond"
proof -
  have "edge_rel (pc_edges diamond) \<subseteq> measure id" by (auto simp: diamond_def edge_rel_def)
  then have "acyclic (edge_rel (pc_edges diamond))" using wf_acyclic wf_measure wf_subset by blast
  then show ?thesis by (auto simp: valid_graph_def diamond_def)
qed

theorem validate_dag_iff_acyclic_witness:
  "validated_node_count 5 diamond = Some (Inr 4)"
  using validate_dag_iff_acyclic [OF diamond_fits, of 5] diamond_valid by (simp add: diamond_def)

text \<open>The path reported for a cycle names the first two nodes that were not sorted. They
  need not lie on a cycle: here task 0 only depends on one.\<close>

lemma cycle_path_names_bystander:
  "validate_dag (Suc 3) \<lparr>pc_streams = [], pc_task_names = [''x'', ''y'', ''z''],
     pc_edges = [\<lparr>producer_id = 1, consumer_id = 2\<rparr>, \<lparr>producer_id = 2, consumer_id = 1\<rparr>,
                 \<lparr>producer_id = 1, consumer_id = 0\<rparr>],
     pc_max_concurrency = 1, pc_deadlock_timeout_s = 30, pc_shutdown_timeout_s = 30\<rparr> =
   Some (Inl (Invalid_argument ''GraphOrchestrator: cycle detected in task dependencies: x -> y''))"
  by (simp add: validate_dag_def Let_def to_u32_def build_adjacency_def initial_queue_def
      upt_rec numeral_3_eq_3 inc_u32_def dec_u32_def)

end
