(* ===== verification/Dagr_Rank_Pool.thy ===== *)
theory Dagr_Rank_Pool
  imports Helm_Prelude "HOL-Library.Multiset"
begin

text \<open>
  DAGR's rank pool: \<^verbatim>\<open>dagr/detail/rank_pool.hpp\<close> and \<^verbatim>\<open>dagr/src/rank_pool.cpp\<close>.

  The pool keeps the managed rank ids and, at the same index, whether the rank is available.
  Every operation holds the structural mutex, so it is one step on the state and the
  compare-exchange of a bit reads and writes the bit. A \<open>std::set\<close> is a set, iterated in
  increasing order. The counters are naturals: they count distinct ranks of type \<open>int\<close>.
  Subtraction is the wrapping one of the source.

  The locale \<open>rank_allocator\<close> is what the event loop relies on.
\<close>

section \<open>Operations\<close>

record Rank_Pool =
  rp_rank_ids :: "int list"
  rp_bitset :: "bool list"
  rp_total :: nat
  rp_available :: nat

definition sub_u32 :: "nat \<Rightarrow> nat \<Rightarrow> nat" where
  "sub_u32 a b = (if b \<le> a then a - b else a + 4294967296 - b)"

definition mk_rank_pool :: "int set \<Rightarrow> Rank_Pool" where
  "mk_rank_pool ranks =
     \<lparr>rp_rank_ids = sorted_list_of_set ranks, rp_bitset = replicate (card ranks) True,
      rp_total = card ranks, rp_available = card ranks\<rparr>"

fun allocate_loop :: "nat \<Rightarrow> int list \<Rightarrow> bool list \<Rightarrow> int set \<Rightarrow> bool list \<times> int set" where
  "allocate_loop cnt (r # rs) (b # bs) allocated =
     (if card allocated < cnt then
        if b then (case allocate_loop cnt rs bs (insert r allocated) of (bs', a) \<Rightarrow> (False # bs', a))
        else (case allocate_loop cnt rs bs allocated of (bs', a) \<Rightarrow> (b # bs', a))
      else (b # bs, allocated))"
| "allocate_loop cnt _ bs allocated = (bs, allocated)"

definition roll_back :: "int set \<Rightarrow> int list \<Rightarrow> bool list \<Rightarrow> bool list" where
  "roll_back allocated ids bits = map2 (\<lambda>r b. r \<in> allocated \<or> b) ids bits"

definition try_allocate :: "nat \<Rightarrow> Rank_Pool \<Rightarrow> (int set \<times> Rank_Pool) result" where
  "try_allocate cnt p =
     (if cnt = 0 then Inl (Invalid_argument ''Rank_Pool::try_allocate: count must be > 0'')
      else if rp_available p < cnt then Inr ({}, p)
      else case allocate_loop cnt (rp_rank_ids p) (rp_bitset p) {} of (bits, allocated) \<Rightarrow>
        if card allocated < cnt
        then Inr ({}, p\<lparr>rp_bitset := roll_back allocated (rp_rank_ids p) bits\<rparr>)
        else Inr (allocated, p\<lparr>rp_bitset := bits, rp_available := sub_u32 (rp_available p) (card allocated)\<rparr>))"

fun release_loop :: "int set \<Rightarrow> int list \<Rightarrow> bool list \<Rightarrow> bool list \<times> nat" where
  "release_loop ranks (r # rs) (b # bs) =
     (case release_loop ranks rs bs of (bs', n) \<Rightarrow>
        if r \<in> ranks \<and> \<not> b then (True # bs', n + 1) else (b # bs', n))"
| "release_loop ranks _ bs = (bs, 0)"

definition release :: "int set \<Rightarrow> Rank_Pool \<Rightarrow> Rank_Pool" where
  "release ranks p =
     (case release_loop ranks (rp_rank_ids p) (rp_bitset p) of (bits, released_count) \<Rightarrow>
        let p' = p\<lparr>rp_bitset := bits\<rparr> in
        if released_count > 0 then p'\<lparr>rp_available := rp_available p' + released_count\<rparr> else p')"

definition add_rank :: "int \<Rightarrow> Rank_Pool \<Rightarrow> Rank_Pool" where
  "add_rank r p =
     (if r \<in> set (rp_rank_ids p) then p
      else p\<lparr>rp_rank_ids := rp_rank_ids p @ [r], rp_bitset := rp_bitset p @ [True],
             rp_total := rp_total p + 1, rp_available := rp_available p + 1\<rparr>)"

definition add_ranks :: "int set \<Rightarrow> Rank_Pool \<Rightarrow> Rank_Pool" where
  "add_ranks ranks p = fold add_rank (sorted_list_of_set ranks) p"

definition indices_to_remove :: "int set \<Rightarrow> int list \<Rightarrow> bool list \<Rightarrow> nat list" where
  "indices_to_remove ranks ids bits = filter (\<lambda>i. ids ! i \<in> ranks \<and> bits ! i) [0..<length ids]"

definition swap_pop :: "nat \<Rightarrow> 'a list \<Rightarrow> 'a list" where
  "swap_pop idx xs =
     (let lst = length xs - 1 in
      butlast (if idx \<noteq> lst then (xs[idx := xs ! lst])[lst := xs ! idx] else xs))"

definition remove_available :: "int set \<Rightarrow> Rank_Pool \<Rightarrow> int set \<times> Rank_Pool" where
  "remove_available ranks p =
     (let idxs = indices_to_remove ranks (rp_rank_ids p) (rp_bitset p);
          removed = set (map (\<lambda>i. rp_rank_ids p ! i) idxs);
          p1 = p\<lparr>rp_rank_ids := fold swap_pop (rev idxs) (rp_rank_ids p),
                 rp_bitset := fold swap_pop (rev idxs) (rp_bitset p)\<rparr>;
          removed_count = card removed
      in (removed,
          if removed_count > 0
          then p1\<lparr>rp_total := sub_u32 (rp_total p1) removed_count,
                  rp_available := sub_u32 (rp_available p1) removed_count\<rparr>
          else p1))"

definition allocated_ranks :: "Rank_Pool \<Rightarrow> nat" where
  "allocated_ranks p = sub_u32 (rp_total p) (rp_available p)"

section \<open>The pool as two sets\<close>

abbreviation pool_slots :: "Rank_Pool \<Rightarrow> (int \<times> bool) list" where
  "pool_slots p \<equiv> zip (rp_rank_ids p) (rp_bitset p)"

definition avail_set :: "Rank_Pool \<Rightarrow> int set" where
  "avail_set p = {r. (r, True) \<in> set (pool_slots p)}"

definition busy_set :: "Rank_Pool \<Rightarrow> int set" where
  "busy_set p = {r. (r, False) \<in> set (pool_slots p)}"

definition pool_inv :: "Rank_Pool \<Rightarrow> bool" where
  "pool_inv p \<longleftrightarrow>
     length (rp_bitset p) = length (rp_rank_ids p) \<and> distinct (rp_rank_ids p) \<and>
     rp_total p = length (rp_rank_ids p) \<and> rp_available p = card (avail_set p)"

lemma slots_fst_inj:
  "distinct ids \<Longrightarrow> (r, b) \<in> set (zip ids bits) \<Longrightarrow> (r, c) \<in> set (zip ids bits) \<Longrightarrow> b = c"
  by (auto simp: in_set_zip nth_eq_iff_index_eq)

lemma pool_sets:
  assumes "length (rp_bitset p) = length (rp_rank_ids p)" "distinct (rp_rank_ids p)"
  shows "avail_set p \<union> busy_set p = set (rp_rank_ids p)" "avail_set p \<inter> busy_set p = {}"
    "finite (avail_set p)" "finite (busy_set p)"
proof -
  show u: "avail_set p \<union> busy_set p = set (rp_rank_ids p)"
  proof
    show "avail_set p \<union> busy_set p \<subseteq> set (rp_rank_ids p)"
      by (auto simp: avail_set_def busy_set_def dest: set_zip_leftD)
    show "set (rp_rank_ids p) \<subseteq> avail_set p \<union> busy_set p"
    proof
      fix r assume "r \<in> set (rp_rank_ids p)"
      then obtain i where "i < length (rp_rank_ids p)" "rp_rank_ids p ! i = r" by (auto simp: in_set_conv_nth)
      then have "(r, rp_bitset p ! i) \<in> set (pool_slots p)" using assms(1) by (force simp: in_set_zip)
      then show "r \<in> avail_set p \<union> busy_set p"
        by (cases "rp_bitset p ! i") (auto simp: avail_set_def busy_set_def)
    qed
  qed
  show "avail_set p \<inter> busy_set p = {}"
    using slots_fst_inj [OF assms(2), of _ True "rp_bitset p" False] by (auto simp: avail_set_def busy_set_def)
  show "finite (avail_set p)" "finite (busy_set p)"
    using u by (metis finite_Un List.finite_set)+
qed

lemma mk_rank_pool_inv:
  assumes "finite ranks"
  shows "pool_inv (mk_rank_pool ranks) \<and> avail_set (mk_rank_pool ranks) = ranks \<and> busy_set (mk_rank_pool ranks) = {}"
proof -
  have av: "avail_set (mk_rank_pool ranks) = ranks" "busy_set (mk_rank_pool ranks) = {}"
    using assms by (auto simp: avail_set_def busy_set_def mk_rank_pool_def zip_replicate2)
  then show ?thesis
    using assms by (auto simp: pool_inv_def mk_rank_pool_def)
qed

section \<open>Allocation\<close>

lemma allocate_loop_spec:
  assumes "length bits = length ids" "distinct ids" "set ids \<inter> acc = {}" "finite acc" "card acc \<le> cnt"
    and "allocate_loop cnt ids bits acc = (bits', a)"
  shows "length bits' = length ids \<and> acc \<subseteq> a \<and> finite a \<and> card a \<le> cnt \<and>
    a - acc \<subseteq> {r. (r, True) \<in> set (zip ids bits)} \<and>
    {r. (r, True) \<in> set (zip ids bits')} = {r. (r, True) \<in> set (zip ids bits)} - a \<and>
    {r. (r, False) \<in> set (zip ids bits')} = {r. (r, False) \<in> set (zip ids bits)} \<union> (a - acc) \<and>
    (card a < cnt \<longrightarrow> {r. (r, True) \<in> set (zip ids bits)} \<subseteq> a)"
  using assms
proof (induction cnt ids bits acc arbitrary: bits' a rule: allocate_loop.induct)
  case (1 cnt r rs b bs acc)
  show ?case
  proof (cases "card acc < cnt")
    case False
    then have "card acc = cnt" "bits' = b # bs" "a = acc" using 1 by auto
    moreover have "r \<notin> acc" "set rs \<inter> acc = {}" using 1(5) by auto
    ultimately show ?thesis using 1(3,6) by (auto dest: set_zip_leftD)
  next
    case True
    show ?thesis
    proof (cases b)
      case b: True
      obtain bs' where r: "allocate_loop cnt rs bs (insert r acc) = (bs', a)" "bits' = False # bs'"
        using 1(8) True b by (auto split: prod.splits)
      have nr: "r \<notin> set rs" "r \<notin> acc" using 1(4,5) by auto
      have "card (insert r acc) \<le> cnt" using True nr 1(6) by simp
      note IH = 1(1) [OF True b _ _ _ _ this r(1)]
      have ih: "length bs' = length rs \<and> insert r acc \<subseteq> a \<and> finite a \<and> card a \<le> cnt \<and>
        a - insert r acc \<subseteq> {x. (x, True) \<in> set (zip rs bs)} \<and>
        {x. (x, True) \<in> set (zip rs bs')} = {x. (x, True) \<in> set (zip rs bs)} - a \<and>
        {x. (x, False) \<in> set (zip rs bs')} = {x. (x, False) \<in> set (zip rs bs)} \<union> (a - insert r acc) \<and>
        (card a < cnt \<longrightarrow> {x. (x, True) \<in> set (zip rs bs)} \<subseteq> a)"
        using IH 1(3,4,5,6) nr by auto
      then show ?thesis using b nr r(2) by (auto dest: set_zip_leftD)
    next
      case b: False
      obtain bs' where r: "allocate_loop cnt rs bs acc = (bs', a)" "bits' = False # bs'"
        using 1(8) True b by (auto split: prod.splits)
      have nr: "r \<notin> set rs" "r \<notin> acc" using 1(4,5) by auto
      have ih: "length bs' = length rs \<and> acc \<subseteq> a \<and> finite a \<and> card a \<le> cnt \<and>
        a - acc \<subseteq> {x. (x, True) \<in> set (zip rs bs)} \<and>
        {x. (x, True) \<in> set (zip rs bs')} = {x. (x, True) \<in> set (zip rs bs)} - a \<and>
        {x. (x, False) \<in> set (zip rs bs')} = {x. (x, False) \<in> set (zip rs bs)} \<union> (a - acc) \<and>
        (card a < cnt \<longrightarrow> {x. (x, True) \<in> set (zip rs bs)} \<subseteq> a)"
        using 1(2) [OF True b _ _ _ _ _ r(1)] 1(3,4,5,6,7) by auto
      then show ?thesis using b nr r(2) by (auto dest: set_zip_leftD)
    qed
  qed
qed auto

lemma pool_invD:
  assumes "pool_inv p"
  shows "length (rp_bitset p) = length (rp_rank_ids p)" "distinct (rp_rank_ids p)"
    "rp_total p = length (rp_rank_ids p)" "rp_available p = card (avail_set p)"
    "avail_set p \<union> busy_set p = set (rp_rank_ids p)" "avail_set p \<inter> busy_set p = {}"
    "finite (avail_set p)" "finite (busy_set p)"
  using assms pool_sets [of p] by (simp_all add: pool_inv_def)

lemma try_allocate_spec:
  assumes inv: "pool_inv p" and n: "0 < n" and t: "try_allocate n p = Inr (R, p')"
  shows "if card (avail_set p) < n then R = {} \<and> p' = p
    else pool_inv p' \<and> card R = n \<and> R \<subseteq> avail_set p \<and> avail_set p' = avail_set p - R \<and>
      busy_set p' = busy_set p \<union> R \<and> rp_rank_ids p' = rp_rank_ids p"
proof (cases "card (avail_set p) < n")
  case True
  then show ?thesis using t n pool_invD(4) [OF inv] by (auto simp: try_allocate_def)
next
  case False
  note d = pool_invD [OF inv]
  obtain bits a where al: "allocate_loop n (rp_rank_ids p) (rp_bitset p) {} = (bits, a)"
    by (cases "allocate_loop n (rp_rank_ids p) (rp_bitset p) {}")
  note s = allocate_loop_spec [OF d(1,2) _ _ _ al, folded avail_set_def busy_set_def, simplified]
  have "\<not> card a < n"
  proof
    assume "card a < n"
    then have "avail_set p \<subseteq> a" "finite a" using s by auto
    then show False using card_mono [of a "avail_set p"] False \<open>card a < n\<close> by simp
  qed
  then have a: "card a = n" "a \<subseteq> avail_set p" "finite a" using s by auto
  then have R: "R = a" and p': "p' = p\<lparr>rp_bitset := bits, rp_available := rp_available p - n\<rparr>"
    using t n False d(4) al by (auto simp: try_allocate_def sub_u32_def)
  have sets: "avail_set p' = avail_set p - a" "busy_set p' = busy_set p \<union> a"
    using s by (auto simp: p' avail_set_def busy_set_def)
  have "card (avail_set p - a) = card (avail_set p) - n"
    using a by (simp add: card_Diff_subset)
  then have "pool_inv p'"
    using d s sets by (simp add: pool_inv_def p')
  then show ?thesis using False R a sets by (simp add: p')
qed

section \<open>Release\<close>

lemma release_loop_spec:
  assumes "length bits = length ids" "distinct ids" "release_loop ranks ids bits = (bits', n)"
  shows "length bits' = length ids \<and>
    {r. (r, True) \<in> set (zip ids bits')} = {r. (r, True) \<in> set (zip ids bits)} \<union> ({r. (r, False) \<in> set (zip ids bits)} \<inter> ranks) \<and>
    {r. (r, False) \<in> set (zip ids bits')} = {r. (r, False) \<in> set (zip ids bits)} - ranks \<and>
    n = card ({r. (r, False) \<in> set (zip ids bits)} \<inter> ranks)"
  using assms
proof (induction ranks ids bits arbitrary: bits' n rule: release_loop.induct)
  case (1 ranks r rs b bs)
  obtain bs' k where r: "release_loop ranks rs bs = (bs', k)" by (cases "release_loop ranks rs bs")
  have nr: "r \<notin> set rs" using 1(3) by simp
  have nb: "(r, c) \<notin> set (zip rs bs)" "(r, c) \<notin> set (zip rs bs')" for c
    using nr by (auto dest: set_zip_leftD)
  have ih: "length bs' = length rs"
    "{x. (x, True) \<in> set (zip rs bs')} = {x. (x, True) \<in> set (zip rs bs)} \<union> ({x. (x, False) \<in> set (zip rs bs)} \<inter> ranks)"
    "{x. (x, False) \<in> set (zip rs bs')} = {x. (x, False) \<in> set (zip rs bs)} - ranks"
    "k = card ({x. (x, False) \<in> set (zip rs bs)} \<inter> ranks)"
    using 1(1) [OF _ _ r] 1(2,3) by auto
  have fin: "finite {x. (x, False) \<in> set (zip rs bs)}"
    by (rule finite_subset [of _ "set rs"]) (auto dest: set_zip_leftD)
  show ?case
  proof (cases "r \<in> ranks \<and> \<not> b")
    case True
    have eq: "{x. (x, False) \<in> set (zip (r # rs) (b # bs))} \<inter> ranks = insert r ({x. (x, False) \<in> set (zip rs bs)} \<inter> ranks)"
      using True by auto
    have res: "bits' = True # bs'" "n = k + 1" using 1(4) r True by auto
    have "n = card ({x. (x, False) \<in> set (zip (r # rs) (b # bs))} \<inter> ranks)"
      unfolding eq using nb fin ih(4) res by simp
    moreover have "{x. (x, True) \<in> set (zip (r # rs) bits')} =
        {x. (x, True) \<in> set (zip (r # rs) (b # bs))} \<union> ({x. (x, False) \<in> set (zip (r # rs) (b # bs))} \<inter> ranks)"
      unfolding eq using res ih(2) True by auto
    moreover have "{x. (x, False) \<in> set (zip (r # rs) bits')} = {x. (x, False) \<in> set (zip (r # rs) (b # bs))} - ranks"
      using res ih(3) True by auto
    ultimately show ?thesis using res ih(1) by simp
  next
    case False
    have res: "bits' = b # bs'" "n = k" using 1(4) r False by auto
    have eq: "{x. (x, False) \<in> set (zip (r # rs) (b # bs))} \<inter> ranks = {x. (x, False) \<in> set (zip rs bs)} \<inter> ranks"
      using False by auto
    show ?thesis unfolding eq using res ih False by auto
  qed
qed auto

lemma release_spec:
  assumes inv: "pool_inv p"
  shows "pool_inv (release R p) \<and> avail_set (release R p) = avail_set p \<union> (busy_set p \<inter> R) \<and>
    busy_set (release R p) = busy_set p - R \<and> rp_rank_ids (release R p) = rp_rank_ids p"
proof -
  note d = pool_invD [OF inv]
  obtain bits n where l: "release_loop R (rp_rank_ids p) (rp_bitset p) = (bits, n)"
    by (cases "release_loop R (rp_rank_ids p) (rp_bitset p)")
  note s = release_loop_spec [OF d(1,2) l, folded avail_set_def busy_set_def]
  have eq: "release R p = p\<lparr>rp_bitset := bits, rp_available := rp_available p + n\<rparr>"
    by (simp add: release_def l Let_def)
  have sets: "avail_set (release R p) = avail_set p \<union> (busy_set p \<inter> R)" "busy_set (release R p) = busy_set p - R"
    using s by (auto simp: eq avail_set_def busy_set_def)
  have "card (avail_set p \<union> (busy_set p \<inter> R)) = card (avail_set p) + card (busy_set p \<inter> R)"
    using d by (intro card_Un_disjoint) auto
  then show ?thesis
    using d s sets by (simp add: pool_inv_def eq)
qed

section \<open>The interface of the event loop\<close>

locale rank_allocator =
  fixes inv :: "'p \<Rightarrow> bool" and avail busy :: "'p \<Rightarrow> int set"
    and alloc :: "nat \<Rightarrow> 'p \<Rightarrow> (int set \<times> 'p) result" and rel :: "int set \<Rightarrow> 'p \<Rightarrow> 'p"
  assumes finite_sets: "inv p \<Longrightarrow> finite (avail p) \<and> finite (busy p) \<and> avail p \<inter> busy p = {}"
    and alloc_zero: "\<exists>msg. alloc 0 p = Inl (Invalid_argument msg)"
    and alloc_total: "0 < n \<Longrightarrow> is_ok (alloc n p)"
    and alloc_spec: "inv p \<Longrightarrow> 0 < n \<Longrightarrow> alloc n p = Inr (R, p') \<Longrightarrow>
      if card (avail p) < n then R = {} \<and> p' = p
      else inv p' \<and> card R = n \<and> R \<subseteq> avail p \<and> avail p' = avail p - R \<and> busy p' = busy p \<union> R"
    and rel_spec: "inv p \<Longrightarrow> inv (rel R p) \<and> avail (rel R p) = avail p \<union> (busy p \<inter> R) \<and> busy (rel R p) = busy p - R"
begin

lemma alloc_some:
  assumes "inv p" "0 < n" "alloc n p = Inr (R, p')" "R \<noteq> {}"
  shows "inv p'" "card R = n" "R \<subseteq> avail p" "avail p' = avail p - R" "busy p' = busy p \<union> R" "R \<inter> busy p = {}"
  using alloc_spec [OF assms(1-3)] assms(4) finite_sets [OF assms(1)] by (auto split: if_splits)

lemma alloc_none:
  assumes "inv p" "0 < n" "alloc n p = Inr ({}, p')"
  shows "p' = p" "card (avail p) < n"
  using alloc_spec [OF assms] assms(2) by (auto split: if_splits)

text \<open>Releasing what was allocated restores both sets; two allocations are disjoint.\<close>

lemma alloc_rel:
  assumes "inv p" "0 < n" "alloc n p = Inr (R, p')" "R \<noteq> {}"
  shows "inv (rel R p')" "avail (rel R p') = avail p" "busy (rel R p') = busy p"
proof -
  note a = alloc_some [OF assms]
  show "inv (rel R p')" "avail (rel R p') = avail p" "busy (rel R p') = busy p"
    using rel_spec [OF a(1), of R] a finite_sets [OF assms(1)] by auto
qed

lemma alloc_disjoint:
  assumes "inv p" "0 < n" "0 < m" "alloc n p = Inr (R, p')" "R \<noteq> {}" "alloc m p' = Inr (S, p'')" "S \<noteq> {}"
  shows "R \<inter> S = {}"
  using alloc_some [OF assms(1,2,4,5)] alloc_some [OF _ assms(3,6,7)] by auto

end

interpretation pool: rank_allocator pool_inv avail_set busy_set try_allocate release
proof
  fix p assume "pool_inv p"
  then show "finite (avail_set p) \<and> finite (busy_set p) \<and> avail_set p \<inter> busy_set p = {}"
    using pool_invD by blast
next
  fix p show "\<exists>msg. try_allocate 0 p = Inl (Invalid_argument msg)" by (simp add: try_allocate_def)
next
  fix n :: nat and p assume "0 < n"
  then show "is_ok (try_allocate n p)" by (auto simp: try_allocate_def split: prod.splits)
next
  fix p n R p'
  assume "pool_inv p" "0 < n" "try_allocate n p = Inr (R, p')"
  from try_allocate_spec [OF this]
  show "if card (avail_set p) < n then R = {} \<and> p' = p
    else pool_inv p' \<and> card R = n \<and> R \<subseteq> avail_set p \<and> avail_set p' = avail_set p - R \<and> busy_set p' = busy_set p \<union> R"
    by (auto split: if_splits)
next
  fix p R assume "pool_inv p"
  then show "pool_inv (release R p) \<and> avail_set (release R p) = avail_set p \<union> (busy_set p \<inter> R) \<and>
      busy_set (release R p) = busy_set p - R"
    using release_spec by blast
qed

section \<open>Growing and shrinking the pool\<close>

lemma zip_snoc: "length xs = length ys \<Longrightarrow> zip (xs @ [x]) (ys @ [y]) = zip xs ys @ [(x, y)]"
  by simp

lemma add_rank_spec:
  assumes inv: "pool_inv p"
  shows "pool_inv (add_rank r p) \<and> busy_set (add_rank r p) = busy_set p \<and>
    avail_set (add_rank r p) = avail_set p \<union> ({r} - busy_set p)"
proof (cases "r \<in> set (rp_rank_ids p)")
  case True
  then show ?thesis using pool_invD(5,6) [OF inv] inv by (auto simp: add_rank_def)
next
  case False
  note d = pool_invD [OF inv]
  have sets: "avail_set (add_rank r p) = insert r (avail_set p)" "busy_set (add_rank r p) = busy_set p"
    using False d(1) by (auto simp: add_rank_def avail_set_def busy_set_def)
  have "r \<notin> avail_set p" "r \<notin> busy_set p" using False d(5) by auto
  then show ?thesis using d False sets by (auto simp: pool_inv_def add_rank_def)
qed

lemma fold_add_rank_spec:
  "pool_inv p \<Longrightarrow> pool_inv (fold add_rank rs p) \<and> busy_set (fold add_rank rs p) = busy_set p \<and>
    avail_set (fold add_rank rs p) = avail_set p \<union> (set rs - busy_set p)"
proof (induction rs arbitrary: p)
  case (Cons r rs)
  show ?case using Cons.IH [of "add_rank r p"] add_rank_spec [OF Cons.prems, of r] by auto
qed simp

lemma add_ranks_spec:
  assumes "pool_inv p" "finite R"
  shows "pool_inv (add_ranks R p) \<and> busy_set (add_ranks R p) = busy_set p \<and>
    avail_set (add_ranks R p) = avail_set p \<union> (R - busy_set p)"
  using fold_add_rank_spec [OF assms(1), of "sorted_list_of_set R"] assms(2) by (simp add: add_ranks_def)

text \<open>Swapping the entry with the last one and popping removes exactly that entry and leaves
  the smaller indices in place, so descending removal is removal of all of them.\<close>

lemma length_swap_pop [simp]: "length (swap_pop i xs) = length xs - 1"
  by (simp add: swap_pop_def Let_def)

lemma nth_swap_pop:
  assumes "i < length xs" "j < length xs - 1"
  shows "swap_pop i xs ! j = (if j = i then xs ! (length xs - 1) else xs ! j)"
  using assms by (auto simp: swap_pop_def Let_def nth_butlast nth_list_update)

lemma mset_swap_pop:
  assumes "i < length xs"
  shows "mset (swap_pop i xs) = mset xs - {# xs ! i #}"
proof -
  define ys where "ys = (if i \<noteq> length xs - 1 then (xs[i := xs ! (length xs - 1)])[length xs - 1 := xs ! i] else xs)"
  have m: "mset ys = mset xs" using assms mset_swap [of "length xs - 1" xs i] by (auto simp: ys_def)
  have len: "length ys = length xs" by (simp add: ys_def)
  then have ne: "ys \<noteq> []" using assms by auto
  have "last ys = ys ! (length xs - 1)" using ne len by (simp add: last_conv_nth)
  also have "\<dots> = xs ! i" using assms by (auto simp: ys_def nth_list_update)
  finally have l: "last ys = xs ! i" .
  have "mset ys = mset (butlast ys @ [last ys])" using ne by simp
  then have "mset xs = add_mset (xs ! i) (mset (butlast ys))" using m l by simp
  then show ?thesis by (simp add: swap_pop_def Let_def ys_def)
qed

lemma zip_swap_pop:
  assumes "length xs = length ys" "i < length xs"
  shows "zip (swap_pop i xs) (swap_pop i ys) = swap_pop i (zip xs ys)"
  using assms by (intro nth_equalityI) (auto simp: nth_swap_pop)

lemma fold_swap_pop:
  assumes "sorted_wrt (>) is" "\<forall>i\<in>set is. i < length xs" "length xs = length ys"
  shows "zip (fold swap_pop is xs) (fold swap_pop is ys) = fold swap_pop is (zip xs ys) \<and>
    mset (fold swap_pop is (zip xs ys)) = mset (zip xs ys) - mset (map ((!) (zip xs ys)) is) \<and>
    length (fold swap_pop is xs) = length (fold swap_pop is ys) \<and>
    length (fold swap_pop is xs) = length xs - length is"
  using assms
proof (induction "is" arbitrary: xs ys)
  case (Cons i js)
  have lt: "j < i" if "j \<in> set js" for j using Cons.prems(1) that by auto
  have i: "i < length xs" using Cons.prems(2) by simp
  have len: "length (swap_pop i xs) = length (swap_pop i ys)" using Cons.prems(3) by simp
  have js: "\<forall>j\<in>set js. j < length (swap_pop i xs)" using lt i by fastforce
  have z: "zip (swap_pop i xs) (swap_pop i ys) = swap_pop i (zip xs ys)"
    using zip_swap_pop [OF Cons.prems(3) i] .
  have "image_mset ((!) (swap_pop i (zip xs ys))) (mset js) = image_mset ((!) (zip xs ys)) (mset js)"
    using lt i Cons.prems(3) by (intro image_mset_cong) (fastforce simp: nth_swap_pop)
  moreover have "mset (swap_pop i (zip xs ys)) = mset (zip xs ys) - {# zip xs ys ! i #}"
    using i Cons.prems(3) by (intro mset_swap_pop) simp
  ultimately show ?case
    using Cons.IH [OF _ js len] Cons.prems(1,3) z by simp
qed simp

lemma remove_available_spec:
  assumes inv: "pool_inv p" and rm: "remove_available R p = (removed, p')"
  shows "pool_inv p' \<and> removed = avail_set p \<inter> R \<and> avail_set p' = avail_set p - R \<and> busy_set p' = busy_set p"
proof -
  note d = pool_invD [OF inv]
  let ?I = "indices_to_remove R (rp_rank_ids p) (rp_bitset p)"
  have so: "sorted_wrt (>) (rev ?I)"
    unfolding sorted_wrt_rev indices_to_remove_def by (intro sorted_wrt_filter) simp
  have lt: "\<forall>i\<in>set (rev ?I). i < length (rp_rank_ids p)" by (auto simp: indices_to_remove_def)
  note f = fold_swap_pop [OF so lt d(1) [symmetric]]
  have disj: "distinct (pool_slots p)" using d(1,2) distinct_zipI1 by blast
  have gone: "set (map ((!) (pool_slots p)) ?I) = {s \<in> set (pool_slots p). fst s \<in> R \<and> snd s}"
    using d(1) by (auto simp: indices_to_remove_def in_set_zip image_iff)
  have dI: "distinct (map ((!) (pool_slots p)) ?I)"
    using d(1,2) by (auto simp: distinct_map inj_on_def indices_to_remove_def nth_eq_iff_index_eq)
  let ?S = "fold swap_pop (rev ?I) (pool_slots p)"
  have ms: "mset ?S = mset_set (set (pool_slots p)) - mset_set (set (map ((!) (pool_slots p)) ?I))"
    unfolding mset_set_set [OF disj] mset_set_set [OF dI] using f by simp
  have sub: "set (map ((!) (pool_slots p)) ?I) \<subseteq> set (pool_slots p)" using gone by auto
  have ms': "mset ?S = mset_set (set (pool_slots p) - set (map ((!) (pool_slots p)) ?I))"
    using ms mset_set_Diff [OF _ sub] by simp
  have setS: "set ?S = {s \<in> set (pool_slots p). \<not> (fst s \<in> R \<and> snd s)}"
    using arg_cong [OF ms', of set_mset] gone by auto
  have ids: "set (map (\<lambda>i. rp_rank_ids p ! i) ?I) = avail_set p \<inter> R"
    using d(1) by (auto simp: indices_to_remove_def avail_set_def in_set_zip)
  then have rem: "removed = avail_set p \<inter> R" using rm by (simp add: remove_available_def Let_def)
  have card_I: "length ?I = card removed"
  proof -
    have "distinct (map (\<lambda>i. rp_rank_ids p ! i) ?I)"
      using d(2) by (auto simp: distinct_map inj_on_def indices_to_remove_def nth_eq_iff_index_eq)
    from distinct_card [OF this] show ?thesis using ids rem by simp
  qed
  have le: "card removed \<le> card (avail_set p)" "card (avail_set p) \<le> rp_total p"
    using rem d(7) card_mono [of "set (rp_rank_ids p)" "avail_set p"] distinct_card [OF d(2)] d(3,5)
    by (auto intro: card_mono)
  have p': "rp_rank_ids p' = fold swap_pop (rev ?I) (rp_rank_ids p)"
    "rp_bitset p' = fold swap_pop (rev ?I) (rp_bitset p)"
    "rp_total p' = rp_total p - card removed" "rp_available p' = rp_available p - card removed"
    using rm le d(4) ids rem by (auto simp: remove_available_def Let_def sub_u32_def)
  have slots: "pool_slots p' = ?S" using f p' by simp
  have sets: "avail_set p' = avail_set p - R" "busy_set p' = busy_set p"
    using setS by (auto simp: avail_set_def busy_set_def slots)
  have "distinct (rp_rank_ids p')"
  proof (rule card_distinct)
    have "set (rp_rank_ids p') = fst ` set ?S"
      using slots f p' by (metis list.set_map map_fst_zip)
    also have "\<dots> = (avail_set p - R) \<union> busy_set p"
      unfolding setS avail_set_def busy_set_def
    proof (intro set_eqI iffI)
      fix r assume "r \<in> {r. (r, True) \<in> set (pool_slots p)} - R \<union> {r. (r, False) \<in> set (pool_slots p)}"
      then show "r \<in> fst ` {s \<in> set (pool_slots p). \<not> (fst s \<in> R \<and> snd s)}" by force
    qed (auto, metis (full_types))
    also have "\<dots> = set (rp_rank_ids p) - removed"
      using d(5,6) rem by blast
    finally have "card (set (rp_rank_ids p')) = card (set (rp_rank_ids p)) - card removed"
      using rem d(5) by (metis List.finite_set Int_lower1 card_Diff_subset finite_Int d(7) le_supI1 order_trans sup.cobounded1)
    then show "card (set (rp_rank_ids p')) = length (rp_rank_ids p')"
      using f p' card_I distinct_card [OF d(2)] by simp
  qed
  moreover have "card (avail_set p - R) = card (avail_set p) - card removed"
    using d(7) by (simp add: rem card_Diff_subset_Int)
  ultimately show ?thesis
    using rem sets f p' card_I d by (simp add: pool_inv_def)
qed

section \<open>The pool under any sequence of operations\<close>

datatype pool_op = Allocate nat | Release "int set" | Add "int set" | Remove "int set"

fun finite_op :: "pool_op \<Rightarrow> bool" where
  "finite_op (Allocate n) = True"
| "finite_op (Release R) = finite R"
| "finite_op (Add R) = finite R"
| "finite_op (Remove R) = finite R"

fun pool_step :: "pool_op \<Rightarrow> Rank_Pool \<Rightarrow> Rank_Pool" where
  "pool_step (Allocate n) p = (case try_allocate n p of Inl _ \<Rightarrow> p | Inr (_, p') \<Rightarrow> p')"
| "pool_step (Release R) p = release R p"
| "pool_step (Add R) p = add_ranks R p"
| "pool_step (Remove R) p = snd (remove_available R p)"

lemma pool_step_inv:
  assumes inv: "pool_inv p" and fin: "finite_op a"
  shows "pool_inv (pool_step a p)"
proof (cases a)
  case (Allocate n)
  show ?thesis
  proof (cases "try_allocate n p")
    case (Inl e)
    then show ?thesis using inv Allocate by simp
  next
    case (Inr r)
    obtain R p' where r: "r = (R, p')" by (cases r)
    have "0 < n" using Inr by (cases n) (auto simp: try_allocate_def)
    from try_allocate_spec [OF inv this Inr [unfolded r]]
    have "pool_inv p'" using inv by (auto split: if_splits)
    then show ?thesis using Allocate Inr r by simp
  qed
next
  case (Remove R)
  then show ?thesis
    using remove_available_spec [OF inv] by (cases "remove_available R p") auto
qed (use fin release_spec [OF inv] add_ranks_spec [OF inv] in auto)

lemma fold_pool_step_inv: "pool_inv p \<Longrightarrow> list_all finite_op ops \<Longrightarrow> pool_inv (fold pool_step ops p)"
  by (induction ops arbitrary: p) (auto intro: pool_step_inv)

lemma allocated_ranks_busy:
  assumes inv: "pool_inv p"
  shows "allocated_ranks p = card (busy_set p)" "rp_total p = rp_available p + card (busy_set p)"
proof -
  note d = pool_invD [OF inv]
  have "card (set (rp_rank_ids p)) = card (avail_set p) + card (busy_set p)"
    unfolding d(5) [symmetric] using d(6-8) by (rule card_Un_disjoint [rotated 2])
  then show t: "rp_total p = rp_available p + card (busy_set p)"
    using d(3,4) distinct_card [OF d(2)] by simp
  show "allocated_ranks p = card (busy_set p)" by (simp add: allocated_ranks_def sub_u32_def t)
qed

text \<open>
  Conservation: after any sequence of allocations, releases, additions and removals on a
  pool built from a finite set of ranks, no rank occurs twice, every managed rank is
  available or allocated and not both, and the counters returned by total_ranks,
  available_ranks and allocated_ranks are the sizes of those sets (no counter wraps).
\<close>

theorem rank_pool_conservation:
  assumes "finite ranks" "list_all finite_op ops" "p = fold pool_step ops (mk_rank_pool ranks)"
  shows "distinct (rp_rank_ids p) \<and> set (rp_rank_ids p) = avail_set p \<union> busy_set p \<and>
    avail_set p \<inter> busy_set p = {} \<and> rp_total p = length (rp_rank_ids p) \<and>
    rp_available p = card (avail_set p) \<and> allocated_ranks p = card (busy_set p) \<and>
    rp_total p = rp_available p + allocated_ranks p"
proof -
  have inv: "pool_inv p"
    using fold_pool_step_inv [OF _ assms(2)] mk_rank_pool_inv [OF assms(1)] assms(3) by simp
  show ?thesis using pool_invD [OF inv] allocated_ranks_busy [OF inv] by simp
qed

theorem rank_pool_conservation_witness:
  "allocated_ranks (fold pool_step [Allocate 2, Add {7}, Remove {1, 2}] (mk_rank_pool {0, 1, 2})) =
   card (busy_set (fold pool_step [Allocate 2, Add {7}, Remove {1, 2}] (mk_rank_pool {0, 1, 2})))"
  using rank_pool_conservation [of "{0, 1, 2}" "[Allocate 2, Add {7}, Remove {1, 2}]", OF _ _ refl] by simp

text \<open>
  C20. Each operation is the set operation it names. An allocation of a positive count gives that
  many distinct available ranks, which move to the allocated side, or the empty set when
  fewer are available, and then leaves the pool as it was; a count of zero throws. A
  release returns exactly the allocated ranks among those given, an addition adds the
  ranks not already allocated, a removal removes and returns exactly the available ones
  among those given.
\<close>

theorem rank_pool_refines_sets:
  assumes "pool_inv p" "finite R"
  shows "\<not> is_ok (try_allocate 0 p) \<and> is_ok (try_allocate (Suc n) p) \<and>
    (try_allocate (Suc n) p = Inr (A, p') \<longrightarrow>
      (if card (avail_set p) \<le> n then A = {} \<and> p' = p
       else card A = Suc n \<and> A \<subseteq> avail_set p \<and> avail_set p' = avail_set p - A \<and> busy_set p' = busy_set p \<union> A)) \<and>
    avail_set (release R p) = avail_set p \<union> (busy_set p \<inter> R) \<and> busy_set (release R p) = busy_set p - R \<and>
    avail_set (add_ranks R p) = avail_set p \<union> (R - busy_set p) \<and> busy_set (add_ranks R p) = busy_set p \<and>
    fst (remove_available R p) = avail_set p \<inter> R \<and>
    avail_set (snd (remove_available R p)) = avail_set p - R \<and> busy_set (snd (remove_available R p)) = busy_set p"
proof -
  have "\<not> is_ok (try_allocate 0 p)" using pool.alloc_zero [of p] by (auto simp: is_ok_iff)
  moreover have "is_ok (try_allocate (Suc n) p)" by (rule pool.alloc_total) simp
  moreover have "try_allocate (Suc n) p = Inr (A, p') \<longrightarrow>
      (if card (avail_set p) \<le> n then A = {} \<and> p' = p
       else card A = Suc n \<and> A \<subseteq> avail_set p \<and> avail_set p' = avail_set p - A \<and> busy_set p' = busy_set p \<union> A)"
    using pool.alloc_spec [OF assms(1), of "Suc n" A p'] by (auto simp: less_Suc_eq_le split: if_splits)
  ultimately show ?thesis
    using pool.rel_spec [OF assms(1), of R] add_ranks_spec [OF assms]
      remove_available_spec [OF assms(1), of R "fst (remove_available R p)" "snd (remove_available R p)"]
    by simp
qed

theorem rank_pool_refines_sets_witness:
  "avail_set (release {1} (mk_rank_pool {0, 1})) = {0, 1}"
proof -
  have "pool_inv (mk_rank_pool {0, 1})" and s: "avail_set (mk_rank_pool {0, 1}) = {0, 1} \<and> busy_set (mk_rank_pool {0, 1}) = {}"
    using mk_rank_pool_inv [of "{0, 1}"] by auto
  from rank_pool_refines_sets [OF this(1), of "{1}"] show ?thesis using s by simp
qed

end
