(* ===== verification/Dagr_Event_Loop.thy ===== *)
theory Dagr_Event_Loop
  imports Dagr_Kahn Dagr_Rank_Pool
begin

text \<open>
  DAGR's scheduler: \<^verbatim>\<open>dagr/detail/event_loop.hpp\<close> and \<^verbatim>\<open>dagr/src/event_loop.cpp\<close>.

  The state record holds the members of \<open>Event_Loop\<close> and the node vector and rank pool it
  refers to. \<open>el_reads\<close> counts the readings of the steady clock: the clock is an argument
  \<open>clk\<close> and the \<open>k\<close>-th reading is \<open>clk k\<close> nanoseconds. Log lines are events in \<open>el_log\<close>.
  A callback is an argument of the cycle: the dispatch callback maps a node and its ranks to
  its boolean or to an exception, the completion callback is the list it returns or an
  exception; \<open>None\<close> is a callback that is not set. An operation that may throw returns the
  exception beside the state reached when it was thrown.

  Subscripts: the ids in the queue, in dependents lists and in completions index the node
  vector; \<open>core_inv\<close> keeps the first kind in range, the code checks the others.
\<close>

section \<open>Operations\<close>

datatype log_event =
    Task_failed string nat nat
  | Deadlock_warning int nat nat
  | Force_cancelled nat

record Event_Loop =
  el_max_concurrency :: nat
  el_deadlock_timeout_s :: nat
  el_nodes :: "TaskNode list"
  el_pool :: Rank_Pool
  ready_queue :: "nat list"
  in_flight :: nat
  el_allocated :: "int set list"
  last_progress_time :: int
  deadlock_warned :: bool
  el_reads :: nat
  el_log :: "log_event list"

type_synonym dispatch_callback = "nat \<Rightarrow> int set \<Rightarrow> bool result"
type_synonym completions = "(nat \<times> bool) list"

definition is_terminal :: "Task_Status \<Rightarrow> bool" where
  "is_terminal s \<longleftrightarrow> s = Completed \<or> s = Failed \<or> s = Cancelled"

definition mk_event_loop ::
  "(nat \<Rightarrow> int) \<Rightarrow> nat \<Rightarrow> nat \<Rightarrow> nat \<Rightarrow> TaskNode list \<Rightarrow> Rank_Pool \<Rightarrow> Event_Loop result" where
  "mk_event_loop clk reads max_concurrency deadlock_timeout_s nodes rank_pool =
     (if max_concurrency < 1 \<or> max_concurrency > 1024
      then Inl (Invalid_argument ''Event_Loop: max_concurrency must be in range [1, 1024], got '')
      else if deadlock_timeout_s < 1 \<or> deadlock_timeout_s > 3600
      then Inl (Invalid_argument ''Event_Loop: deadlock_timeout_s must be in range [1, 3600], got '')
      else Inr \<lparr>el_max_concurrency = max_concurrency, el_deadlock_timeout_s = deadlock_timeout_s,
                 el_nodes = nodes, el_pool = rank_pool, ready_queue = [], in_flight = 0,
                 el_allocated = replicate (length nodes) {}, last_progress_time = clk reads,
                 deadlock_warned = False, el_reads = reads + 1, el_log = []\<rparr>)"

definition all_complete :: "Event_Loop \<Rightarrow> bool" where
  "all_complete st = list_all (\<lambda>node. is_terminal (tn_status node)) (el_nodes st)"

definition record_progress :: "(nat \<Rightarrow> int) \<Rightarrow> Event_Loop \<Rightarrow> Event_Loop" where
  "record_progress clk st =
     st\<lparr>last_progress_time := clk (el_reads st), el_reads := el_reads st + 1, deadlock_warned := False\<rparr>"

definition log_line :: "log_event \<Rightarrow> Event_Loop \<Rightarrow> Event_Loop" where
  "log_line ev st = st\<lparr>el_log := el_log st @ [ev]\<rparr>"

abbreviation set_status :: "nat \<Rightarrow> Task_Status \<Rightarrow> TaskNode list \<Rightarrow> TaskNode list" where
  "set_status i s nodes \<equiv> nodes[i := (nodes ! i)\<lparr>tn_status := s\<rparr>]"

definition release_ranks_of :: "nat \<Rightarrow> Event_Loop \<Rightarrow> Event_Loop" where
  "release_ranks_of i st =
     (if el_allocated st ! i \<noteq> {}
      then st\<lparr>el_pool := release (el_allocated st ! i) (el_pool st), el_allocated := (el_allocated st)[i := {}]\<rparr>
      else st)"

fun poll_loop :: "TaskNode list \<Rightarrow> nat list \<Rightarrow> TaskNode list \<times> nat list" where
  "poll_loop [] queue = ([], queue)"
| "poll_loop (node # nodes) queue =
     (if tn_status node = Pending \<and> pending_deps node = 0
      then case poll_loop nodes (queue @ [tn_id node]) of (ns, q) \<Rightarrow> (node\<lparr>tn_status := Ready\<rparr> # ns, q)
      else case poll_loop nodes queue of (ns, q) \<Rightarrow> (node # ns, q))"

definition poll_ready_nodes :: "Event_Loop \<Rightarrow> Event_Loop" where
  "poll_ready_nodes st =
     (case poll_loop (el_nodes st) (ready_queue st) of (ns, q) \<Rightarrow> st\<lparr>el_nodes := ns, ready_queue := q\<rparr>)"

definition cancellable :: "Task_Status \<Rightarrow> bool" where
  "cancellable s \<longleftrightarrow> \<not> is_terminal s \<and> s \<noteq> Running"

function bfs_cancel :: "TaskNode list \<Rightarrow> nat list \<Rightarrow> nat \<Rightarrow> TaskNode list \<times> nat" where
  "bfs_cancel nodes [] cancelled_count = (nodes, cancelled_count)"
| "bfs_cancel nodes (current_id # bfs_queue) cancelled_count =
     (if current_id \<ge> length nodes then bfs_cancel nodes bfs_queue cancelled_count
      else if is_terminal (tn_status (nodes ! current_id)) then bfs_cancel nodes bfs_queue cancelled_count
      else if tn_status (nodes ! current_id) = Running then bfs_cancel nodes bfs_queue cancelled_count
      else bfs_cancel (set_status current_id Cancelled nodes)
             (bfs_queue @ dependents (nodes ! current_id)) (cancelled_count + 1))"
  by pat_completeness auto

definition cancellable_count :: "TaskNode list \<Rightarrow> nat" where
  "cancellable_count nodes = length (filter (\<lambda>n. cancellable (tn_status n)) nodes)"

lemma cancellable_count_cancel:
  assumes "i < length nodes" "cancellable (tn_status (nodes ! i))"
  shows "cancellable_count (set_status i Cancelled nodes) < cancellable_count nodes"
  using assms
proof (induction nodes arbitrary: i)
  case (Cons n ns)
  then show ?case by (cases i) (auto simp: cancellable_count_def cancellable_def is_terminal_def)
qed simp

termination bfs_cancel
  by (relation "inv_image (less_than <*lex*> less_than) (\<lambda>(nodes, q, c). (cancellable_count nodes, length q))")
    (auto intro: cancellable_count_cancel simp: cancellable_def)

definition propagate_failure :: "(nat \<Rightarrow> int) \<Rightarrow> nat \<Rightarrow> Event_Loop \<Rightarrow> Event_Loop" where
  "propagate_failure clk failed_id st =
     (let node = el_nodes st ! failed_id;
          st1 = st\<lparr>el_nodes := set_status failed_id Failed (el_nodes st)\<rparr>;
          st2 = release_ranks_of failed_id st1;
          st3 = (if in_flight st2 > 0 then st2\<lparr>in_flight := in_flight st2 - 1\<rparr> else st2)
      in case bfs_cancel (el_nodes st3) (dependents node) 0 of (nodes, cancelled_count) \<Rightarrow>
        record_progress clk
          (log_line (Task_failed (tn_name node) failed_id cancelled_count) (st3\<lparr>el_nodes := nodes\<rparr>)))"

definition start_node :: "(nat \<Rightarrow> int) \<Rightarrow> nat \<Rightarrow> int set \<Rightarrow> Event_Loop \<Rightarrow> Event_Loop" where
  "start_node clk node_id ranks st =
     record_progress clk
       (st\<lparr>ready_queue := tl (ready_queue st), el_allocated := (el_allocated st)[node_id := ranks],
           el_nodes := set_status node_id Running (el_nodes st), in_flight := inc_u32 (in_flight st)\<rparr>)"

definition invoke_dispatch :: "(nat \<Rightarrow> int) \<Rightarrow> dispatch_callback option \<Rightarrow> nat \<Rightarrow> int set \<Rightarrow> Event_Loop \<Rightarrow> Event_Loop" where
  "invoke_dispatch clk dispatch_cb node_id ranks st =
     (case dispatch_cb of
        None \<Rightarrow> st
      | Some cb \<Rightarrow> (case cb node_id ranks of
            Inr True \<Rightarrow> st
          | Inr False \<Rightarrow> propagate_failure clk node_id st
          | Inl _ \<Rightarrow> propagate_failure clk node_id st))"

lemma ready_queue_propagate_failure [simp]: "ready_queue (propagate_failure clk i st) = ready_queue st"
  by (simp add: propagate_failure_def Let_def record_progress_def log_line_def release_ranks_of_def split: prod.split)

lemma ready_queue_start_node [simp]: "ready_queue (start_node clk i R st) = tl (ready_queue st)"
  by (simp add: start_node_def record_progress_def)

lemma ready_queue_invoke_dispatch [simp]: "ready_queue (invoke_dispatch clk cb i R st) = ready_queue st"
  by (auto simp: invoke_dispatch_def split: option.split sum.split bool.split)

function dispatch_ready_nodes ::
  "(nat \<Rightarrow> int) \<Rightarrow> dispatch_callback option \<Rightarrow> Event_Loop \<Rightarrow> exn option \<times> Event_Loop" where
  "dispatch_ready_nodes clk dispatch_cb st =
     (case ready_queue st of
        [] \<Rightarrow> (None, st)
      | node_id # queue \<Rightarrow>
          if in_flight st \<ge> el_max_concurrency st then (None, st)
          else if tn_status (el_nodes st ! node_id) \<noteq> Ready
          then dispatch_ready_nodes clk dispatch_cb (st\<lparr>ready_queue := queue\<rparr>)
          else case try_allocate (required_ranks (el_nodes st ! node_id)) (el_pool st) of
                 Inl e \<Rightarrow> (Some e, st)
               | Inr (ranks, pool) \<Rightarrow>
                   if ranks = {} then (None, st\<lparr>el_pool := pool\<rparr>)
                   else dispatch_ready_nodes clk dispatch_cb
                          (invoke_dispatch clk dispatch_cb node_id ranks
                             (start_node clk node_id ranks (st\<lparr>el_pool := pool\<rparr>))))"
  by pat_completeness auto

termination dispatch_ready_nodes
  by (relation "measure (\<lambda>(clk, cb, st). length (ready_queue st))") auto

definition decrement_dependent :: "nat \<Rightarrow> TaskNode list \<Rightarrow> TaskNode list" where
  "decrement_dependent dep_id nodes =
     (if dep_id < length nodes
      then nodes[dep_id := (nodes ! dep_id)\<lparr>pending_deps := dec_u32 (pending_deps (nodes ! dep_id))\<rparr>]
      else nodes)"

definition process_completion :: "(nat \<Rightarrow> int) \<Rightarrow> nat \<times> bool \<Rightarrow> Event_Loop \<Rightarrow> Event_Loop" where
  "process_completion clk completion st =
     (case completion of (node_id, success) \<Rightarrow>
        if node_id \<ge> length (el_nodes st) then st
        else if tn_status (el_nodes st ! node_id) \<noteq> Running then st
        else if success then
          let st1 = st\<lparr>el_nodes := set_status node_id Completed (el_nodes st)\<rparr>;
              st2 = release_ranks_of node_id st1;
              st3 = record_progress clk (st2\<lparr>in_flight := dec_u32 (in_flight st2)\<rparr>)
          in st3\<lparr>el_nodes := fold decrement_dependent (dependents (el_nodes st3 ! node_id)) (el_nodes st3)\<rparr>
        else propagate_failure clk node_id st)"

definition process_completions ::
  "(nat \<Rightarrow> int) \<Rightarrow> completions result option \<Rightarrow> Event_Loop \<Rightarrow> exn option \<times> Event_Loop" where
  "process_completions clk completion_cb st =
     (case completion_cb of
        None \<Rightarrow> (None, st)
      | Some (Inl e) \<Rightarrow> (Some e, st)
      | Some (Inr cs) \<Rightarrow> (None, fold (process_completion clk) cs st))"

definition blocked_count :: "Event_Loop \<Rightarrow> nat" where
  "blocked_count st = length (filter (\<lambda>n. tn_status n = Pending \<and> pending_deps n > 0) (el_nodes st))"

definition check_deadlock :: "(nat \<Rightarrow> int) \<Rightarrow> Event_Loop \<Rightarrow> Event_Loop" where
  "check_deadlock clk st =
     (if in_flight st = 0 \<and> ready_queue st = [] then st
      else if all_complete st then st
      else
        let elapsed = (clk (el_reads st) - last_progress_time st) sdiv 1000000000;
            st1 = st\<lparr>el_reads := el_reads st + 1\<rparr>
        in if elapsed \<ge> int (el_deadlock_timeout_s st) then
             if \<not> deadlock_warned st
             then (log_line (Deadlock_warning elapsed (in_flight st) (blocked_count st)) st1)\<lparr>deadlock_warned := True\<rparr>
             else st1
           else st1)"

definition event_cycle ::
  "(nat \<Rightarrow> int) \<Rightarrow> dispatch_callback option \<Rightarrow> completions result option \<Rightarrow> Event_Loop \<Rightarrow> bool result \<times> Event_Loop" where
  "event_cycle clk dispatch_cb completion_cb st =
     (case dispatch_ready_nodes clk dispatch_cb (poll_ready_nodes st) of
        (Some e, st1) \<Rightarrow> (Inl e, st1)
      | (None, st1) \<Rightarrow>
          (case process_completions clk completion_cb st1 of
             (Some e, st2) \<Rightarrow> (Inl e, st2)
           | (None, st2) \<Rightarrow> let st3 = check_deadlock clk st2 in (Inr (all_complete st3), st3)))"

definition force_cancel_node :: "nat \<Rightarrow> nat \<times> Event_Loop \<Rightarrow> nat \<times> Event_Loop" where
  "force_cancel_node i acc =
     (case acc of (cancelled, st) \<Rightarrow>
        let node = el_nodes st ! i in
        if tn_status node = Running then
          let st1 = (if tn_id node < length (el_allocated st) then release_ranks_of (tn_id node) st else st)
          in (cancelled + 1, st1\<lparr>el_nodes := set_status i Cancelled (el_nodes st1)\<rparr>)
        else (cancelled, st))"

definition force_cancel_in_flight :: "(nat \<Rightarrow> int) \<Rightarrow> Event_Loop \<Rightarrow> Event_Loop" where
  "force_cancel_in_flight clk st =
     (case fold force_cancel_node [0..<length (el_nodes st)] (0, st) of (cancelled, st1) \<Rightarrow>
        let st2 = record_progress clk (st1\<lparr>in_flight := 0\<rparr>)
        in if cancelled > 0 then log_line (Force_cancelled cancelled) st2 else st2)"

end
