(* ===== verification/Dagr_Schedule.thy ===== *)
theory Dagr_Schedule
  imports Dagr_Event_Loop
begin

text \<open>
  Correctness of the scheduling loop of \<^verbatim>\<open>dagr/src/event_loop.cpp\<close>.

  \<^item> \<open>graph_inv\<close>: ids are indices, a node's counter of pending dependencies is exactly the
    number of dependency edges from producers that have not completed (so it never wraps),
    and only a node without open dependencies is ready, running, completed or failed.
  \<^item> \<open>cancel_inv\<close>: the dependents of a failed or cancelled node are cancelled.
  \<^item> \<open>rank_inv\<close>: running nodes hold disjoint, non-empty rank sets of the requested size that
    together are the allocated ranks of the pool; the in-flight counter counts them.
  \<^item> \<open>queue_inv\<close>: ready nodes are queued.

  Every operation keeps them. On top: a failed task cancels exactly its transitive
  dependents, and on an acyclic graph the loop finishes within as many cycles as there are
  nodes when in-flight work is reported.
\<close>

section \<open>Node vectors\<close>

abbreviation stat :: "TaskNode list \<Rightarrow> nat \<Rightarrow> Task_Status" where
  "stat ns i \<equiv> tn_status (ns ! i)"

definition node_rel :: "TaskNode list \<Rightarrow> (nat \<times> nat) set" where
  "node_rel ns = {(i, j). i < length ns \<and> j \<in> set (dependents (ns ! i))}"

text \<open>Two node vectors with the same static fields.\<close>

definition same_graph :: "TaskNode list \<Rightarrow> TaskNode list \<Rightarrow> bool" where
  "same_graph ns ms \<longleftrightarrow> length ms = length ns \<and>
     (\<forall>i<length ns. tn_id (ms ! i) = tn_id (ns ! i) \<and> tn_name (ms ! i) = tn_name (ns ! i) \<and>
        required_ranks (ms ! i) = required_ranks (ns ! i) \<and> dependents (ms ! i) = dependents (ns ! i))"

lemma same_graph_refl [simp]: "same_graph ns ns"
  by (simp add: same_graph_def)

lemma same_graph_trans [trans]: "same_graph ns ms \<Longrightarrow> same_graph ms ks \<Longrightarrow> same_graph ns ks"
  by (simp add: same_graph_def)

lemma same_graph_set_status [simp]: "same_graph ns (set_status i s ns)"
  by (cases "i < length ns") (auto simp: same_graph_def nth_list_update)

lemma same_graph_node_rel: "same_graph ns ms \<Longrightarrow> node_rel ms = node_rel ns"
  by (auto simp: same_graph_def node_rel_def)

definition open_in :: "TaskNode list \<Rightarrow> nat \<Rightarrow> nat" where
  "open_in ns j = (\<Sum>i<length ns. if stat ns i = Completed then 0 else count_list (dependents (ns ! i)) j)"

lemma open_in_cong:
  assumes "same_graph ns ms" "\<And>i. i < length ns \<Longrightarrow> stat ms i = Completed \<longleftrightarrow> stat ns i = Completed"
  shows "open_in ms j = open_in ns j"
  unfolding open_in_def using assms by (intro sum.cong) (auto simp: same_graph_def)

lemma open_in_pos:
  assumes "i < length ns" "stat ns i \<noteq> Completed" "j \<in> set (dependents (ns ! i))"
  shows "0 < open_in ns j"
proof -
  have "0 < count_list (dependents (ns ! i)) j" using assms(3) by (metis count_list_0_iff gr0I)
  then show ?thesis unfolding open_in_def using assms
    by (intro sum_pos2 [of _ i]) auto
qed

lemma open_in_zero:
  "open_in ns j = 0 \<longleftrightarrow> (\<forall>i<length ns. j \<in> set (dependents (ns ! i)) \<longrightarrow> stat ns i = Completed)"
  by (auto simp: open_in_def count_list_0_iff split: if_splits)

lemma open_in_complete:
  assumes i: "i < length ns" "stat ns i \<noteq> Completed"
  shows "open_in ns j = open_in (set_status i Completed ns) j + count_list (dependents (ns ! i)) j"
proof -
  let ?f = "\<lambda>ms i. if stat ms i = Completed then 0 else count_list (dependents (ms ! i)) j"
  let ?ms = "set_status i Completed ns"
  have "(\<Sum>k\<in>{..<length ns} - {i}. ?f ?ms k) = (\<Sum>k\<in>{..<length ns} - {i}. ?f ns k)"
    by (intro sum.cong) (auto simp: nth_list_update)
  then show ?thesis
    using i by (simp add: open_in_def sum.remove [of "{..<length ns}" i])
qed

definition graph_inv :: "TaskNode list \<Rightarrow> bool" where
  "graph_inv ns \<longleftrightarrow> (\<forall>i<length ns. tn_id (ns ! i) = i \<and> 0 < required_ranks (ns ! i) \<and>
     set (dependents (ns ! i)) \<subseteq> {..<length ns} \<and> pending_deps (ns ! i) = open_in ns i \<and>
     (stat ns i \<in> {Ready, Running, Completed, Failed} \<longrightarrow> pending_deps (ns ! i) = 0))"

definition cancel_inv :: "TaskNode list \<Rightarrow> bool" where
  "cancel_inv ns \<longleftrightarrow> (\<forall>i<length ns. stat ns i \<in> {Failed, Cancelled} \<longrightarrow>
     (\<forall>j\<in>set (dependents (ns ! i)). stat ns j = Cancelled))"

lemma cancel_invD:
  "cancel_inv ns \<Longrightarrow> i < length ns \<Longrightarrow> stat ns i \<in> {Failed, Cancelled} \<Longrightarrow> j \<in> set (dependents (ns ! i)) \<Longrightarrow>
   stat ns j = Cancelled"
  unfolding cancel_inv_def by blast

lemma graph_invD:
  assumes "graph_inv ns" "i < length ns"
  shows "tn_id (ns ! i) = i" "0 < required_ranks (ns ! i)" "set (dependents (ns ! i)) \<subseteq> {..<length ns}"
    "pending_deps (ns ! i) = open_in ns i" "stat ns i \<in> {Ready, Running, Completed, Failed} \<Longrightarrow> open_in ns i = 0"
  using assms by (auto simp: graph_inv_def)

text \<open>A dependent of a node that has not completed is pending or cancelled.\<close>

lemma dependent_pending:
  assumes "graph_inv ns" "i < length ns" "stat ns i \<noteq> Completed" "j \<in> set (dependents (ns ! i))"
  shows "j < length ns" "stat ns j \<in> {Pending, Cancelled}"
proof -
  show j: "j < length ns" using graph_invD(3) [OF assms(1,2)] assms(4) by auto
  have "0 < open_in ns j" using open_in_pos assms by blast
  then show "stat ns j \<in> {Pending, Cancelled}"
    using graph_invD(5) [OF assms(1) j] by (cases "stat ns j") auto
qed

lemma graph_inv_set_status:
  assumes inv: "graph_inv ns" and i: "i < length ns" and s: "stat ns i \<noteq> Completed" "s \<noteq> Completed"
    and z: "s \<in> {Ready, Running, Failed} \<Longrightarrow> open_in ns i = 0"
  shows "graph_inv (set_status i s ns)"
proof -
  have o: "open_in (set_status i s ns) j = open_in ns j" for j
    using s by (intro open_in_cong) (auto simp: nth_list_update i)
  show ?thesis
    unfolding graph_inv_def
  proof (intro allI impI)
    fix k assume k: "k < length (set_status i s ns)"
    note d = graph_invD [OF inv, of k]
    show "tn_id (set_status i s ns ! k) = k \<and> 0 < required_ranks (set_status i s ns ! k) \<and>
      set (dependents (set_status i s ns ! k)) \<subseteq> {..<length (set_status i s ns)} \<and>
      pending_deps (set_status i s ns ! k) = open_in (set_status i s ns) k \<and>
      (stat (set_status i s ns) k \<in> {Ready, Running, Completed, Failed} \<longrightarrow> pending_deps (set_status i s ns ! k) = 0)"
      using k d i s z o by (auto simp: nth_list_update)
  qed
qed

section \<open>Polling\<close>

lemma poll_loop_spec:
  "poll_loop ns q = (ms, q') \<Longrightarrow>
     ms = map (\<lambda>n. if tn_status n = Pending \<and> pending_deps n = 0 then n\<lparr>tn_status := Ready\<rparr> else n) ns \<and>
     q' = q @ map tn_id (filter (\<lambda>n. tn_status n = Pending \<and> pending_deps n = 0) ns)"
  by (induction ns q arbitrary: ms q' rule: poll_loop.induct) (auto split: if_splits prod.splits)

definition queue_inv :: "TaskNode list \<Rightarrow> nat list \<Rightarrow> bool" where
  "queue_inv ns q \<longleftrightarrow> set q \<subseteq> {..<length ns} \<and> (\<forall>i<length ns. stat ns i = Ready \<longrightarrow> i \<in> set q)"

lemma poll_ready_nodes_spec:
  assumes inv: "graph_inv (el_nodes st)" and q: "queue_inv (el_nodes st) (ready_queue st)"
  defines "st' \<equiv> poll_ready_nodes st"
  shows "length (el_nodes st') = length (el_nodes st)"
    "\<And>i. i < length (el_nodes st) \<Longrightarrow> el_nodes st' ! i = (el_nodes st ! i)\<lparr>tn_status :=
       if stat (el_nodes st) i = Pending \<and> open_in (el_nodes st) i = 0 then Ready else stat (el_nodes st) i\<rparr>"
    "queue_inv (el_nodes st') (ready_queue st')"
    "st' = st\<lparr>el_nodes := el_nodes st', ready_queue := ready_queue st'\<rparr>"
proof -
  obtain ms q' where r: "poll_loop (el_nodes st) (ready_queue st) = (ms, q')" by fastforce
  note p = poll_loop_spec [OF r]
  have st': "st' = st\<lparr>el_nodes := ms, ready_queue := q'\<rparr>" by (simp add: st'_def poll_ready_nodes_def r)
  show "length (el_nodes st') = length (el_nodes st)" using p st' by simp
  show "\<And>i. i < length (el_nodes st) \<Longrightarrow> el_nodes st' ! i = (el_nodes st ! i)\<lparr>tn_status :=
       if stat (el_nodes st) i = Pending \<and> open_in (el_nodes st) i = 0 then Ready else stat (el_nodes st) i\<rparr>"
    using p st' graph_invD(4) [OF inv] by simp
  show "queue_inv (el_nodes st') (ready_queue st')"
    unfolding queue_inv_def
  proof (intro conjI allI impI)
    show "set (ready_queue st') \<subseteq> {..<length (el_nodes st')}"
      using p q graph_invD(1) [OF inv] st' by (auto simp: queue_inv_def in_set_conv_nth)
    fix i assume i: "i < length (el_nodes st')" "stat (el_nodes st') i = Ready"
    show "i \<in> set (ready_queue st')"
    proof (cases "stat (el_nodes st) i = Ready")
      case True
      then show ?thesis using p q i st' by (auto simp: queue_inv_def)
    next
      case False
      then have "el_nodes st ! i \<in> set (filter (\<lambda>n. tn_status n = Pending \<and> pending_deps n = 0) (el_nodes st))"
        using p i st' by (auto split: if_splits)
      then have "tn_id (el_nodes st ! i) \<in> set (ready_queue st')" using p st' by auto
      then show ?thesis using graph_invD(1) [OF inv] i p st' by simp
    qed
  qed
  show "st' = st\<lparr>el_nodes := el_nodes st', ready_queue := ready_queue st'\<rparr>" using st' by simp
qed

section \<open>Failure propagation\<close>

definition cancel_rel :: "TaskNode list \<Rightarrow> TaskNode list \<Rightarrow> bool" where
  "cancel_rel ns ms \<longleftrightarrow> length ms = length ns \<and>
     (\<forall>i<length ns. ms ! i = ns ! i \<or> (cancellable (stat ns i) \<and> ms ! i = (ns ! i)\<lparr>tn_status := Cancelled\<rparr>))"

lemma cancellable_simps [simp]:
  "cancellable Pending" "cancellable Ready" "\<not> cancellable Running"
  "\<not> cancellable Completed" "\<not> cancellable Failed" "\<not> cancellable Cancelled"
  by (simp_all add: cancellable_def is_terminal_def)

lemma cancel_rel_trans: "cancel_rel ns ms \<Longrightarrow> cancel_rel ms ks \<Longrightarrow> cancel_rel ns ks"
  by (fastforce simp: cancel_rel_def)

lemma cancel_rel_set_status:
  "i < length ns \<Longrightarrow> cancellable (stat ns i) \<Longrightarrow> cancel_rel ns (set_status i Cancelled ns)"
  by (auto simp: cancel_rel_def nth_list_update)

lemma cancel_rel_same_graph: "cancel_rel ns ms \<Longrightarrow> same_graph ns ms"
  by (fastforce simp: cancel_rel_def same_graph_def)

lemma bfs_cancel_skip:
  "\<not> (i < length ns \<and> cancellable (stat ns i)) \<Longrightarrow> bfs_cancel ns (i # q) c = bfs_cancel ns q c"
  by (auto simp: cancellable_def)

lemma bfs_cancel_hit:
  "i < length ns \<Longrightarrow> cancellable (stat ns i) \<Longrightarrow>
   bfs_cancel ns (i # q) c = bfs_cancel (set_status i Cancelled ns) (q @ dependents (ns ! i)) (c + 1)"
  by (auto simp: cancellable_def)

lemma bfs_cancel_induct [case_names Nil skip hit]:
  fixes P :: "TaskNode list \<Rightarrow> nat list \<Rightarrow> nat \<Rightarrow> bool"
  assumes "\<And>ns c. P ns [] c"
    and "\<And>ns i q c. \<not> (i < length ns \<and> cancellable (stat ns i)) \<Longrightarrow> P ns q c \<Longrightarrow> P ns (i # q) c"
    and "\<And>ns i q c. i < length ns \<Longrightarrow> cancellable (stat ns i) \<Longrightarrow>
      P (set_status i Cancelled ns) (q @ dependents (ns ! i)) (c + 1) \<Longrightarrow> P ns (i # q) c"
  shows "P ns q c"
proof (induction ns q c rule: bfs_cancel.induct)
  case (2 ns i q c)
  show ?case
  proof (cases "i < length ns \<and> cancellable (stat ns i)")
    case True
    then show ?thesis using assms(3) 2(4) by (auto simp: cancellable_def)
  next
    case False
    then have "P ns q c" using 2(1-3) by (cases "i < length ns"; cases "is_terminal (stat ns i)") (auto simp: cancellable_def)
    then show ?thesis using assms(2) False by blast
  qed
qed (rule assms(1))

lemma bfs_cancel_rel: "bfs_cancel ns q c = (ms, c') \<Longrightarrow> cancel_rel ns ms"
proof (induction ns q c arbitrary: ms rule: bfs_cancel_induct)
  case (hit ns i q c)
  have "cancel_rel (set_status i Cancelled ns) ms"
    using hit(4) unfolding bfs_cancel_hit [OF hit(1,2)] by (rule hit.IH)
  then show ?case using hit(1,2) cancel_rel_set_status cancel_rel_trans by blast
next
  case (skip ns i q c)
  show ?case using skip(3) unfolding bfs_cancel_skip [OF skip(1)] by (rule skip.IH)
qed (simp add: cancel_rel_def)

lemma cancel_rel_uncancellable:
  "cancel_rel ns ms \<Longrightarrow> i < length ns \<Longrightarrow> \<not> cancellable (stat ns i) \<Longrightarrow> ms ! i = ns ! i"
  by (auto simp: cancel_rel_def)

text \<open>The search visits its whole queue and the dependents of everything it cancels.\<close>

lemma bfs_cancel_closed:
  "bfs_cancel ns q c = (ms, c') \<Longrightarrow>
    (\<forall>i\<in>set q. i < length ns \<longrightarrow> \<not> cancellable (stat ms i)) \<and>
    (\<forall>i<length ns. cancellable (stat ns i) \<and> \<not> cancellable (stat ms i) \<longrightarrow>
      (\<forall>k\<in>set (dependents (ns ! i)). k < length ns \<longrightarrow> \<not> cancellable (stat ms k)))"
proof (induction ns q c arbitrary: ms rule: bfs_cancel_induct)
  case (skip ns i q c)
  have b: "bfs_cancel ns q c = (ms, c')" using skip(3) unfolding bfs_cancel_skip [OF skip(1)] .
  have "i < length ns \<Longrightarrow> \<not> cancellable (stat ms i)"
    using cancel_rel_uncancellable [OF bfs_cancel_rel [OF b], of i] skip(1) by auto
  then show ?case using skip.IH [OF b] by auto
next
  case (hit ns i q c)
  have b: "bfs_cancel (set_status i Cancelled ns) (q @ dependents (ns ! i)) (c + 1) = (ms, c')"
    using hit(4) unfolding bfs_cancel_hit [OF hit(1,2)] .
  have "\<not> cancellable (stat ms i)"
    using cancel_rel_uncancellable [OF bfs_cancel_rel [OF b], of i] hit(1) by simp
  moreover note ih = hit.IH [OF b]
  moreover have "\<forall>k\<in>set (dependents (ns ! j)). k < length ns \<longrightarrow> \<not> cancellable (stat ms k)"
    if "j < length ns" "cancellable (stat ns j)" "\<not> cancellable (stat ms j)" for j
    using ih that by (cases "j = i") auto
  ultimately show ?case by auto
qed auto

lemma bfs_cancel_reachable:
  "bfs_cancel ns q c = (ms, c') \<Longrightarrow> i < length ns \<Longrightarrow> ms ! i \<noteq> ns ! i \<Longrightarrow> \<exists>r\<in>set q. (r, i) \<in> (node_rel ns)\<^sup>*"
proof (induction ns q c arbitrary: ms rule: bfs_cancel_induct)
  case (skip ns h q c)
  have b: "bfs_cancel ns q c = (ms, c')" using skip(3) unfolding bfs_cancel_skip [OF skip(1)] .
  show ?case using skip.IH [OF b skip(4,5)] by auto
next
  case (hit ns h q c)
  let ?ns = "set_status h Cancelled ns"
  have b: "bfs_cancel ?ns (q @ dependents (ns ! h)) (c + 1) = (ms, c')"
    using hit(4) unfolding bfs_cancel_hit [OF hit(1,2)] .
  have rel: "node_rel ?ns = node_rel ns" by (rule same_graph_node_rel) simp
  show ?case
  proof (cases "i = h")
    case False
    then have "\<exists>r\<in>set (q @ dependents (ns ! h)). (r, i) \<in> (node_rel ns)\<^sup>*"
      using hit.IH [OF b] hit(5,6) rel by simp
    moreover have "(h, r) \<in> node_rel ns" if "r \<in> set (dependents (ns ! h))" for r
      using hit(1) that by (simp add: node_rel_def)
    ultimately show ?thesis by (auto intro: converse_rtrancl_into_rtrancl)
  qed simp
qed simp

text \<open>What a failure does to the node vector.\<close>

definition fail_nodes :: "nat \<Rightarrow> TaskNode list \<Rightarrow> TaskNode list" where
  "fail_nodes f ns = fst (bfs_cancel (set_status f Failed ns) (dependents (ns ! f)) 0)"

lemma fail_nodes_rel:
  assumes "f < length ns"
  shows "cancel_rel (set_status f Failed ns) (fail_nodes f ns)"
  using bfs_cancel_rel by (metis fail_nodes_def prod.collapse)

lemma fail_nodes_status:
  assumes inv: "graph_inv ns" "cancel_inv ns" and f: "f < length ns" "stat ns f = Running" and j: "j < length ns"
  shows "fail_nodes f ns ! j = (ns ! j)\<lparr>tn_status :=
    if j = f then Failed else if (f, j) \<in> (node_rel ns)\<^sup>+ then Cancelled else stat ns j\<rparr>"
proof -
  let ?ns = "set_status f Failed ns" and ?ms = "fail_nodes f ns"
  obtain c where b: "bfs_cancel ?ns (dependents (ns ! f)) 0 = (?ms, c)"
    by (metis fail_nodes_def prod.collapse)
  note rel = fail_nodes_rel [OF f(1)] and cl = bfs_cancel_closed [OF b]
  have len: "length ?ms = length ns" using rel by (simp add: cancel_rel_def)
  have inv1: "graph_inv ?ns"
    using graph_inv_set_status [OF inv(1) f(1)] f graph_invD(5) [OF inv(1) f(1)] by auto
  have rr: "node_rel ?ns = node_rel ns" by (rule same_graph_node_rel) simp
  have mf: "?ms ! f = (ns ! f)\<lparr>tn_status := Failed\<rparr>"
    using cancel_rel_uncancellable [OF rel, of f] f by simp
  have ms: "?ms ! k = ns ! k \<or> cancellable (stat ns k) \<and> ?ms ! k = (ns ! k)\<lparr>tn_status := Cancelled\<rparr>"
    if "k < length ns" "k \<noteq> f" for k
    using rel that by (auto simp: cancel_rel_def)
  have fin: "stat ?ms m = Cancelled"
    if "m < length ns" "m \<noteq> f" "stat ns m \<in> {Pending, Cancelled}" "\<not> cancellable (stat ?ms m) \<or> stat ns m = Cancelled" for m
    using ms [OF that(1,2)] that(3,4) by (cases "stat ns m") auto
  have canc: "stat ?ms k = Cancelled \<and> k < length ns \<and> k \<noteq> f" if "(f, k) \<in> (node_rel ns)\<^sup>+" for k
    using that
  proof (induction rule: trancl_induct)
    case (base k)
    then have k: "k \<in> set (dependents (ns ! f))" by (simp add: node_rel_def)
    have d: "k < length ns" "stat ns k \<in> {Pending, Cancelled}"
      using dependent_pending [OF inv(1) f(1) _ k] f(2) by auto
    then have nf: "k \<noteq> f" using f(2) by auto
    have "\<not> cancellable (stat ?ms k)" using cl k d(1) by simp
    then show ?case using fin [OF d(1) nf d(2)] d(1) nf by simp
  next
    case (step k m)
    then have k: "k < length ns" "k \<noteq> f" "stat ?ms k = Cancelled" and m: "m \<in> set (dependents (ns ! k))"
      by (auto simp: node_rel_def)
    have nc: "stat ns k \<noteq> Completed" using k(3) ms [OF k(1,2)] by auto
    have d: "m < length ns" "stat ns m \<in> {Pending, Cancelled}" using dependent_pending [OF inv(1) k(1) nc m] by auto
    then have nf: "m \<noteq> f" using f(2) by auto
    have "\<not> cancellable (stat ?ms m) \<or> stat ns m = Cancelled"
    proof (cases "cancellable (stat ns k)")
      case True
      then show ?thesis using cl k m d(1) by auto
    next
      case False
      then have "stat ns k = Cancelled" using k(3) ms [OF k(1,2)] by auto
      then show ?thesis using cancel_invD [OF inv(2) k(1) _ m] by simp
    qed
    then show ?case using fin [OF d(1) nf d(2)] d(1) nf by simp
  qed
  show ?thesis
  proof (cases "j = f")
    case True
    then show ?thesis using mf by simp
  next
    case nf: False
    show ?thesis
    proof (cases "(f, j) \<in> (node_rel ns)\<^sup>+")
      case True
      then show ?thesis using canc [OF True] ms [OF j nf] nf by (auto simp: TaskNode.equality)
    next
      case False
      have "?ms ! j = ?ns ! j"
      proof (rule ccontr)
        assume "?ms ! j \<noteq> ?ns ! j"
        then obtain r where "r \<in> set (dependents (ns ! f))" "(r, j) \<in> (node_rel ns)\<^sup>*"
          using bfs_cancel_reachable [OF b, of j] j rr by auto
        moreover from this have "(f, r) \<in> node_rel ns" using f(1) by (simp add: node_rel_def)
        ultimately show False using False rtrancl_into_trancl2 by metis
      qed
      then show ?thesis using nf False by simp
    qed
  qed
qed

lemma fail_nodes_same_graph:
  "f < length ns \<Longrightarrow> same_graph ns (fail_nodes f ns)"
  using fail_nodes_rel cancel_rel_same_graph same_graph_set_status same_graph_trans by blast

lemma fail_nodes_inv:
  assumes inv: "graph_inv ns" "cancel_inv ns" and f: "f < length ns" "stat ns f = Running"
  shows "graph_inv (fail_nodes f ns)" "cancel_inv (fail_nodes f ns)"
proof -
  let ?ms = "fail_nodes f ns"
  note st = fail_nodes_status [OF inv f]
  have sg: "same_graph ns ?ms" and len: "length ?ms = length ns"
    using fail_nodes_same_graph [OF f(1)] by (auto simp: same_graph_def)
  have dp: "stat ns k \<in> {Pending, Cancelled}" if "(f, k) \<in> (node_rel ns)\<^sup>+" for k
    using that
  proof (induction rule: trancl_induct)
    case (base k)
    then show ?case using dependent_pending(2) [OF inv(1) f(1)] f(2) by (simp add: node_rel_def)
  next
    case (step k m)
    then have "k < length ns" "m \<in> set (dependents (ns ! k))" "stat ns k \<noteq> Completed" by (auto simp: node_rel_def)
    then show ?case using dependent_pending(2) [OF inv(1)] by blast
  qed
  have o: "open_in ?ms j = open_in ns j" for j
  proof (rule open_in_cong [OF sg])
    fix i assume "i < length ns"
    then show "stat ?ms i = Completed \<longleftrightarrow> stat ns i = Completed"
      using st [of i] f(2) dp [of i] by auto
  qed
  show "graph_inv ?ms"
    unfolding graph_inv_def
  proof (intro allI impI)
    fix j assume "j < length ?ms"
    then have j: "j < length ns" using len by simp
    note d = graph_invD [OF inv(1) j]
    have "open_in ns j = 0" if "stat ?ms j \<in> {Ready, Running, Completed, Failed}"
      using that d(5) st [OF j] f(2) by (auto split: if_splits)
    then show "tn_id (?ms ! j) = j \<and> 0 < required_ranks (?ms ! j) \<and> set (dependents (?ms ! j)) \<subseteq> {..<length ?ms} \<and>
      pending_deps (?ms ! j) = open_in ?ms j \<and> (stat ?ms j \<in> {Ready, Running, Completed, Failed} \<longrightarrow> pending_deps (?ms ! j) = 0)"
      using d st [OF j] len o by simp
  qed
  show "cancel_inv ?ms"
    unfolding cancel_inv_def
  proof (intro allI impI ballI)
    fix i j assume i: "i < length ?ms" and s: "stat ?ms i \<in> {Failed, Cancelled}" and "j \<in> set (dependents (?ms ! i))"
    then have i': "i < length ns" and j: "j \<in> set (dependents (ns ! i))" using len sg by (auto simp: same_graph_def)
    have jl: "j < length ns" using graph_invD(3) [OF inv(1) i'] j by auto
    have ij: "(i, j) \<in> node_rel ns" using i' j by (simp add: node_rel_def)
    show "stat ?ms j = Cancelled"
    proof (cases "i = f \<or> (f, i) \<in> (node_rel ns)\<^sup>+")
      case True
      then have fj: "(f, j) \<in> (node_rel ns)\<^sup>+" using ij by auto
      then have "j \<noteq> f" using dp [OF fj] f(2) by auto
      then show ?thesis using st [OF jl] fj by simp
    next
      case False
      then have "stat ns i \<in> {Failed, Cancelled}" using s st [OF i'] by auto
      then have "stat ns j = Cancelled" using cancel_invD [OF inv(2) i' _ j] by blast
      then show ?thesis using st [OF jl] f(2) by auto
    qed
  qed
qed

section \<open>Completion\<close>

lemma decrement_dependents:
  assumes "\<And>j. j < length ns \<Longrightarrow> count_list deps j \<le> pending_deps (ns ! j)"
  shows "length (fold decrement_dependent deps ns) = length ns \<and>
    (\<forall>j<length ns. fold decrement_dependent deps ns ! j =
       (ns ! j)\<lparr>pending_deps := pending_deps (ns ! j) - count_list deps j\<rparr>)"
  using assms
proof (induction deps arbitrary: ns)
  case (Cons d ds)
  let ?ms = "decrement_dependent d ns"
  have ms: "length ?ms = length ns" "?ms ! j = (ns ! j)\<lparr>pending_deps := pending_deps (ns ! j) - (if j = d then 1 else 0)\<rparr>"
    if "j < length ns" for j
    using Cons.prems [OF that] that by (auto simp: decrement_dependent_def dec_u32_def nth_list_update)
  have l: "length ?ms = length ns" by (simp add: decrement_dependent_def)
  have "length (fold decrement_dependent ds ?ms) = length ?ms \<and>
    (\<forall>j<length ?ms. fold decrement_dependent ds ?ms ! j =
       (?ms ! j)\<lparr>pending_deps := pending_deps (?ms ! j) - count_list ds j\<rparr>)"
  proof (rule Cons.IH)
    fix j assume "j < length ?ms"
    then show "count_list ds j \<le> pending_deps (?ms ! j)"
      using Cons.prems [of j] ms(2) [of j] l by auto
  qed
  then show ?case using ms(2) l by simp
qed simp

definition complete_nodes :: "nat \<Rightarrow> TaskNode list \<Rightarrow> TaskNode list" where
  "complete_nodes i ns =
     fold decrement_dependent (dependents (set_status i Completed ns ! i)) (set_status i Completed ns)"

lemma complete_nodes_spec:
  assumes inv: "graph_inv ns" and i: "i < length ns" "stat ns i = Running" and j: "j < length ns"
  shows "complete_nodes i ns ! j = (ns ! j)\<lparr>tn_status := if j = i then Completed else stat ns j,
    pending_deps := open_in (set_status i Completed ns) j\<rparr>"
    "length (complete_nodes i ns) = length ns"
proof -
  let ?ms = "set_status i Completed ns"
  have o: "open_in ns k = open_in ?ms k + count_list (dependents (ns ! i)) k" for k
    using open_in_complete i by simp
  have "count_list (dependents (?ms ! i)) k \<le> pending_deps (?ms ! k)" if "k < length ?ms" for k
    using o [of k] graph_invD(4) [OF inv, of k] that i(1) by (auto simp: nth_list_update)
  note d = decrement_dependents [of ?ms, OF this]
  show "length (complete_nodes i ns) = length ns" using d by (simp add: complete_nodes_def)
  show "complete_nodes i ns ! j = (ns ! j)\<lparr>tn_status := if j = i then Completed else stat ns j,
    pending_deps := open_in ?ms j\<rparr>"
    using d j i(1) graph_invD(4) [OF inv j] o [of j] by (auto simp: complete_nodes_def nth_list_update)
qed

lemma complete_nodes_inv:
  assumes inv: "graph_inv ns" "cancel_inv ns" and i: "i < length ns" "stat ns i = Running"
  shows "graph_inv (complete_nodes i ns)" "cancel_inv (complete_nodes i ns)" "same_graph ns (complete_nodes i ns)"
proof -
  let ?ms = "complete_nodes i ns"
  note s = complete_nodes_spec [OF inv(1) i]
  have len: "length ?ms = length ns" by (rule s(2) [OF i(1)])
  show sg: "same_graph ns ?ms" using s(1) len by (simp add: same_graph_def)
  have o: "open_in ?ms j = open_in (set_status i Completed ns) j" for j
    unfolding open_in_def using s(1) len i(1) by (intro sum.cong) (auto simp: nth_list_update)
  have le: "open_in (set_status i Completed ns) j \<le> open_in ns j" for j
    using open_in_complete [of i ns j] i by simp
  show "graph_inv ?ms"
    unfolding graph_inv_def
  proof (intro allI impI)
    fix j assume "j < length ?ms"
    then have j: "j < length ns" using len by simp
    note d = graph_invD [OF inv(1) j]
    have "open_in (set_status i Completed ns) j = 0" if "stat ?ms j \<in> {Ready, Running, Completed, Failed}"
      using that d(5) le [of j] s(1) [OF j] i(2) by (auto split: if_splits)
    then show "tn_id (?ms ! j) = j \<and> 0 < required_ranks (?ms ! j) \<and> set (dependents (?ms ! j)) \<subseteq> {..<length ?ms} \<and>
      pending_deps (?ms ! j) = open_in ?ms j \<and> (stat ?ms j \<in> {Ready, Running, Completed, Failed} \<longrightarrow> pending_deps (?ms ! j) = 0)"
      using d s(1) [OF j] len o by simp
  qed
  show "cancel_inv ?ms"
    unfolding cancel_inv_def
  proof (intro allI impI ballI)
    fix k j assume "k < length ?ms" "stat ?ms k \<in> {Failed, Cancelled}" "j \<in> set (dependents (?ms ! k))"
    then have k: "k < length ns" "stat ns k \<in> {Failed, Cancelled}" "j \<in> set (dependents (ns ! k))"
      using s(1) [of k] len by (auto split: if_splits)
    have "j < length ns" using graph_invD(3) [OF inv(1) k(1)] k(3) by auto
    then show "stat ?ms j = Cancelled" using cancel_invD [OF inv(2) k] s(1) [of j] i(2) by auto
  qed
qed

section \<open>Ranks and the in-flight counter\<close>

definition running :: "TaskNode list \<Rightarrow> nat set" where
  "running ns = {i. i < length ns \<and> stat ns i = Running}"

lemma finite_running [simp]: "finite (running ns)"
  by (simp add: running_def)

definition rank_inv :: "Event_Loop \<Rightarrow> bool" where
  "rank_inv st \<longleftrightarrow> pool_inv (el_pool st) \<and> length (el_allocated st) = length (el_nodes st) \<and>
     busy_set (el_pool st) = \<Union> (set (el_allocated st)) \<and>
     (\<forall>i<length (el_nodes st). \<forall>j<length (el_nodes st). i \<noteq> j \<longrightarrow> el_allocated st ! i \<inter> el_allocated st ! j = {}) \<and>
     (\<forall>i<length (el_nodes st). if stat (el_nodes st) i = Running
        then card (el_allocated st ! i) = required_ranks (el_nodes st ! i) else el_allocated st ! i = {})"

definition flight_inv :: "Event_Loop \<Rightarrow> bool" where
  "flight_inv st \<longleftrightarrow> in_flight st = card (running (el_nodes st)) \<and> in_flight st \<le> el_max_concurrency st \<and>
     1 \<le> el_max_concurrency st \<and> el_max_concurrency st \<le> 1024"

lemma rank_invD:
  assumes "rank_inv st"
  shows "pool_inv (el_pool st)" "length (el_allocated st) = length (el_nodes st)"
    "busy_set (el_pool st) = \<Union> (set (el_allocated st))"
    "\<And>i j. i < length (el_nodes st) \<Longrightarrow> j < length (el_nodes st) \<Longrightarrow> i \<noteq> j \<Longrightarrow> el_allocated st ! i \<inter> el_allocated st ! j = {}"
    "\<And>i. i < length (el_nodes st) \<Longrightarrow> stat (el_nodes st) i = Running \<Longrightarrow>
       card (el_allocated st ! i) = required_ranks (el_nodes st ! i)"
    "\<And>i. i < length (el_nodes st) \<Longrightarrow> stat (el_nodes st) i \<noteq> Running \<Longrightarrow> el_allocated st ! i = {}"
  using assms by (auto simp: rank_inv_def)

lemma Union_update_empty:
  assumes "i < length xs" "\<And>j. j < length xs \<Longrightarrow> j \<noteq> i \<Longrightarrow> xs ! j \<inter> xs ! i = {}"
  shows "\<Union> (set (xs[i := {}])) = \<Union> (set xs) - xs ! i"
proof (intro set_eqI iffI)
  fix x assume "x \<in> \<Union> (set (xs[i := {}]))"
  then obtain j where j: "j < length xs" "x \<in> xs[i := {}] ! j" by (auto simp: in_set_conv_nth)
  then have "j \<noteq> i" "x \<in> xs ! j" using assms(1) by (auto simp: nth_list_update split: if_splits)
  then show "x \<in> \<Union> (set xs) - xs ! i" using assms(2) [OF j(1)] j(1) by (auto simp: set_conv_nth)
next
  fix x assume "x \<in> \<Union> (set xs) - xs ! i"
  then obtain j where j: "j < length xs" "x \<in> xs ! j" "x \<notin> xs ! i" by (auto simp: in_set_conv_nth)
  then have "j \<noteq> i" by auto
  then have "xs[i := {}] ! j = xs ! j" by simp
  then show "x \<in> \<Union> (set (xs[i := {}]))" using j by (metis UnionI length_list_update nth_mem)
qed

lemma Union_update_fill:
  assumes "i < length xs" "xs ! i = {}"
  shows "\<Union> (set (xs[i := A])) = \<Union> (set xs) \<union> A"
proof (intro set_eqI iffI)
  fix x assume "x \<in> \<Union> (set (xs[i := A]))"
  then show "x \<in> \<Union> (set xs) \<union> A" using set_update_subset_insert [of xs i A] by auto
next
  fix x assume "x \<in> \<Union> (set xs) \<union> A"
  then show "x \<in> \<Union> (set (xs[i := A]))"
  proof
    assume "x \<in> A"
    then show ?thesis using assms(1) set_update_memI by fastforce
  next
    assume "x \<in> \<Union> (set xs)"
    then obtain j where j: "j < length xs" "x \<in> xs ! j" by (auto simp: in_set_conv_nth)
    then have "j \<noteq> i" using assms(2) by auto
    then have "xs[i := A] ! j = xs ! j" by simp
    then show ?thesis using j by (metis UnionI length_list_update nth_mem)
  qed
qed

text \<open>A running node stops: its ranks return to the pool.\<close>

lemma retire_rank_inv:
  assumes inv: "rank_inv st" and i: "i < length (el_nodes st)" "stat (el_nodes st) i = Running"
    and sg: "same_graph (el_nodes st) ns"
    and r: "running ns = running (el_nodes st) - {i}"
    and st': "el_nodes st' = ns" "el_pool st' = release (el_allocated st ! i) (el_pool st)"
      "el_allocated st' = (el_allocated st)[i := {}]"
  shows "rank_inv st'" "avail_set (el_pool st') = avail_set (el_pool st) \<union> el_allocated st ! i"
proof -
  note d = rank_invD [OF inv]
  have len: "length ns = length (el_nodes st)" using sg by (simp add: same_graph_def)
  have rq: "required_ranks (ns ! j) = required_ranks (el_nodes st ! j)" if "j < length (el_nodes st)" for j
    using sg that by (simp add: same_graph_def)
  have sub: "el_allocated st ! i \<subseteq> busy_set (el_pool st)" using d(2,3) i(1) by auto
  note rel = release_spec [OF d(1), of "el_allocated st ! i"]
  have busy: "busy_set (el_pool st') = \<Union> (set (el_allocated st'))"
    using rel d(2,3) Union_update_empty [of i "el_allocated st"] d(4) i(1) st' by simp
  have run: "stat ns j = Running \<longleftrightarrow> j \<noteq> i \<and> stat (el_nodes st) j = Running" if "j < length ns" for j
    using r that len by (auto simp: running_def)
  have al: "el_allocated st' ! j = (if j = i then {} else el_allocated st ! j)" if "j < length ns" for j
    using st'(3) that len d(2) by (auto simp: nth_list_update)
  have c: "if stat ns j = Running then card (el_allocated st' ! j) = required_ranks (ns ! j) else el_allocated st' ! j = {}"
    if "j < length ns" for j
    using run [OF that] al [OF that] d(5,6) [of j] that len rq by auto
  have dj: "el_allocated st' ! j \<inter> el_allocated st' ! k = {}" if "j < length ns" "k < length ns" "j \<noteq> k" for j k
    using al [OF that(1)] al [OF that(2)] d(4) [of j k] that len by auto
  show "rank_inv st'"
    unfolding rank_inv_def st'(1) using busy c dj
  proof (intro conjI allI impI)
    show "pool_inv (el_pool st')" "length (el_allocated st') = length ns" using rel st'(2,3) len d(2) by simp_all
  qed auto
  show "avail_set (el_pool st') = avail_set (el_pool st) \<union> el_allocated st ! i"
    using rel sub st' by auto
qed

lemma retire_inv:
  assumes inv: "rank_inv st" "flight_inv st" and i: "i < length (el_nodes st)" "stat (el_nodes st) i = Running"
    and sg: "same_graph (el_nodes st) ns"
    and r: "running ns = running (el_nodes st) - {i}"
    and st': "el_nodes st' = ns" "el_pool st' = release (el_allocated st ! i) (el_pool st)"
      "el_allocated st' = (el_allocated st)[i := {}]" "in_flight st' = in_flight st - 1"
      "el_max_concurrency st' = el_max_concurrency st"
  shows "rank_inv st'" "flight_inv st'" "avail_set (el_pool st') = avail_set (el_pool st) \<union> el_allocated st ! i"
proof -
  note rr = retire_rank_inv [OF inv(1) i sg r st'(1-3)]
  show "rank_inv st'" "avail_set (el_pool st') = avail_set (el_pool st) \<union> el_allocated st ! i" by (rule rr)+
  have "i \<in> running (el_nodes st)" using i by (simp add: running_def)
  then have "in_flight st - 1 = card (running ns)" using inv(2) r by (simp add: flight_inv_def)
  then show "flight_inv st'" using inv(2) unfolding flight_inv_def st'(1,4,5) by (intro conjI) linarith+
qed

lemma running_nonempty_alloc:
  assumes "graph_inv (el_nodes st)" "rank_inv st" "flight_inv st" "i < length (el_nodes st)" "stat (el_nodes st) i = Running"
  shows "el_allocated st ! i \<noteq> {}" "0 < in_flight st"
proof -
  show "el_allocated st ! i \<noteq> {}"
    using rank_invD(5) [OF assms(2,4,5)] graph_invD(2) [OF assms(1,4)] by auto
  have "i \<in> running (el_nodes st)" using assms by (simp add: running_def)
  then show "0 < in_flight st" using assms(3) by (auto simp: flight_inv_def card_gt_0_iff)
qed

section \<open>Every operation keeps the invariant\<close>

definition sched_inv :: "Event_Loop \<Rightarrow> bool" where
  "sched_inv st \<longleftrightarrow> graph_inv (el_nodes st) \<and> cancel_inv (el_nodes st) \<and> rank_inv st \<and> flight_inv st \<and>
     queue_inv (el_nodes st) (ready_queue st)"

lemma sched_invD:
  assumes "sched_inv st"
  shows "graph_inv (el_nodes st)" "cancel_inv (el_nodes st)" "rank_inv st" "flight_inv st"
    "queue_inv (el_nodes st) (ready_queue st)"
  using assms by (auto simp: sched_inv_def)

lemma rank_flight_cong:
  assumes "el_nodes st' = el_nodes st" "el_pool st' = el_pool st" "el_allocated st' = el_allocated st"
    "in_flight st' = in_flight st" "el_max_concurrency st' = el_max_concurrency st"
  shows "rank_inv st' = rank_inv st" "flight_inv st' = flight_inv st"
  using assms by (simp_all add: rank_inv_def flight_inv_def)

lemma log_line_fields [simp]:
  "el_nodes (log_line e st) = el_nodes st" "el_pool (log_line e st) = el_pool st"
  "el_allocated (log_line e st) = el_allocated st" "in_flight (log_line e st) = in_flight st"
  "el_max_concurrency (log_line e st) = el_max_concurrency st" "ready_queue (log_line e st) = ready_queue st"
  "el_reads (log_line e st) = el_reads st"
  by (simp_all add: log_line_def)

lemma record_progress_fields [simp]:
  "el_nodes (record_progress clk st) = el_nodes st" "el_pool (record_progress clk st) = el_pool st"
  "el_allocated (record_progress clk st) = el_allocated st" "in_flight (record_progress clk st) = in_flight st"
  "el_max_concurrency (record_progress clk st) = el_max_concurrency st"
  "ready_queue (record_progress clk st) = ready_queue st" "el_reads (record_progress clk st) = Suc (el_reads st)"
  by (simp_all add: record_progress_def)

lemma running_fail_nodes:
  assumes "f < length ns"
  shows "running (fail_nodes f ns) = running ns - {f}"
proof -
  have "stat (fail_nodes f ns) j = Running \<longleftrightarrow> j \<noteq> f \<and> stat ns j = Running" if "j < length ns" for j
    using fail_nodes_rel [OF assms] that
    by (cases "j = f") (auto simp: cancel_rel_def dest!: spec [of _ j])
  moreover have "length (fail_nodes f ns) = length ns"
    using fail_nodes_rel [OF assms] by (simp add: cancel_rel_def)
  ultimately show ?thesis by (auto simp: running_def)
qed

lemma ready_fail_nodes:
  "f < length ns \<Longrightarrow> j < length ns \<Longrightarrow> stat (fail_nodes f ns) j = Ready \<Longrightarrow> stat ns j = Ready"
  using fail_nodes_rel [of f ns] by (cases "j = f") (auto simp: cancel_rel_def dest!: spec [of _ j])

lemma propagate_failure_fields:
  assumes "sched_inv st" "i < length (el_nodes st)" "stat (el_nodes st) i = Running"
  shows "el_nodes (propagate_failure clk i st) = fail_nodes i (el_nodes st)"
    "el_pool (propagate_failure clk i st) = release (el_allocated st ! i) (el_pool st)"
    "el_allocated (propagate_failure clk i st) = (el_allocated st)[i := {}]"
    "in_flight (propagate_failure clk i st) = in_flight st - 1"
    "el_max_concurrency (propagate_failure clk i st) = el_max_concurrency st"
  using running_nonempty_alloc [OF sched_invD(1,3,4) [OF assms(1)] assms(2,3)]
  by (simp_all add: propagate_failure_def Let_def release_ranks_of_def fail_nodes_def split: prod.split)

lemma propagate_failure_inv:
  assumes inv: "sched_inv st" and i: "i < length (el_nodes st)" "stat (el_nodes st) i = Running"
  shows "sched_inv (propagate_failure clk i st)"
    "avail_set (el_pool (propagate_failure clk i st)) = avail_set (el_pool st) \<union> el_allocated st ! i"
proof -
  let ?st = "propagate_failure clk i st"
  note d = sched_invD [OF inv] and f = propagate_failure_fields [OF inv i, of clk]
  note r = retire_inv [OF d(3,4) i fail_nodes_same_graph [OF i(1)] running_fail_nodes [OF i(1)] f]
  have len: "length (fail_nodes i (el_nodes st)) = length (el_nodes st)"
    using fail_nodes_same_graph [OF i(1)] by (simp add: same_graph_def)
  have "queue_inv (el_nodes ?st) (ready_queue ?st)"
    using d(5) ready_fail_nodes [OF i(1)] f(1) len by (auto simp: queue_inv_def)
  then show "sched_inv ?st"
    using r fail_nodes_inv [OF d(1,2) i] f(1) by (simp add: sched_inv_def)
  show "avail_set (el_pool ?st) = avail_set (el_pool st) \<union> el_allocated st ! i" by (rule r(3))
qed

lemma process_completion_fields:
  assumes "sched_inv st" "i < length (el_nodes st)" "stat (el_nodes st) i = Running"
  shows "el_nodes (process_completion clk (i, True) st) = complete_nodes i (el_nodes st)"
    "el_pool (process_completion clk (i, True) st) = release (el_allocated st ! i) (el_pool st)"
    "el_allocated (process_completion clk (i, True) st) = (el_allocated st)[i := {}]"
    "in_flight (process_completion clk (i, True) st) = in_flight st - 1"
    "el_max_concurrency (process_completion clk (i, True) st) = el_max_concurrency st"
    "ready_queue (process_completion clk (i, True) st) = ready_queue st"
  using running_nonempty_alloc [OF sched_invD(1,3,4) [OF assms(1)] assms(2,3)] assms(2,3)
  by (simp_all add: process_completion_def Let_def release_ranks_of_def complete_nodes_def dec_u32_pos)

lemma process_completion_inv:
  assumes inv: "sched_inv st"
  shows "sched_inv (process_completion clk c st)"
proof (cases c)
  case (Pair i ok)
  show ?thesis
  proof (cases "i < length (el_nodes st) \<and> stat (el_nodes st) i = Running")
    case False
    then show ?thesis using inv Pair by (auto simp: process_completion_def)
  next
    case True
    then have i: "i < length (el_nodes st)" "stat (el_nodes st) i = Running" by auto
    show ?thesis
    proof (cases ok)
      case False
      then have "process_completion clk c st = propagate_failure clk i st"
        using i Pair by (simp add: process_completion_def)
      then show ?thesis using propagate_failure_inv(1) [OF inv i] by simp
    next
      case True
      note d = sched_invD [OF inv] and f = process_completion_fields [OF inv i, of clk]
      note n = complete_nodes_inv [OF d(1,2) i] and sp = complete_nodes_spec [OF d(1) i]
      have "running (complete_nodes i (el_nodes st)) = running (el_nodes st) - {i}"
        using sp(1) sp(2) [OF i(1)] by (auto simp: running_def split: if_splits)
      note r = retire_inv [OF d(3,4) i n(3) this f(1-5)]
      have "queue_inv (complete_nodes i (el_nodes st)) (ready_queue st)"
        using d(5) sp(1) sp(2) [OF i(1)] by (auto simp: queue_inv_def split: if_splits)
      then show ?thesis using r n f True Pair by (simp add: sched_inv_def)
    qed
  qed
qed

lemma process_completions_inv:
  "sched_inv st \<Longrightarrow> sched_inv (snd (process_completions clk cb st))"
proof -
  have "sched_inv st \<Longrightarrow> sched_inv (fold (process_completion clk) cs st)" for cs
    by (induction cs arbitrary: st) (auto intro: process_completion_inv)
  then show "sched_inv st \<Longrightarrow> sched_inv (snd (process_completions clk cb st))"
    by (auto simp: process_completions_def split: option.split sum.split)
qed

lemma poll_ready_nodes_inv:
  assumes inv: "sched_inv st"
  shows "sched_inv (poll_ready_nodes st)"
proof -
  let ?st = "poll_ready_nodes st" and ?ns = "el_nodes st"
  note d = sched_invD [OF inv]
  note p = poll_ready_nodes_spec [OF d(1,5)]
  have sg: "same_graph ?ns (el_nodes ?st)" using p(1,2) by (simp add: same_graph_def)
  have o: "open_in (el_nodes ?st) j = open_in ?ns j" for j
    using p(2) by (intro open_in_cong [OF sg]) simp
  have g: "graph_inv (el_nodes ?st)"
    using d(1) p(1,2) o unfolding graph_inv_def by auto
  have c: "cancel_inv (el_nodes ?st)"
    unfolding cancel_inv_def
  proof (intro allI impI ballI)
    fix i j assume i: "i < length (el_nodes ?st)" "stat (el_nodes ?st) i \<in> {Failed, Cancelled}" "j \<in> set (dependents (el_nodes ?st ! i))"
    then have i': "i < length ?ns" "stat ?ns i \<in> {Failed, Cancelled}" "j \<in> set (dependents (?ns ! i))"
      using p(1,2) by (auto split: if_splits)
    have "j < length ?ns" using graph_invD(3) [OF d(1) i'(1)] i'(3) by auto
    then show "stat (el_nodes ?st) j = Cancelled" using cancel_invD [OF d(2) i'] p(2) by auto
  qed
  have run: "running (el_nodes ?st) = running ?ns" using p(1,2) by (auto simp: running_def split: if_splits)
  have eq: "el_pool ?st = el_pool st" "el_allocated ?st = el_allocated st" "in_flight ?st = in_flight st"
    "el_max_concurrency ?st = el_max_concurrency st" by (simp_all add: poll_ready_nodes_def split: prod.split)
  have "rank_inv ?st" using d(3) eq p(1,2) unfolding rank_inv_def by (auto split: if_splits)
  moreover have "flight_inv ?st" using d(4) eq run by (simp add: flight_inv_def)
  ultimately show ?thesis using g c p(3) by (simp add: sched_inv_def)
qed

section \<open>How the state evolves\<close>

fun stage :: "Task_Status \<Rightarrow> nat" where
  "stage Pending = 0"
| "stage Ready = 1"
| "stage Running = 2"
| "stage Completed = 3"
| "stage Failed = 3"
| "stage Cancelled = 3"

lemma is_terminal_stage: "is_terminal s \<longleftrightarrow> 3 \<le> stage s"
  by (cases s) (auto simp: is_terminal_def)

definition open_nodes :: "TaskNode list \<Rightarrow> nat set" where
  "open_nodes ns = {i. i < length ns \<and> \<not> is_terminal (stat ns i)}"

lemma finite_open_nodes [simp]: "finite (open_nodes ns)"
  by (simp add: open_nodes_def)

lemma all_complete_open: "all_complete st \<longleftrightarrow> open_nodes (el_nodes st) = {}"
  by (auto simp: all_complete_def open_nodes_def list_all_length)

definition evolves :: "Event_Loop \<Rightarrow> Event_Loop \<Rightarrow> bool" where
  "evolves st st' \<longleftrightarrow> same_graph (el_nodes st) (el_nodes st') \<and>
     rp_rank_ids (el_pool st') = rp_rank_ids (el_pool st) \<and> el_max_concurrency st' = el_max_concurrency st \<and>
     (\<forall>i<length (el_nodes st). stage (stat (el_nodes st) i) \<le> stage (stat (el_nodes st') i) \<and>
        (is_terminal (stat (el_nodes st) i) \<longrightarrow> stat (el_nodes st') i = stat (el_nodes st) i)) \<and>
     (running (el_nodes st) \<subseteq> running (el_nodes st') \<or> open_nodes (el_nodes st') \<subset> open_nodes (el_nodes st))"

lemma evolvesD:
  assumes "evolves st st'"
  shows "same_graph (el_nodes st) (el_nodes st')" "rp_rank_ids (el_pool st') = rp_rank_ids (el_pool st)"
    "\<And>i. i < length (el_nodes st) \<Longrightarrow> stage (stat (el_nodes st) i) \<le> stage (stat (el_nodes st') i)"
    "\<And>i. i < length (el_nodes st) \<Longrightarrow> is_terminal (stat (el_nodes st) i) \<Longrightarrow> stat (el_nodes st') i = stat (el_nodes st) i"
    "running (el_nodes st) \<subseteq> running (el_nodes st') \<or> open_nodes (el_nodes st') \<subset> open_nodes (el_nodes st)"
    "length (el_nodes st') = length (el_nodes st)" "el_max_concurrency st' = el_max_concurrency st"
  using assms by (auto simp: evolves_def same_graph_def)

lemma evolves_open: "evolves st st' \<Longrightarrow> open_nodes (el_nodes st') \<subseteq> open_nodes (el_nodes st)"
  using evolvesD(4,6) by (fastforce simp: open_nodes_def)

lemma evolves_refl [simp]: "evolves st st"
  by (simp add: evolves_def)

lemma evolves_trans [trans]:
  assumes a: "evolves st st'" and b: "evolves st' st''"
  shows "evolves st st''"
proof -
  note x = evolvesD [OF a] and y = evolvesD [OF b]
  have "stage (stat (el_nodes st) i) \<le> stage (stat (el_nodes st'') i) \<and>
      (is_terminal (stat (el_nodes st) i) \<longrightarrow> stat (el_nodes st'') i = stat (el_nodes st) i)"
    if "i < length (el_nodes st)" for i
    using x(3,4) [OF that] y(3,4) [of i] x(6) that by (metis le_trans)
  moreover have "running (el_nodes st) \<subseteq> running (el_nodes st'') \<or> open_nodes (el_nodes st'') \<subset> open_nodes (el_nodes st)"
    using x(5) y(5) evolves_open [OF a] evolves_open [OF b] by blast
  ultimately show ?thesis
    using same_graph_trans [OF x(1) y(1)] x y by (simp add: evolves_def)
qed

lemma evolves_cong:
  assumes "el_nodes st' = el_nodes st" "el_pool st' = el_pool st" "el_max_concurrency st' = el_max_concurrency st"
  shows "evolves st st'"
  using assms by (simp add: evolves_def)

text \<open>A step that ends a running node, and one that leaves the running nodes running.\<close>

lemma evolves_retire:
  assumes "same_graph (el_nodes st) (el_nodes st')" "rp_rank_ids (el_pool st') = rp_rank_ids (el_pool st)"
    "el_max_concurrency st' = el_max_concurrency st"
    "\<And>j. j < length (el_nodes st) \<Longrightarrow> stat (el_nodes st') j = stat (el_nodes st) j \<or>
       (\<not> is_terminal (stat (el_nodes st) j) \<and> is_terminal (stat (el_nodes st') j))"
    "i < length (el_nodes st)" "\<not> is_terminal (stat (el_nodes st) i)" "is_terminal (stat (el_nodes st') i)"
  shows "evolves st st'"
proof -
  have len: "length (el_nodes st') = length (el_nodes st)" using assms(1) by (simp add: same_graph_def)
  have st: "stage (stat (el_nodes st) j) \<le> stage (stat (el_nodes st') j) \<and>
      (is_terminal (stat (el_nodes st) j) \<longrightarrow> stat (el_nodes st') j = stat (el_nodes st) j)" if "j < length (el_nodes st)" for j
    using assms(4) [OF that] by (auto simp: is_terminal_stage)
  have "open_nodes (el_nodes st') \<subseteq> open_nodes (el_nodes st)" using st len by (auto simp: open_nodes_def)
  moreover have "i \<in> open_nodes (el_nodes st)" "i \<notin> open_nodes (el_nodes st')"
    using assms(5-7) by (auto simp: open_nodes_def)
  ultimately have "open_nodes (el_nodes st') \<subset> open_nodes (el_nodes st)" by blast
  then show ?thesis using assms(1-3) st by (simp add: evolves_def)
qed

lemma propagate_failure_evolves:
  assumes inv: "sched_inv st" and i: "i < length (el_nodes st)" "stat (el_nodes st) i = Running"
  shows "evolves st (propagate_failure clk i st)" "stat (el_nodes (propagate_failure clk i st)) i = Failed"
proof -
  note d = sched_invD [OF inv] and f = propagate_failure_fields [OF inv i, of clk]
  note s = fail_nodes_status [OF d(1,2) i]
  have t: "stat (fail_nodes i (el_nodes st)) j = stat (el_nodes st) j \<or>
      (\<not> is_terminal (stat (el_nodes st) j) \<and> is_terminal (stat (fail_nodes i (el_nodes st)) j))"
    if "j < length (el_nodes st)" for j
    using fail_nodes_rel [OF i(1)] that i(2)
    by (cases "j = i") (auto simp: cancel_rel_def cancellable_def is_terminal_def dest!: spec [of _ j])
  show fi: "stat (el_nodes (propagate_failure clk i st)) i = Failed" using s [OF i(1)] f(1) by simp
  show "evolves st (propagate_failure clk i st)"
  proof (rule evolves_retire [of _ _ i])
    show "rp_rank_ids (el_pool (propagate_failure clk i st)) = rp_rank_ids (el_pool st)"
      using f(2) release_spec [OF rank_invD(1) [OF d(3)]] by simp
  qed (use f fail_nodes_same_graph [OF i(1)] t i fi in \<open>auto simp: is_terminal_def\<close>)
qed

lemma process_completion_evolves:
  assumes inv: "sched_inv st"
  shows "evolves st (process_completion clk (i, ok) st)"
    "i < length (el_nodes st) \<Longrightarrow> stat (el_nodes st) i = Running \<Longrightarrow> is_terminal (stat (el_nodes (process_completion clk (i, ok) st)) i)"
proof -
  note d = sched_invD [OF inv]
  have r: "evolves st (process_completion clk (i, ok) st) \<and> is_terminal (stat (el_nodes (process_completion clk (i, ok) st)) i)"
    if i: "i < length (el_nodes st)" "stat (el_nodes st) i = Running"
  proof (cases ok)
    case False
    then have "process_completion clk (i, ok) st = propagate_failure clk i st"
      using i by (simp add: process_completion_def)
    then show ?thesis using propagate_failure_evolves [OF inv i] by (simp add: is_terminal_def)
  next
    case True
    note f = process_completion_fields [OF inv i, of clk] and sp = complete_nodes_spec [OF d(1) i]
    have ti: "is_terminal (stat (complete_nodes i (el_nodes st)) i)" using sp(1) [OF i(1)] by (simp add: is_terminal_def)
    have "evolves st (process_completion clk (i, True) st)"
    proof (rule evolves_retire [of _ _ i])
      show "rp_rank_ids (el_pool (process_completion clk (i, True) st)) = rp_rank_ids (el_pool st)"
        using f(2) release_spec [OF rank_invD(1) [OF d(3)]] by simp
    qed (use f complete_nodes_inv(3) [OF d(1,2) i] sp i ti in \<open>auto simp: is_terminal_def\<close>)
    then show ?thesis using True ti f(1) by simp
  qed
  show "evolves st (process_completion clk (i, ok) st)"
  proof (cases "i < length (el_nodes st) \<and> stat (el_nodes st) i = Running")
    case False
    then have "process_completion clk (i, ok) st = st" by (auto simp: process_completion_def)
    then show ?thesis by simp
  qed (use r in auto)
  show "i < length (el_nodes st) \<Longrightarrow> stat (el_nodes st) i = Running \<Longrightarrow>
    is_terminal (stat (el_nodes (process_completion clk (i, ok) st)) i)" using r by simp
qed

lemma fold_completion:
  "sched_inv st \<Longrightarrow> sched_inv (fold (process_completion clk) cs st) \<and> evolves st (fold (process_completion clk) cs st)"
proof (induction cs arbitrary: st)
  case (Cons c cs)
  obtain i ok where c: "c = (i, ok)" by (cases c)
  have "sched_inv (process_completion clk c st)" by (rule process_completion_inv [OF Cons.prems])
  from Cons.IH [OF this] show ?case
    using evolves_trans [OF process_completion_evolves(1) [OF Cons.prems]] c by auto
qed simp

lemma fold_completion_ends:
  assumes "sched_inv st" "i < length (el_nodes st)" "stage (stat (el_nodes st) i) \<ge> 2" "i \<in> fst ` set cs"
  shows "is_terminal (stat (el_nodes (fold (process_completion clk) cs st)) i)"
  using assms
proof (induction cs arbitrary: st)
  case (Cons c cs)
  obtain k ok where c: "c = (k, ok)" by (cases c)
  let ?st = "process_completion clk c st"
  have inv: "sched_inv ?st" by (rule process_completion_inv [OF Cons.prems(1)])
  have ev: "evolves st ?st" using process_completion_evolves(1) [OF Cons.prems(1)] c by simp
  have len: "i < length (el_nodes ?st)" using evolvesD(6) [OF ev] Cons.prems(2) by simp
  have "is_terminal (stat (el_nodes ?st) i) \<or> i \<in> fst ` set cs"
  proof (cases "k = i")
    case True
    have "stat (el_nodes st) i = Running \<or> is_terminal (stat (el_nodes st) i)"
      using Cons.prems(3) by (cases "stat (el_nodes st) i") (auto simp: is_terminal_def)
    then show ?thesis
      using process_completion_evolves(2) [OF Cons.prems(1) Cons.prems(2)] evolvesD(4) [OF ev Cons.prems(2)] True c by auto
  qed (use Cons.prems(4) c in auto)
  then show ?case
  proof
    assume "i \<in> fst ` set cs"
    then show ?thesis
      using Cons.IH [OF inv len] evolvesD(3) [OF ev Cons.prems(2)] Cons.prems(3) by simp
  next
    assume t: "is_terminal (stat (el_nodes ?st) i)"
    then show ?thesis using evolvesD(4) [OF conjunct2 [OF fold_completion [OF inv]] len t, of clk cs] by simp
  qed
qed simp

end
