(* ===== verification/Dagr_Progress.thy ===== *)
theory Dagr_Progress
  imports Dagr_Schedule
begin

text \<open>
  The dispatch phase, the whole cycle of the event loop and what follows for any number of
  cycles: safety of the schedule, failure propagation, and termination on acyclic graphs.
\<close>

section \<open>Dispatch\<close>

declare dispatch_ready_nodes.simps [simp del]

text \<open>What every step of the dispatch loop keeps, the loop keeps.\<close>

lemma dispatch_keeps:
  assumes skip: "\<And>s i q. P s \<Longrightarrow> ready_queue s = i # q \<Longrightarrow> stat (el_nodes s) i \<noteq> Ready \<Longrightarrow> P (s\<lparr>ready_queue := q\<rparr>)"
    and full: "\<And>s i q pl. P s \<Longrightarrow> ready_queue s = i # q \<Longrightarrow>
      try_allocate (required_ranks (el_nodes s ! i)) (el_pool s) = Inr ({}, pl) \<Longrightarrow> P (s\<lparr>el_pool := pl\<rparr>)"
    and start: "\<And>s i q R pl. P s \<Longrightarrow> ready_queue s = i # q \<Longrightarrow> in_flight s < el_max_concurrency s \<Longrightarrow>
      stat (el_nodes s) i = Ready \<Longrightarrow> try_allocate (required_ranks (el_nodes s ! i)) (el_pool s) = Inr (R, pl) \<Longrightarrow> R \<noteq> {} \<Longrightarrow>
      P (invoke_dispatch clk cb i R (start_node clk i R (s\<lparr>el_pool := pl\<rparr>)))"
    and P: "P st"
  shows "P (snd (dispatch_ready_nodes clk cb st))"
  using P
proof (induction "length (ready_queue st)" arbitrary: st rule: less_induct)
  case less
  show ?case
  proof (cases "ready_queue st")
    case (Cons i q)
    show ?thesis
    proof (cases "in_flight st < el_max_concurrency st \<and> stat (el_nodes st) i = Ready")
      case False
      show ?thesis
      proof (cases "el_max_concurrency st \<le> in_flight st")
        case True
        then show ?thesis using Cons less.prems by (simp add: dispatch_ready_nodes.simps [of clk cb st])
      next
        case cap: False
        then have nr: "stat (el_nodes st) i \<noteq> Ready" using False by simp
        have "dispatch_ready_nodes clk cb st = dispatch_ready_nodes clk cb (st\<lparr>ready_queue := q\<rparr>)"
          using Cons cap nr by (simp add: dispatch_ready_nodes.simps [of clk cb st])
        then show ?thesis
          using less.hyps [OF _ skip [OF less.prems Cons nr]] Cons by simp
      qed
    next
      case True
      then have t: "\<not> el_max_concurrency st \<le> in_flight st" "\<not> stat (el_nodes st) i \<noteq> Ready" by auto
      show ?thesis
      proof (cases "try_allocate (required_ranks (el_nodes st ! i)) (el_pool st)")
        case (Inl e)
        then show ?thesis using t Cons less.prems by (simp add: dispatch_ready_nodes.simps [of clk cb st])
      next
        case (Inr r)
        obtain R pl where r: "r = (R, pl)" by (cases r)
        show ?thesis
        proof (cases "R = {}")
          case True
          then show ?thesis using t Cons Inr r full less.prems by (simp add: dispatch_ready_nodes.simps [of clk cb st])
        next
          case False
          have p: "P (invoke_dispatch clk cb i R (start_node clk i R (st\<lparr>el_pool := pl\<rparr>)))"
            using start [OF less.prems Cons] t Inr r False by simp
          have "dispatch_ready_nodes clk cb st =
              dispatch_ready_nodes clk cb (invoke_dispatch clk cb i R (start_node clk i R (st\<lparr>el_pool := pl\<rparr>)))"
            using t Cons Inr r False by (simp add: dispatch_ready_nodes.simps [of clk cb st])
          then show ?thesis using less.hyps [OF _ p] Cons by simp
        qed
      qed
    qed
  qed (use less.prems in \<open>simp add: dispatch_ready_nodes.simps\<close>)
qed

lemma start_node_fields [simp]:
  "el_nodes (start_node clk i R st) = set_status i Running (el_nodes st)"
  "el_pool (start_node clk i R st) = el_pool st" "el_allocated (start_node clk i R st) = (el_allocated st)[i := R]"
  "in_flight (start_node clk i R st) = inc_u32 (in_flight st)"
  "el_max_concurrency (start_node clk i R st) = el_max_concurrency st"
  by (simp_all add: start_node_def)

lemma start_node_inv:
  assumes inv: "sched_inv st" and q: "ready_queue st = i # queue" and cap: "in_flight st < el_max_concurrency st"
    and rdy: "stat (el_nodes st) i = Ready"
    and al: "try_allocate (required_ranks (el_nodes st ! i)) (el_pool st) = Inr (R, pool)" "R \<noteq> {}"
    and st'_def: "st' = start_node clk i R (st\<lparr>el_pool := pool\<rparr>)"
  shows "sched_inv st'" "i < length (el_nodes st')" "stat (el_nodes st') i = Running" "evolves st st'"
    "open_nodes (el_nodes st') = open_nodes (el_nodes st)"
proof -
  note d = sched_invD [OF inv] and rk = rank_invD [OF sched_invD(3) [OF inv]]
  have i: "i < length (el_nodes st)" using d(5) q by (auto simp: queue_inv_def)
  note g = graph_invD [OF d(1) i]
  note a = pool.alloc_some [OF rk(1) g(2) al]
  have nodes: "el_nodes st' = set_status i Running (el_nodes st)" by (simp add: st'_def)
  have emp: "el_allocated st ! i = {}" using rk(6) [OF i] rdy by simp
  show il: "i < length (el_nodes st')" "stat (el_nodes st') i = Running" using i by (simp_all add: nodes)
  have gi: "graph_inv (el_nodes st')"
    unfolding nodes using graph_inv_set_status [OF d(1) i] rdy g(5) by auto
  have ci: "cancel_inv (el_nodes st')"
    unfolding cancel_inv_def
  proof (intro allI impI ballI)
    fix k j assume k: "k < length (el_nodes st')" "stat (el_nodes st') k \<in> {Failed, Cancelled}"
      "j \<in> set (dependents (el_nodes st' ! k))"
    then have k': "k < length (el_nodes st)" "stat (el_nodes st) k \<in> {Failed, Cancelled}" "j \<in> set (dependents (el_nodes st ! k))"
      using i by (auto simp: nodes nth_list_update split: if_splits)
    have "stat (el_nodes st) j = Cancelled" by (rule cancel_invD [OF d(2) k'])
    moreover from this have "j \<noteq> i" using rdy by auto
    ultimately show "stat (el_nodes st') j = Cancelled" by (simp add: nodes)
  qed
  have al': "el_allocated st' = (el_allocated st)[i := R]" "el_pool st' = pool" by (simp_all add: st'_def)
  have dis: "el_allocated st ! j \<inter> R = {}" if "j < length (el_nodes st)" for j
    using a(6) rk(2,3) that by fastforce
  have ri: "rank_inv st'"
    unfolding rank_inv_def
  proof (intro conjI allI impI)
    show "pool_inv (el_pool st')" using a(1) al' by simp
    show "length (el_allocated st') = length (el_nodes st')" using rk(2) by (simp add: al' nodes)
    show "busy_set (el_pool st') = \<Union> (set (el_allocated st'))"
      using Union_update_fill [of i "el_allocated st" R] emp i rk(2,3) a(5) by (simp add: al')
  next
    fix j k assume "j < length (el_nodes st')" "k < length (el_nodes st')" "j \<noteq> k"
    then show "el_allocated st' ! j \<inter> el_allocated st' ! k = {}"
      using rk(2) rk(4) [of j k] dis [of j] dis [of k] i by (auto simp: al' nodes nth_list_update)
  next
    fix j assume "j < length (el_nodes st')"
    then show "if stat (el_nodes st') j = Running then card (el_allocated st' ! j) = required_ranks (el_nodes st' ! j)
      else el_allocated st' ! j = {}"
      using rk(2) rk(5,6) [of j] a(2) i by (auto simp: al' nodes nth_list_update)
  qed
  have run: "running (el_nodes st') = insert i (running (el_nodes st))"
    using i by (auto simp: running_def nodes nth_list_update)
  have "i \<notin> running (el_nodes st)" using rdy by (simp add: running_def)
  then have fi: "flight_inv st'"
    using d(4) cap run by (simp add: flight_inv_def st'_def)
  have "queue_inv (el_nodes st') (ready_queue st')"
    using d(5) q by (auto simp: queue_inv_def st'_def nodes nth_list_update)
  then show "sched_inv st'" using gi ci ri fi by (simp add: sched_inv_def)
  show op: "open_nodes (el_nodes st') = open_nodes (el_nodes st)"
    using i rdy by (auto simp: open_nodes_def nodes nth_list_update is_terminal_def)
  have "rp_rank_ids pool = rp_rank_ids (el_pool st)"
    using try_allocate_spec [OF rk(1) g(2) al(1)] by (auto split: if_splits)
  then show "evolves st st'"
    using run i rdy by (auto simp: evolves_def nodes al' nth_list_update is_terminal_def st'_def)
qed

lemma invoke_dispatch_inv:
  assumes inv: "sched_inv st" and i: "i < length (el_nodes st)" "stat (el_nodes st) i = Running"
  shows "sched_inv (invoke_dispatch clk cb i R st)" "evolves st (invoke_dispatch clk cb i R st)"
    "running (el_nodes (invoke_dispatch clk cb i R st)) \<noteq> {} \<or>
     open_nodes (el_nodes (invoke_dispatch clk cb i R st)) \<subset> open_nodes (el_nodes st)"
proof -
  have "sched_inv (invoke_dispatch clk cb i R st) \<and> evolves st (invoke_dispatch clk cb i R st)"
    using propagate_failure_inv(1) [OF inv i] propagate_failure_evolves(1) [OF inv i] inv
    by (auto simp: invoke_dispatch_def split: option.split sum.split bool.split)
  then show "sched_inv (invoke_dispatch clk cb i R st)" and e: "evolves st (invoke_dispatch clk cb i R st)" by auto
  have "i \<in> running (el_nodes st)" using i by (simp add: running_def)
  then show "running (el_nodes (invoke_dispatch clk cb i R st)) \<noteq> {} \<or>
     open_nodes (el_nodes (invoke_dispatch clk cb i R st)) \<subset> open_nodes (el_nodes st)"
    using evolvesD(5) [OF e] by auto
qed

lemma sched_inv_skip:
  assumes "sched_inv st" "ready_queue st = i # queue" "stat (el_nodes st) i \<noteq> Ready"
  shows "sched_inv (st\<lparr>ready_queue := queue\<rparr>)"
proof -
  have "rank_inv (st\<lparr>ready_queue := queue\<rparr>)" "flight_inv (st\<lparr>ready_queue := queue\<rparr>)"
    using sched_invD(3,4) [OF assms(1)] by (simp_all add: rank_inv_def flight_inv_def)
  then show ?thesis using assms by (auto simp: sched_inv_def queue_inv_def)
qed

text \<open>Dispatch never throws, and it starts a node whenever one is ready, none is running and
  the pool is large enough.\<close>

lemma dispatch_ready_nodes_inv:
  "sched_inv st \<Longrightarrow> \<exists>st'. dispatch_ready_nodes clk cb st = (None, st') \<and> sched_inv st' \<and> evolves st st' \<and>
     ((\<exists>i<length (el_nodes st). stat (el_nodes st) i = Ready) \<and> running (el_nodes st) = {} \<and>
      (\<forall>i<length (el_nodes st). required_ranks (el_nodes st ! i) \<le> length (rp_rank_ids (el_pool st))) \<longrightarrow>
      running (el_nodes st') \<noteq> {} \<or> open_nodes (el_nodes st') \<subset> open_nodes (el_nodes st))"
proof (induction clk cb st rule: dispatch_ready_nodes.induct)
  case (1 clk cb st)
  note inv = "1.prems" and d = sched_invD [OF "1.prems"]
  show ?case
  proof (cases "ready_queue st")
    case Nil
    then have "dispatch_ready_nodes clk cb st = (None, st)" by (simp add: dispatch_ready_nodes.simps)
    then show ?thesis using inv d(5) Nil by (auto simp: queue_inv_def)
  next
    case q: (Cons i queue)
    have i: "i < length (el_nodes st)" using d(5) q by (auto simp: queue_inv_def)
    show ?thesis
    proof (cases "in_flight st \<ge> el_max_concurrency st")
      case True
      then have "dispatch_ready_nodes clk cb st = (None, st)" using q by (simp add: dispatch_ready_nodes.simps)
      moreover have "running (el_nodes st) \<noteq> {}" using True d(4) by (auto simp: flight_inv_def)
      ultimately show ?thesis using inv by simp
    next
      case cap: False
      show ?thesis
      proof (cases "stat (el_nodes st) i = Ready")
        case False
        let ?st = "st\<lparr>ready_queue := queue\<rparr>"
        have "dispatch_ready_nodes clk cb st = dispatch_ready_nodes clk cb ?st"
          using q cap False by (simp add: dispatch_ready_nodes.simps [of clk cb st])
        moreover have ev: "evolves st ?st" by (rule evolves_cong) auto
        moreover from "1.IH"(1) [OF q cap False sched_inv_skip [OF inv q False]]
        obtain st' where "dispatch_ready_nodes clk cb ?st = (None, st')" "sched_inv st'" "evolves ?st st'"
          and "(\<exists>i<length (el_nodes st). stat (el_nodes st) i = Ready) \<and> running (el_nodes st) = {} \<and>
            (\<forall>i<length (el_nodes st). required_ranks (el_nodes st ! i) \<le> length (rp_rank_ids (el_pool st))) \<longrightarrow>
            running (el_nodes st') \<noteq> {} \<or> open_nodes (el_nodes st') \<subset> open_nodes (el_nodes st)"
          by (elim exE conjE) simp
        ultimately show ?thesis using evolves_trans [OF ev] by metis
      next
        case rdy: True
        note g = graph_invD [OF d(1) i] and rk = rank_invD [OF d(3)]
        obtain R pl where al: "try_allocate (required_ranks (el_nodes st ! i)) (el_pool st) = Inr (R, pl)"
          using pool.alloc_total [OF g(2), of "el_pool st"] by (auto simp: is_ok_iff)
        show ?thesis
        proof (cases "R = {}")
          case True
          note none = pool.alloc_none [OF rk(1) g(2) al [unfolded True]]
          have "dispatch_ready_nodes clk cb st = (None, st)"
            using q cap rdy al True none(1) by (simp add: dispatch_ready_nodes.simps)
          moreover have "length (rp_rank_ids (el_pool st)) < required_ranks (el_nodes st ! i)" if "running (el_nodes st) = {}"
          proof -
            have "el_allocated st ! j = {}" if "j < length (el_allocated st)" for j
              using rk(2) rk(6) [of j] that \<open>running (el_nodes st) = {}\<close> by (auto simp: running_def)
            then have "busy_set (el_pool st) = {}" unfolding rk(3) by (auto simp: in_set_conv_nth)
            then have "avail_set (el_pool st) = set (rp_rank_ids (el_pool st))" using pool_invD(5) [OF rk(1)] by simp
            then show ?thesis using none(2) distinct_card [OF pool_invD(2) [OF rk(1)]] by simp
          qed
          ultimately show ?thesis using inv i by fastforce
        next
          case False
          have cap': "in_flight st < el_max_concurrency st" using cap by simp
          define st1 where "st1 = start_node clk i R (st\<lparr>el_pool := pl\<rparr>)"
          define st2 where "st2 = invoke_dispatch clk cb i R st1"
          note s = start_node_inv [OF inv q cap' rdy al False st1_def]
          note n = invoke_dispatch_inv [OF s(1-3), of clk cb R, folded st2_def]
          have eq: "dispatch_ready_nodes clk cb st = dispatch_ready_nodes clk cb st2"
            using q cap rdy al False by (simp add: dispatch_ready_nodes.simps [of clk cb st] st1_def st2_def)
          have "\<not> tn_status (el_nodes st ! i) \<noteq> Ready" using rdy by simp
          from "1.IH"(2) [OF q cap this al refl False, folded st1_def, folded st2_def, OF n(1)]
          obtain st' where st': "dispatch_ready_nodes clk cb st2 = (None, st')" "sched_inv st'" "evolves st2 st'" by blast
          have ev: "evolves st st'" using evolves_trans [OF evolves_trans [OF s(4) n(2)] st'(3)] .
          have "running (el_nodes st') \<noteq> {} \<or> open_nodes (el_nodes st') \<subset> open_nodes (el_nodes st)"
            using n(3) s(5) evolvesD(5) [OF st'(3)] evolves_open [OF st'(3)] evolves_open [OF n(2)] by blast
          then show ?thesis using eq st' ev by auto
        qed
      qed
    qed
  qed
qed

section \<open>The cycle\<close>

lemma check_deadlock_fields [simp]:
  "el_nodes (check_deadlock clk st) = el_nodes st" "el_pool (check_deadlock clk st) = el_pool st"
  "el_allocated (check_deadlock clk st) = el_allocated st" "in_flight (check_deadlock clk st) = in_flight st"
  "el_max_concurrency (check_deadlock clk st) = el_max_concurrency st" "ready_queue (check_deadlock clk st) = ready_queue st"
  by (simp_all add: check_deadlock_def Let_def)

lemma check_deadlock_inv: "sched_inv st \<Longrightarrow> sched_inv (check_deadlock clk st)"
  by (simp add: sched_inv_def rank_inv_def flight_inv_def)

lemma poll_ready_nodes_evolves:
  assumes "sched_inv st"
  shows "evolves st (poll_ready_nodes st)" "open_nodes (el_nodes (poll_ready_nodes st)) = open_nodes (el_nodes st)"
    "running (el_nodes (poll_ready_nodes st)) = running (el_nodes st)" "el_pool (poll_ready_nodes st) = el_pool st"
proof -
  note d = sched_invD [OF assms]
  note p = poll_ready_nodes_spec [OF d(1,5)]
  have eq: "el_pool (poll_ready_nodes st) = el_pool st" "el_max_concurrency (poll_ready_nodes st) = el_max_concurrency st"
    by (simp_all add: poll_ready_nodes_def split: prod.split)
  show "el_pool (poll_ready_nodes st) = el_pool st" by (rule eq(1))
  show r: "running (el_nodes (poll_ready_nodes st)) = running (el_nodes st)"
    using p(1,2) by (auto simp: running_def split: if_splits)
  show "open_nodes (el_nodes (poll_ready_nodes st)) = open_nodes (el_nodes st)"
    using p(1,2) by (auto simp: open_nodes_def is_terminal_def split: if_splits)
  show "evolves st (poll_ready_nodes st)"
    using p(1,2) eq r by (auto simp: evolves_def same_graph_def is_terminal_def)
qed

lemma cycle_inv:
  assumes inv: "sched_inv st"
  shows "sched_inv (snd (event_cycle clk dcb ccb st))" "evolves st (snd (event_cycle clk dcb ccb st))"
    "ccb = Some (Inr cs) \<Longrightarrow> fst (event_cycle clk dcb ccb st) = Inr (all_complete (snd (event_cycle clk dcb ccb st)))"
    "ccb = None \<Longrightarrow> fst (event_cycle clk dcb ccb st) = Inr (all_complete (snd (event_cycle clk dcb ccb st)))"
proof -
  have p: "sched_inv (poll_ready_nodes st)" by (rule poll_ready_nodes_inv [OF inv])
  from dispatch_ready_nodes_inv [OF p, of clk dcb] obtain st1 where
    st1: "dispatch_ready_nodes clk dcb (poll_ready_nodes st) = (None, st1)" "sched_inv st1" "evolves (poll_ready_nodes st) st1"
    by (elim exE conjE)
  have ev: "evolves st st1" using evolves_trans [OF poll_ready_nodes_evolves(1) [OF inv] st1(3)] .
  obtain x st2 where c: "process_completions clk ccb st1 = (x, st2)" by fastforce
  have i2: "sched_inv st2" using process_completions_inv [OF st1(2), of clk ccb] c by simp
  have "evolves st1 st2" using fold_completion [OF st1(2)] c
    by (auto simp: process_completions_def split: option.splits sum.splits)
  then have e2: "evolves st st2" using evolves_trans [OF ev] by blast
  have e3: "evolves st (check_deadlock clk st2)" using evolves_trans [OF e2 evolves_cong] by simp
  show "sched_inv (snd (event_cycle clk dcb ccb st))" "evolves st (snd (event_cycle clk dcb ccb st))"
    using st1(1) c i2 e2 e3 check_deadlock_inv [OF i2] by (auto simp: event_cycle_def Let_def split: option.split)
  show "ccb = Some (Inr cs) \<Longrightarrow> fst (event_cycle clk dcb ccb st) = Inr (all_complete (snd (event_cycle clk dcb ccb st)))"
    "ccb = None \<Longrightarrow> fst (event_cycle clk dcb ccb st) = Inr (all_complete (snd (event_cycle clk dcb ccb st)))"
    using st1(1) by (auto simp: event_cycle_def Let_def process_completions_def)
qed

text \<open>On an acyclic graph an open node is running or has become ready after polling.\<close>

lemma open_node_ready:
  assumes inv: "sched_inv st" and ac: "acyclic (node_rel (el_nodes st))" and op: "open_nodes (el_nodes st) \<noteq> {}"
    and nr: "running (el_nodes st) = {}"
  shows "\<exists>i<length (el_nodes (poll_ready_nodes st)). stat (el_nodes (poll_ready_nodes st)) i = Ready"
proof -
  let ?ns = "el_nodes st"
  note d = sched_invD [OF inv]
  have "finite (node_rel ?ns)"
    by (rule finite_subset [of _ "(\<Union>i\<in>{..<length ?ns}. Pair i ` set (dependents (?ns ! i)))"]) (auto simp: node_rel_def)
  then have wf: "wf (node_rel ?ns)" using ac finite_acyclic_wf by blast
  obtain v where "v \<in> open_nodes ?ns" using op by blast
  from wfE_min [OF wf this] obtain m where m: "m \<in> open_nodes ?ns" and min: "\<And>u. (u, m) \<in> node_rel ?ns \<Longrightarrow> u \<notin> open_nodes ?ns"
    by blast
  have ml: "m < length ?ns" "\<not> is_terminal (stat ?ns m)" using m by (auto simp: open_nodes_def)
  have "open_in ?ns m = 0"
    unfolding open_in_zero
  proof (intro allI impI)
    fix u assume u: "u < length ?ns" "m \<in> set (dependents (?ns ! u))"
    then have "is_terminal (stat ?ns u)" using min [of u] by (auto simp: node_rel_def open_nodes_def)
    moreover have "stat ?ns u \<notin> {Failed, Cancelled}"
      using cancel_invD [OF d(2) u(1) _ u(2)] ml(2) by (auto simp: is_terminal_def)
    ultimately show "stat ?ns u = Completed" by (auto simp: is_terminal_def)
  qed
  moreover have "stat ?ns m = Pending \<or> stat ?ns m = Ready"
    using ml nr by (cases "stat ?ns m") (auto simp: is_terminal_def running_def)
  ultimately have "stat (el_nodes (poll_ready_nodes st)) m = Ready"
    using poll_ready_nodes_spec(2) [OF d(1,5) ml(1)] by auto
  then show ?thesis using poll_ready_nodes_spec(1) [OF d(1,5)] ml(1) by auto
qed

definition enough_ranks :: "Event_Loop \<Rightarrow> bool" where
  "enough_ranks st \<longleftrightarrow> (\<forall>i<length (el_nodes st). required_ranks (el_nodes st ! i) \<le> length (rp_rank_ids (el_pool st)))"

lemma enough_ranks_evolves: "evolves st st' \<Longrightarrow> enough_ranks st' = enough_ranks st"
  by (auto simp: enough_ranks_def evolves_def same_graph_def)

lemma cycle_progress:
  assumes inv: "sched_inv st" and ac: "acyclic (node_rel (el_nodes st))" and er: "enough_ranks st"
    and op: "open_nodes (el_nodes st) \<noteq> {}" and cs: "{..<length (el_nodes st)} \<subseteq> fst ` set cs"
  shows "open_nodes (el_nodes (snd (event_cycle clk dcb (Some (Inr cs)) st))) \<subset> open_nodes (el_nodes st)"
proof -
  let ?p = "poll_ready_nodes st"
  note pe = poll_ready_nodes_evolves [OF inv]
  have p: "sched_inv ?p" by (rule poll_ready_nodes_inv [OF inv])
  have er': "enough_ranks ?p" using enough_ranks_evolves [OF pe(1)] er by simp
  from dispatch_ready_nodes_inv [OF p, of clk dcb] obtain st1 where
    st1: "dispatch_ready_nodes clk dcb ?p = (None, st1)" "sched_inv st1" "evolves ?p st1"
    and pr: "(\<exists>i<length (el_nodes ?p). stat (el_nodes ?p) i = Ready) \<and> running (el_nodes ?p) = {} \<and> enough_ranks ?p \<longrightarrow>
      running (el_nodes st1) \<noteq> {} \<or> open_nodes (el_nodes st1) \<subset> open_nodes (el_nodes ?p)"
    unfolding enough_ranks_def by (elim exE conjE)
  let ?s2 = "fold (process_completion clk) cs st1"
  have eq: "el_nodes (snd (event_cycle clk dcb (Some (Inr cs)) st)) = el_nodes ?s2"
    using st1(1) by (simp add: event_cycle_def Let_def process_completions_def)
  note fc = fold_completion [OF st1(2), of clk cs]
  have sub: "open_nodes (el_nodes ?s2) \<subseteq> open_nodes (el_nodes st1)" "open_nodes (el_nodes st1) \<subseteq> open_nodes (el_nodes st)"
    using evolves_open [OF st1(3)] evolves_open [of st1 ?s2] fc pe(2) by auto
  have "running (el_nodes st1) \<noteq> {} \<or> open_nodes (el_nodes st1) \<subset> open_nodes (el_nodes st)"
  proof (cases "running (el_nodes st) = {}")
    case True
    then show ?thesis using pr open_node_ready [OF inv ac op True] er' pe(2,3) by simp
  next
    case False
    then show ?thesis using evolvesD(5) [OF st1(3)] pe(2,3) by auto
  qed
  then show ?thesis
  proof
    assume "running (el_nodes st1) \<noteq> {}"
    then obtain i where i: "i < length (el_nodes st1)" "stat (el_nodes st1) i = Running" by (auto simp: running_def)
    have "length (el_nodes st1) = length (el_nodes st)" using evolvesD(6) [OF st1(3)] evolvesD(6) [OF pe(1)] by simp
    then have "i \<in> fst ` set cs" using cs i(1) by auto
    then have "is_terminal (stat (el_nodes ?s2) i)" using fold_completion_ends [OF st1(2) i(1), of cs clk] i(2) by simp
    then have "i \<notin> open_nodes (el_nodes ?s2)" "i \<in> open_nodes (el_nodes st1)"
      using i by (auto simp: open_nodes_def is_terminal_def)
    then show ?thesis using eq sub by auto
  next
    assume "open_nodes (el_nodes st1) \<subset> open_nodes (el_nodes st)"
    then show ?thesis using eq sub by auto
  qed
qed

section \<open>From a configuration to any number of cycles\<close>

definition start_loop :: "(nat \<Rightarrow> int) \<Rightarrow> nat \<Rightarrow> Pipeline_Config \<Rightarrow> Rank_Pool \<Rightarrow> Event_Loop result" where
  "start_loop clk reads cfg rank_pool =
     mk_event_loop clk reads (pc_max_concurrency cfg) (pc_deadlock_timeout_s cfg) (populate_nodes cfg) rank_pool"

lemma populate_node_rel:
  assumes "config_fits cfg" "valid_graph cfg"
  shows "node_rel (populate_nodes cfg) = edge_rel (pc_edges cfg)"
  using populate_nodes_spec [OF assms] assms(2) set_succs [of _ "pc_edges cfg"]
  by (auto simp: node_rel_def valid_graph_def)

lemma populate_graph_inv:
  assumes fit: "config_fits cfg" and v: "valid_graph cfg"
  shows "graph_inv (populate_nodes cfg)" "cancel_inv (populate_nodes cfg)"
proof -
  let ?n = "length (pc_task_names cfg)" and ?es = "pc_edges cfg"
  note p = populate_nodes_spec [OF fit v]
  have o: "open_in (populate_nodes cfg) j = length (preds ?es j)" if "j < ?n" for j
  proof -
    have "open_in (populate_nodes cfg) j = (\<Sum>i<?n. count_list (preds ?es j) i)"
      unfolding open_in_def p(1) using p(2) by (intro sum.cong) (auto simp: count_succs_preds)
    also have "\<dots> = length (preds ?es j)"
      using v set_preds [of _ ?es j] by (intro sum_count_set) (auto simp: valid_graph_def)
    finally show ?thesis .
  qed
  have "set (succs ?es i) \<subseteq> {..<?n}" for i using v set_succs [of _ ?es i] by (auto simp: valid_graph_def)
  then show "graph_inv (populate_nodes cfg)" using p o by (simp add: graph_inv_def)
  show "cancel_inv (populate_nodes cfg)" using p by (simp add: cancel_inv_def)
qed

lemma start_loop_inv:
  assumes fit: "config_fits cfg" and v: "valid_graph cfg" and pl: "pool_inv pl" "busy_set pl = {}"
    and st: "start_loop clk reads cfg pl = Inr st"
  shows "sched_inv st" "el_nodes st = populate_nodes cfg" "el_pool st = pl"
proof -
  note p = populate_nodes_spec [OF fit v]
  have s: "el_nodes st = populate_nodes cfg" "el_pool st = pl" "ready_queue st = []" "in_flight st = 0"
    "el_allocated st = replicate (length (populate_nodes cfg)) {}" "el_max_concurrency st = pc_max_concurrency cfg"
    "1 \<le> pc_max_concurrency cfg" "pc_max_concurrency cfg \<le> 1024"
    using st by (auto simp: start_loop_def mk_event_loop_def)
  show "el_nodes st = populate_nodes cfg" "el_pool st = pl" by (rule s)+
  have "running (el_nodes st) = {}" using p s(1) by (auto simp: running_def)
  moreover have "rank_inv st" using pl s p by (auto simp: rank_inv_def)
  ultimately show "sched_inv st"
    using populate_graph_inv [OF fit v] s p by (auto simp: sched_inv_def flight_inv_def queue_inv_def)
qed

type_synonym loop_input = "dispatch_callback option \<times> completions result option"

fun run_cycles :: "(nat \<Rightarrow> int) \<Rightarrow> loop_input list \<Rightarrow> Event_Loop \<Rightarrow> Event_Loop" where
  "run_cycles clk [] st = st"
| "run_cycles clk ((dcb, ccb) # envs) st = run_cycles clk envs (snd (event_cycle clk dcb ccb st))"

lemma run_cycles_inv: "sched_inv st \<Longrightarrow> sched_inv (run_cycles clk envs st) \<and> evolves st (run_cycles clk envs st)"
proof (induction clk envs st rule: run_cycles.induct)
  case (2 clk dcb ccb envs st)
  then show ?case using cycle_inv(1,2) [OF 2(2), of clk dcb ccb] evolves_trans by auto
qed simp

text \<open>
  C1. The schedule is safe: from the start state of any valid configuration and after any number of
  cycles with any callbacks, a task is ready, running, completed or failed only when every
  producer it depends on has completed; running tasks hold disjoint sets of ranks of exactly the
  requested size, which together are the allocated ranks of the pool; the in-flight counter is the number
  of running tasks and within the configured maximum; and every dependency counter is the
  number of dependency edges from tasks that have not completed, so it never wraps below zero.
\<close>

theorem schedule_safe:
  assumes "config_fits cfg" "valid_graph cfg" "finite ranks"
    and "start_loop clk reads cfg (mk_rank_pool ranks) = Inr st0" and "st = run_cycles clk envs st0"
    and "(i, j) \<in> edge_rel (pc_edges cfg)" "k < length (pc_task_names cfg)" "l < length (pc_task_names cfg)"
  shows "(stat (el_nodes st) j \<in> {Ready, Running, Completed, Failed} \<longrightarrow> stat (el_nodes st) i = Completed) \<and>
    (stat (el_nodes st) k = Running \<longrightarrow> card (el_allocated st ! k) = 1) \<and>
    (k \<noteq> l \<longrightarrow> el_allocated st ! k \<inter> el_allocated st ! l = {}) \<and>
    busy_set (el_pool st) = \<Union> (set (el_allocated st)) \<and>
    in_flight st = card {k. k < length (pc_task_names cfg) \<and> stat (el_nodes st) k = Running} \<and>
    in_flight st \<le> pc_max_concurrency cfg \<and> pending_deps (el_nodes st ! k) = open_in (el_nodes st) k"
proof -
  have pl: "pool_inv (mk_rank_pool ranks)" "busy_set (mk_rank_pool ranks) = {}"
    using mk_rank_pool_inv [OF assms(3)] by auto
  note s0 = start_loop_inv [OF assms(1,2) pl assms(4)] and p = populate_nodes_spec [OF assms(1,2)]
  have inv: "sched_inv st" and ev: "evolves st0 st" using run_cycles_inv [OF s0(1)] assms(5) by auto
  note d = sched_invD [OF inv] and e = evolvesD [OF ev]
  have len: "length (el_nodes st) = length (pc_task_names cfg)" using e(6) s0(2) p(1) by simp
  have rel: "(i, j) \<in> node_rel (el_nodes st)"
    using same_graph_node_rel [OF e(1)] populate_node_rel [OF assms(1,2)] s0(2) assms(6) by simp
  then have ij: "i < length (el_nodes st)" "j \<in> set (dependents (el_nodes st ! i))" by (auto simp: node_rel_def)
  have "stat (el_nodes st) i = Completed" if "stat (el_nodes st) j \<in> {Ready, Running, Completed, Failed}"
    using dependent_pending(2) [OF d(1) ij(1) _ ij(2)] that by (cases "stat (el_nodes st) i = Completed") auto
  moreover have "required_ranks (el_nodes st ! k) = 1"
    using e(1) s0(2) p assms(7) by (simp add: same_graph_def)
  moreover have "el_max_concurrency st = pc_max_concurrency cfg"
    using e(7) assms(4) by (auto simp: start_loop_def mk_event_loop_def)
  ultimately show ?thesis
    using rank_invD(3) [OF d(3)] rank_invD(4,5) [OF d(3), of k] graph_invD(4) [OF d(1), of k] d(4) len assms(7,8)
    by (auto simp: flight_inv_def running_def)
qed

text \<open>
  C7. A failure cancels exactly its transitive dependents: when a running task fails, the task becomes
  failed, every task reachable from it along dependency edges becomes cancelled, no other
  task changes, its ranks return to the pool and the in-flight count drops by one.
\<close>

theorem failure_cancels_dependents:
  assumes "sched_inv st" "f < length (el_nodes st)" "stat (el_nodes st) f = Running" "j < length (el_nodes st)"
  shows "el_nodes (propagate_failure clk f st) ! j = (el_nodes st ! j)\<lparr>tn_status :=
      if j = f then Failed else if (f, j) \<in> (node_rel (el_nodes st))\<^sup>+ then Cancelled else stat (el_nodes st) j\<rparr> \<and>
    avail_set (el_pool (propagate_failure clk f st)) = avail_set (el_pool st) \<union> el_allocated st ! f \<and>
    in_flight (propagate_failure clk f st) + 1 = in_flight st \<and> sched_inv (propagate_failure clk f st)"
  using fail_nodes_status [OF sched_invD(1,2) [OF assms(1)] assms(2-4)] propagate_failure_fields [OF assms(1-3), of clk]
    propagate_failure_inv [OF assms(1-3), of clk]
    running_nonempty_alloc(2) [OF sched_invD(1,3,4) [OF assms(1)] assms(2,3)]
  by simp

lemma run_cycles_measure:
  assumes "sched_inv st" "acyclic (node_rel (el_nodes st))" "enough_ranks st"
    and "\<forall>(dcb, ccb)\<in>set envs. \<exists>cs. ccb = Some (Inr cs) \<and> {..<length (el_nodes st)} \<subseteq> fst ` set cs"
  shows "card (open_nodes (el_nodes (run_cycles clk envs st))) \<le> card (open_nodes (el_nodes st)) - length envs"
  using assms
proof (induction envs arbitrary: st)
  case (Cons e envs)
  obtain dcb ccb where e: "e = (dcb, ccb)" by (cases e)
  obtain cs where cs: "ccb = Some (Inr cs)" "{..<length (el_nodes st)} \<subseteq> fst ` set cs" using Cons.prems(4) e by auto
  let ?st = "snd (event_cycle clk dcb ccb st)"
  note i = cycle_inv(1,2) [OF Cons.prems(1), of clk dcb ccb]
  note v = evolvesD [OF i(2)]
  have "card (open_nodes (el_nodes (run_cycles clk envs ?st))) \<le> card (open_nodes (el_nodes ?st)) - length envs"
    using Cons.prems(2,3,4) i(1) same_graph_node_rel [OF v(1)] enough_ranks_evolves [OF i(2)] v(6)
    by (intro Cons.IH) auto
  moreover have "card (open_nodes (el_nodes ?st)) \<le> card (open_nodes (el_nodes st)) - 1"
  proof (cases "open_nodes (el_nodes st) = {}")
    case True
    then show ?thesis using evolves_open [OF i(2)] by simp
  next
    case False
    then have "open_nodes (el_nodes ?st) \<subset> open_nodes (el_nodes st)"
      using cycle_progress [OF Cons.prems(1-3) _ cs(2), of clk dcb] cs(1) by simp
    from psubset_card_mono [OF _ this] show ?thesis by simp
  qed
  ultimately show ?case using e by simp
qed simp

text \<open>
  C2. The scheduler terminates: for a valid configuration, a pool of at least one rank and callbacks that
  report every in-flight task as succeeded or failed in each cycle (reports on other tasks
  are ignored), all tasks have reached a terminal state after as many cycles as there are
  tasks, whatever the dispatch callback answers or throws.
\<close>

theorem schedule_terminates:
  assumes "config_fits cfg" "valid_graph cfg" "finite ranks" "ranks \<noteq> {}"
    and "start_loop clk reads cfg (mk_rank_pool ranks) = Inr st0"
    and "length envs = length (pc_task_names cfg)"
    and "\<forall>(dcb, ccb)\<in>set envs. \<exists>cs. ccb = Some (Inr cs) \<and> {..<length (pc_task_names cfg)} \<subseteq> fst ` set cs"
  shows "all_complete (run_cycles clk envs st0)"
proof -
  have pl: "pool_inv (mk_rank_pool ranks)" "busy_set (mk_rank_pool ranks) = {}"
    using mk_rank_pool_inv [OF assms(3)] by auto
  note s0 = start_loop_inv [OF assms(1,2) pl assms(5)] and p = populate_nodes_spec [OF assms(1,2)]
  have "acyclic (node_rel (el_nodes st0))"
    using populate_node_rel [OF assms(1,2)] s0(2) assms(2) by (simp add: valid_graph_def)
  moreover have "0 < length (rp_rank_ids (mk_rank_pool ranks))"
    using assms(3,4) by (simp add: mk_rank_pool_def card_gt_0_iff)
  then have "enough_ranks st0" using s0(2,3) p by (simp add: enough_ranks_def Suc_le_eq)
  moreover have len: "length (el_nodes st0) = length (pc_task_names cfg)" using s0(2) p(1) by simp
  ultimately have "card (open_nodes (el_nodes (run_cycles clk envs st0))) \<le> card (open_nodes (el_nodes st0)) - length envs"
    using assms(7) s0(1) by (intro run_cycles_measure) auto
  moreover have "card (open_nodes (el_nodes st0)) \<le> length (el_nodes st0)"
    using card_mono [of "{..<length (el_nodes st0)}" "open_nodes (el_nodes st0)"] by (auto simp: open_nodes_def)
  ultimately have "open_nodes (el_nodes (run_cycles clk envs st0)) = {}" using len assms(6) by simp
  then show ?thesis by (simp add: all_complete_open)
qed

section \<open>Witnesses\<close>

lemma diamond_start:
  "\<exists>st0. start_loop (\<lambda>_. 0) 0 diamond (mk_rank_pool {0, 1}) = Inr st0"
  by (simp add: start_loop_def mk_event_loop_def diamond_def)

theorem schedule_safe_witness:
  "\<exists>st0 st. start_loop (\<lambda>_. 0) 0 diamond (mk_rank_pool {0, 1}) = Inr st0 \<and>
     st = run_cycles (\<lambda>_. 0) [(None, Some (Inr [(0, True)])), (None, Some (Inr [(2, False)]))] st0 \<and>
     (stat (el_nodes st) 3 = Running \<longrightarrow> stat (el_nodes st) 1 = Completed) \<and> in_flight st \<le> 2"
proof -
  obtain st0 where st0: "start_loop (\<lambda>_. 0) 0 diamond (mk_rank_pool {0, 1}) = Inr st0" using diamond_start by blast
  define st where "st = run_cycles (\<lambda>_. 0) [(None, Some (Inr [(0, True)])), (None, Some (Inr [(2, False)]))] st0"
  have d: "(1, 3) \<in> edge_rel (pc_edges diamond)" "0 < length (pc_task_names diamond)" "pc_max_concurrency diamond = 2"
    by (simp_all add: diamond_def)
  have "(stat (el_nodes st) 3 = Running \<longrightarrow> stat (el_nodes st) 1 = Completed) \<and> in_flight st \<le> 2"
    using schedule_safe [OF diamond_fits diamond_valid _ st0 st_def d(1,2,2)] d(3) by auto
  then show ?thesis using st0 st_def by blast
qed

theorem schedule_terminates_witness:
  "\<exists>st0. start_loop (\<lambda>_. 0) 0 diamond (mk_rank_pool {0, 1}) = Inr st0 \<and>
     all_complete (run_cycles (\<lambda>_. 0)
       (replicate 4 (None, Some (Inr [(0, True), (1, True), (2, False), (3, True)]))) st0)"
proof -
  obtain st0 where st0: "start_loop (\<lambda>_. 0) 0 diamond (mk_rank_pool {0, 1}) = Inr st0" using diamond_start by blast
  have "{..<length (pc_task_names diamond)} \<subseteq> fst ` set [(0, True), (1, True), (2, False), (3, True)]"
    by (auto simp: diamond_def)
  then have "all_complete (run_cycles (\<lambda>_. 0)
       (replicate 4 (None, Some (Inr [(0, True), (1, True), (2, False), (3, True)]))) st0)"
    by (intro schedule_terminates [OF diamond_fits diamond_valid _ _ st0]) (simp_all add: diamond_def)
  then show ?thesis using st0 by blast
qed

definition two_task_loop :: Event_Loop where
  "two_task_loop = \<lparr>el_max_concurrency = 4, el_deadlock_timeout_s = 30,
     el_nodes = [\<lparr>tn_id = 0, tn_name = ''a'', pending_deps = 0, tn_status = Running, required_ranks = 1, dependents = [1]\<rparr>,
                 \<lparr>tn_id = 1, tn_name = ''b'', pending_deps = 1, tn_status = Pending, required_ranks = 1, dependents = []\<rparr>],
     el_pool = \<lparr>rp_rank_ids = [0, 5], rp_bitset = [False, True], rp_total = 2, rp_available = 1\<rparr>,
     ready_queue = [], in_flight = 1, el_allocated = [{0}, {}], last_progress_time = 0,
     deadlock_warned = False, el_reads = 0, el_log = []\<rparr>"

lemma two_task_inv: "sched_inv two_task_loop"
proof -
  have av: "avail_set \<lparr>rp_rank_ids = [0, 5], rp_bitset = [False, True], rp_total = 2, rp_available = 1\<rparr> = {5}"
    "busy_set \<lparr>rp_rank_ids = [0, 5], rp_bitset = [False, True], rp_total = 2, rp_available = 1\<rparr> = {0}"
    by (auto simp: avail_set_def busy_set_def)
  have "running (el_nodes two_task_loop) = {0}"
    by (auto simp: running_def two_task_loop_def less_Suc_eq)
  then have "flight_inv two_task_loop" by (simp add: flight_inv_def two_task_loop_def)
  moreover have "graph_inv (el_nodes two_task_loop)"
    by (simp add: graph_inv_def two_task_loop_def open_in_def All_less_Suc lessThan_Suc)
  moreover have "cancel_inv (el_nodes two_task_loop)"
    by (simp add: cancel_inv_def two_task_loop_def All_less_Suc)
  moreover have "rank_inv two_task_loop"
    by (simp add: rank_inv_def two_task_loop_def All_less_Suc pool_inv_def av [unfolded One_nat_def])
  moreover have "queue_inv (el_nodes two_task_loop) (ready_queue two_task_loop)"
    by (simp add: queue_inv_def two_task_loop_def All_less_Suc)
  ultimately show ?thesis by (simp add: sched_inv_def)
qed

theorem failure_cancels_dependents_witness:
  "stat (el_nodes (propagate_failure (\<lambda>_. 0) 0 two_task_loop)) 1 = Cancelled"
proof -
  have "(0, 1) \<in> node_rel (el_nodes two_task_loop)" by (simp add: node_rel_def two_task_loop_def)
  then have "(0, 1) \<in> (node_rel (el_nodes two_task_loop))\<^sup>+" by blast
  moreover have "0 < length (el_nodes two_task_loop)" "stat (el_nodes two_task_loop) 0 = Running" "1 < length (el_nodes two_task_loop)"
    by (simp_all add: two_task_loop_def)
  ultimately show ?thesis using failure_cancels_dependents [OF two_task_inv, of 0 1 "\<lambda>_. 0"] by simp
qed

end
