(* ===== verification/Dagr_Orchestrator.thy ===== *)
theory Dagr_Orchestrator
  imports Dagr_Progress Tick_Date
begin

text \<open>
  The orchestrator of DAGR: \<^verbatim>\<open>dagr/dagr.hpp\<close> and \<^verbatim>\<open>dagr/src/graph_orchestrator.cpp\<close>.

  \<open>'c Impl\<close> holds the members of \<open>GraphOrchestrator::Impl\<close>; the node vector and the rank pool
  are inside the event loop's record. \<open>'c\<close> stands for \<open>halo::Communicator\<close>: of the world
  communicator only its size is used, and what \<open>split\<close> returns is an argument. An orchestrator is
  \<open>None\<close> after it was moved from. The callbacks that \<open>run\<close> installs are fixed (one logs and
  returns true, the other returns no completions), so a flag says whether they are set.
  INFO and DEBUG log lines are not kept. Loops that may not end run on fuel, with \<open>None\<close> for a
  loop that has not ended.
\<close>

section \<open>Construction\<close>

record 'c Impl =
  im_config :: Pipeline_Config
  im_loop :: Event_Loop
  shut_down :: bool
  deferred_reclaim :: "int set"
  callbacks_set :: bool
  task_communicators :: "'c option list"
  comm_creation_order :: "nat list"

type_synonym 'c GraphOrchestrator = "'c Impl option"

definition build_rank_pool :: "int \<Rightarrow> Rank_Pool" where
  "build_rank_pool world_size = mk_rank_pool (set [0..world_size - 1])"

definition default_node :: TaskNode where
  "default_node = \<lparr>tn_id = 0, tn_name = [], pending_deps = 0, tn_status = Pending, required_ranks = 1, dependents = []\<rparr>"

definition build_event_loop ::
  "(nat \<Rightarrow> int) \<Rightarrow> nat \<Rightarrow> Pipeline_Config \<Rightarrow> TaskNode list \<Rightarrow> Rank_Pool \<Rightarrow> Event_Loop result" where
  "build_event_loop clk reads cfg nodes pool =
     mk_event_loop clk reads (pc_max_concurrency cfg) (pc_deadlock_timeout_s cfg) nodes pool"

definition mk_impl :: "(nat \<Rightarrow> int) \<Rightarrow> nat \<Rightarrow> nat \<Rightarrow> Pipeline_Config \<Rightarrow> int \<Rightarrow> 'c Impl result option" where
  "mk_impl clk reads fuel cfg world_size =
     map_option (\<lambda>count. bindR count (\<lambda>n.
       mapR (\<lambda>loop. \<lparr>im_config = cfg, im_loop = loop\<lparr>el_nodes := populate_nodes cfg\<rparr>, shut_down = False,
                     deferred_reclaim = {}, callbacks_set = False,
                     task_communicators = replicate n None, comm_creation_order = []\<rparr>)
         (build_event_loop clk reads cfg (replicate n default_node) (build_rank_pool world_size))))
       (validated_node_count fuel cfg)"

section \<open>Communicators of tasks\<close>

definition create_task_communicator :: "nat \<Rightarrow> 'c result \<Rightarrow> 'c Impl \<Rightarrow> unit result \<times> 'c Impl" where
  "create_task_communicator node_id split_result im =
     (case split_result of
        Inl e \<Rightarrow> (Inl e, im)
      | Inr sub_comm \<Rightarrow>
          (Inr (), im\<lparr>task_communicators := (task_communicators im)[node_id := Some sub_comm],
                      comm_creation_order := comm_creation_order im @ [node_id]\<rparr>))"

definition has_communicator :: "nat \<Rightarrow> 'c Impl \<Rightarrow> bool" where
  "has_communicator node_id im \<longleftrightarrow>
     node_id < length (task_communicators im) \<and> task_communicators im ! node_id \<noteq> None"

definition destroy_cancelled_communicator :: "nat \<Rightarrow> 'c Impl \<Rightarrow> 'c Impl" where
  "destroy_cancelled_communicator node_id im =
     (if has_communicator node_id im
      then im\<lparr>task_communicators := (task_communicators im)[node_id := None],
              comm_creation_order := filter (\<lambda>i. i \<noteq> node_id) (comm_creation_order im)\<rparr>
      else im)"

definition release_task_communicator :: "nat \<Rightarrow> 'c Impl \<Rightarrow> 'c Impl" where
  "release_task_communicator node_id im =
     (if has_communicator node_id im
      then im\<lparr>task_communicators := (task_communicators im)[node_id := None],
              comm_creation_order := filter (\<lambda>i. i \<noteq> node_id) (comm_creation_order im)\<rparr>
      else im)"

text \<open>The destructor: the communicators it frees, in the order it frees them.\<close>

fun destroy_in_order :: "nat list \<Rightarrow> 'c option list \<Rightarrow> 'c list \<times> 'c option list" where
  "destroy_in_order [] comms = ([], comms)"
| "destroy_in_order (node_id # rest) comms =
     (if node_id < length comms then
        case comms ! node_id of
          None \<Rightarrow> destroy_in_order rest comms
        | Some c \<Rightarrow> (case destroy_in_order rest (comms[node_id := None]) of (freed, cs) \<Rightarrow> (c # freed, cs))
      else destroy_in_order rest comms)"

definition destroy_impl :: "'c Impl \<Rightarrow> 'c list \<times> 'c Impl" where
  "destroy_impl im =
     (case destroy_in_order (rev (comm_creation_order im)) (task_communicators im) of (freed, cs) \<Rightarrow>
        (freed, im\<lparr>task_communicators := cs, comm_creation_order := []\<rparr>))"

section \<open>Scheduling\<close>

definition process_deferred_reclamation :: "'c Impl \<Rightarrow> 'c Impl" where
  "process_deferred_reclamation im =
     (if deferred_reclaim im = {} then im
      else case remove_available (deferred_reclaim im) (el_pool (im_loop im)) of (removed, pool) \<Rightarrow>
        im\<lparr>im_loop := (im_loop im)\<lparr>el_pool := pool\<rparr>, deferred_reclaim := deferred_reclaim im - removed\<rparr>)"

definition has_failed_node :: "'c Impl \<Rightarrow> bool" where
  "has_failed_node im = list_ex (\<lambda>node. tn_status node = Failed) (el_nodes (im_loop im))"

definition failed_node_message :: "'c Impl \<Rightarrow> string" where
  "failed_node_message im =
     (case List.find (\<lambda>node. tn_status node = Failed) (el_nodes (im_loop im)) of
        Some node \<Rightarrow> ''TaskNode '' @ [CHR 0x27] @ tn_name node @ [CHR 0x27] @ '' (id='' @ dec_digits (tn_id node) @
                     '') failed during execution''
      | None \<Rightarrow> ''unknown failure'')"

definition orchestrator_cycle :: "(nat \<Rightarrow> int) \<Rightarrow> 'c Impl \<Rightarrow> bool result \<times> 'c Impl" where
  "orchestrator_cycle clk im =
     (case event_cycle clk (if callbacks_set im then Some (\<lambda>_ _. Inr True) else None)
             (if callbacks_set im then Some (Inr []) else None) (im_loop im) of
        (Inl e, st) \<Rightarrow> (Inl e, im\<lparr>im_loop := st\<rparr>)
      | (Inr b, st) \<Rightarrow> (Inr b, process_deferred_reclamation (im\<lparr>im_loop := st\<rparr>)))"

fun run_loop :: "(nat \<Rightarrow> int) \<Rightarrow> nat \<Rightarrow> 'c Impl \<Rightarrow> (unit result \<times> 'c Impl) option" where
  "run_loop clk fuel im =
     (if all_complete (im_loop im) then Some (Inr (), im)
      else case fuel of
             0 \<Rightarrow> None
           | Suc fuel' \<Rightarrow>
               (case orchestrator_cycle clk im of
                  (Inl e, im') \<Rightarrow> Some (Inl e, im')
                | (Inr _, im') \<Rightarrow> run_loop clk fuel' im'))"

definition run :: "(nat \<Rightarrow> int) \<Rightarrow> nat \<Rightarrow> 'c GraphOrchestrator \<Rightarrow> (unit result \<times> 'c GraphOrchestrator) option" where
  "run clk fuel g =
     (case g of
        None \<Rightarrow> Some (Inr (), g)
      | Some im \<Rightarrow>
          if shut_down im then Some (Inr (), g)
          else case run_loop clk fuel (im\<lparr>callbacks_set := True\<rparr>) of
                 None \<Rightarrow> None
               | Some (Inl e, im') \<Rightarrow> Some (Inl e, Some im')
               | Some (Inr _, im') \<Rightarrow>
                   if has_failed_node im' then Some (Inl (Runtime_error (failed_node_message im')), Some im')
                   else Some (Inr (), Some im'))"

definition advance_step :: "(nat \<Rightarrow> int) \<Rightarrow> 'c GraphOrchestrator \<Rightarrow> bool result \<times> 'c GraphOrchestrator" where
  "advance_step clk g =
     (case g of
        None \<Rightarrow> (Inr True, g)
      | Some im \<Rightarrow>
          if shut_down im then (Inr True, g)
          else case orchestrator_cycle clk im of (r, im') \<Rightarrow> (r, Some im'))"

fun drain_loop :: "(nat \<Rightarrow> int) \<Rightarrow> nat \<Rightarrow> int \<Rightarrow> int \<Rightarrow> 'c Impl \<Rightarrow> (unit result \<times> 'c Impl) option" where
  "drain_loop clk fuel start timeout im =
     (if in_flight (im_loop im) > 0 then
        case fuel of
          0 \<Rightarrow> None
        | Suc fuel' \<Rightarrow>
            let elapsed = clk (el_reads (im_loop im)) - start;
                st = (im_loop im)\<lparr>el_reads := el_reads (im_loop im) + 1\<rparr>
            in if elapsed \<ge> timeout then Some (Inr (), im\<lparr>im_loop := force_cancel_in_flight clk st\<rparr>)
               else (case orchestrator_cycle clk (im\<lparr>im_loop := st\<rparr>) of
                       (Inl e, im') \<Rightarrow> Some (Inl e, im')
                     | (Inr _, im') \<Rightarrow> drain_loop clk fuel' start timeout im')
      else Some (Inr (), im))"

declare run_loop.simps [simp del] drain_loop.simps [simp del]

definition shutdown :: "(nat \<Rightarrow> int) \<Rightarrow> nat \<Rightarrow> 'c GraphOrchestrator \<Rightarrow> (unit result \<times> 'c GraphOrchestrator) option" where
  "shutdown clk fuel g =
     (case g of
        None \<Rightarrow> Some (Inr (), g)
      | Some im \<Rightarrow>
          if shut_down im then Some (Inr (), g)
          else
            let timeout = int (pc_shutdown_timeout_s (im_config im)) * 1000000000;
                start = clk (el_reads (im_loop im));
                im1 = im\<lparr>im_loop := (im_loop im)\<lparr>el_reads := el_reads (im_loop im) + 1\<rparr>\<rparr>
            in case drain_loop clk fuel start timeout im1 of
                 None \<Rightarrow> None
               | Some (Inl e, im') \<Rightarrow> Some (Inl e, Some im')
               | Some (Inr _, im') \<Rightarrow> Some (Inr (), Some (im'\<lparr>shut_down := True\<rparr>)))"

section \<open>Ranks and accessors\<close>

definition yield_ranks :: "int set \<Rightarrow> 'c GraphOrchestrator \<Rightarrow> 'c GraphOrchestrator" where
  "yield_ranks rank_set g =
     (case g of
        None \<Rightarrow> g
      | Some im \<Rightarrow>
          if shut_down im then g
          else Some (im\<lparr>im_loop := (im_loop im)\<lparr>el_pool := add_ranks rank_set (el_pool (im_loop im))\<rparr>\<rparr>))"

definition reclaim_ranks :: "int set \<Rightarrow> 'c GraphOrchestrator \<Rightarrow> 'c GraphOrchestrator" where
  "reclaim_ranks rank_set g =
     (case g of
        None \<Rightarrow> g
      | Some im \<Rightarrow>
          if shut_down im then g
          else case remove_available rank_set (el_pool (im_loop im)) of (removed, pool) \<Rightarrow>
            Some (im\<lparr>im_loop := (im_loop im)\<lparr>el_pool := pool\<rparr>,
                     deferred_reclaim := deferred_reclaim im \<union> (rank_set - removed)\<rparr>))"

definition total_ranks :: "'c GraphOrchestrator \<Rightarrow> nat" where
  "total_ranks g = (case g of None \<Rightarrow> 0 | Some im \<Rightarrow> rp_total (el_pool (im_loop im)))"

definition available_ranks :: "'c GraphOrchestrator \<Rightarrow> nat" where
  "available_ranks g = (case g of None \<Rightarrow> 0 | Some im \<Rightarrow> rp_available (el_pool (im_loop im)))"

definition in_flight_count :: "'c GraphOrchestrator \<Rightarrow> nat" where
  "in_flight_count g = (case g of None \<Rightarrow> 0 | Some im \<Rightarrow> in_flight (im_loop im))"

definition is_shutdown :: "'c GraphOrchestrator \<Rightarrow> bool" where
  "is_shutdown g = (case g of None \<Rightarrow> True | Some im \<Rightarrow> shut_down im)"

section \<open>The orchestrator keeps the loop's invariant\<close>

lemma mk_impl_start:
  assumes "config_fits cfg" "valid_graph cfg" "length (pc_task_names cfg) < fuel"
  shows "(mk_impl clk reads fuel cfg ws :: 'c Impl result option) = Some (mapR (\<lambda>st. \<lparr>im_config = cfg, im_loop = st, shut_down = False,
    deferred_reclaim = {}, callbacks_set = False, task_communicators = replicate (length (pc_task_names cfg)) None,
    comm_creation_order = []\<rparr>) (start_loop clk reads cfg (build_rank_pool ws)))"
proof -
  have "validated_node_count fuel cfg = Some (Inr (length (pc_task_names cfg)))"
    using validate_dag_cases [OF assms(1,3)] assms(1,2) by (simp add: validated_node_count_def config_fits_def)
  then show ?thesis
    using populate_nodes_spec(1) [OF assms(1,2)]
    by (simp add: mk_impl_def start_loop_def build_event_loop_def mk_event_loop_def)
qed

lemma build_rank_pool_inv:
  "pool_inv (build_rank_pool ws)" "busy_set (build_rank_pool ws) = {}" "avail_set (build_rank_pool ws) = {0..<ws}"
  using mk_rank_pool_inv [of "set [0..ws - 1]"] by (auto simp: build_rank_pool_def)

lemma sched_inv_pool:
  assumes "sched_inv st" "pool_inv p" "busy_set p = busy_set (el_pool st)"
  shows "sched_inv (st\<lparr>el_pool := p\<rparr>)"
proof -
  have "rank_inv (st\<lparr>el_pool := p\<rparr>)" "flight_inv (st\<lparr>el_pool := p\<rparr>)"
    using sched_invD(3,4) [OF assms(1)] assms(2,3) by (simp_all add: rank_inv_def flight_inv_def)
  then show ?thesis using assms(1) by (simp add: sched_inv_def)
qed

lemma sched_inv_reads: "sched_inv (st\<lparr>el_reads := n\<rparr>) = sched_inv st"
  by (simp add: sched_inv_def rank_inv_def flight_inv_def)

lemma process_deferred_reclamation_spec:
  assumes inv: "sched_inv (im_loop im)"
  defines "im' \<equiv> process_deferred_reclamation im"
  shows "sched_inv (im_loop im')" "deferred_reclaim im' = deferred_reclaim im - avail_set (el_pool (im_loop im))"
    "avail_set (el_pool (im_loop im')) = avail_set (el_pool (im_loop im)) - deferred_reclaim im"
    "el_nodes (im_loop im') = el_nodes (im_loop im)" "in_flight (im_loop im') = in_flight (im_loop im)"
    "el_reads (im_loop im') = el_reads (im_loop im)" "shut_down im' = shut_down im" "callbacks_set im' = callbacks_set im"
    "busy_set (el_pool (im_loop im')) = busy_set (el_pool (im_loop im))"
proof -
  let ?P = "el_pool (im_loop im)" and ?D = "deferred_reclaim im"
  obtain R p where r: "remove_available ?D ?P = (R, p)" by fastforce
  note s = remove_available_spec [OF rank_invD(1) [OF sched_invD(3) [OF inv]] r]
  have eq: "im' = (if ?D = {} then im else im\<lparr>im_loop := (im_loop im)\<lparr>el_pool := p\<rparr>, deferred_reclaim := ?D - R\<rparr>)"
    by (simp add: im'_def process_deferred_reclamation_def r)
  show "sched_inv (im_loop im')" using eq inv sched_inv_pool [OF inv, of p] s by simp
  show "deferred_reclaim im' = ?D - avail_set ?P" using eq s by auto
  show "avail_set (el_pool (im_loop im')) = avail_set ?P - ?D" using eq s by auto
  show "busy_set (el_pool (im_loop im')) = busy_set ?P" using eq s by auto
  show "el_nodes (im_loop im') = el_nodes (im_loop im)" "in_flight (im_loop im') = in_flight (im_loop im)"
    "el_reads (im_loop im') = el_reads (im_loop im)" "shut_down im' = shut_down im" "callbacks_set im' = callbacks_set im"
    using eq by simp_all
qed

abbreviation own_dispatch_cb :: "'c Impl \<Rightarrow> dispatch_callback option" where
  "own_dispatch_cb im \<equiv> (if callbacks_set im then Some (\<lambda>_ _. Inr True) else None)"

abbreviation own_completion_cb :: "'c Impl \<Rightarrow> completions result option" where
  "own_completion_cb im \<equiv> (if callbacks_set im then Some (Inr []) else None)"

lemma orchestrator_cycle_spec:
  assumes inv: "sched_inv (im_loop im)" and im': "im' = snd (orchestrator_cycle clk im)"
  shows "orchestrator_cycle clk im = (Inr (all_complete (im_loop im')), im')" "sched_inv (im_loop im')"
    "deferred_reclaim im' \<subseteq> deferred_reclaim im" "avail_set (el_pool (im_loop im')) \<inter> deferred_reclaim im = {}"
    "shut_down im' = shut_down im" "callbacks_set im' = callbacks_set im"
    "el_nodes (im_loop im') = el_nodes (snd (event_cycle clk (own_dispatch_cb im) (own_completion_cb im) (im_loop im)))"
    "el_reads (im_loop im') = el_reads (snd (event_cycle clk (own_dispatch_cb im) (own_completion_cb im) (im_loop im)))"
proof -
  obtain r st where e: "event_cycle clk (own_dispatch_cb im) (own_completion_cb im) (im_loop im) = (r, st)" by fastforce
  note i = cycle_inv [OF inv, where clk = clk and dcb = "own_dispatch_cb im" and ccb = "own_completion_cb im", unfolded e]
  have r: "r = Inr (all_complete st)" using i(3) [of "[]"] i(4) by (cases "callbacks_set im") auto
  have s: "sched_inv (im_loop (im\<lparr>im_loop := st\<rparr>))" using i(1) by simp
  note p = process_deferred_reclamation_spec [OF s, simplified]
  have eq: "orchestrator_cycle clk im = (Inr (all_complete st), process_deferred_reclamation (im\<lparr>im_loop := st\<rparr>))"
    using e r by (simp add: orchestrator_cycle_def)
  show "orchestrator_cycle clk im = (Inr (all_complete (im_loop im')), im')"
    using eq im' p(4) by (simp add: all_complete_def)
  show "sched_inv (im_loop im')" "deferred_reclaim im' \<subseteq> deferred_reclaim im"
    "avail_set (el_pool (im_loop im')) \<inter> deferred_reclaim im = {}" "shut_down im' = shut_down im" "callbacks_set im' = callbacks_set im"
    "el_nodes (im_loop im') = el_nodes (snd (event_cycle clk (own_dispatch_cb im) (own_completion_cb im) (im_loop im)))"
    "el_reads (im_loop im') = el_reads (snd (event_cycle clk (own_dispatch_cb im) (own_completion_cb im) (im_loop im)))"
    using p e im' eq by auto
qed

section \<open>Shutdown\<close>

lemma idle_pool_free:
  assumes "rank_inv st" "running (el_nodes st) = {}"
  shows "busy_set (el_pool st) = {}"
proof -
  note rk = rank_invD [OF assms(1)]
  have "el_allocated st ! j = {}" if "j < length (el_allocated st)" for j
    using rk(2) rk(6) [of j] that assms(2) by (auto simp: running_def)
  then show ?thesis unfolding rk(3) by (auto simp: in_set_conv_nth)
qed

lemma force_cancel_fold:
  assumes rk: "rank_inv st" and ids: "\<And>i. i < length (el_nodes st) \<Longrightarrow> tn_id (el_nodes st ! i) = i \<and> 0 < required_ranks (el_nodes st ! i)"
    and k: "k \<le> length (el_nodes st)" and f: "fold force_cancel_node [0..<k] (0, st) = (c, st')"
  shows "rank_inv st' \<and> running (el_nodes st') = running (el_nodes st) - {..<k} \<and> same_graph (el_nodes st) (el_nodes st')"
  using k f
proof (induction k arbitrary: c st')
  case (Suc k)
  obtain c1 st1 where f1: "fold force_cancel_node [0..<k] (0, st) = (c1, st1)" by fastforce
  have ih: "rank_inv st1" "running (el_nodes st1) = running (el_nodes st) - {..<k}" "same_graph (el_nodes st) (el_nodes st1)"
    using Suc.IH [OF _ f1] Suc.prems(1) by auto
  have kl: "k < length (el_nodes st1)" "tn_id (el_nodes st1 ! k) = k" "0 < required_ranks (el_nodes st1 ! k)"
    using ih(3) Suc.prems(1) ids [of k] by (auto simp: same_graph_def)
  have step: "force_cancel_node k (c1, st1) = (c, st')" using Suc.prems(2) f1 by simp
  show ?case
  proof (cases "stat (el_nodes st1) k = Running")
    case False
    then have "st' = st1" using step by (simp add: force_cancel_node_def Let_def)
    moreover have "k \<notin> running (el_nodes st1)" using False by (simp add: running_def)
    then have "running (el_nodes st1) = running (el_nodes st) - {..<Suc k}" unfolding ih(2) lessThan_Suc by blast
    ultimately show ?thesis using ih(1,3) by simp
  next
    case True
    have ne: "el_allocated st1 ! k \<noteq> {}" using rank_invD(5) [OF ih(1) kl(1) True] kl(3) by auto
    have st': "el_nodes st' = set_status k Cancelled (el_nodes st1)"
      "el_pool st' = release (el_allocated st1 ! k) (el_pool st1)" "el_allocated st' = (el_allocated st1)[k := {}]"
      using step True ne kl rank_invD(2) [OF ih(1)] by (auto simp: force_cancel_node_def Let_def release_ranks_of_def)
    have run: "running (set_status k Cancelled (el_nodes st1)) = running (el_nodes st1) - {k}"
      using kl by (auto simp: running_def nth_list_update)
    have "running (el_nodes st') = running (el_nodes st) - {..<Suc k}"
      unfolding st'(1) run ih(2) lessThan_Suc by blast
    then show ?thesis
      using retire_rank_inv(1) [OF ih(1) kl(1) True same_graph_set_status run st'] st'(1)
        same_graph_trans [OF ih(3) same_graph_set_status] by simp
  qed
qed (use rk in auto)

lemma force_cancel_in_flight_spec:
  assumes inv: "sched_inv st" and st'_def: "st' = force_cancel_in_flight clk st"
  shows "in_flight st' = 0" "running (el_nodes st') = {}" "busy_set (el_pool st') = {}" "rank_inv st'"
proof -
  obtain c st1 where f: "fold force_cancel_node [0..<length (el_nodes st)] (0, st) = (c, st1)" by fastforce
  have r: "rank_inv st1" "running (el_nodes st1) = running (el_nodes st) - {..<length (el_nodes st)}"
    using force_cancel_fold [OF sched_invD(3) [OF inv] _ _ f] graph_invD(1,2) [OF sched_invD(1) [OF inv]] by auto
  then have e: "running (el_nodes st1) = {}" by (auto simp: running_def)
  have fields: "el_nodes st' = el_nodes st1" "el_pool st' = el_pool st1" "el_allocated st' = el_allocated st1" "in_flight st' = 0"
    by (simp_all add: st'_def force_cancel_in_flight_def f Let_def)
  show "in_flight st' = 0" by (rule fields)
  show "running (el_nodes st') = {}" using e fields by simp
  show ri: "rank_inv st'" using r(1) fields by (simp add: rank_inv_def)
  show "busy_set (el_pool st') = {}" using idle_pool_free [OF ri] e fields by simp
qed

lemma reads_mono_propagate [simp]: "el_reads st \<le> el_reads (propagate_failure clk i st)"
  by (simp add: propagate_failure_def Let_def release_ranks_of_def split: prod.split)

lemma reads_mono_dispatch: "el_reads st \<le> el_reads (snd (dispatch_ready_nodes clk cb st))"
proof (rule dispatch_keeps [where P = "\<lambda>s. el_reads st \<le> el_reads s"])
  fix s :: Event_Loop and i q R pl assume "el_reads st \<le> el_reads s"
  then show "el_reads st \<le> el_reads (invoke_dispatch clk cb i R (start_node clk i R (s\<lparr>el_pool := pl\<rparr>)))"
    using reads_mono_propagate [of "start_node clk i R (s\<lparr>el_pool := pl\<rparr>)" clk i]
    by (auto simp: invoke_dispatch_def start_node_def split: option.split sum.split bool.split)
qed auto

lemma reads_mono_completion: "el_reads st \<le> el_reads (process_completion clk c st)"
  by (auto simp: process_completion_def Let_def release_ranks_of_def split: prod.split)

lemma reads_mono_cycle: "el_reads st \<le> el_reads (snd (event_cycle clk dcb ccb st))"
proof -
  have f: "el_reads s \<le> el_reads (fold (process_completion clk) cs s)" for cs s
    by (induction cs arbitrary: s) (auto intro: le_trans [OF reads_mono_completion])
  obtain x s1 where d: "dispatch_ready_nodes clk dcb (poll_ready_nodes st) = (x, s1)" by fastforce
  have "el_reads (poll_ready_nodes st) = el_reads st" by (simp add: poll_ready_nodes_def split: prod.split)
  then have 1: "el_reads st \<le> el_reads s1" using reads_mono_dispatch [of "poll_ready_nodes st" clk dcb] d by simp
  obtain y s2 where c: "process_completions clk ccb s1 = (y, s2)" by fastforce
  then have 2: "el_reads s1 \<le> el_reads s2"
    using f [of s1] by (auto simp: process_completions_def split: option.splits sum.splits)
  have 3: "el_reads s2 \<le> el_reads (check_deadlock clk s2)" by (simp add: check_deadlock_def Let_def)
  show ?thesis using 1 2 3 d c by (auto simp: event_cycle_def Let_def split: option.split)
qed

lemma drain_loop_returns:
  assumes "sched_inv (im_loop im)" "\<And>m. K \<le> m \<Longrightarrow> clk m - start \<ge> timeout" "K - el_reads (im_loop im) < fuel"
  shows "\<exists>im'. drain_loop clk fuel start timeout im = Some (Inr (), im') \<and> in_flight (im_loop im') = 0 \<and>
    running (el_nodes (im_loop im')) = {} \<and> busy_set (el_pool (im_loop im')) = {} \<and> rank_inv (im_loop im')"
  using assms
proof (induction fuel arbitrary: im)
  case (Suc fuel)
  note inv = Suc.prems(1)
  let ?st = "im_loop im"
  let ?st1 = "?st\<lparr>el_reads := el_reads ?st + 1\<rparr>"
  have inv1: "sched_inv ?st1" using inv by (simp add: sched_inv_reads)
  show ?case
  proof (cases "in_flight ?st > 0")
    case False
    then have "running (el_nodes ?st) = {}" using sched_invD(4) [OF inv] by (simp add: flight_inv_def)
    then show ?thesis
      using False idle_pool_free [OF sched_invD(3) [OF inv]] sched_invD(3) [OF inv] by (simp add: drain_loop.simps)
  next
    case True
    show ?thesis
    proof (cases "clk (el_reads ?st) - start \<ge> timeout")
      case to: True
      show ?thesis
        using True to force_cancel_in_flight_spec [OF inv1 refl, of clk]
        by (simp add: drain_loop.simps [of clk "Suc fuel"] Let_def)
    next
      case to: False
      have lt: "el_reads ?st < K" using Suc.prems(2) [of "el_reads ?st"] to by fastforce
      define im' where "im' = snd (orchestrator_cycle clk (im\<lparr>im_loop := ?st1\<rparr>))"
      have "sched_inv (im_loop (im\<lparr>im_loop := ?st1\<rparr>))" using inv1 by simp
      note c = orchestrator_cycle_spec [OF this im'_def]
      have "el_reads ?st1 \<le> el_reads (im_loop im')" using c(8) reads_mono_cycle [of ?st1] by simp
      then have "K - el_reads (im_loop im') < fuel" using lt Suc.prems(3) by simp
      from Suc.IH [OF c(2) Suc.prems(2) this] show ?thesis
        using True to c(1) by (simp add: drain_loop.simps [of clk "Suc fuel"] Let_def)
    qed
  qed
qed simp

text \<open>
  C22. Shutdown terminates and returns every rank: for an orchestrator whose loop satisfies the
  scheduling invariant and a clock that grows without bound, shutdown returns after
  finitely many drain iterations without throwing; then nothing is in flight, no task is
  running, no rank is allocated, and every later call of run, advance_step, shutdown,
  yield_ranks or reclaim_ranks does nothing.
\<close>

theorem shutdown_drains:
  assumes inv: "sched_inv (im_loop im)" and clock: "\<forall>t. \<exists>k. \<forall>m\<ge>k. clk m \<ge> t" and run: "\<not> shut_down im"
  shows "\<exists>fuel im'. shutdown clk fuel (Some im) = Some (Inr (), Some im') \<and> shut_down im' \<and>
    in_flight_count (Some im') = 0 \<and> running (el_nodes (im_loop im')) = {} \<and> busy_set (el_pool (im_loop im')) = {} \<and>
    total_ranks (Some im') = available_ranks (Some im') \<and>
    Dagr_Orchestrator.run clk f (Some im') = Some (Inr (), Some im') \<and> advance_step clk (Some im') = (Inr True, Some im') \<and>
    shutdown clk f (Some im') = Some (Inr (), Some im') \<and> yield_ranks R (Some im') = Some im' \<and>
    reclaim_ranks R (Some im') = Some im'"
proof -
  let ?timeout = "int (pc_shutdown_timeout_s (im_config im)) * 1000000000"
  let ?start = "clk (el_reads (im_loop im))"
  let ?im = "im\<lparr>im_loop := (im_loop im)\<lparr>el_reads := el_reads (im_loop im) + 1\<rparr>\<rparr>"
  obtain K where K: "\<And>m. K \<le> m \<Longrightarrow> clk m \<ge> ?start + ?timeout" using clock by blast
  have "sched_inv (im_loop ?im)" using inv by (simp add: sched_inv_reads)
  from drain_loop_returns [OF this, where K = K and clk = clk and start = ?start and timeout = ?timeout and fuel = "Suc K"] K
  obtain im' where d: "drain_loop clk (Suc K) ?start ?timeout ?im = Some (Inr (), im')" "in_flight (im_loop im') = 0"
    "running (el_nodes (im_loop im')) = {}" "busy_set (el_pool (im_loop im')) = {}" "rank_inv (im_loop im')"
    by (fastforce simp: algebra_simps)
  have "rp_total (el_pool (im_loop im')) = rp_available (el_pool (im_loop im'))"
    using allocated_ranks_busy(2) [OF rank_invD(1) [OF d(5)]] d(4) by simp
  moreover have "shutdown clk (Suc K) (Some im) = Some (Inr (), Some (im'\<lparr>shut_down := True\<rparr>))"
    using run d(1) by (simp add: shutdown_def Let_def)
  ultimately show ?thesis
    using d(2-4) by (intro exI [of _ "Suc K"] exI [of _ "im'\<lparr>shut_down := True\<rparr>"])
      (simp add: run_def advance_step_def shutdown_def yield_ranks_def reclaim_ranks_def in_flight_count_def
        total_ranks_def available_ranks_def)
qed

section \<open>The blocking run\<close>

lemma dispatch_without_failure:
  assumes "sched_inv st"
  shows "open_nodes (el_nodes (snd (dispatch_ready_nodes clk (Some (\<lambda>_ _. Inr True)) st))) = open_nodes (el_nodes st)"
proof -
  let ?P = "\<lambda>s. sched_inv s \<and> open_nodes (el_nodes s) = open_nodes (el_nodes st)"
  have "?P (snd (dispatch_ready_nodes clk (Some (\<lambda>_ _. Inr True)) st))"
  proof (rule dispatch_keeps [where P = ?P])
    fix s i q assume "?P s" "ready_queue s = i # q" "stat (el_nodes s) i \<noteq> Ready"
    then show "?P (s\<lparr>ready_queue := q\<rparr>)" using sched_inv_skip by auto
  next
    fix s :: Event_Loop and i q pl
    assume s: "?P s" "ready_queue s = i # q" "try_allocate (required_ranks (el_nodes s ! i)) (el_pool s) = Inr ({}, pl)"
    have "i < length (el_nodes s)" using s sched_invD(5) [of s] by (auto simp: queue_inv_def)
    then have "pl = el_pool s"
      using pool.alloc_none(1) [OF rank_invD(1) graph_invD(2) s(3)] s(1) sched_invD by blast
    then show "?P (s\<lparr>el_pool := pl\<rparr>)" using s(1) by simp
  next
    fix s i q R pl
    assume "?P s" "ready_queue s = i # q" "in_flight s < el_max_concurrency s" "stat (el_nodes s) i = Ready"
      "try_allocate (required_ranks (el_nodes s ! i)) (el_pool s) = Inr (R, pl)" "R \<noteq> {}"
    then show "?P (invoke_dispatch clk (Some (\<lambda>_ _. Inr True)) i R (start_node clk i R (s\<lparr>el_pool := pl\<rparr>)))"
      using start_node_inv(1,5) [OF _ _ _ _ _ _ refl] by (simp add: invoke_dispatch_def)
  qed (use assms in auto)
  then show ?thesis by simp
qed

lemma cycle_without_reports:
  assumes "sched_inv st"
  shows "open_nodes (el_nodes (snd (event_cycle clk (Some (\<lambda>_ _. Inr True)) (Some (Inr [])) st))) = open_nodes (el_nodes st)"
proof -
  have p: "sched_inv (poll_ready_nodes st)" by (rule poll_ready_nodes_inv [OF assms])
  from dispatch_ready_nodes_inv [OF p, of clk "Some (\<lambda>_ _. Inr True)"] obtain st1 where
    d: "dispatch_ready_nodes clk (Some (\<lambda>_ _. Inr True)) (poll_ready_nodes st) = (None, st1)" by (elim exE conjE)
  then show ?thesis
    using dispatch_without_failure [OF p, of clk] poll_ready_nodes_evolves(2) [OF assms]
    by (simp add: event_cycle_def process_completions_def Let_def)
qed

lemma run_loop_diverges:
  assumes "sched_inv (im_loop im)" "callbacks_set im" "open_nodes (el_nodes (im_loop im)) \<noteq> {}"
  shows "run_loop clk fuel im = None"
  using assms
proof (induction fuel arbitrary: im)
  case 0
  then show ?case by (simp add: run_loop.simps all_complete_open)
next
  case (Suc fuel)
  define im' where "im' = snd (orchestrator_cycle clk im)"
  note c = orchestrator_cycle_spec [OF Suc.prems(1) im'_def]
  have "open_nodes (el_nodes (im_loop im')) \<noteq> {}"
    using c(7) cycle_without_reports [OF Suc.prems(1), of clk] Suc.prems(2,3) by simp
  then have "run_loop clk fuel im' = None" using c(2,6) Suc.prems(2) by (intro Suc.IH) auto
  then show ?case
    using Suc.prems(3) c(1) by (simp add: run_loop.simps [of clk "Suc fuel"] all_complete_open)
qed

text \<open>
  C39. The blocking run never returns on a pipeline with tasks: for every valid configuration with at least one
  task, run on a fresh orchestrator is still looping after any number of cycles, because
  the completion callback it installs never reports a completion.
\<close>

theorem run_never_returns:
  fixes im :: "'c Impl"
  assumes "config_fits cfg" "valid_graph cfg" "pc_task_names cfg \<noteq> []"
    and "mk_impl clk reads n cfg ws = Some (Inr im)" "length (pc_task_names cfg) < n"
  shows "Dagr_Orchestrator.run clk fuel (Some im) = None"
proof -
  have im: "start_loop clk reads cfg (build_rank_pool ws) = Inr (im_loop im)" "\<not> shut_down im"
    using mk_impl_start [where 'c = 'c, OF assms(1,2,5), of clk reads ws] assms(4)
    by (cases "start_loop clk reads cfg (build_rank_pool ws)"; auto)+
  note s = start_loop_inv [OF assms(1,2) build_rank_pool_inv(1,2) im(1)]
  have "0 \<in> open_nodes (el_nodes (im_loop im))"
    using s(2) populate_nodes_spec [OF assms(1,2)] assms(3) by (simp add: open_nodes_def is_terminal_def)
  then have "run_loop clk fuel (im\<lparr>callbacks_set := True\<rparr>) = None"
    using s(1) by (intro run_loop_diverges) auto
  then show ?thesis using im(2) by (simp add: run_def)
qed

lemma diamond_impl:
  "\<exists>im :: unit Impl. mk_impl (\<lambda>k. int k) 0 5 diamond 2 = Some (Inr im) \<and> sched_inv (im_loop im) \<and> \<not> shut_down im"
proof -
  obtain st0 where st0: "start_loop (\<lambda>k. int k) 0 diamond (build_rank_pool 2) = Inr st0"
    by (simp add: start_loop_def mk_event_loop_def diamond_def)
  have "length (pc_task_names diamond) < 5" by (simp add: diamond_def)
  from mk_impl_start [where 'c = unit, OF diamond_fits diamond_valid this, of "\<lambda>k. int k" 0 2] st0
    start_loop_inv(1) [OF diamond_fits diamond_valid build_rank_pool_inv(1,2) st0]
  show ?thesis by simp
qed

theorem run_never_returns_witness:
  "\<exists>im :: unit Impl. mk_impl (\<lambda>k. int k) 0 5 diamond 2 = Some (Inr im) \<and> Dagr_Orchestrator.run (\<lambda>k. int k) 1000 (Some im) = None"
proof -
  obtain im :: "unit Impl" where im: "mk_impl (\<lambda>k. int k) 0 5 diamond 2 = Some (Inr im)" using diamond_impl by blast
  have "pc_task_names diamond \<noteq> []" "length (pc_task_names diamond) < 5" by (simp_all add: diamond_def)
  from run_never_returns [OF diamond_fits diamond_valid this(1) im this(2)] im show ?thesis by blast
qed

theorem shutdown_drains_witness:
  "\<exists>im :: unit Impl. mk_impl (\<lambda>k. int k) 0 5 diamond 2 = Some (Inr im) \<and>
     (\<exists>fuel im'. shutdown (\<lambda>k. int k) fuel (Some im) = Some (Inr (), Some im') \<and> in_flight_count (Some im') = 0)"
proof -
  obtain im :: "unit Impl" where im: "mk_impl (\<lambda>k. int k) 0 5 diamond 2 = Some (Inr im)" "sched_inv (im_loop im)" "\<not> shut_down im"
    using diamond_impl by blast
  have "\<forall>t. \<exists>k. \<forall>m\<ge>k. int m \<ge> t"
  proof
    fix t show "\<exists>k. \<forall>m\<ge>k. int m \<ge> t" by (intro exI [of _ "nat t"]) linarith
  qed
  from shutdown_drains [OF im(2) this im(3)] im(1) show ?thesis by blast
qed

section \<open>Yielding and reclaiming ranks\<close>

text \<open>
  Reclaimed ranks leave the pool as soon as no task holds them: yielding makes the new ranks available and
  leaves the allocated ones alone; reclaiming removes the available ones at once, defers
  the others and never takes a rank from a running task; and after the next scheduling
  step no deferred rank is available.
\<close>

theorem reclaim_is_deferred:
  assumes inv: "sched_inv (im_loop im)" and up: "\<not> shut_down im" and fin: "finite R"
    and y: "yield_ranks R (Some im) = Some iy" and r: "reclaim_ranks R (Some im) = Some ir"
    and s: "advance_step clk (Some ir) = (res, Some ia)"
  shows "avail_set (el_pool (im_loop iy)) = avail_set (el_pool (im_loop im)) \<union> (R - busy_set (el_pool (im_loop im))) \<and>
    sched_inv (im_loop iy) \<and>
    avail_set (el_pool (im_loop ir)) = avail_set (el_pool (im_loop im)) - R \<and>
    deferred_reclaim ir = deferred_reclaim im \<union> (R - avail_set (el_pool (im_loop im))) \<and>
    el_allocated (im_loop ir) = el_allocated (im_loop im) \<and> sched_inv (im_loop ir) \<and>
    deferred_reclaim ia \<subseteq> deferred_reclaim ir \<and> avail_set (el_pool (im_loop ia)) \<inter> deferred_reclaim ir = {} \<and>
    sched_inv (im_loop ia) \<and> res = Inr (all_complete (im_loop ia))"
proof -
  let ?P = "el_pool (im_loop im)"
  have pi: "pool_inv ?P" using rank_invD(1) sched_invD(3) inv by blast
  have iy: "iy = im\<lparr>im_loop := (im_loop im)\<lparr>el_pool := add_ranks R ?P\<rparr>\<rparr>"
    using y up by (simp add: yield_ranks_def)
  note a = add_ranks_spec [OF pi fin]
  obtain X p where rm: "remove_available R ?P = (X, p)" by fastforce
  note m = remove_available_spec [OF pi rm]
  have ir: "ir = im\<lparr>im_loop := (im_loop im)\<lparr>el_pool := p\<rparr>, deferred_reclaim := deferred_reclaim im \<union> (R - X)\<rparr>"
    using r up rm by (simp add: reclaim_ranks_def)
  have sr: "sched_inv (im_loop ir)" using sched_inv_pool [OF inv] m ir by simp
  have "ia = snd (orchestrator_cycle clk ir)" "res = fst (orchestrator_cycle clk ir)"
    using s up ir by (auto simp: advance_step_def split: prod.splits)
  note c = orchestrator_cycle_spec [OF sr this(1)] and re = this(2)
  have "sched_inv (im_loop iy)" using sched_inv_pool [OF inv] a iy by simp
  moreover have "res = Inr (all_complete (im_loop ia))" using re c(1) by simp
  ultimately show ?thesis using a m c(2,3,4) sr by (auto simp: iy ir)
qed

theorem reclaim_is_deferred_witness:
  "\<exists>im ir :: unit Impl. mk_impl (\<lambda>k. int k) 0 5 diamond 2 = Some (Inr im) \<and> reclaim_ranks {1} (Some im) = Some ir \<and>
     avail_set (el_pool (im_loop ir)) = avail_set (el_pool (im_loop im)) - {1}"
proof -
  obtain im :: "unit Impl" where im: "mk_impl (\<lambda>k. int k) 0 5 diamond 2 = Some (Inr im)" "sched_inv (im_loop im)" "\<not> shut_down im"
    using diamond_impl by blast
  obtain iy where y: "yield_ranks {1} (Some im) = Some iy" using im(3) by (simp add: yield_ranks_def)
  obtain ir where r: "reclaim_ranks {1} (Some im) = Some ir" "\<not> shut_down ir"
    using im(3) by (cases "remove_available {1} (el_pool (im_loop im))") (simp add: reclaim_ranks_def)
  obtain res ia where s: "advance_step (\<lambda>k. int k) (Some ir) = (res, Some ia)"
    using r(2) by (cases "orchestrator_cycle (\<lambda>k. int k) ir") (simp add: advance_step_def)
  from reclaim_is_deferred [OF im(2,3) _ y r(1) s] im(1) r(1) show ?thesis by blast
qed

text \<open>Reclaiming a rank that the pool does not manage leaves it deferred; when it is yielded later
  the next step removes it again.\<close>

lemma unknown_reclaim_eats_yield:
  assumes inv: "sched_inv (im_loop im)" and up: "\<not> shut_down im" and un: "r \<notin> set (rp_rank_ids (el_pool (im_loop im)))"
    and a: "reclaim_ranks {r} (Some im) = Some ir" and b: "yield_ranks {r} (Some ir) = Some iy"
    and c: "advance_step clk (Some iy) = (res, Some ia)"
  shows "r \<in> avail_set (el_pool (im_loop iy))" "r \<notin> avail_set (el_pool (im_loop ia))"
proof -
  let ?P = "el_pool (im_loop im)"
  have pi: "pool_inv ?P" using rank_invD(1) sched_invD(3) inv by blast
  obtain X p where rm: "remove_available {r} ?P = (X, p)" by fastforce
  note m = remove_available_spec [OF pi rm]
  have na: "r \<notin> avail_set ?P" "r \<notin> busy_set ?P" using un pool_invD(5) [OF pi] by auto
  have ir: "im_loop ir = (im_loop im)\<lparr>el_pool := p\<rparr>" "r \<in> deferred_reclaim ir" "\<not> shut_down ir"
    using a up rm m na by (auto simp: reclaim_ranks_def)
  have sr: "sched_inv (im_loop ir)" using sched_inv_pool [OF inv] m ir by simp
  have iy: "im_loop iy = (im_loop ir)\<lparr>el_pool := add_ranks {r} p\<rparr>" "r \<in> deferred_reclaim iy" "\<not> shut_down iy"
    using b ir by (auto simp: yield_ranks_def)
  note ad = add_ranks_spec [of p "{r}"]
  show "r \<in> avail_set (el_pool (im_loop iy))" using ad m na iy(1) by auto
  have sy: "sched_inv (im_loop iy)" using sched_inv_pool [OF sr] ad m iy(1) ir(1) by simp
  have "ia = snd (orchestrator_cycle clk iy)" using c iy(3) by (auto simp: advance_step_def split: prod.splits)
  from orchestrator_cycle_spec(4) [OF sy this] show "r \<notin> avail_set (el_pool (im_loop ia))" using iy(2) by auto
qed

section \<open>Communicators are freed once, newest first\<close>

definition comm_inv :: "'c Impl \<Rightarrow> bool" where
  "comm_inv im \<longleftrightarrow> distinct (comm_creation_order im) \<and>
     set (comm_creation_order im) = {i. has_communicator i im}"

lemma comm_inv_ops:
  assumes "comm_inv im"
  shows "comm_inv (release_task_communicator i im)" "comm_inv (destroy_cancelled_communicator i im)"
    "\<not> has_communicator i im \<Longrightarrow> i < length (task_communicators im) \<Longrightarrow> comm_inv (snd (create_task_communicator i r im))"
  using assms
  by (auto simp: comm_inv_def release_task_communicator_def destroy_cancelled_communicator_def create_task_communicator_def
      has_communicator_def nth_list_update split: sum.split if_splits)

lemma destroy_in_order_spec:
  assumes "distinct order" "\<forall>i\<in>set order. i < length comms \<and> comms ! i \<noteq> None"
  shows "destroy_in_order order comms = (map (\<lambda>i. the (comms ! i)) order, fold (\<lambda>i cs. cs[i := None]) order comms)"
  using assms
proof (induction order arbitrary: comms)
  case (Cons i order)
  have "map (\<lambda>j. the (comms[i := None] ! j)) order = map (\<lambda>j. the (comms ! j)) order"
    using Cons.prems(1) by (intro map_cong) (auto, metis nth_list_update_neq)
  moreover have "destroy_in_order order (comms[i := None]) =
      (map (\<lambda>j. the (comms[i := None] ! j)) order, fold (\<lambda>i cs. cs[i := None]) order (comms[i := None]))"
    using Cons.prems by (intro Cons.IH) (auto, metis nth_list_update_neq)
  ultimately show ?case using Cons.prems(2) by (auto split: option.split)
qed simp

lemma destroy_impl_reverse_order:
  assumes "comm_inv im"
  shows "fst (destroy_impl im) = map (\<lambda>i. the (task_communicators im ! i)) (rev (comm_creation_order im))"
  using assms destroy_in_order_spec [of "rev (comm_creation_order im)" "task_communicators im"]
  by (auto simp: comm_inv_def destroy_impl_def has_communicator_def)

end
