(* ===== verification/Conf_Yaml.thy ===== *)
theory Conf_Yaml
  imports Helm_Prelude Helm_Decimal
begin

text \<open>
  CONF's wrapper of the YAML library: \<^verbatim>\<open>conf/error.hpp\<close>, \<^verbatim>\<open>conf/src/detail/yaml_tree.hpp\<close> and
  \<^verbatim>\<open>conf/src/detail/yaml_tree.cpp\<close>.

  yaml-cpp is not part of the repository: what the wrapper calls of it is the record \<open>yaml_api\<close>,
  an argument of every definition. A node is a value of type \<open>'n\<close> (so \<open>YAML::Clone\<close> is not
  visible); \<open>y_as_int\<close> and its siblings return \<open>None\<close> for \<open>YAML::BadConversion\<close>, and \<open>y_load\<close> the
  text of a \<open>YAML::ParserException\<close>. \<open>tree_api\<close> is an instance on plain trees that the witnesses
  use. The file system is an argument too: \<open>fs path\<close> is the content of a file that can be opened.
\<close>

section \<open>Errors\<close>

datatype Error_Code =
    Success
  | Invalid_Arg
  | File_Not_Found
  | Parse_Error
  | Key_Not_Found
  | Type_Mismatch
  | Bad_Handle
  | Buffer_Too_Small
  | Unknown

fun error_code_value :: "Error_Code \<Rightarrow> int" where
  "error_code_value Success = 0"
| "error_code_value Invalid_Arg = 1"
| "error_code_value File_Not_Found = 2"
| "error_code_value Parse_Error = 3"
| "error_code_value Key_Not_Found = 4"
| "error_code_value Type_Mismatch = 5"
| "error_code_value Bad_Handle = 6"
| "error_code_value Buffer_Too_Small = 7"
| "error_code_value Unknown = 99"

datatype Conf_Error = Conf_Error (ce_code: Error_Code) (ce_what: string)

type_synonym 'a conf_result = "Conf_Error + 'a"

section \<open>The library interface\<close>

datatype Node_Type = NT_Undefined | NT_Null | NT_Scalar | NT_Sequence | NT_Map

datatype Node_Kind = Kind_Undefined | Kind_Null | Kind_Scalar | Kind_Sequence | Kind_Map

record ('n, 'd) yaml_api =
  y_type :: "'n \<Rightarrow> Node_Type"
  y_size :: "'n \<Rightarrow> nat"
  y_at_key :: "'n \<Rightarrow> string \<Rightarrow> 'n"
  y_at_index :: "'n \<Rightarrow> nat \<Rightarrow> 'n"
  y_keys :: "'n \<Rightarrow> 'n list"
  y_as_int :: "'n \<Rightarrow> int option"
  y_as_double :: "'n \<Rightarrow> 'd option"
  y_as_bool :: "'n \<Rightarrow> bool option"
  y_as_string :: "'n \<Rightarrow> string option"
  y_load :: "string \<Rightarrow> string + 'n"

definition node_kind :: "('n, 'd) yaml_api \<Rightarrow> 'n \<Rightarrow> Node_Kind" where
  "node_kind Y node =
     (case y_type Y node of
        NT_Undefined \<Rightarrow> Kind_Undefined
      | NT_Null \<Rightarrow> Kind_Null
      | NT_Scalar \<Rightarrow> Kind_Scalar
      | NT_Sequence \<Rightarrow> Kind_Sequence
      | NT_Map \<Rightarrow> Kind_Map)"

section \<open>Loading\<close>

definition tree_from_string :: "('n, 'd) yaml_api \<Rightarrow> string \<Rightarrow> 'n conf_result" where
  "tree_from_string Y txt =
     (case y_load Y txt of Inl what \<Rightarrow> Inl (Conf_Error Parse_Error what) | Inr root \<Rightarrow> Inr root)"

definition tree_from_file :: "('n, 'd) yaml_api \<Rightarrow> (string \<Rightarrow> string option) \<Rightarrow> string \<Rightarrow> 'n conf_result" where
  "tree_from_file Y fs path =
     (case fs path of
        None \<Rightarrow> Inl (Conf_Error File_Not_Found (''cannot open file: '' @ path))
      | Some content \<Rightarrow>
          (case y_load Y content of Inl what \<Rightarrow> Inl (Conf_Error Parse_Error what) | Inr root \<Rightarrow> Inr root))"

section \<open>Dotted paths\<close>

definition find_dot :: "string \<Rightarrow> nat \<Rightarrow> nat option" where
  "find_dot p start = List.find (\<lambda>i. p ! i = CHR ''.'') [start..<length p]"

lemma find_dot_Some:
  "find_dot p start = Some i \<Longrightarrow> start \<le> i \<and> i < length p \<and> p ! i = CHR ''.'' \<and> (\<forall>j. start \<le> j \<and> j < i \<longrightarrow> p ! j \<noteq> CHR ''.'')"
proof -
  assume "find_dot p start = Some i"
  then obtain k where k: "k < length p - start" "p ! (start + k) = CHR ''.''" "i = start + k"
    "\<forall>j<k. p ! (start + j) \<noteq> CHR ''.''"
    by (auto simp: find_dot_def find_Some_iff)
  have "p ! j \<noteq> CHR ''.''" if "start \<le> j" "j < i" for j
    using k(3,4) that by (metis add_less_cancel_left le_add_diff_inverse)
  then show ?thesis using k by simp
qed

lemma find_dot_None: "find_dot p start = None \<longleftrightarrow> (\<forall>i. start \<le> i \<and> i < length p \<longrightarrow> p ! i \<noteq> CHR ''.'')"
  by (auto simp: find_dot_def find_None_iff)

function split_segments :: "string \<Rightarrow> nat \<Rightarrow> string list" where
  "split_segments p start =
     (if start \<le> length p then
        case find_dot p start of
          None \<Rightarrow> [drop start p]
        | Some dot \<Rightarrow>
            take (dot - start) (drop start p) #
            (if dot + 1 = length p then [[]] else split_segments p (dot + 1))
      else [])"
  by pat_completeness auto

termination split_segments
  by (relation "measure (\<lambda>(p, start). Suc (length p) - start)") (auto dest!: find_dot_Some)

declare split_segments.simps [simp del]

definition from_chars_size :: "string \<Rightarrow> (nat \<times> nat) option" where
  "from_chars_size cs =
     (let digits = takeWhile is_dec_digit cs; v = dec_value digits
      in if digits = [] \<or> v \<ge> 18446744073709551616 then None else Some (nat v, length digits))"

definition descend :: "('n, 'd) yaml_api \<Rightarrow> string \<Rightarrow> 'n \<Rightarrow> string \<Rightarrow> 'n conf_result" where
  "descend Y dotted_path current seg =
     (let key_not_found = Inl (Conf_Error Key_Not_Found (''key not found: '' @ dotted_path)) in
      if y_type Y current = NT_Map then
        let child = y_at_key Y current seg in
        if y_type Y child = NT_Undefined then key_not_found else Inr child
      else if y_type Y current = NT_Sequence then
        if \<not> list_all is_dec_digit seg then key_not_found
        else (case from_chars_size seg of
                None \<Rightarrow> key_not_found
              | Some (index, consumed) \<Rightarrow>
                  if consumed \<noteq> length seg then key_not_found
                  else if index \<ge> y_size Y current then key_not_found
                  else Inr (y_at_index Y current index))
      else key_not_found)"

fun walk :: "('n, 'd) yaml_api \<Rightarrow> string \<Rightarrow> string list \<Rightarrow> 'n \<Rightarrow> 'n conf_result" where
  "walk Y dotted_path [] current = Inr current"
| "walk Y dotted_path (seg # segs) current =
     bindR (descend Y dotted_path current seg) (walk Y dotted_path segs)"

definition yaml_resolve :: "('n, 'd) yaml_api \<Rightarrow> 'n \<Rightarrow> string \<Rightarrow> 'n conf_result" where
  "yaml_resolve Y root dotted_path =
     (if dotted_path = [] then Inl (Conf_Error Invalid_Arg ''empty path'')
      else let segments = split_segments dotted_path 0 in
           if list_ex (\<lambda>seg. seg = []) segments then Inl (Conf_Error Invalid_Arg ''empty path segment'')
           else walk Y dotted_path segments root)"

section \<open>Conversions\<close>

definition convert_scalar :: "('n, 'd) yaml_api \<Rightarrow> ('n \<Rightarrow> 'a option) \<Rightarrow> string \<Rightarrow> 'n \<Rightarrow> 'a conf_result" where
  "convert_scalar Y as what node =
     (if y_type Y node \<noteq> NT_Scalar then Inl (Conf_Error Type_Mismatch ''node is not a scalar'')
      else case as node of None \<Rightarrow> Inl (Conf_Error Type_Mismatch what) | Some v \<Rightarrow> Inr v)"

definition convert_int :: "('n, 'd) yaml_api \<Rightarrow> 'n \<Rightarrow> int conf_result" where
  "convert_int Y = convert_scalar Y (y_as_int Y) ''cannot convert scalar to int''"

definition convert_double :: "('n, 'd) yaml_api \<Rightarrow> 'n \<Rightarrow> 'd conf_result" where
  "convert_double Y = convert_scalar Y (y_as_double Y) ''cannot convert scalar to double''"

definition convert_bool :: "('n, 'd) yaml_api \<Rightarrow> 'n \<Rightarrow> bool conf_result" where
  "convert_bool Y = convert_scalar Y (y_as_bool Y) ''cannot convert scalar to bool''"

definition convert_string :: "('n, 'd) yaml_api \<Rightarrow> 'n \<Rightarrow> string conf_result" where
  "convert_string Y = convert_scalar Y (y_as_string Y) ''cannot convert node to string''"

section \<open>Splitting is the inverse of joining\<close>

fun join_dots :: "string list \<Rightarrow> string" where
  "join_dots [] = []"
| "join_dots [s] = s"
| "join_dots (s # t # ss) = s @ CHR ''.'' # join_dots (t # ss)"

definition dot_free :: "string \<Rightarrow> bool" where
  "dot_free s \<longleftrightarrow> CHR ''.'' \<notin> set s"

lemma split_none: "dot_free (drop start p) \<Longrightarrow> start \<le> length p \<Longrightarrow> split_segments p start = [drop start p]"
proof -
  assume a: "dot_free (drop start p)" "start \<le> length p"
  have "find_dot p start = None"
    unfolding find_dot_None
  proof (intro allI impI)
    fix i assume "start \<le> i \<and> i < length p"
    then have "p ! i = drop start p ! (i - start)" "i - start < length (drop start p)" by auto
    then show "p ! i \<noteq> CHR ''.''" using a(1) by (metis dot_free_def nth_mem)
  qed
  then show ?thesis using a(2) by (simp add: split_segments.simps)
qed

lemma find_dot_first:
  assumes "drop start p = s @ CHR ''.'' # r" "dot_free s"
  shows "find_dot p start = Some (start + length s)"
proof -
  have len: "start + length s < length p"
    using arg_cong [OF assms(1), of length] by simp
  have nth: "p ! (start + k) = (s @ CHR ''.'' # r) ! k" if "k \<le> length s" for k
    using assms(1) len by (simp flip: nth_drop)
  have "p ! (start + length s) = CHR ''.''" using nth [of "length s"] by simp
  moreover have "p ! j \<noteq> CHR ''.''" if jj: "start \<le> j" "j < start + length s" for j
  proof -
    obtain k where k: "j = start + k" "k < length s" using jj le_Suc_ex [of start j] by auto
    then have "p ! j = s ! k" using nth [of k] by (simp add: nth_append)
    then show ?thesis using assms(2) k(2) by (metis dot_free_def nth_mem)
  qed
  ultimately show ?thesis
    using len unfolding find_dot_def find_Some_iff
    by (intro exI [of _ "length s"]) (auto simp: less_diff_conv)
qed

lemma split_join_from:
  assumes "ss \<noteq> []" "list_all dot_free ss" "drop start p = join_dots ss" "start \<le> length p"
  shows "split_segments p start = ss"
  using assms
proof (induction ss arbitrary: start rule: join_dots.induct)
  case (2 s)
  then show ?case using split_none [of start p] by simp
next
  case (3 s t ss)
  let ?r = "join_dots (t # ss)"
  have d: "drop start p = s @ CHR ''.'' # ?r" using 3(4) by simp
  have f: "find_dot p start = Some (start + length s)" using find_dot_first [OF d] 3(3) by simp
  have len: "length p = start + length s + 1 + length ?r" using arg_cong [OF d, of length] 3(5) by simp
  show ?case
  proof (cases "?r = []")
    case True
    then have "t = []" "ss = []" by (cases ss; simp)+
    then show ?thesis using f d len True 3(5) by (subst split_segments.simps) simp
  next
    case False
    have dr: "drop (start + length s + 1) p = ?r"
      using arg_cong [OF d, of "drop (length s + 1)"] by (simp add: add.commute add.left_commute)
    have "split_segments p (start + length s + 1) = t # ss"
      using 3(3) dr len by (intro 3(1)) auto
    then show ?thesis using f d len False 3(5) by (subst split_segments.simps) simp
  qed
qed simp

lemma split_sound:
  "start \<le> length p \<Longrightarrow> split_segments p start \<noteq> [] \<and> list_all dot_free (split_segments p start) \<and>
     join_dots (split_segments p start) = drop start p"
proof (induction p start rule: split_segments.induct)
  case (1 p start)
  show ?case
  proof (cases "find_dot p start")
    case None
    then have "dot_free (drop start p)"
      by (auto simp: dot_free_def in_set_conv_nth find_dot_None)
    then show ?thesis using None 1(2) by (simp add: split_segments.simps [of p start])
  next
    case (Some dot)
    note f = find_dot_Some [OF Some]
    have seg: "dot_free (take (dot - start) (drop start p))"
      using f by (auto simp: dot_free_def in_set_conv_nth)
    have "dot - start < length (drop start p)" using f by auto
    from id_take_nth_drop [OF this]
    have dr: "drop start p = take (dot - start) (drop start p) @ CHR ''.'' # drop (dot + 1) p" using f by simp
    show ?thesis
    proof (cases "dot + 1 = length p")
      case True
      then show ?thesis using Some seg dr 1(2) by (simp add: split_segments.simps [of p start] dot_free_def)
    next
      case False
      then have ih: "split_segments p (dot + 1) \<noteq> [] \<and> list_all dot_free (split_segments p (dot + 1)) \<and>
          join_dots (split_segments p (dot + 1)) = drop (dot + 1) p"
        using 1(1) [OF 1(2) Some False] f by simp
      then obtain u us where "split_segments p (dot + 1) = u # us" by (cases "split_segments p (dot + 1)") auto
      then show ?thesis using ih Some seg dr 1(2) False by (simp add: split_segments.simps [of p start])
    qed
  qed
qed

lemma resolve_join:
  assumes "ss \<noteq> []" "list_all dot_free ss" "[] \<notin> set ss"
  shows "yaml_resolve Y root (join_dots ss) = walk Y (join_dots ss) ss root"
proof -
  have "split_segments (join_dots ss) 0 = ss" using assms by (intro split_join_from) auto
  moreover have "join_dots ss \<noteq> []" using assms(1,3) by (cases ss rule: join_dots.cases) auto
  ultimately show ?thesis using assms(3) by (auto simp: yaml_resolve_def Let_def list_ex_iff)
qed

text \<open>
  A dotted path is resolved by walking its segments. Every path splits in exactly one way into dot-free segments
  that join to it; a path with an empty segment (also the empty path) is an invalid argument, and every
  other path gives what stepping through its segments one at a time gives, a map step by
  key and a sequence step by decimal index.
\<close>

theorem resolve_walks_segments:
  assumes "ss \<noteq> []" "list_all dot_free ss"
  shows "split_segments (join_dots ss) 0 = ss \<and> join_dots (split_segments p 0) = p \<and>
    (if [] \<in> set ss then \<exists>msg. yaml_resolve Y root (join_dots ss) = Inl (Conf_Error Invalid_Arg msg)
     else yaml_resolve Y root (join_dots ss) = walk Y (join_dots ss) ss root)"
proof -
  have s: "split_segments (join_dots ss) 0 = ss" using assms by (intro split_join_from) auto
  have "join_dots ss = [] \<Longrightarrow> [] \<in> set ss" using assms(1) by (cases ss rule: join_dots.cases) auto
  then show ?thesis
    using s split_sound [of 0 p] resolve_join [OF assms, of Y root] by (auto simp: yaml_resolve_def Let_def list_ex_iff)
qed

section \<open>An instance on plain trees\<close>

datatype ytree = YUndefined | YNull | YScalar string | YSequence "ytree list" | YMap "(string \<times> ytree) list"

fun ytree_type :: "ytree \<Rightarrow> Node_Type" where
  "ytree_type YUndefined = NT_Undefined"
| "ytree_type YNull = NT_Null"
| "ytree_type (YScalar s) = NT_Scalar"
| "ytree_type (YSequence xs) = NT_Sequence"
| "ytree_type (YMap kvs) = NT_Map"

fun ytree_size :: "ytree \<Rightarrow> nat" where
  "ytree_size (YSequence xs) = length xs"
| "ytree_size (YMap kvs) = length kvs"
| "ytree_size _ = 0"

fun ytree_key :: "ytree \<Rightarrow> string \<Rightarrow> ytree" where
  "ytree_key (YMap kvs) k = (case map_of kvs k of None \<Rightarrow> YUndefined | Some v \<Rightarrow> v)"
| "ytree_key _ k = YUndefined"

fun ytree_index :: "ytree \<Rightarrow> nat \<Rightarrow> ytree" where
  "ytree_index (YSequence xs) i = (if i < length xs then xs ! i else YUndefined)"
| "ytree_index _ i = YUndefined"

fun ytree_string :: "ytree \<Rightarrow> string option" where
  "ytree_string (YScalar s) = Some s"
| "ytree_string _ = None"

fun ytree_int :: "ytree \<Rightarrow> int option" where
  "ytree_int (YScalar s) = (if s \<noteq> [] \<and> list_all is_dec_digit s \<and> dec_value s < 2 ^ 31 then Some (dec_value s) else None)"
| "ytree_int _ = None"

fun ytree_bool :: "ytree \<Rightarrow> bool option" where
  "ytree_bool (YScalar s) = (if s = ''true'' then Some True else if s = ''false'' then Some False else None)"
| "ytree_bool _ = None"

fun ytree_keys :: "ytree \<Rightarrow> ytree list" where
  "ytree_keys (YMap kvs) = map (\<lambda>kv. YScalar (fst kv)) kvs"
| "ytree_keys _ = []"

definition tree_api :: "(string \<Rightarrow> string + ytree) \<Rightarrow> (ytree, int) yaml_api" where
  "tree_api load = \<lparr>y_type = ytree_type, y_size = ytree_size, y_at_key = ytree_key, y_at_index = ytree_index,
     y_keys = ytree_keys, y_as_int = ytree_int, y_as_double = ytree_int, y_as_bool = ytree_bool, y_as_string = ytree_string,
     y_load = load\<rparr>"

definition sample_tree :: ytree where
  "sample_tree = YMap [(''a'', YSequence [YScalar ''x'', YMap [(''b'', YScalar ''7'')]])]"

theorem resolve_walks_segments_witness:
  "yaml_resolve (tree_api Inl) sample_tree ''a.1.b'' = Inr (YScalar ''7'')"
proof -
  have j: "join_dots [''a'', ''1'', ''b''] = ''a.1.b''" by simp
  have "yaml_resolve (tree_api Inl) sample_tree ''a.1.b'' = walk (tree_api Inl) ''a.1.b'' [''a'', ''1'', ''b''] sample_tree"
    using resolve_walks_segments [of "[''a'', ''1'', ''b'']" "''a''" "tree_api Inl" sample_tree] j by (simp add: dot_free_def)
  then show ?thesis
    by (simp add: tree_api_def sample_tree_def descend_def Let_def is_dec_digit_def from_chars_size_def dec_value_def digit_value_def)
qed

end
