(* ===== verification/Conf_Config.thy ===== *)
theory Conf_Config
  imports Conf_Yaml
begin

text \<open>
  CONF's documents and node views: \<^verbatim>\<open>conf/config.hpp\<close>, \<^verbatim>\<open>conf/src/config.cpp\<close>, \<^verbatim>\<open>conf/value.hpp\<close> and
  \<^verbatim>\<open>conf/src/value.cpp\<close>.

  A \<open>Config\<close> is the root node, or \<open>None\<close> after it was moved from; a \<open>Value\<close> is a node or \<open>None\<close> for a
  view of nothing. A function marked \<open>noexcept\<close> catches everything. The list conversions of a
  \<open>Value\<close> do not catch the library's conversion exception: they return \<open>None\<close> for it.
\<close>

type_synonym 'n Config = "'n option"
type_synonym 'n Value = "'n option"

section \<open>Documents\<close>

definition config_from_file :: "('n, 'd) yaml_api \<Rightarrow> (string \<Rightarrow> string option) \<Rightarrow> string \<Rightarrow> 'n Config conf_result" where
  "config_from_file Y fs path = mapR Some (tree_from_file Y fs path)"

definition config_from_string :: "('n, 'd) yaml_api \<Rightarrow> string \<Rightarrow> 'n Config conf_result" where
  "config_from_string Y yaml_text = mapR Some (tree_from_string Y yaml_text)"

definition config_move_assign :: "bool \<Rightarrow> 'n Config \<Rightarrow> 'n Config \<Rightarrow> 'n Config \<times> 'n Config" where
  "config_move_assign same_object this other = (if same_object then (this, other) else (other, None))"

definition config_has :: "('n, 'd) yaml_api \<Rightarrow> 'n Config \<Rightarrow> string \<Rightarrow> bool" where
  "config_has Y cfg dotted_path =
     (case cfg of None \<Rightarrow> False | Some root \<Rightarrow> is_ok (yaml_resolve Y root dotted_path))"

definition config_is_map :: "('n, 'd) yaml_api \<Rightarrow> 'n Config \<Rightarrow> string \<Rightarrow> bool" where
  "config_is_map Y cfg dotted_path =
     (case cfg of
        None \<Rightarrow> False
      | Some root \<Rightarrow> (case yaml_resolve Y root dotted_path of Inl _ \<Rightarrow> False | Inr node \<Rightarrow> y_type Y node = NT_Map))"

definition config_is_sequence :: "('n, 'd) yaml_api \<Rightarrow> 'n Config \<Rightarrow> string \<Rightarrow> bool" where
  "config_is_sequence Y cfg dotted_path =
     (case cfg of
        None \<Rightarrow> False
      | Some root \<Rightarrow> (case yaml_resolve Y root dotted_path of Inl _ \<Rightarrow> False | Inr node \<Rightarrow> y_type Y node = NT_Sequence))"

definition config_size :: "('n, 'd) yaml_api \<Rightarrow> 'n Config \<Rightarrow> string \<Rightarrow> nat" where
  "config_size Y cfg dotted_path =
     (case cfg of
        None \<Rightarrow> 0
      | Some root \<Rightarrow>
          (case yaml_resolve Y root dotted_path of
             Inl _ \<Rightarrow> 0
           | Inr node \<Rightarrow> if y_type Y node = NT_Map \<or> y_type Y node = NT_Sequence then y_size Y node else 0))"

definition get_node :: "('n, 'd) yaml_api \<Rightarrow> 'n Config \<Rightarrow> string \<Rightarrow> 'n conf_result" where
  "get_node Y cfg dotted_path =
     (case cfg of
        None \<Rightarrow> Inl (Conf_Error Key_Not_Found ''empty config'')
      | Some root \<Rightarrow> yaml_resolve Y root dotted_path)"

definition config_get_int :: "('n, 'd) yaml_api \<Rightarrow> 'n Config \<Rightarrow> string \<Rightarrow> int conf_result" where
  "config_get_int Y cfg dotted_path = bindR (get_node Y cfg dotted_path) (convert_int Y)"

definition config_get_double :: "('n, 'd) yaml_api \<Rightarrow> 'n Config \<Rightarrow> string \<Rightarrow> 'd conf_result" where
  "config_get_double Y cfg dotted_path = bindR (get_node Y cfg dotted_path) (convert_double Y)"

definition config_get_bool :: "('n, 'd) yaml_api \<Rightarrow> 'n Config \<Rightarrow> string \<Rightarrow> bool conf_result" where
  "config_get_bool Y cfg dotted_path = bindR (get_node Y cfg dotted_path) (convert_bool Y)"

definition config_get_string :: "('n, 'd) yaml_api \<Rightarrow> 'n Config \<Rightarrow> string \<Rightarrow> string conf_result" where
  "config_get_string Y cfg dotted_path = bindR (get_node Y cfg dotted_path) (convert_string Y)"

definition to_optional :: "'e + 'a \<Rightarrow> 'a option" where
  "to_optional r = (case r of Inl _ \<Rightarrow> None | Inr v \<Rightarrow> Some v)"

definition config_try_int :: "('n, 'd) yaml_api \<Rightarrow> 'n Config \<Rightarrow> string \<Rightarrow> int option" where
  "config_try_int Y cfg path = to_optional (config_get_int Y cfg path)"

definition config_try_double :: "('n, 'd) yaml_api \<Rightarrow> 'n Config \<Rightarrow> string \<Rightarrow> 'd option" where
  "config_try_double Y cfg path = to_optional (config_get_double Y cfg path)"

definition config_try_bool :: "('n, 'd) yaml_api \<Rightarrow> 'n Config \<Rightarrow> string \<Rightarrow> bool option" where
  "config_try_bool Y cfg path = to_optional (config_get_bool Y cfg path)"

definition config_try_string :: "('n, 'd) yaml_api \<Rightarrow> 'n Config \<Rightarrow> string \<Rightarrow> string option" where
  "config_try_string Y cfg path = to_optional (config_get_string Y cfg path)"

text \<open>\<open>get_or\<close> dispatches on its type argument; the model has one instance per case.\<close>

definition get_or_with :: "(string \<Rightarrow> 'a conf_result) \<Rightarrow> string \<Rightarrow> 'a \<Rightarrow> 'a" where
  "get_or_with get dotted_path fallback = (case get dotted_path of Inl _ \<Rightarrow> fallback | Inr v \<Rightarrow> v)"

fun convert_all :: "('n \<Rightarrow> 'a conf_result) \<Rightarrow> ('n, 'd) yaml_api \<Rightarrow> 'n \<Rightarrow> nat list \<Rightarrow> 'a list \<Rightarrow> 'a list conf_result" where
  "convert_all conv Y node [] result = Inr result"
| "convert_all conv Y node (i # is) result =
     bindR (conv (y_at_index Y node i)) (\<lambda>v. convert_all conv Y node is (result @ [v]))"

definition get_list :: "('n \<Rightarrow> 'a conf_result) \<Rightarrow> ('n, 'd) yaml_api \<Rightarrow> 'n Config \<Rightarrow> string \<Rightarrow> 'a list conf_result" where
  "get_list conv Y cfg path =
     bindR (get_node Y cfg path) (\<lambda>node.
       if y_type Y node \<noteq> NT_Sequence then Inl (Conf_Error Type_Mismatch ''node is not a sequence'')
       else convert_all conv Y node [0..<y_size Y node] [])"

definition config_get_int_list :: "('n, 'd) yaml_api \<Rightarrow> 'n Config \<Rightarrow> string \<Rightarrow> int list conf_result" where
  "config_get_int_list Y = get_list (convert_int Y) Y"

definition config_get_double_list :: "('n, 'd) yaml_api \<Rightarrow> 'n Config \<Rightarrow> string \<Rightarrow> 'd list conf_result" where
  "config_get_double_list Y = get_list (convert_double Y) Y"

definition config_get_string_list :: "('n, 'd) yaml_api \<Rightarrow> 'n Config \<Rightarrow> string \<Rightarrow> string list conf_result" where
  "config_get_string_list Y = get_list (convert_string Y) Y"

definition config_root :: "'n Config \<Rightarrow> 'n Value conf_result" where
  "config_root cfg = (case cfg of None \<Rightarrow> Inl (Conf_Error Key_Not_Found ''empty config'') | Some root \<Rightarrow> Inr (Some root))"

definition config_at :: "('n, 'd) yaml_api \<Rightarrow> 'n Config \<Rightarrow> string \<Rightarrow> 'n Value conf_result" where
  "config_at Y cfg dotted_path = mapR Some (get_node Y cfg dotted_path)"

section \<open>Views\<close>

definition value_kind :: "('n, 'd) yaml_api \<Rightarrow> 'n Value \<Rightarrow> Node_Kind" where
  "value_kind Y v = (case v of None \<Rightarrow> Kind_Undefined | Some n \<Rightarrow> node_kind Y n)"

definition value_is_defined :: "('n, 'd) yaml_api \<Rightarrow> 'n Value \<Rightarrow> bool" where
  "value_is_defined Y v \<longleftrightarrow> value_kind Y v \<noteq> Kind_Undefined"

definition value_size :: "('n, 'd) yaml_api \<Rightarrow> 'n Value \<Rightarrow> nat" where
  "value_size Y v =
     (case v of None \<Rightarrow> 0 | Some n \<Rightarrow> if y_type Y n = NT_Map \<or> y_type Y n = NT_Sequence then y_size Y n else 0)"

definition value_index :: "('n, 'd) yaml_api \<Rightarrow> 'n Value \<Rightarrow> nat \<Rightarrow> 'n Value" where
  "value_index Y v index =
     (case v of
        None \<Rightarrow> None
      | Some n \<Rightarrow> if y_type Y n \<noteq> NT_Sequence \<or> index \<ge> y_size Y n then None else Some (y_at_index Y n index))"

definition value_key :: "('n, 'd) yaml_api \<Rightarrow> 'n Value \<Rightarrow> string \<Rightarrow> 'n Value" where
  "value_key Y v key =
     (case v of
        None \<Rightarrow> None
      | Some n \<Rightarrow>
          if y_type Y n \<noteq> NT_Map then None
          else let child = y_at_key Y n key in if y_type Y child = NT_Undefined then None else Some child)"

fun collect_all :: "('n \<Rightarrow> 'a option) \<Rightarrow> 'n list \<Rightarrow> 'a list option" where
  "collect_all as [] = Some []"
| "collect_all as (n # ns) =
     (case as n of None \<Rightarrow> None | Some v \<Rightarrow> map_option ((#) v) (collect_all as ns))"

definition value_keys :: "('n, 'd) yaml_api \<Rightarrow> 'n Value \<Rightarrow> string list option" where
  "value_keys Y v =
     (case v of
        None \<Rightarrow> Some []
      | Some n \<Rightarrow> if y_type Y n \<noteq> NT_Map then Some [] else collect_all (y_as_string Y) (y_keys Y n))"

definition value_as_double_list :: "('n, 'd) yaml_api \<Rightarrow> 'n Value \<Rightarrow> 'd list option" where
  "value_as_double_list Y v =
     (case v of
        None \<Rightarrow> Some []
      | Some n \<Rightarrow> if y_type Y n \<noteq> NT_Sequence then Some []
                  else collect_all (y_as_double Y) (map (y_at_index Y n) [0..<y_size Y n]))"

definition value_as_string_list :: "('n, 'd) yaml_api \<Rightarrow> 'n Value \<Rightarrow> string list option" where
  "value_as_string_list Y v =
     (case v of
        None \<Rightarrow> Some []
      | Some n \<Rightarrow> if y_type Y n \<noteq> NT_Sequence then Some []
                  else collect_all (y_as_string Y) (map (y_at_index Y n) [0..<y_size Y n]))"

definition value_as :: "('n, 'd) yaml_api \<Rightarrow> ('n \<Rightarrow> 'a option) \<Rightarrow> string \<Rightarrow> 'n Value \<Rightarrow> 'a conf_result" where
  "value_as Y as what v =
     (case v of
        None \<Rightarrow> Inl (Conf_Error Type_Mismatch ''undefined node'')
      | Some n \<Rightarrow>
          if y_type Y n \<noteq> NT_Scalar then Inl (Conf_Error Type_Mismatch ''node is not a scalar'')
          else case as n of None \<Rightarrow> Inl (Conf_Error Type_Mismatch what) | Some x \<Rightarrow> Inr x)"

definition value_as_int :: "('n, 'd) yaml_api \<Rightarrow> 'n Value \<Rightarrow> int conf_result" where
  "value_as_int Y = value_as Y (y_as_int Y) ''cannot convert scalar to int''"

definition value_as_double :: "('n, 'd) yaml_api \<Rightarrow> 'n Value \<Rightarrow> 'd conf_result" where
  "value_as_double Y = value_as Y (y_as_double Y) ''cannot convert scalar to double''"

definition value_as_bool :: "('n, 'd) yaml_api \<Rightarrow> 'n Value \<Rightarrow> bool conf_result" where
  "value_as_bool Y = value_as Y (y_as_bool Y) ''cannot convert scalar to bool''"

definition value_as_string :: "('n, 'd) yaml_api \<Rightarrow> 'n Value \<Rightarrow> string conf_result" where
  "value_as_string Y = value_as Y (y_as_string Y) ''cannot convert node to string''"

definition value_try_int :: "('n, 'd) yaml_api \<Rightarrow> 'n Value \<Rightarrow> int option" where
  "value_try_int Y v = to_optional (value_as_int Y v)"

definition value_try_double :: "('n, 'd) yaml_api \<Rightarrow> 'n Value \<Rightarrow> 'd option" where
  "value_try_double Y v = to_optional (value_as_double Y v)"

definition value_try_bool :: "('n, 'd) yaml_api \<Rightarrow> 'n Value \<Rightarrow> bool option" where
  "value_try_bool Y v = to_optional (value_as_bool Y v)"

definition value_try_string :: "('n, 'd) yaml_api \<Rightarrow> 'n Value \<Rightarrow> string option" where
  "value_try_string Y v = to_optional (value_as_string Y v)"

definition value_string_or :: "('n, 'd) yaml_api \<Rightarrow> string \<Rightarrow> 'n Value \<Rightarrow> string" where
  "value_string_or Y fallback v = (case value_try_string Y v of Some x \<Rightarrow> x | None \<Rightarrow> fallback)"

definition value_int_or :: "('n, 'd) yaml_api \<Rightarrow> int \<Rightarrow> 'n Value \<Rightarrow> int" where
  "value_int_or Y fallback v = (case value_try_int Y v of Some x \<Rightarrow> x | None \<Rightarrow> fallback)"

definition value_double_or :: "('n, 'd) yaml_api \<Rightarrow> 'd \<Rightarrow> 'n Value \<Rightarrow> 'd" where
  "value_double_or Y fallback v = (case value_try_double Y v of Some x \<Rightarrow> x | None \<Rightarrow> fallback)"

definition value_bool_or :: "('n, 'd) yaml_api \<Rightarrow> bool \<Rightarrow> 'n Value \<Rightarrow> bool" where
  "value_bool_or Y fallback v = (case value_try_bool Y v of Some x \<Rightarrow> x | None \<Rightarrow> fallback)"

section \<open>Lists are read whole or not at all\<close>

lemma convert_all_spec:
  "convert_all conv Y node is acc = Inr r \<longleftrightarrow>
     (\<exists>vs. r = acc @ vs \<and> list_all2 (\<lambda>i v. conv (y_at_index Y node i) = Inr v) is vs)"
proof (induction "is" arbitrary: acc)
  case (Cons i js)
  show ?case
    by (cases "conv (y_at_index Y node i)") (auto simp: Cons.IH list_all2_Cons1)
qed auto

lemma convert_all_error:
  "convert_all conv Y node is acc = Inl e \<Longrightarrow> \<exists>i\<in>set is. conv (y_at_index Y node i) = Inl e"
proof (induction "is" arbitrary: acc)
  case (Cons i js)
  then show ?case by (cases "conv (y_at_index Y node i)") auto
qed simp

section \<open>Paths and views agree\<close>

datatype nav_step = Key string | Index nat

fun nav :: "('n, 'd) yaml_api \<Rightarrow> nav_step list \<Rightarrow> 'n Value \<Rightarrow> 'n Value" where
  "nav Y [] v = v"
| "nav Y (Key k # steps) v = nav Y steps (value_key Y v k)"
| "nav Y (Index i # steps) v = nav Y steps (value_index Y v i)"

fun step_segment :: "nav_step \<Rightarrow> string" where
  "step_segment (Key k) = k"
| "step_segment (Index i) = dec_digits i"

fun step_ok :: "nav_step \<Rightarrow> bool" where
  "step_ok (Key k) \<longleftrightarrow> k \<noteq> [] \<and> dot_free k"
| "step_ok (Index i) \<longleftrightarrow> i < 2 ^ 64"

lemma nav_None [simp]: "nav Y steps None = None"
  by (induction Y steps "None :: 'a Value" rule: nav.induct) (auto simp: value_key_def value_index_def)

lemma from_chars_size_digits: "i < 2 ^ 64 \<Longrightarrow> from_chars_size (dec_digits i) = Some (i, length (dec_digits i))"
  using all_digits_dec_digits [of i] by (simp add: from_chars_size_def Let_def takeWhile_all)

lemma dot_free_dec_digits: "dot_free (dec_digits i)"
  using all_digits_dec_digits [of i] by (auto simp: dot_free_def list_all_iff is_dec_digit_def)

lemma step_segment_ok: "step_ok s \<Longrightarrow> step_segment s \<noteq> [] \<and> dot_free (step_segment s)"
  using dot_free_dec_digits by (cases s) auto

lemma nav_walk:
  "list_all step_ok steps \<Longrightarrow> nav Y steps (Some root) = Some n \<Longrightarrow> walk Y p (map step_segment steps) root = Inr n"
proof (induction steps arbitrary: root)
  case (Cons s steps)
  show ?case
  proof (cases s)
    case (Key k)
    then obtain child where c: "value_key Y (Some root) k = Some child"
      using Cons.prems(2) by (cases "value_key Y (Some root) k") auto
    then have "descend Y p root k = Inr child"
      by (auto simp: value_key_def descend_def Let_def split: if_splits)
    then show ?thesis using Cons Key c by simp
  next
    case (Index i)
    then obtain child where c: "value_index Y (Some root) i = Some child"
      using Cons.prems(2) by (cases "value_index Y (Some root) i") auto
    then have "descend Y p root (dec_digits i) = Inr child"
      using Cons.prems(1) Index all_digits_dec_digits [of i]
      by (auto simp: value_index_def descend_def Let_def from_chars_size_digits split: if_splits)
    then show ?thesis using Cons Index c by simp
  qed
qed simp

text \<open>
  Paths and views agree, and lists are read whole or not at all: stepping from the root view by keys and indices to a node
  and asking the document for the dotted path of the same steps give the same node; and reading a
  list at a path gives exactly the conversions of all elements of that sequence, or the
  error of an element that does not convert, never a partial list.
\<close>

theorem config_value_agree:
  assumes "steps \<noteq> []" "list_all step_ok steps" "nav Y steps (Some root) = Some n"
    and "get_list conv Y (Some root) (join_dots (map step_segment steps)) = r" "y_type Y n = NT_Sequence"
  shows "config_at Y (Some root) (join_dots (map step_segment steps)) = Inr (Some n) \<and>
    config_has Y (Some root) (join_dots (map step_segment steps)) \<and>
    (case r of
       Inr vs \<Rightarrow> list_all2 (\<lambda>i v. conv (y_at_index Y n i) = Inr v) [0..<y_size Y n] vs
     | Inl e \<Rightarrow> \<exists>i<y_size Y n. conv (y_at_index Y n i) = Inl e)"
proof -
  let ?ss = "map step_segment steps"
  have ok: "s \<noteq> [] \<and> dot_free s" if "s \<in> set ?ss" for s
    using that assms(2) step_segment_ok by (auto simp: list_all_iff)
  then have "yaml_resolve Y root (join_dots ?ss) = walk Y (join_dots ?ss) ?ss root"
    using assms(1) by (intro resolve_join) (auto simp: list_all_iff)
  then have res: "yaml_resolve Y root (join_dots ?ss) = Inr n" using nav_walk [OF assms(2,3)] by simp
  then have g: "get_list conv Y (Some root) (join_dots ?ss) = convert_all conv Y n [0..<y_size Y n] []"
    using assms(5) by (simp add: get_list_def get_node_def)
  have "case r of Inr vs \<Rightarrow> list_all2 (\<lambda>i v. conv (y_at_index Y n i) = Inr v) [0..<y_size Y n] vs
     | Inl e \<Rightarrow> \<exists>i<y_size Y n. conv (y_at_index Y n i) = Inl e"
    using assms(4) g convert_all_spec [of conv Y n "[0..<y_size Y n]" "[]"] convert_all_error [of conv Y n "[0..<y_size Y n]" "[]"]
    by (cases r) auto
  then show ?thesis using res by (simp add: config_at_def get_node_def config_has_def)
qed

theorem config_value_agree_witness:
  "config_at (tree_api Inl) (Some (YMap [(''k'', YSequence [YScalar ''1'', YScalar ''2''])])) ''k'' =
     Inr (Some (YSequence [YScalar ''1'', YScalar ''2'']))"
  using config_value_agree [of "[Key ''k'']" "tree_api Inl" "YMap [(''k'', YSequence [YScalar ''1'', YScalar ''2''])]"
      "YSequence [YScalar ''1'', YScalar ''2'']" "convert_int (tree_api Inl)", OF _ _ _ refl]
  by (simp add: value_key_def tree_api_def dot_free_def)

end
