(* ===== verification/Dagr_Parse.thy ===== *)
theory Dagr_Parse
  imports Dagr_Kahn Conf_Config
begin

text \<open>
  The pipeline parser of DAGR: \<^verbatim>\<open>dagr/src/parse_pipeline.cpp\<close>, on top of CONF's documents.

  A failure is a CONF error that passes through, or a standard exception thrown here. Exception
  texts are kept up to the first interpolated value; the WARNING log lines are not kept. The parser
  repeats the orchestrator's topological sort on its own arrays, on fuel as there.
\<close>

section \<open>Operations\<close>

datatype pipeline_error = Conf_failure Conf_Error | Std_failure exn

type_synonym 'a parse_result = "pipeline_error + 'a"

definition conf_call :: "'a conf_result \<Rightarrow> 'a parse_result" where
  "conf_call r = (case r of Inl e \<Rightarrow> Inl (Conf_failure e) | Inr v \<Rightarrow> Inr v)"

definition std_call :: "'a result \<Rightarrow> 'a parse_result" where
  "std_call r = (case r of Inl e \<Rightarrow> Inl (Std_failure e) | Inr v \<Rightarrow> Inr v)"

definition reject :: "string \<Rightarrow> 'a parse_result" where
  "reject msg = Inl (Std_failure (Invalid_argument msg))"


fun parse_digits :: "string \<Rightarrow> int \<Rightarrow> int option result" where
  "parse_digits [] v = Inr (Some v)"
| "parse_digits (c # cs) v =
     (if \<not> is_dec_digit c then Inr None
      else bindR (ub64 (v * 10)) (\<lambda>w. bindR (ub64 (w + digit_value c)) (parse_digits cs)))"

definition parse_snapshot_interval :: "string \<Rightarrow> Duration result" where
  "parse_snapshot_interval raw =
     (if raw = [] then Inr (Duration 0)
      else
        let sv = (if last raw = CHR ''s'' \<or> last raw = CHR ''S'' then butlast raw else raw) in
        if sv = [] then Inr (Duration 0)
        else
          let negative = (hd sv = CHR ''-'');
              start = (if hd sv = CHR ''-'' \<or> hd sv = CHR ''+'' then 1 else 0 :: nat)
          in if start \<ge> length sv then Inr (Duration 0)
             else bindR (parse_digits (drop start sv) 0) (\<lambda>r.
                    case r of
                      None \<Rightarrow> Inr (Duration 0)
                    | Some v \<Rightarrow> seconds (if negative then - v else v)))"






fun parse_tasks :: "('n, 'd) yaml_api \<Rightarrow> 'n Config \<Rightarrow> nat list \<Rightarrow> (string \<rightharpoonup> nat) \<Rightarrow> string list \<Rightarrow>
  ((string \<rightharpoonup> nat) \<times> string list) parse_result" where
  "parse_tasks Y cfg [] task_index task_names = Inr (task_index, task_names)"
| "parse_tasks Y cfg (i # is) task_index task_names =
     bindR (conf_call (config_get_string Y cfg (''tasks.'' @ dec_digits i @ ''.name''))) (\<lambda>task_name.
       parse_tasks Y cfg is (task_index(task_name \<mapsto> to_u32 (int i))) (task_names @ [task_name]))"





section \<open>What the parser guarantees\<close>

lemma conf_call_Inr [simp]: "conf_call r = Inr v \<longleftrightarrow> r = Inr v"
  by (cases r) (auto simp: conf_call_def)

lemma std_call_Inr [simp]: "std_call r = Inr v \<longleftrightarrow> r = Inr v"
  by (cases r) (auto simp: std_call_def)

lemma reject_Inr [simp]: "reject msg \<noteq> Inr v" "Inr v \<noteq> reject msg"
  by (simp_all add: reject_def)















lemma sample_digits: "dec_digits 0 = ''0''" "dec_digits (Suc 0) = ''1''"
  by code_simp+




section \<open>Inputs the parser does not reject\<close>

text \<open>A snapshot interval of twenty digits overflows the signed accumulator, which is undefined behaviour.\<close>

lemma snapshot_interval_overflows:
  "parse_snapshot_interval (replicate 20 (CHR ''9'')) = Inl Undefined_behaviour"
  by code_simp

text \<open>An interval that fits the accumulator can still overflow the conversion to nanoseconds.\<close>

lemma snapshot_interval_seconds_overflow:
  "parse_snapshot_interval ''10000000000s'' = Inl Undefined_behaviour"
  by code_simp

text \<open>Two tasks of the same name are accepted; edges by that name refer to the later one.\<close>

lemma duplicate_task_names_accepted:
  assumes "config_get_string Y cfg ''tasks.0.name'' = Inr a" "config_get_string Y cfg ''tasks.1.name'' = Inr a"
  shows "parse_tasks Y cfg [0, 1] Map.empty [] = Inr ([a \<mapsto> 1], [a, a])"
  using assms by (simp add: sample_digits conf_call_def to_u32_def)

end
