(* ===== verification/Conf_C_Api.thy ===== *)
theory Conf_C_Api
  imports Conf_Config Handle_Store
begin

text \<open>
  The C bridge of CONF: \<^verbatim>\<open>conf/src/fortran/handle_registry.hpp\<close> and
  \<^verbatim>\<open>conf/src/fortran/conf_c_interop.cpp\<close>.

  The registry maps tokens to objects; taking a token past the largest \<open>int\<close> is a signed overflow.
  A C function takes a character pointer as \<open>None\<close> or the characters readable behind it,
  an out-pointer as a flag that says whether it is non-null, and returns its status, what it
  wrote, and the registry. Out-of-memory exceptions are not modelled.
\<close>

section \<open>The registry\<close>

record 'p Handle_Registry =
  hr_handles :: "int \<rightharpoonup> 'p"
  hr_next_token :: int

definition CONF_HANDLE_INVALID :: int where
  "CONF_HANDLE_INVALID = 0"

definition empty_registry :: "'p Handle_Registry" where
  "empty_registry = \<lparr>hr_handles = Map.empty, hr_next_token = 1\<rparr>"

definition register_handle :: "'p \<Rightarrow> 'p Handle_Registry \<Rightarrow> (int \<times> 'p Handle_Registry) result" where
  "register_handle ptr reg =
     (let token = hr_next_token reg in
      bindR (ub32 (token + 1)) (\<lambda>next.
        Inr (token, reg\<lparr>hr_handles := (hr_handles reg)(token \<mapsto> ptr), hr_next_token := next\<rparr>)))"

definition handle_lookup :: "'p Handle_Registry \<Rightarrow> int \<Rightarrow> 'p option" where
  "handle_lookup reg token = hr_handles reg token"

definition release_handle :: "int \<Rightarrow> 'p Handle_Registry \<Rightarrow> 'p option \<times> 'p Handle_Registry" where
  "release_handle token reg =
     (case hr_handles reg token of
        None \<Rightarrow> (None, reg)
      | Some ptr \<Rightarrow> (Some ptr, reg\<lparr>hr_handles := (hr_handles reg)(token := None)\<rparr>))"

definition handle_valid :: "'p Handle_Registry \<Rightarrow> int \<Rightarrow> bool" where
  "handle_valid reg token \<longleftrightarrow> hr_handles reg token \<noteq> None"

section \<open>The bridge\<close>

definition conf_c_try :: "'a conf_result \<Rightarrow> int \<times> 'a option" where
  "conf_c_try body =
     (case body of
        Inr v \<Rightarrow> (error_code_value Success, Some v)
      | Inl e \<Rightarrow> (error_code_value (ce_code e), None))"

definition lookup_config :: "'n Config Handle_Registry \<Rightarrow> int \<Rightarrow> 'n Config option" where
  "lookup_config reg handle = (if handle = CONF_HANDLE_INVALID then None else handle_lookup reg handle)"

definition c_string :: "string \<Rightarrow> int \<Rightarrow> string" where
  "c_string chars len = take (nat len) chars"

definition conf_open :: "'n Config conf_result \<Rightarrow> 'n Config Handle_Registry \<Rightarrow>
  (int \<times> int option \<times> 'n Config Handle_Registry) result" where
  "conf_open loaded reg =
     (case loaded of
        Inl e \<Rightarrow> Inr (error_code_value (ce_code e), None, reg)
      | Inr cfg \<Rightarrow> mapR (\<lambda>(token, reg'). (error_code_value Success, Some token, reg')) (register_handle cfg reg))"

definition conf_load_c :: "('n, 'd) yaml_api \<Rightarrow> (string \<Rightarrow> string option) \<Rightarrow> string option \<Rightarrow> int \<Rightarrow> bool \<Rightarrow>
  'n Config Handle_Registry \<Rightarrow> (int \<times> int option \<times> 'n Config Handle_Registry) result" where
  "conf_load_c Y fs path path_len handle_out reg =
     (if path = None \<or> \<not> handle_out \<or> path_len < 1 then Inr (error_code_value Invalid_Arg, None, reg)
      else conf_open (config_from_file Y fs (c_string (the path) path_len)) reg)"

definition conf_load_string_c :: "('n, 'd) yaml_api \<Rightarrow> string option \<Rightarrow> int \<Rightarrow> bool \<Rightarrow>
  'n Config Handle_Registry \<Rightarrow> (int \<times> int option \<times> 'n Config Handle_Registry) result" where
  "conf_load_string_c Y yaml_text text_len handle_out reg =
     (if yaml_text = None \<or> \<not> handle_out \<or> text_len < 1 then Inr (error_code_value Invalid_Arg, None, reg)
      else conf_open (config_from_string Y (c_string (the yaml_text) text_len)) reg)"

definition conf_close_c :: "int \<Rightarrow> 'n Config Handle_Registry \<Rightarrow> int \<times> 'n Config Handle_Registry" where
  "conf_close_c handle reg =
     (if handle = CONF_HANDLE_INVALID then (error_code_value Bad_Handle, reg)
      else case release_handle handle reg of
             (None, reg') \<Rightarrow> (error_code_value Bad_Handle, reg')
           | (Some _, reg') \<Rightarrow> (error_code_value Success, reg'))"

text \<open>The shape the six accessors share: check the pointers, then the handle, then call.\<close>

definition conf_access :: "string option \<Rightarrow> int \<Rightarrow> bool \<Rightarrow> 'n Config Handle_Registry \<Rightarrow> int \<Rightarrow>
  ('n Config \<Rightarrow> string \<Rightarrow> 'a conf_result) \<Rightarrow> int \<times> 'a option" where
  "conf_access key key_len out reg handle call =
     (if key = None \<or> \<not> out \<or> key_len < 1 then (error_code_value Invalid_Arg, None)
      else case lookup_config reg handle of
             None \<Rightarrow> (error_code_value Bad_Handle, None)
           | Some cfg \<Rightarrow> conf_c_try (call cfg (c_string (the key) key_len)))"

definition conf_has_key_c :: "('n, 'd) yaml_api \<Rightarrow> 'n Config Handle_Registry \<Rightarrow> int \<Rightarrow> string option \<Rightarrow> int \<Rightarrow> bool \<Rightarrow> int \<times> int option" where
  "conf_has_key_c Y reg handle key key_len exists_out =
     conf_access key key_len exists_out reg handle (\<lambda>cfg k. Inr (if config_has Y cfg k then 1 else 0))"

definition conf_size_c :: "('n, 'd) yaml_api \<Rightarrow> 'n Config Handle_Registry \<Rightarrow> int \<Rightarrow> string option \<Rightarrow> int \<Rightarrow> bool \<Rightarrow> int \<times> int option" where
  "conf_size_c Y reg handle key key_len size_out =
     conf_access key key_len size_out reg handle (\<lambda>cfg k. Inr (wrap32 (int (config_size Y cfg k))))"

definition conf_get_int_c :: "('n, 'd) yaml_api \<Rightarrow> 'n Config Handle_Registry \<Rightarrow> int \<Rightarrow> string option \<Rightarrow> int \<Rightarrow> bool \<Rightarrow> int \<times> int option" where
  "conf_get_int_c Y reg handle key key_len out = conf_access key key_len out reg handle (config_get_int Y)"

definition conf_get_double_c :: "('n, 'd) yaml_api \<Rightarrow> 'n Config Handle_Registry \<Rightarrow> int \<Rightarrow> string option \<Rightarrow> int \<Rightarrow> bool \<Rightarrow> int \<times> 'd option" where
  "conf_get_double_c Y reg handle key key_len out = conf_access key key_len out reg handle (config_get_double Y)"

definition conf_get_bool_c :: "('n, 'd) yaml_api \<Rightarrow> 'n Config Handle_Registry \<Rightarrow> int \<Rightarrow> string option \<Rightarrow> int \<Rightarrow> bool \<Rightarrow> int \<times> int option" where
  "conf_get_bool_c Y reg handle key key_len out =
     conf_access key key_len out reg handle (\<lambda>cfg k. mapR (\<lambda>b. if b then 1 else 0) (config_get_bool Y cfg k))"

definition conf_get_string_len_c :: "('n, 'd) yaml_api \<Rightarrow> 'n Config Handle_Registry \<Rightarrow> int \<Rightarrow> string option \<Rightarrow> int \<Rightarrow> bool \<Rightarrow> int \<times> int option" where
  "conf_get_string_len_c Y reg handle key key_len str_len_out =
     conf_access key key_len str_len_out reg handle (\<lambda>cfg k. mapR (\<lambda>v. wrap32 (int (length v))) (config_get_string Y cfg k))"

text \<open>The buffer is \<open>None\<close> for a null pointer or its characters; the result has the buffer after the call.\<close>

definition conf_get_string_c :: "('n, 'd) yaml_api \<Rightarrow> 'n Config Handle_Registry \<Rightarrow> int \<Rightarrow> string option \<Rightarrow> int \<Rightarrow>
  string option \<Rightarrow> int \<Rightarrow> bool \<Rightarrow> int \<times> int option \<times> string option" where
  "conf_get_string_c Y reg handle key key_len buf buf_cap written_out =
     (if key = None \<or> \<not> written_out \<or> key_len < 1 then (error_code_value Invalid_Arg, None, buf)
      else if buf = None then (error_code_value Invalid_Arg, None, buf)
      else case lookup_config reg handle of
             None \<Rightarrow> (error_code_value Bad_Handle, None, buf)
           | Some cfg \<Rightarrow>
               (case config_get_string Y cfg (c_string (the key) key_len) of
                  Inl e \<Rightarrow> (error_code_value (ce_code e), None, buf)
                | Inr v \<Rightarrow>
                    let need = wrap32 (int (length v)) in
                    if need > buf_cap then (error_code_value Buffer_Too_Small, None, buf)
                    else (error_code_value Success, Some need,
                          if need > 0 then Some (take (nat need) v @ drop (nat need) (the buf)) else buf)))"

section \<open>The registry is a handle store\<close>

definition token_inv :: "'p Handle_Registry \<Rightarrow> bool" where
  "token_inv reg \<longleftrightarrow> 1 \<le> hr_next_token reg \<and> hr_next_token reg \<le> 2147483647 \<and> dom (hr_handles reg) \<subseteq> {1..<hr_next_token reg}"

definition register_token :: "'p \<Rightarrow> 'p Handle_Registry \<Rightarrow> int option \<times> 'p Handle_Registry" where
  "register_token ptr reg = (case register_handle ptr reg of Inl _ \<Rightarrow> (None, reg) | Inr (t, reg') \<Rightarrow> (Some t, reg'))"

definition release_token :: "int \<Rightarrow> 'p Handle_Registry \<Rightarrow> bool \<times> 'p Handle_Registry" where
  "release_token token reg = (case release_handle token reg of (r, reg') \<Rightarrow> (r \<noteq> None, reg'))"

lemma empty_registry_inv: "token_inv empty_registry"
  by (simp add: token_inv_def empty_registry_def)

interpretation conf_store: handle_store token_inv handle_lookup register_token release_token
proof
  fix s :: "'p Handle_Registry" and v h s'
  assume i: "token_inv s" and "register_token v s = (Some h, s')"
  then have r: "h = hr_next_token s" "is_i32 (hr_next_token s + 1)"
    "s' = s\<lparr>hr_handles := (hr_handles s)(h \<mapsto> v), hr_next_token := hr_next_token s + 1\<rparr>"
    by (auto simp: register_token_def register_handle_def Let_def bindR_def ub32_def split: sum.splits if_splits)
  have "h \<notin> dom (hr_handles s)" using i r(1) by (auto simp: token_inv_def)
  then show "token_inv s' \<and> handle_lookup s h = None \<and> handle_lookup s' = (handle_lookup s)(h \<mapsto> v)"
    using i r by (auto simp: token_inv_def handle_lookup_def is_i32_def fun_eq_iff)
next
  fix s :: "'p Handle_Registry" and v s'
  assume "token_inv s" "register_token v s = (None, s')"
  then show "s' = s" by (auto simp: register_token_def split: sum.splits prod.splits)
next
  fix s :: "'p Handle_Registry" and h ok s'
  assume i: "token_inv s" and r: "release_token h s = (ok, s')"
  show "token_inv s' \<and> ok = (handle_lookup s h \<noteq> None) \<and> handle_lookup s' = (handle_lookup s)(h := None)"
  proof (cases "hr_handles s h")
    case None
    then have "ok = False" "s' = s" using r by (auto simp: release_token_def release_handle_def)
    then show ?thesis using i None by (auto simp: handle_lookup_def fun_eq_iff)
  next
    case (Some p)
    then have "ok = True" "s' = s\<lparr>hr_handles := (hr_handles s)(h := None)\<rparr>"
      using r by (auto simp: release_token_def release_handle_def)
    then show ?thesis using i Some by (auto simp: token_inv_def handle_lookup_def fun_eq_iff)
  qed
qed

text \<open>
  Handles of documents are never reused: opening a document gives a positive handle that was not live, and
  that handle keeps naming the document through any sequence of later opens and closes of other
  handles; closing it succeeds once, after which closing it again or reading through it
  is a bad-handle error.
\<close>

theorem conf_handle_lifetime:
  assumes inv: "token_inv reg" and op: "conf_open (Inr cfg) reg = Inr (code, Some h, reg1)"
    and ops: "Unregister h \<notin> set ops" and r2: "reg2 = fold conf_store.apply_op ops reg1"
    and cl: "conf_close_c h reg2 = (c1, reg3)" and key: "1 \<le> len"
  shows "code = error_code_value Success \<and> 0 < h \<and> handle_lookup reg h = None \<and> lookup_config reg2 h = Some cfg \<and>
    c1 = error_code_value Success \<and> lookup_config reg3 h = None \<and>
    conf_close_c h reg3 = (error_code_value Bad_Handle, reg3) \<and>
    conf_get_int_c Y reg3 h (Some k) len True = (error_code_value Bad_Handle, None)"
proof -
  have reg: "register_token cfg reg = (Some h, reg1)" "code = error_code_value Success"
    using op by (auto simp: conf_open_def register_token_def mapR_eq_Inr split: prod.splits)
  note s = conf_store.register_some [OF inv reg(1)]
  have l1: "handle_lookup reg1 h = Some cfg" using s by simp
  then have "h \<in> dom (hr_handles reg1)" by (auto simp: handle_lookup_def)
  then have pos: "0 < h" using s by (auto simp: token_inv_def)
  have l2: "handle_lookup reg2 h = Some cfg" and inv2: "token_inv reg2"
    using conf_store.live_handle_stable [OF _ l1 ops] conf_store.run_inv s r2 by auto
  have c: "c1 = error_code_value Success" "reg3 = reg2\<lparr>hr_handles := (hr_handles reg2)(h := None)\<rparr>"
    using cl pos l2 by (auto simp: conf_close_c_def release_handle_def CONF_HANDLE_INVALID_def handle_lookup_def split: option.splits)
  show ?thesis
    using reg(2) pos s l2 c key
    by (auto simp: lookup_config_def CONF_HANDLE_INVALID_def handle_lookup_def conf_close_c_def release_handle_def
        conf_get_int_c_def conf_access_def)
qed

text \<open>
  The two-call string protocol is lossless: for a value shorter than \<open>2\<^sup>3\<^sup>1\<close> characters, the length call gives its length, and the
  copy call with at least that capacity writes exactly the value to the front of the buffer and
  keeps the rest, while a smaller capacity gives a buffer-too-small error and writes nothing.
\<close>

theorem conf_string_protocol:
  assumes h: "lookup_config reg h = Some cfg" and len: "1 \<le> key_len"
    and v: "config_get_string Y cfg (c_string key key_len) = Inr v" "length v < 2 ^ 31"
    and cap: "int (length buf) = buf_cap"
  shows "conf_get_string_len_c Y reg h (Some key) key_len True = (0, Some (int (length v))) \<and>
    conf_get_string_c Y reg h (Some key) key_len (Some buf) buf_cap True =
      (if length v \<le> length buf then (0, Some (int (length v)), Some (v @ drop (length v) buf))
       else (error_code_value Buffer_Too_Small, None, Some buf))"
proof -
  have "is_i32 (int (length v))" using v(2) by (simp add: is_i32_def)
  then show ?thesis
    using h len v cap
    by (auto simp: conf_get_string_len_c_def conf_get_string_c_def conf_access_def conf_c_try_def Let_def)
qed

section \<open>Witnesses\<close>

definition sample_config :: "ytree Config" where
  "sample_config = Some (YMap [(''name'', YScalar ''helm'')])"

theorem conf_handle_lifetime_witness:
  "lookup_config (fold conf_store.apply_op [Register None, Unregister 2]
     (snd (snd (the (to_optional (conf_open (Inr sample_config) empty_registry)))))) 1 = Some sample_config"
proof -
  have op: "conf_open (Inr sample_config) empty_registry = Inr (0, Some 1,
      \<lparr>hr_handles = [1 \<mapsto> sample_config], hr_next_token = 2\<rparr>)"
    by (simp add: conf_open_def register_handle_def empty_registry_def is_i32_def Let_def)
  have "Unregister (1 :: int) \<notin> set [Register (None :: ytree Config), Unregister 2]" by simp
  from conf_handle_lifetime [where Y = "tree_api Inl" and k = "[]" and len = 1,
      OF empty_registry_inv op this refl surjective_pairing]
  have "lookup_config (fold conf_store.apply_op [Register None, Unregister 2]
      \<lparr>hr_handles = [1 \<mapsto> sample_config], hr_next_token = 2\<rparr>) 1 = Some sample_config" by simp
  then show ?thesis using op by (simp add: to_optional_def)
qed

theorem conf_string_protocol_witness:
  "conf_get_string_c (tree_api Inl) \<lparr>hr_handles = [1 \<mapsto> sample_config], hr_next_token = 2\<rparr> 1 (Some ''name'') 4 (Some ''......'') 6 True =
     (0, Some 4, Some ''helm..'')"
proof -
  have k: "c_string ''name'' 4 = ''name''" by (simp add: c_string_def)
  have "split_segments ''name'' 0 = [''name'']" using split_none [of 0 "''name''"] by (simp add: dot_free_def)
  then have "config_get_string (tree_api Inl) sample_config (c_string ''name'' 4) = Inr ''helm''"
    unfolding k by (simp add: config_get_string_def get_node_def sample_config_def yaml_resolve_def Let_def descend_def tree_api_def
        convert_string_def convert_scalar_def)
  from conf_string_protocol [OF _ _ this, of "\<lparr>hr_handles = [1 \<mapsto> sample_config], hr_next_token = 2\<rparr>" 1 "''......''" 6]
  show ?thesis by (simp add: lookup_config_def CONF_HANDLE_INVALID_def handle_lookup_def)
qed

end
