(* ===== verification/Amio_Handle_Table.thy ===== *)
theory Amio_Handle_Table
  imports Handle_Store
begin

unbundle bit_operations_syntax

text \<open>
  AMIO's status codes and its handle table: \<^verbatim>\<open>amio/include/amio/amio_errors.h\<close> and
  \<^verbatim>\<open>amio/src/c_boundary/handle_table.cpp\<close>.

  A token packs a slot index and a generation of 32 bits each; the words keep their widths, so the
  generation wraps. A payload is an address, 0 being null. Each member function runs
  under the table's mutex and is one step on the state.
\<close>

section \<open>Status codes\<close>

datatype amio_err =
    AMIO_OK
  | AMIO_ERR_NULL_HANDLE
  | AMIO_ERR_INVALID_HANDLE
  | AMIO_ERR_MANIFEST_NOT_FOUND
  | AMIO_ERR_MANIFEST_INVALID
  | AMIO_ERR_ALREADY_INITIALIZED
  | AMIO_ERR_FINALIZE_TIMEOUT
  | AMIO_ERR_STAGING_BACKPRESSURE
  | AMIO_ERR_INVALID_BINDING
  | AMIO_ERR_COMM_SPLIT_FAILED
  | AMIO_ERR_THREADING_UNSUPPORTED
  | AMIO_ERR_UNKNOWN_BACKEND
  | AMIO_ERR_LOSSY_CODEC_FORBIDDEN
  | AMIO_ERR_VIEWS_OUTSTANDING
  | AMIO_ERR_QUEUE_FULL
  | AMIO_ERR_TIMEOUT
  | AMIO_ERR_BACKEND_FAILURE
  | AMIO_ERR_INVALID_INPUT

section \<open>The table\<close>

datatype HandleKind = Kind_Core | Kind_Dataset | Kind_Io | Kind_View

type_synonym token = "64 word"

record Slot =
  sl_generation :: "32 word"
  sl_live :: bool
  sl_kind :: HandleKind
  sl_payload :: nat

record HandleTable =
  ht_slots :: "Slot list"
  ht_free_list :: "32 word list"

definition kMinGeneration :: "32 word" where
  "kMinGeneration = 1"

definition mk_handle_table :: HandleTable where
  "mk_handle_table = \<lparr>ht_slots = [], ht_free_list = []\<rparr>"

definition token_pack :: "32 word \<Rightarrow> 32 word \<Rightarrow> token" where
  "token_pack slot generation = push_bit 32 (ucast slot) OR ucast generation"

definition unpack_slot :: "token \<Rightarrow> 32 word" where
  "unpack_slot t = ucast (drop_bit 32 t)"

definition unpack_generation :: "token \<Rightarrow> 32 word" where
  "unpack_generation t = ucast (t AND 0xFFFFFFFF)"

definition handle_insert :: "HandleKind \<Rightarrow> nat \<Rightarrow> HandleTable \<Rightarrow> token \<times> HandleTable" where
  "handle_insert kind payload ht =
     (let issue = (\<lambda>slot_index slots free.
        let s = (slots ! unat slot_index)\<lparr>sl_live := True, sl_kind := kind, sl_payload := payload\<rparr> in
        (token_pack slot_index (sl_generation s),
         \<lparr>ht_slots = slots[unat slot_index := s], ht_free_list = free\<rparr>))
      in if ht_free_list ht \<noteq> [] then issue (last (ht_free_list ht)) (ht_slots ht) (butlast (ht_free_list ht))
         else if length (ht_slots ht) \<ge> 4294967295 then (0, ht)
         else issue (of_nat (length (ht_slots ht)))
                (ht_slots ht @ [\<lparr>sl_generation = kMinGeneration, sl_live = False, sl_kind = Kind_Core, sl_payload = 0\<rparr>]) [])"

definition table_lookup :: "HandleTable \<Rightarrow> token \<Rightarrow> HandleKind \<Rightarrow> amio_err \<times> nat" where
  "table_lookup ht token expected =
     (if token = 0 then (AMIO_ERR_NULL_HANDLE, 0)
      else let slot_index = unat (unpack_slot token); generation = unpack_generation token in
        if slot_index \<ge> length (ht_slots ht) then (AMIO_ERR_INVALID_HANDLE, 0)
        else let s = ht_slots ht ! slot_index in
          if \<not> sl_live s \<or> sl_generation s \<noteq> generation then (AMIO_ERR_INVALID_HANDLE, 0)
          else if sl_kind s \<noteq> expected then (AMIO_ERR_INVALID_HANDLE, 0)
          else (AMIO_OK, sl_payload s))"

definition handle_release :: "token \<Rightarrow> HandleKind \<Rightarrow> HandleTable \<Rightarrow> amio_err \<times> HandleTable" where
  "handle_release token expected ht =
     (if token = 0 then (AMIO_ERR_NULL_HANDLE, ht)
      else let slot_index = unpack_slot token; generation = unpack_generation token in
        if unat slot_index \<ge> length (ht_slots ht) then (AMIO_ERR_INVALID_HANDLE, ht)
        else let s = ht_slots ht ! unat slot_index in
          if \<not> sl_live s \<or> sl_generation s \<noteq> generation \<or> sl_kind s \<noteq> expected then (AMIO_ERR_INVALID_HANDLE, ht)
          else let g = sl_generation s + 1;
                   s' = s\<lparr>sl_live := False, sl_payload := 0, sl_generation := (if g = 0 then kMinGeneration else g)\<rparr>
               in (AMIO_OK, \<lparr>ht_slots = (ht_slots ht)[unat slot_index := s'], ht_free_list = ht_free_list ht @ [slot_index]\<rparr>))"

definition size_for_test :: "HandleTable \<Rightarrow> nat" where
  "size_for_test ht = length (ht_slots ht) - length (ht_free_list ht)"

section \<open>Tokens\<close>

lemma low_half_mask: "(0xFFFFFFFF :: token) = mask 32"
  by (simp add: mask_eq_exp_minus_1)

lemma unpack_pack [simp]: "unpack_slot (token_pack s g) = s" "unpack_generation (token_pack s g) = g"
proof -
  show "unpack_slot (token_pack s g) = s"
    unfolding unpack_slot_def token_pack_def
    by (intro bit_word_eqI) (auto simp: bit_simps dest: bit_imp_le_length)
  show "unpack_generation (token_pack s g) = g"
    unfolding unpack_generation_def token_pack_def low_half_mask
    by (intro bit_word_eqI) (auto simp: bit_simps)
qed

lemma pack_unpack [simp]: "token_pack (unpack_slot t) (unpack_generation t) = t"
  unfolding unpack_slot_def token_pack_def unpack_generation_def low_half_mask
proof (intro bit_word_eqI)
  fix n assume "n < LENGTH(64)"
  then show "bit (push_bit 32 (ucast (ucast (drop_bit 32 t) :: 32 word)) OR ucast (ucast (t AND mask 32) :: 32 word) :: token) n = bit t n"
    by (cases "n < 32") (auto simp: bit_simps)
qed

lemma pack_eq_iff [simp]:
  "token_pack s g = t \<longleftrightarrow> unpack_slot t = s \<and> unpack_generation t = g"
  "t = token_pack s g \<longleftrightarrow> unpack_slot t = s \<and> unpack_generation t = g"
  by (metis pack_unpack unpack_pack)+

lemma unpack_zero [simp]: "unpack_slot 0 = 0" "unpack_generation 0 = 0"
  by (simp_all add: unpack_slot_def unpack_generation_def)

section \<open>The invariant\<close>

text \<open>The free list holds each slot that is not live once, and no slot has generation 0.\<close>

definition table_inv :: "HandleTable \<Rightarrow> bool" where
  "table_inv ht \<longleftrightarrow> length (ht_slots ht) \<le> 4294967295 \<and> distinct (ht_free_list ht) \<and>
     (\<forall>i. i \<in> unat ` set (ht_free_list ht) \<longleftrightarrow> i < length (ht_slots ht) \<and> \<not> sl_live (ht_slots ht ! i)) \<and>
     (\<forall>s\<in>set (ht_slots ht). sl_generation s \<noteq> 0)"

text \<open>The object a token stands for, whatever kind is asked for.\<close>

definition table_find :: "HandleTable \<Rightarrow> token \<Rightarrow> (HandleKind \<times> nat) option" where
  "table_find ht t =
     (let i = unat (unpack_slot t) in
      if i < length (ht_slots ht) \<and> sl_live (ht_slots ht ! i) \<and> sl_generation (ht_slots ht ! i) = unpack_generation t
      then Some (sl_kind (ht_slots ht ! i), sl_payload (ht_slots ht ! i)) else None)"

lemma table_invD:
  assumes "table_inv ht"
  shows "length (ht_slots ht) \<le> 4294967295" "distinct (ht_free_list ht)"
    and "i \<in> unat ` set (ht_free_list ht) \<longleftrightarrow> i < length (ht_slots ht) \<and> \<not> sl_live (ht_slots ht ! i)"
    and "i < length (ht_slots ht) \<Longrightarrow> sl_generation (ht_slots ht ! i) \<noteq> 0"
  using assms unfolding table_inv_def by (blast intro: nth_mem)+

lemma mk_handle_table_inv: "table_inv mk_handle_table"
  by (simp add: table_inv_def mk_handle_table_def)

lemma table_find_zero [simp]: "table_inv ht \<Longrightarrow> table_find ht 0 = None"
  using table_invD(4) [of ht 0] by (auto simp: table_find_def Let_def)

text \<open>Both client operations are determined by what the token stands for.\<close>

lemma table_lookup_find:
  assumes "table_inv ht"
  shows "table_lookup ht t k =
     (if t = 0 then (AMIO_ERR_NULL_HANDLE, 0)
      else case table_find ht t of
             Some (k', p) \<Rightarrow> if k' = k then (AMIO_OK, p) else (AMIO_ERR_INVALID_HANDLE, 0)
           | None \<Rightarrow> (AMIO_ERR_INVALID_HANDLE, 0))"
  by (auto simp: table_lookup_def table_find_def Let_def)

lemma table_find_other_slot:
  "unat (unpack_slot u) \<noteq> i \<Longrightarrow> table_find \<lparr>ht_slots = slots[i := s], ht_free_list = f\<rparr> u =
     table_find \<lparr>ht_slots = slots, ht_free_list = f'\<rparr> u"
  by (simp add: table_find_def Let_def)

lemma table_find_slots: "table_find \<lparr>ht_slots = ht_slots ht, ht_free_list = f\<rparr> = table_find ht"
  by (simp add: table_find_def fun_eq_iff Let_def)

lemma issue_spec:
  assumes slots: "length slots \<le> 4294967295" "\<forall>s\<in>set slots. sl_generation s \<noteq> 0"
    and i: "unat i < length slots" "\<not> sl_live (slots ! unat i)"
    and free: "distinct free" "\<And>j. j \<in> unat ` set free \<longleftrightarrow> j < length slots \<and> \<not> sl_live (slots ! j) \<and> j \<noteq> unat i"
    and s: "s = (slots ! unat i)\<lparr>sl_live := True, sl_kind := k, sl_payload := p\<rparr>"
    and t: "t = token_pack i (sl_generation s)" and ht': "ht' = \<lparr>ht_slots = slots[unat i := s], ht_free_list = free\<rparr>"
  shows "table_inv ht' \<and> t \<noteq> 0 \<and> table_find \<lparr>ht_slots = slots, ht_free_list = f\<rparr> t = None \<and>
    table_find ht' = (table_find \<lparr>ht_slots = slots, ht_free_list = f\<rparr>)(t \<mapsto> (k, p))"
proof (intro conjI ext)
  have g: "sl_generation s \<noteq> 0" using slots(2) i(1) s by (auto simp: all_set_conv_all_nth)
  have st: "unpack_slot t = i" "unpack_generation t = sl_generation s" using t by simp_all
  show "t \<noteq> 0" using g st by auto
  show "table_inv ht'"
    using slots free g i by (auto simp: table_inv_def ht' s nth_list_update all_set_conv_all_nth)
  show "table_find \<lparr>ht_slots = slots, ht_free_list = f\<rparr> t = None" using st i by (simp add: table_find_def Let_def)
  show "table_find ht' u = ((table_find \<lparr>ht_slots = slots, ht_free_list = f\<rparr>)(t \<mapsto> (k, p))) u" for u
  proof (cases "unpack_slot u = i")
    case True
    have "u = t \<longleftrightarrow> unpack_generation u = sl_generation s" using True st by (metis pack_unpack)
    then show ?thesis using True i by (auto simp: table_find_def Let_def ht' s)
  next
    case False
    then have "u \<noteq> t" "unat (unpack_slot u) \<noteq> unat i" using st by (auto simp flip: word_unat_eq_iff)
    then show ?thesis unfolding ht' by (simp add: table_find_other_slot [where f' = f])
  qed
qed

lemma handle_insert_spec:
  assumes inv: "table_inv ht" and ins: "handle_insert k p ht = (t, ht')"
  shows "if t = 0 then ht' = ht else
    table_inv ht' \<and> table_find ht t = None \<and> table_find ht' = (table_find ht)(t \<mapsto> (k, p))"
proof (cases "ht_free_list ht = []")
  case False
  define i where "i = last (ht_free_list ht)"
  define s where "s = (ht_slots ht ! unat i)\<lparr>sl_live := True, sl_kind := k, sl_payload := p\<rparr>"
  have fl: "ht_free_list ht = butlast (ht_free_list ht) @ [i]" using False by (simp add: i_def)
  have st: "set (ht_free_list ht) = insert i (set (butlast (ht_free_list ht)))" by (subst fl) simp
  have di: "distinct (butlast (ht_free_list ht))" "i \<notin> set (butlast (ht_free_list ht))"
    using table_invD(2) [OF inv] fl by (metis distinct_append, metis distinct_append not_distinct_conv_prefix)
  have "unat i \<in> unat ` set (ht_free_list ht)" using st by simp
  then have i: "unat i < length (ht_slots ht)" "\<not> sl_live (ht_slots ht ! unat i)" using table_invD(3) [OF inv] by auto
  have fr: "j \<in> unat ` set (butlast (ht_free_list ht)) \<longleftrightarrow>
      j < length (ht_slots ht) \<and> \<not> sl_live (ht_slots ht ! j) \<and> j \<noteq> unat i" for j
    using table_invD(3) [OF inv, of j] di(2) st by (auto simp flip: word_unat_eq_iff)
  have r: "t = token_pack i (sl_generation s)"
      "ht' = \<lparr>ht_slots = (ht_slots ht)[unat i := s], ht_free_list = butlast (ht_free_list ht)\<rparr>"
    using ins False by (auto simp: handle_insert_def Let_def i_def s_def)
  have "\<forall>s\<in>set (ht_slots ht). sl_generation s \<noteq> 0" using inv by (simp add: table_inv_def)
  from issue_spec [OF table_invD(1) [OF inv] this i di(1) fr s_def r, of "ht_free_list ht"]
  show ?thesis by (simp add: table_find_slots)
next
  case True
  show ?thesis
  proof (cases "length (ht_slots ht) \<ge> 4294967295")
    case full: True
    then show ?thesis using ins True by (simp add: handle_insert_def)
  next
    case False
    let ?new = "\<lparr>sl_generation = kMinGeneration, sl_live = False, sl_kind = Kind_Core, sl_payload = 0\<rparr>"
    let ?slots = "ht_slots ht @ [?new]"
    define i :: "32 word" where "i = of_nat (length (ht_slots ht))"
    define s where "s = (?slots ! unat i)\<lparr>sl_live := True, sl_kind := k, sl_payload := p\<rparr>"
    have i: "unat i = length (ht_slots ht)" using False by (simp add: i_def unat_of_nat)
    have live: "j < length (ht_slots ht) \<Longrightarrow> sl_live (ht_slots ht ! j)" for j
      using table_invD(3) [OF inv, of j] True by auto
    have r: "t = token_pack i (sl_generation s)" "ht' = \<lparr>ht_slots = ?slots[unat i := s], ht_free_list = []\<rparr>"
      using ins True False by (auto simp: handle_insert_def Let_def i_def s_def)
    have "table_find \<lparr>ht_slots = ?slots, ht_free_list = []\<rparr> = table_find ht"
      by (auto simp: table_find_def Let_def nth_append less_Suc_eq fun_eq_iff)
    moreover have "\<forall>s\<in>set ?slots. sl_generation s \<noteq> 0" using inv by (auto simp: table_inv_def kMinGeneration_def)
    moreover have "j \<in> unat ` set [] \<longleftrightarrow> j < length ?slots \<and> \<not> sl_live (?slots ! j) \<and> j \<noteq> unat i" for j
      using live [of j] i by (auto simp: nth_append less_Suc_eq)
    ultimately show ?thesis
      using issue_spec [OF _ _ _ _ _ _ s_def r, of "[]"] i False by (auto simp: nth_append)
  qed
qed

lemma handle_release_spec:
  assumes inv: "table_inv ht" and rel: "handle_release t k ht = (e, ht')"
  shows "table_inv ht' \<and> (e = AMIO_OK \<longleftrightarrow> (\<exists>p. table_find ht t = Some (k, p))) \<and> (e \<noteq> AMIO_OK \<longrightarrow> ht' = ht) \<and>
    (e = AMIO_OK \<longrightarrow> table_find ht' = (table_find ht)(t := None))"
proof (cases "\<exists>p. table_find ht t = Some (k, p)")
  case False
  then have "e \<noteq> AMIO_OK \<and> ht' = ht"
    using rel table_find_zero [OF inv]
    by (cases "t = 0"; cases "unat (unpack_slot t) < length (ht_slots ht)") (auto simp: handle_release_def table_find_def Let_def split: if_splits)
  then show ?thesis using False inv by simp
next
  case True
  let ?i = "unat (unpack_slot t)" and ?g = "unpack_generation t + 1"
  have i: "?i < length (ht_slots ht)" "sl_live (ht_slots ht ! ?i)" "sl_generation (ht_slots ht ! ?i) = unpack_generation t"
      "sl_kind (ht_slots ht ! ?i) = k" "t \<noteq> 0"
    using True table_find_zero [OF inv] by (auto simp: table_find_def Let_def split: if_splits)
  define s where "s = (ht_slots ht ! ?i)\<lparr>sl_live := False, sl_payload := 0, sl_generation := (if ?g = 0 then kMinGeneration else ?g)\<rparr>"
  have r: "e = AMIO_OK" "ht' = \<lparr>ht_slots = (ht_slots ht)[?i := s], ht_free_list = ht_free_list ht @ [unpack_slot t]\<rparr>"
    using rel i by (auto simp: handle_release_def Let_def s_def)
  have nf: "unpack_slot t \<notin> set (ht_free_list ht)" using table_invD(3) [OF inv, of ?i] i(2) by auto
  have "table_inv ht'"
    using inv nf i by (auto simp: table_inv_def r s_def nth_list_update kMinGeneration_def all_set_conv_all_nth)
  moreover have "table_find ht' u = ((table_find ht)(t := None)) u" for u
  proof (cases "unpack_slot u = unpack_slot t")
    case same: True
    have "u = t \<longleftrightarrow> unpack_generation u = unpack_generation t" using same by (metis pack_unpack)
    then show ?thesis using same i by (auto simp: table_find_def Let_def r s_def)
  next
    case False
    then have "u \<noteq> t" "unat (unpack_slot u) \<noteq> ?i" by (auto simp flip: word_unat_eq_iff)
    then show ?thesis by (simp add: r table_find_def Let_def)
  qed
  ultimately show ?thesis using True r(1) by auto
qed

section \<open>The table as a handle store\<close>

text \<open>Clients name a handle by its token together with the kind they expect.\<close>

definition table_get :: "HandleTable \<Rightarrow> token \<times> HandleKind \<Rightarrow> (HandleKind \<times> nat) option" where
  "table_get ht h = (case table_lookup ht (fst h) (snd h) of (e, p) \<Rightarrow> if e = AMIO_OK then Some (snd h, p) else None)"

definition table_register :: "HandleKind \<times> nat \<Rightarrow> HandleTable \<Rightarrow> (token \<times> HandleKind) option \<times> HandleTable" where
  "table_register v ht = (case handle_insert (fst v) (snd v) ht of (t, ht') \<Rightarrow> (if t = 0 then None else Some (t, fst v), ht'))"

definition table_unregister :: "token \<times> HandleKind \<Rightarrow> HandleTable \<Rightarrow> bool \<times> HandleTable" where
  "table_unregister h ht = (case handle_release (fst h) (snd h) ht of (e, ht') \<Rightarrow> (e = AMIO_OK, ht'))"

lemma table_get_find:
  "table_inv ht \<Longrightarrow> table_get ht (t, k) = (case table_find ht t of Some (k', p) \<Rightarrow> if k' = k then Some (k, p) else None | None \<Rightarrow> None)"
  by (auto simp: table_get_def table_lookup_find split: option.splits)

interpretation amio_store: handle_store table_inv table_get table_register table_unregister
proof unfold_locales
  fix s s' :: HandleTable and v h assume inv: "table_inv s" and r: "table_register v s = (Some h, s')"
  obtain t k p where h: "h = (t, k)" "v = (k, p)" "handle_insert k p s = (t, s')" "t \<noteq> 0"
    using r by (cases v) (auto simp: table_register_def split: prod.splits if_splits)
  note i = handle_insert_spec [OF inv h(3)]
  have "table_get s' (u, l) = ((table_get s)(h \<mapsto> v)) (u, l)" for u l
    using i h by (auto simp: table_get_find inv split: option.splits)
  then show "table_inv s' \<and> table_get s h = None \<and> table_get s' = (table_get s)(h \<mapsto> v)"
    using i h by (auto simp: table_get_find inv fun_eq_iff)
next
  fix s s' :: HandleTable and v assume "table_inv s" "table_register v s = (None, s')"
  then show "s' = s" using handle_insert_spec [of s "fst v" "snd v"] by (auto simp: table_register_def split: prod.splits if_splits)
next
  fix s s' :: HandleTable and h ok assume inv: "table_inv s" and r: "table_unregister h s = (ok, s')"
  obtain t k e where h: "h = (t, k)" "handle_release t k s = (e, s')" "ok = (e = AMIO_OK)"
    using r by (cases h) (auto simp: table_unregister_def split: prod.splits)
  note d = handle_release_spec [OF inv h(2)]
  have "table_get s' (u, l) = ((table_get s)(h := None)) (u, l)" for u l
    using d h by (cases "e = AMIO_OK") (auto simp: table_get_find inv split: option.splits)
  then show "table_inv s' \<and> ok = (table_get s h \<noteq> None) \<and> table_get s' = (table_get s)(h := None)"
    using d h by (auto simp: table_get_find inv fun_eq_iff split: option.splits)
qed

section \<open>Stale tokens\<close>

text \<open>A released slot steps through the \<open>2\<^sup>3\<^sup>2 - 1\<close> nonzero generations in a cycle.\<close>

lemma next_generation:
  assumes "(g :: 32 word) \<noteq> 0"
  shows "unat (if g + 1 = 0 then kMinGeneration else g + 1) - 1 = (unat g - 1 + 1) mod 4294967295"
proof -
  have p: "0 < unat g" "unat g < 4294967296" using assms unsigned_less [where 'a = nat, of g] by (auto simp: unat_gt_0)
  show ?thesis
  proof (cases "g + 1 = 0")
    case True
    then have "g = - 1" by (simp add: eq_neg_iff_add_eq_0)
    then have "unat g = 4294967295" by (simp add: unsigned_minus_1_eq_mask mask_eq_exp_minus_1)
    then show ?thesis using True by (simp add: kMinGeneration_def)
  next
    case False
    then have u: "unat (g + 1) = unat g + 1" by (metis Suc_eq_plus1 add.commute unatSuc)
    then have "unat g + 1 < 4294967296" using unsigned_less [where 'a = nat, of "g + 1"] by simp
    then show ?thesis using False u p by simp
  qed
qed

definition generations_ahead :: "HandleTable \<Rightarrow> token \<Rightarrow> nat \<Rightarrow> bool" where
  "generations_ahead ht t c \<longleftrightarrow> unat (unpack_slot t) < length (ht_slots ht) \<and>
     unat (sl_generation (ht_slots ht ! unat (unpack_slot t))) - 1 = (unat (unpack_generation t) - 1 + c) mod 4294967295"

lemma ahead_dead:
  assumes "generations_ahead ht t c" "0 < c" "c < 4294967295" "unpack_generation t \<noteq> 0"
  shows "table_find ht t = None"
proof (rule ccontr)
  assume "table_find ht t \<noteq> None"
  then have "sl_generation (ht_slots ht ! unat (unpack_slot t)) = unpack_generation t"
    by (auto simp: table_find_def Let_def split: if_splits)
  then have e: "unat (unpack_generation t) - 1 = (unat (unpack_generation t) - 1 + c) mod 4294967295"
    using assms(1) by (simp add: generations_ahead_def)
  define a where "a = unat (unpack_generation t) - 1"
  have "a < 4294967295" using unsigned_less [where 'a = nat, of "unpack_generation t"] assms(4) by (simp add: a_def unat_gt_0)
  moreover have "(a + c) mod 4294967295 = a" using e by (simp add: a_def)
  ultimately show False using assms(2,3) by (cases "a + c < 4294967295") (auto simp: le_mod_geq)
qed

lemma insert_generation:
  assumes "table_inv ht" "handle_insert k p ht = (t, ht')" "i < length (ht_slots ht)"
  shows "i < length (ht_slots ht') \<and> sl_generation (ht_slots ht' ! i) = sl_generation (ht_slots ht ! i)"
proof (cases "ht_free_list ht = [] \<and> length (ht_slots ht) < 4294967295")
  case True
  then have "unat (of_nat (length (ht_slots ht)) :: 32 word) = length (ht_slots ht)" by (simp add: unat_of_nat)
  then show ?thesis using assms(2,3) True by (auto simp: handle_insert_def Let_def nth_append)
next
  case False
  then show ?thesis
    using assms(2,3) by (cases "i = unat (last (ht_free_list ht))") (auto simp: handle_insert_def Let_def split: if_splits)
qed

lemma apply_op_ahead:
  assumes inv: "table_inv ht" and g: "generations_ahead ht t c"
  shows "\<exists>c'. (c' = c \<or> c' = Suc c) \<and> generations_ahead (amio_store.apply_op op ht) t c'"
proof (cases op)
  case (Register v)
  obtain u ht' where "handle_insert (fst v) (snd v) ht = (u, ht')" by fastforce
  then have "generations_ahead (amio_store.apply_op op ht) t c"
    using insert_generation [OF inv, of "fst v" "snd v" u ht' "unat (unpack_slot t)"] g
    by (simp add: generations_ahead_def amio_store.apply_op_def table_register_def Register)
  then show ?thesis by blast
next
  case (Unregister h)
  obtain e ht' where r: "handle_release (fst h) (snd h) ht = (e, ht')" by fastforce
  then have a: "amio_store.apply_op op ht = ht'" by (simp add: amio_store.apply_op_def table_unregister_def Unregister)
  let ?i = "unat (unpack_slot t)" and ?G = "sl_generation (ht_slots ht ! unat (unpack_slot t))"
  have G: "?i < length (ht_slots ht)" "?G \<noteq> 0" using g table_invD(4) [OF inv] by (auto simp: generations_ahead_def)
  have "?i < length (ht_slots ht') \<and>
      (sl_generation (ht_slots ht' ! ?i) = ?G \<or> sl_generation (ht_slots ht' ! ?i) = (if ?G + 1 = 0 then kMinGeneration else ?G + 1))"
    using r G(1) by (auto simp: handle_release_def Let_def nth_list_update split: if_splits)
  then show ?thesis
  proof (elim conjE disjE)
    assume "?i < length (ht_slots ht')" "sl_generation (ht_slots ht' ! ?i) = ?G"
    then show ?thesis using g a by (auto simp: generations_ahead_def)
  next
    assume l: "?i < length (ht_slots ht')" and n: "sl_generation (ht_slots ht' ! ?i) = (if ?G + 1 = 0 then kMinGeneration else ?G + 1)"
    have "unat (sl_generation (ht_slots ht' ! ?i)) - 1 = (unat ?G - 1 + 1) mod 4294967295"
      unfolding n by (rule next_generation [OF G(2)])
    also have "\<dots> = (unat (unpack_generation t) - 1 + Suc c) mod 4294967295"
      using g by (simp add: generations_ahead_def mod_Suc_eq)
    finally show ?thesis using l a by (auto simp: generations_ahead_def)
  qed
qed

lemma fold_ahead:
  assumes "table_inv ht" "generations_ahead ht t c"
  shows "\<exists>c'. c \<le> c' \<and> c' \<le> c + length ops \<and> generations_ahead (fold amio_store.apply_op ops ht) t c'"
  using assms
proof (induction ops arbitrary: ht c)
  case (Cons op ops)
  obtain c1 where c1: "c1 = c \<or> c1 = Suc c" "generations_ahead (amio_store.apply_op op ht) t c1"
    using apply_op_ahead [OF Cons.prems] by blast
  from Cons.IH [OF amio_store.apply_op_inv [OF Cons.prems(1)] c1(2)]
  obtain c' where "c1 \<le> c'" "c' \<le> c1 + length ops" "generations_ahead (fold amio_store.apply_op ops (amio_store.apply_op op ht)) t c'"
    by blast
  then show ?case using c1(1) by (intro exI [of _ c']) auto
qed auto

lemma release_ahead:
  assumes "table_inv ht" "handle_release t k ht = (AMIO_OK, ht')"
  shows "generations_ahead ht' t 1 \<and> unpack_generation t \<noteq> 0"
proof -
  let ?i = "unat (unpack_slot t)"
  have i: "?i < length (ht_slots ht)" "sl_generation (ht_slots ht ! ?i) = unpack_generation t"
    using assms(2) by (auto simp: handle_release_def Let_def split: if_splits)
  then have g: "unpack_generation t \<noteq> 0" using table_invD(4) [OF assms(1)] by metis
  have "?i < length (ht_slots ht') \<and> sl_generation (ht_slots ht' ! ?i) =
      (if unpack_generation t + 1 = 0 then kMinGeneration else unpack_generation t + 1)"
    using assms(2) i by (auto simp: handle_release_def Let_def split: if_splits)
  then show ?thesis using next_generation [OF g] g by (simp add: generations_ahead_def)
qed

text \<open>
  C15. Handles of AMIO are safe to misuse: a new token resolves to its payload through any
  sequence of other operations, but only under the kind it was made with; releasing it succeeds
  once, and afterwards the stale token is rejected by lookup and release under every kind, through up to
  \<open>2\<^sup>3\<^sup>2 - 3\<close> further operations, even when its slot has been given out again.
\<close>

theorem amio_handle_lifetime:
  assumes inv: "table_inv ht" and ins: "handle_insert k p ht = (t, ht1)" "t \<noteq> 0"
    and ops1: "Unregister (t, k) \<notin> set ops1" and ht2: "ht2 = fold amio_store.apply_op ops1 ht1"
    and rel: "handle_release t k ht2 = (e, ht3)"
    and ops2: "length ops2 < 4294967294" and ht4: "ht4 = fold amio_store.apply_op ops2 ht3"
  shows "table_lookup ht2 t k' = (if k' = k then (AMIO_OK, p) else (AMIO_ERR_INVALID_HANDLE, 0)) \<and> e = AMIO_OK \<and>
    table_lookup ht4 t k' = (AMIO_ERR_INVALID_HANDLE, 0) \<and> handle_release t k' ht4 = (AMIO_ERR_INVALID_HANDLE, ht4)"
proof -
  have r: "table_register (k, p) ht = (Some (t, k), ht1)" using ins by (simp add: table_register_def)
  note s = amio_store.register_some [OF inv r]
  have inv2: "table_inv ht2" using s ht2 amio_store.run_inv by blast
  have "table_get ht2 (t, k) = Some (k, p)" using amio_store.live_handle_stable [OF _ _ ops1] s ht2 by auto
  then have f2: "table_find ht2 t = Some (k, p)" by (auto simp: table_get_find [OF inv2] split: option.splits if_splits)
  note d = handle_release_spec [OF inv2 rel]
  have e: "e = AMIO_OK" and inv3: "table_inv ht3" using d f2 by auto
  note a = release_ahead [OF inv2 rel [unfolded e]]
  obtain c where c: "1 \<le> c" "c \<le> 1 + length ops2" "generations_ahead ht4 t c"
    using fold_ahead [OF inv3] a ht4 by blast
  have f4: "table_find ht4 t = None" using ahead_dead [OF c(3)] c a ops2 by simp
  have inv4: "table_inv ht4" using amio_store.run_inv inv3 ht4 by blast
  have "fst (handle_release t k' ht4) = AMIO_ERR_INVALID_HANDLE"
    using f4 ins(2) by (auto simp: handle_release_def table_find_def Let_def split: if_splits)
  moreover have "snd (handle_release t k' ht4) = ht4"
    using handle_release_spec [OF inv4, of t k'] f4 by (cases "handle_release t k' ht4") auto
  ultimately show ?thesis
    using f2 f4 e ins(2) by (auto simp: table_lookup_find inv2 inv4 prod_eq_iff)
qed

theorem amio_handle_lifetime_witness:
  "table_lookup (snd (handle_release 1 Kind_View (snd (handle_insert Kind_View 7 mk_handle_table)))) 1 Kind_View =
     (AMIO_ERR_INVALID_HANDLE, 0)"
proof -
  have "token_pack 0 1 = 1" by (simp add: token_pack_def del: pack_eq_iff)
  then have t: "handle_insert Kind_View 7 mk_handle_table = (1, snd (handle_insert Kind_View 7 mk_handle_table))"
    by (simp add: handle_insert_def mk_handle_table_def kMinGeneration_def Let_def del: pack_eq_iff)
  show ?thesis
    using amio_handle_lifetime [OF mk_handle_table_inv t, of "[]" _ _ _ "[]" _ Kind_View]
    by (cases "handle_release 1 Kind_View (snd (handle_insert Kind_View 7 mk_handle_table))") simp
qed

end
