(* ===== verification/Amio_Loader.thy ===== *)
theory Amio_Loader
  imports Conf_Config Amio_Handle_Table
begin

text \<open>
  AMIO's configuration: \<^verbatim>\<open>amio/src/config/config_loader.hpp\<close> and \<^verbatim>\<open>amio/src/config/config_loader.cpp\<close>.

  A manifest is read through CONF (\<open>Conf_Config\<close>), so the YAML library is the parameter of its model. \<open>int\<close> values
  of the manifest are cast to \<open>std::size_t\<close>, which wraps negative ones (\<open>to_size\<close>). The output
  parameters are passed in and returned: a failure leaves the fields read so far.
\<close>

section \<open>The configuration\<close>

record StagingPoolConfig =
  sc_buffer_count :: nat
  sc_buffer_capacity_bytes :: nat
  sc_max_buffer_count :: nat

record WorkerPoolCfg =
  wc_threads :: nat
  wc_cpu_cores :: "int list"
  wc_numa_domain :: "int option"

record PrefetchConfig =
  pc_depth :: nat
  pc_read_timeout_s :: nat

record BackpressureCfg =
  bp_low_watermark :: nat
  bp_high_watermark :: nat
  bp_queue_capacity :: nat

record CodecConfig =
  cc_lossless_allow_list :: "string list"
  cc_active_codec :: string

record Amio_Config =
  ac_staging_pool :: StagingPoolConfig
  ac_worker_pool :: WorkerPoolCfg
  ac_prefetch :: PrefetchConfig
  ac_staging_timeout_ms :: nat
  ac_backpressure :: BackpressureCfg
  ac_backend :: string
  ac_codec :: CodecConfig
  ac_io_ranks :: "int list"

definition amio_default :: Amio_Config where
  "amio_default =
     \<lparr>ac_staging_pool = \<lparr>sc_buffer_count = 16, sc_buffer_capacity_bytes = 1048576, sc_max_buffer_count = 4096\<rparr>,
      ac_worker_pool = \<lparr>wc_threads = 1, wc_cpu_cores = [], wc_numa_domain = None\<rparr>,
      ac_prefetch = \<lparr>pc_depth = 4, pc_read_timeout_s = 60\<rparr>,
      ac_staging_timeout_ms = 5000,
      ac_backpressure = \<lparr>bp_low_watermark = 0, bp_high_watermark = 0, bp_queue_capacity = 1024\<rparr>,
      ac_backend = [],
      ac_codec = \<lparr>cc_lossless_allow_list = [], cc_active_codec = []\<rparr>,
      ac_io_ranks = []\<rparr>"

record ValidationError =
  ve_field_path :: string
  ve_message :: string
  ve_line :: int

section \<open>Validation\<close>

definition valid_codecs :: "string list" where
  "valid_codecs = [''blosc'', ''zstandard'', ''libaec'', ''lossless_jpeg2000'']"

definition is_valid_codec :: "string \<Rightarrow> bool" where
  "is_valid_codec name \<longleftrightarrow> List.member valid_codecs name"

definition report :: "string \<Rightarrow> string \<Rightarrow> amio_err \<Rightarrow> ValidationError \<Rightarrow> amio_err \<times> ValidationError" where
  "report path msg code err = (code, err\<lparr>ve_field_path := path, ve_message := msg\<rparr>)"

definition validate :: "Amio_Config \<Rightarrow> ValidationError \<Rightarrow> amio_err \<times> ValidationError" where
  "validate config err =
     (let sp = ac_staging_pool config; wp = ac_worker_pool config; pf = ac_prefetch config; bp = ac_backpressure config; cd = ac_codec config in
      if sc_buffer_count sp < 1 \<or> sc_buffer_count sp > 4096 then
        report ''staging_pool.buffer_count'' (''buffer_count must be in [1, 4096], got '' @ dec_digits (sc_buffer_count sp)) AMIO_ERR_MANIFEST_INVALID err
      else if sc_buffer_capacity_bytes sp < 1 \<or> sc_buffer_capacity_bytes sp > 1073741824 then
        report ''staging_pool.buffer_capacity_bytes''
          (''buffer_capacity_bytes must be in [1, 1073741824], got '' @ dec_digits (sc_buffer_capacity_bytes sp)) AMIO_ERR_MANIFEST_INVALID err
      else if sc_max_buffer_count sp < sc_buffer_count sp \<or> sc_max_buffer_count sp > 4096 then
        report ''staging_pool.max_buffer_count''
          (''max_buffer_count must be in [buffer_count, 4096], got '' @ dec_digits (sc_max_buffer_count sp) @ '' with buffer_count '' @ dec_digits (sc_buffer_count sp))
          AMIO_ERR_MANIFEST_INVALID err
      else if wc_threads wp < 1 \<or> wc_threads wp > 256 then
        report ''worker_pool.threads'' (''threads must be in [1, 256], got '' @ dec_digits (wc_threads wp)) AMIO_ERR_MANIFEST_INVALID err
      else if pc_depth pf < 1 \<or> pc_depth pf > 1024 then
        report ''prefetch.depth'' (''depth must be in [1, 1024], got '' @ dec_digits (pc_depth pf)) AMIO_ERR_MANIFEST_INVALID err
      else if pc_read_timeout_s pf < 1 \<or> pc_read_timeout_s pf > 3600 then
        report ''prefetch.read_timeout_s'' (''read_timeout_s must be in [1, 3600], got '' @ dec_digits (pc_read_timeout_s pf)) AMIO_ERR_MANIFEST_INVALID err
      else if ac_staging_timeout_ms config < 1 \<or> ac_staging_timeout_ms config > 60000 then
        report ''staging_timeout_ms'' (''staging_timeout_ms must be in [1, 60000], got '' @ dec_digits (ac_staging_timeout_ms config)) AMIO_ERR_MANIFEST_INVALID err
      else if bp_high_watermark bp > 0 \<and> bp_low_watermark bp \<ge> bp_high_watermark bp then
        report ''backpressure.low_watermark'' ''low_watermark must be < high_watermark'' AMIO_ERR_MANIFEST_INVALID err
      else if bp_high_watermark bp > 0 \<and> bp_high_watermark bp > bp_queue_capacity bp then
        report ''backpressure.high_watermark'' ''high_watermark must be <= queue_capacity'' AMIO_ERR_MANIFEST_INVALID err
      else case List.find (\<lambda>codec. \<not> is_valid_codec codec) (cc_lossless_allow_list cd) of
        Some codec \<Rightarrow> report ''codec.lossless_allow_list'' (''codec '' @ [CHR 0x27] @ codec @ [CHR 0x27] @ '' is not a recognized lossless codec'') AMIO_ERR_LOSSY_CODEC_FORBIDDEN err
      | None \<Rightarrow>
          if cc_active_codec cd \<noteq> [] \<and> \<not> is_valid_codec (cc_active_codec cd) then
            report ''codec.active_codec'' (''active codec '' @ [CHR 0x27] @ cc_active_codec cd @ [CHR 0x27] @ '' is not a recognized lossless codec'') AMIO_ERR_LOSSY_CODEC_FORBIDDEN err
          else if cc_active_codec cd \<noteq> [] \<and> cc_lossless_allow_list cd \<noteq> [] \<and> \<not> List.member (cc_lossless_allow_list cd) (cc_active_codec cd) then
            report ''codec.active_codec'' (''active codec '' @ [CHR 0x27] @ cc_active_codec cd @ [CHR 0x27] @ '' is not on the manifest'' @ [CHR 0x27] @ ''s lossless_allow_list'')
              AMIO_ERR_LOSSY_CODEC_FORBIDDEN err
          else (AMIO_OK, err))"

section \<open>Reading a manifest\<close>

definition to_size :: "int \<Rightarrow> nat" where
  "to_size i = nat (i mod 18446744073709551616)"

type_synonym config_step = "string \<times> (Amio_Config \<Rightarrow> Amio_Config conf_result)"

fun read_keys :: "(string \<Rightarrow> bool) \<Rightarrow> config_step list \<Rightarrow> Amio_Config \<Rightarrow> Amio_Config \<times> (string \<times> Conf_Error) option" where
  "read_keys has [] config = (config, None)"
| "read_keys has ((key, read) # steps) config =
     (if \<not> has key then read_keys has steps config
      else case read config of
             Inl e \<Rightarrow> (config, Some (key, e))
           | Inr config' \<Rightarrow> read_keys has steps config')"

definition size_step :: "('n, 'd) yaml_api \<Rightarrow> 'n Config \<Rightarrow> string \<Rightarrow> (nat \<Rightarrow> Amio_Config \<Rightarrow> Amio_Config) \<Rightarrow> config_step" where
  "size_step Y manifest key set_field = (key, \<lambda>c. mapR (\<lambda>i. set_field (to_size i) c) (config_get_int Y manifest key))"

definition manifest_steps :: "('n, 'd) yaml_api \<Rightarrow> 'n Config \<Rightarrow> config_step list" where
  "manifest_steps Y m =
     [size_step Y m ''staging_pool.buffer_count'' (\<lambda>v c. c\<lparr>ac_staging_pool := (ac_staging_pool c)\<lparr>sc_buffer_count := v\<rparr>\<rparr>),
      size_step Y m ''staging_pool.buffer_capacity_bytes'' (\<lambda>v c. c\<lparr>ac_staging_pool := (ac_staging_pool c)\<lparr>sc_buffer_capacity_bytes := v\<rparr>\<rparr>),
      size_step Y m ''staging_pool.max_buffer_count'' (\<lambda>v c. c\<lparr>ac_staging_pool := (ac_staging_pool c)\<lparr>sc_max_buffer_count := v\<rparr>\<rparr>),
      size_step Y m ''worker_pool.threads'' (\<lambda>v c. c\<lparr>ac_worker_pool := (ac_worker_pool c)\<lparr>wc_threads := v\<rparr>\<rparr>),
      (''worker_pool.cpu_cores'', \<lambda>c. mapR (\<lambda>v. c\<lparr>ac_worker_pool := (ac_worker_pool c)\<lparr>wc_cpu_cores := v\<rparr>\<rparr>) (config_get_int_list Y m ''worker_pool.cpu_cores'')),
      (''worker_pool.numa_domain'', \<lambda>c. mapR (\<lambda>v. c\<lparr>ac_worker_pool := (ac_worker_pool c)\<lparr>wc_numa_domain := Some v\<rparr>\<rparr>) (config_get_int Y m ''worker_pool.numa_domain'')),
      size_step Y m ''prefetch.depth'' (\<lambda>v c. c\<lparr>ac_prefetch := (ac_prefetch c)\<lparr>pc_depth := v\<rparr>\<rparr>),
      size_step Y m ''prefetch.read_timeout_s'' (\<lambda>v c. c\<lparr>ac_prefetch := (ac_prefetch c)\<lparr>pc_read_timeout_s := v\<rparr>\<rparr>),
      size_step Y m ''staging_timeout_ms'' (\<lambda>v c. c\<lparr>ac_staging_timeout_ms := v\<rparr>),
      size_step Y m ''backpressure.low_watermark'' (\<lambda>v c. c\<lparr>ac_backpressure := (ac_backpressure c)\<lparr>bp_low_watermark := v\<rparr>\<rparr>),
      size_step Y m ''backpressure.high_watermark'' (\<lambda>v c. c\<lparr>ac_backpressure := (ac_backpressure c)\<lparr>bp_high_watermark := v\<rparr>\<rparr>),
      size_step Y m ''backpressure.queue_capacity'' (\<lambda>v c. c\<lparr>ac_backpressure := (ac_backpressure c)\<lparr>bp_queue_capacity := v\<rparr>\<rparr>),
      (''backend'', \<lambda>c. mapR (\<lambda>v. c\<lparr>ac_backend := v\<rparr>) (config_get_string Y m ''backend'')),
      (''codec.active_codec'', \<lambda>c. mapR (\<lambda>v. c\<lparr>ac_codec := (ac_codec c)\<lparr>cc_active_codec := v\<rparr>\<rparr>) (config_get_string Y m ''codec.active_codec'')),
      (''codec.lossless_allow_list'', \<lambda>c. mapR (\<lambda>v. c\<lparr>ac_codec := (ac_codec c)\<lparr>cc_lossless_allow_list := v\<rparr>\<rparr>) (config_get_string_list Y m ''codec.lossless_allow_list'')),
      (''io_ranks'', \<lambda>c. mapR (\<lambda>v. c\<lparr>ac_io_ranks := v\<rparr>) (config_get_int_list Y m ''io_ranks''))]"

definition populate_from_conf :: "('n, 'd) yaml_api \<Rightarrow> 'n Config \<Rightarrow> ValidationError \<Rightarrow> amio_err \<times> Amio_Config \<times> ValidationError" where
  "populate_from_conf Y manifest err =
     (case read_keys (config_has Y manifest) (manifest_steps Y manifest) amio_default of
        (config, Some (key, e)) \<Rightarrow>
          (AMIO_ERR_MANIFEST_INVALID, config, err\<lparr>ve_field_path := key, ve_message :=
             (case ce_code e of
                Key_Not_Found \<Rightarrow> ''required key not found: '' @ key
              | Type_Mismatch \<Rightarrow> ''type mismatch at '' @ [CHR 0x27] @ key @ [CHR 0x27] @ '': '' @ ce_what e
              | _ \<Rightarrow> ce_what e)\<rparr>)
      | (config, None) \<Rightarrow> (case validate config err of (code, err') \<Rightarrow> (code, config, err')))"

definition load_failed :: "Conf_Error \<Rightarrow> Amio_Config \<Rightarrow> ValidationError \<Rightarrow> amio_err \<times> Amio_Config \<times> ValidationError" where
  "load_failed e config_out err =
     (if ce_code e = File_Not_Found then AMIO_ERR_MANIFEST_NOT_FOUND else AMIO_ERR_MANIFEST_INVALID, config_out,
      err\<lparr>ve_field_path := [], ve_message := ce_what e, ve_line := 0\<rparr>)"

definition parse_manifest :: "('n, 'd) yaml_api \<Rightarrow> (string \<Rightarrow> string option) \<Rightarrow> string \<Rightarrow> Amio_Config \<Rightarrow> ValidationError \<Rightarrow> amio_err \<times> Amio_Config \<times> ValidationError" where
  "parse_manifest Y fs path config_out err =
     (case config_from_file Y fs path of
        Inl e \<Rightarrow> load_failed e config_out err
      | Inr manifest \<Rightarrow> populate_from_conf Y manifest err)"

definition parse_string :: "('n, 'd) yaml_api \<Rightarrow> string \<Rightarrow> string \<Rightarrow> Amio_Config \<Rightarrow> ValidationError \<Rightarrow> amio_err \<times> Amio_Config \<times> ValidationError" where
  "parse_string Y content fmt config_out err =
     (case config_from_string Y content of
        Inl e \<Rightarrow> load_failed e config_out err
      | Inr manifest \<Rightarrow> populate_from_conf Y manifest err)"

section \<open>Writing a manifest\<close>




text \<open>A file and a string with the same content are read alike; only a missing file has its own code.\<close>

lemma parse_manifest_cases:
  "fs path = Some content \<Longrightarrow> parse_manifest Y fs path config_out err = parse_string Y content fmt config_out err"
  "fs path = None \<Longrightarrow> fst (parse_manifest Y fs path config_out err) = AMIO_ERR_MANIFEST_NOT_FOUND"
  by (simp_all add: parse_manifest_def parse_string_def config_from_file_def config_from_string_def tree_from_file_def tree_from_string_def load_failed_def)
section \<open>The schema\<close>

text \<open>The rules in the order in which they are checked: the path that is reported, the code, and the rule.\<close>

definition schema_rules :: "(string \<times> amio_err \<times> (Amio_Config \<Rightarrow> bool)) list" where
  "schema_rules =
     [(''staging_pool.buffer_count'', AMIO_ERR_MANIFEST_INVALID, \<lambda>c. sc_buffer_count (ac_staging_pool c) \<in> {1..4096}),
      (''staging_pool.buffer_capacity_bytes'', AMIO_ERR_MANIFEST_INVALID, \<lambda>c. sc_buffer_capacity_bytes (ac_staging_pool c) \<in> {1..1073741824}),
      (''staging_pool.max_buffer_count'', AMIO_ERR_MANIFEST_INVALID, \<lambda>c. sc_max_buffer_count (ac_staging_pool c) \<in> {sc_buffer_count (ac_staging_pool c)..4096}),
      (''worker_pool.threads'', AMIO_ERR_MANIFEST_INVALID, \<lambda>c. wc_threads (ac_worker_pool c) \<in> {1..256}),
      (''prefetch.depth'', AMIO_ERR_MANIFEST_INVALID, \<lambda>c. pc_depth (ac_prefetch c) \<in> {1..1024}),
      (''prefetch.read_timeout_s'', AMIO_ERR_MANIFEST_INVALID, \<lambda>c. pc_read_timeout_s (ac_prefetch c) \<in> {1..3600}),
      (''staging_timeout_ms'', AMIO_ERR_MANIFEST_INVALID, \<lambda>c. ac_staging_timeout_ms c \<in> {1..60000}),
      (''backpressure.low_watermark'', AMIO_ERR_MANIFEST_INVALID,
         \<lambda>c. bp_high_watermark (ac_backpressure c) = 0 \<or> bp_low_watermark (ac_backpressure c) < bp_high_watermark (ac_backpressure c)),
      (''backpressure.high_watermark'', AMIO_ERR_MANIFEST_INVALID, \<lambda>c. bp_high_watermark (ac_backpressure c) \<le> bp_queue_capacity (ac_backpressure c)),
      (''codec.lossless_allow_list'', AMIO_ERR_LOSSY_CODEC_FORBIDDEN, \<lambda>c. set (cc_lossless_allow_list (ac_codec c)) \<subseteq> set valid_codecs),
      (''codec.active_codec'', AMIO_ERR_LOSSY_CODEC_FORBIDDEN,
         \<lambda>c. cc_active_codec (ac_codec c) = [] \<or> cc_active_codec (ac_codec c) \<in> set valid_codecs \<and>
             (cc_lossless_allow_list (ac_codec c) = [] \<or> cc_active_codec (ac_codec c) \<in> set (cc_lossless_allow_list (ac_codec c))))]"

definition schema_ok :: "Amio_Config \<Rightarrow> bool" where
  "schema_ok c \<longleftrightarrow> (\<forall>(_, _, rule)\<in>set schema_rules. rule c)"

lemma report_simps [simp]: "fst (report p m code err) = code" "ve_field_path (snd (report p m code err)) = p"
  by (simp_all add: report_def)

lemma codec_in_list: "List.member xs s \<longleftrightarrow> s \<in> set xs"
  by (simp add: List.member_iff)

lemma first_bad_codec: "List.find (\<lambda>s. \<not> is_valid_codec s) xs = None \<longleftrightarrow> set xs \<subseteq> set valid_codecs"
  by (auto simp: find_None_iff is_valid_codec_def codec_in_list)

text \<open>
  Validation accepts exactly the schema and reports its first violated rule. A configuration is accepted, with the error record
  untouched, when every rule holds; otherwise the code and the field path are those of the first rule
  that fails, in the documented order.
\<close>

lemma validate_first:
  "case List.find (\<lambda>(_, _, rule). \<not> rule c) schema_rules of
     None \<Rightarrow> validate c err = (AMIO_OK, err)
   | Some (path, code, _) \<Rightarrow> fst (validate c err) = code \<and> ve_field_path (snd (validate c err)) = path"
proof -
  have f: "(case List.find (\<lambda>s. \<not> is_valid_codec s) xs of None \<Rightarrow> (x :: amio_err \<times> ValidationError) | Some s \<Rightarrow> g s) =
      (if set xs \<subseteq> set valid_codecs then x else g (the (List.find (\<lambda>s. \<not> is_valid_codec s) xs)))" for xs x g
    using first_bad_codec [of xs] by (cases "List.find (\<lambda>s. \<not> is_valid_codec s) xs") auto
  show ?thesis
    unfolding validate_def schema_rules_def Let_def f by (simp add: is_valid_codec_def codec_in_list not_le not_less)
qed

lemma validate_ok:
  "fst (validate c err) = AMIO_OK \<longleftrightarrow> schema_ok c"
  "schema_ok c \<Longrightarrow> validate c err = (AMIO_OK, err)"
proof -
  have codes: "\<forall>x\<in>set schema_rules. fst (snd x) \<noteq> AMIO_OK" by (simp add: schema_rules_def)
  have "fst (validate c err) = AMIO_OK \<longleftrightarrow> List.find (\<lambda>(_, _, rule). \<not> rule c) schema_rules = None"
  proof (cases "List.find (\<lambda>(_, _, rule). \<not> rule c) schema_rules")
    case None
    then show ?thesis using validate_first [of c err] by simp
  next
    case (Some x)
    then have "x \<in> set schema_rules" unfolding find_Some_iff using nth_mem by metis
    with codes have "fst (snd x) \<noteq> AMIO_OK" by blast
    then show ?thesis using Some validate_first [of c err] by (cases x) auto
  qed
  moreover have "List.find (\<lambda>(_, _, rule). \<not> rule c) schema_rules = None \<longleftrightarrow> schema_ok c"
    by (auto simp: find_None_iff schema_ok_def)
  ultimately show "fst (validate c err) = AMIO_OK \<longleftrightarrow> schema_ok c" "schema_ok c \<Longrightarrow> validate c err = (AMIO_OK, err)"
    using validate_first [of c err] by simp_all
qed

section \<open>What a manifest means\<close>

definition field_or :: "('n, 'd) yaml_api \<Rightarrow> 'n Config \<Rightarrow> (string \<Rightarrow> 'a conf_result) \<Rightarrow> string \<Rightarrow> ('a \<Rightarrow> 'b) \<Rightarrow> 'b \<Rightarrow> 'b" where
  "field_or Y m get key f dflt = (if config_has Y m key then f (projr (get key)) else dflt)"

definition manifest_config :: "('n, 'd) yaml_api \<Rightarrow> 'n Config \<Rightarrow> Amio_Config" where
  "manifest_config Y m =
     (let size = (\<lambda>key. field_or Y m (config_get_int Y m) key to_size);
          ints = (\<lambda>key. field_or Y m (config_get_int_list Y m) key id [])
      in \<lparr>ac_staging_pool = \<lparr>sc_buffer_count = size ''staging_pool.buffer_count'' 16,
             sc_buffer_capacity_bytes = size ''staging_pool.buffer_capacity_bytes'' 1048576,
             sc_max_buffer_count = size ''staging_pool.max_buffer_count'' 4096\<rparr>,
          ac_worker_pool = \<lparr>wc_threads = size ''worker_pool.threads'' 1, wc_cpu_cores = ints ''worker_pool.cpu_cores'',
             wc_numa_domain = field_or Y m (config_get_int Y m) ''worker_pool.numa_domain'' Some None\<rparr>,
          ac_prefetch = \<lparr>pc_depth = size ''prefetch.depth'' 4, pc_read_timeout_s = size ''prefetch.read_timeout_s'' 60\<rparr>,
          ac_staging_timeout_ms = size ''staging_timeout_ms'' 5000,
          ac_backpressure = \<lparr>bp_low_watermark = size ''backpressure.low_watermark'' 0, bp_high_watermark = size ''backpressure.high_watermark'' 0,
             bp_queue_capacity = size ''backpressure.queue_capacity'' 1024\<rparr>,
          ac_backend = field_or Y m (config_get_string Y m) ''backend'' id [],
          ac_codec = \<lparr>cc_lossless_allow_list = field_or Y m (config_get_string_list Y m) ''codec.lossless_allow_list'' id [],
             cc_active_codec = field_or Y m (config_get_string Y m) ''codec.active_codec'' id []\<rparr>,
          ac_io_ranks = ints ''io_ranks''\<rparr>)"

text \<open>A key that is present and cannot be read as what it should be.\<close>

definition unreadable :: "('n, 'd) yaml_api \<Rightarrow> 'n Config \<Rightarrow> config_step \<Rightarrow> bool" where
  "unreadable Y m step \<longleftrightarrow> config_has Y m (fst step) \<and> \<not> is_ok (snd step amio_default)"

definition uniform :: "config_step \<Rightarrow> bool" where
  "uniform step \<longleftrightarrow> (\<forall>c c'. is_ok (snd step c) = is_ok (snd step c'))"

definition apply_step :: "(string \<Rightarrow> bool) \<Rightarrow> config_step \<Rightarrow> Amio_Config \<Rightarrow> Amio_Config" where
  "apply_step has step c = (if has (fst step) then projr (snd step c) else c)"

lemma apply_step_pair: "apply_step has (key, rd) c = (if has key then projr (rd c) else c)"
  by (simp add: apply_step_def)

lemma read_keys_find:
  assumes "\<forall>step\<in>set steps. uniform step"
  shows "case List.find (\<lambda>step. has (fst step) \<and> \<not> is_ok (snd step d)) steps of
      None \<Rightarrow> read_keys has steps c = (fold (apply_step has) steps c, None)
    | Some step \<Rightarrow> \<exists>c' e. read_keys has steps c = (c', Some (fst step, e))"
  using assms
proof (induction steps arbitrary: c)
  case (Cons s steps)
  have IH: "case List.find (\<lambda>step. has (fst step) \<and> \<not> is_ok (snd step d)) steps of
      None \<Rightarrow> read_keys has steps c = (fold (apply_step has) steps c, None)
    | Some step \<Rightarrow> \<exists>c' e. read_keys has steps c = (c', Some (fst step, e))" for c using Cons by simp
  obtain key rd where s: "s = (key, rd)" by fastforce
  have u: "is_ok (rd c) = is_ok (rd d)" using Cons.prems by (simp add: uniform_def s)
  show ?case
  proof (cases "has key")
    case False
    then show ?thesis using IH [of c] unfolding s by (auto simp: apply_step_pair split: option.splits)
  next
    case True
    then show ?thesis using IH [of "projr (rd c)"] u unfolding s by (cases "rd c") (auto simp: apply_step_pair split: option.splits)
  qed
qed simp

lemma is_ok_mapR [simp]: "is_ok (mapR f r) = is_ok r"
  by (cases r) simp_all

lemma manifest_steps_uniform: "\<forall>step\<in>set (manifest_steps Y m). uniform step"
  by (simp add: manifest_steps_def size_step_def uniform_def)

lemma projr_mapR: "is_ok r \<Longrightarrow> projr (mapR f r) = f (projr r)"
  by (cases r) simp_all

lemma apply_step_mapR:
  "(has key \<longrightarrow> is_ok r) \<Longrightarrow> apply_step has (key, \<lambda>c. mapR (\<lambda>v. upd v c) r) c = (if has key then upd (projr r) c else c)"
  by (simp add: apply_step_def projr_mapR)

lemma if_records:
  "(if b then \<lparr>sc_buffer_count = x1, sc_buffer_capacity_bytes = x2, sc_max_buffer_count = x3\<rparr> else \<lparr>sc_buffer_count = y1, sc_buffer_capacity_bytes = y2, sc_max_buffer_count = y3\<rparr>) =
     \<lparr>sc_buffer_count = if b then x1 else y1, sc_buffer_capacity_bytes = if b then x2 else y2, sc_max_buffer_count = if b then x3 else y3\<rparr>"
  "(if b then \<lparr>wc_threads = x4, wc_cpu_cores = x5, wc_numa_domain = x6\<rparr> else \<lparr>wc_threads = y4, wc_cpu_cores = y5, wc_numa_domain = y6\<rparr>) =
     \<lparr>wc_threads = if b then x4 else y4, wc_cpu_cores = if b then x5 else y5, wc_numa_domain = if b then x6 else y6\<rparr>"
  "(if b then \<lparr>pc_depth = x1, pc_read_timeout_s = x2\<rparr> else \<lparr>pc_depth = y1, pc_read_timeout_s = y2\<rparr>) =
     \<lparr>pc_depth = if b then x1 else y1, pc_read_timeout_s = if b then x2 else y2\<rparr>"
  "(if b then \<lparr>bp_low_watermark = x1, bp_high_watermark = x2, bp_queue_capacity = x3\<rparr> else \<lparr>bp_low_watermark = y1, bp_high_watermark = y2, bp_queue_capacity = y3\<rparr>) =
     \<lparr>bp_low_watermark = if b then x1 else y1, bp_high_watermark = if b then x2 else y2, bp_queue_capacity = if b then x3 else y3\<rparr>"
  "(if b then \<lparr>cc_lossless_allow_list = x7, cc_active_codec = x8\<rparr> else \<lparr>cc_lossless_allow_list = y7, cc_active_codec = y8\<rparr>) =
     \<lparr>cc_lossless_allow_list = if b then x7 else y7, cc_active_codec = if b then x8 else y8\<rparr>"
  "(if b then \<lparr>ac_staging_pool = sp, ac_worker_pool = wp, ac_prefetch = pf, ac_staging_timeout_ms = t, ac_backpressure = bp, ac_backend = be, ac_codec = cd, ac_io_ranks = io\<rparr>
    else \<lparr>ac_staging_pool = sp', ac_worker_pool = wp', ac_prefetch = pf', ac_staging_timeout_ms = t', ac_backpressure = bp', ac_backend = be', ac_codec = cd', ac_io_ranks = io'\<rparr>) =
     \<lparr>ac_staging_pool = if b then sp else sp', ac_worker_pool = if b then wp else wp', ac_prefetch = if b then pf else pf', ac_staging_timeout_ms = if b then t else t',
      ac_backpressure = if b then bp else bp', ac_backend = if b then be else be', ac_codec = if b then cd else cd', ac_io_ranks = if b then io else io'\<rparr>"
  by (cases b; simp)+

lemma fold_steps:
  assumes "has k1 \<longrightarrow> is_ok r1" "has k2 \<longrightarrow> is_ok r2" "has k3 \<longrightarrow> is_ok r3" "has k4 \<longrightarrow> is_ok r4" "has k5 \<longrightarrow> is_ok r5" "has k6 \<longrightarrow> is_ok r6" "has k7 \<longrightarrow> is_ok r7" "has k8 \<longrightarrow> is_ok r8" "has k9 \<longrightarrow> is_ok r9" "has k10 \<longrightarrow> is_ok r10" "has k11 \<longrightarrow> is_ok r11" "has k12 \<longrightarrow> is_ok r12" "has k13 \<longrightarrow> is_ok r13" "has k14 \<longrightarrow> is_ok r14" "has k15 \<longrightarrow> is_ok r15" "has k16 \<longrightarrow> is_ok r16"
  shows "fold (apply_step has)
     [(k1, \<lambda>c. mapR (\<lambda>v. c\<lparr>ac_staging_pool := (ac_staging_pool c)\<lparr>sc_buffer_count := to_size v\<rparr>\<rparr>) r1),
      (k2, \<lambda>c. mapR (\<lambda>v. c\<lparr>ac_staging_pool := (ac_staging_pool c)\<lparr>sc_buffer_capacity_bytes := to_size v\<rparr>\<rparr>) r2),
      (k3, \<lambda>c. mapR (\<lambda>v. c\<lparr>ac_staging_pool := (ac_staging_pool c)\<lparr>sc_max_buffer_count := to_size v\<rparr>\<rparr>) r3),
      (k4, \<lambda>c. mapR (\<lambda>v. c\<lparr>ac_worker_pool := (ac_worker_pool c)\<lparr>wc_threads := to_size v\<rparr>\<rparr>) r4),
      (k5, \<lambda>c. mapR (\<lambda>v. c\<lparr>ac_worker_pool := (ac_worker_pool c)\<lparr>wc_cpu_cores := v\<rparr>\<rparr>) r5),
      (k6, \<lambda>c. mapR (\<lambda>v. c\<lparr>ac_worker_pool := (ac_worker_pool c)\<lparr>wc_numa_domain := Some v\<rparr>\<rparr>) r6),
      (k7, \<lambda>c. mapR (\<lambda>v. c\<lparr>ac_prefetch := (ac_prefetch c)\<lparr>pc_depth := to_size v\<rparr>\<rparr>) r7),
      (k8, \<lambda>c. mapR (\<lambda>v. c\<lparr>ac_prefetch := (ac_prefetch c)\<lparr>pc_read_timeout_s := to_size v\<rparr>\<rparr>) r8),
      (k9, \<lambda>c. mapR (\<lambda>v. c\<lparr>ac_staging_timeout_ms := to_size v\<rparr>) r9),
      (k10, \<lambda>c. mapR (\<lambda>v. c\<lparr>ac_backpressure := (ac_backpressure c)\<lparr>bp_low_watermark := to_size v\<rparr>\<rparr>) r10),
      (k11, \<lambda>c. mapR (\<lambda>v. c\<lparr>ac_backpressure := (ac_backpressure c)\<lparr>bp_high_watermark := to_size v\<rparr>\<rparr>) r11),
      (k12, \<lambda>c. mapR (\<lambda>v. c\<lparr>ac_backpressure := (ac_backpressure c)\<lparr>bp_queue_capacity := to_size v\<rparr>\<rparr>) r12),
      (k13, \<lambda>c. mapR (\<lambda>v. c\<lparr>ac_backend := v\<rparr>) r13),
      (k14, \<lambda>c. mapR (\<lambda>v. c\<lparr>ac_codec := (ac_codec c)\<lparr>cc_active_codec := v\<rparr>\<rparr>) r14),
      (k15, \<lambda>c. mapR (\<lambda>v. c\<lparr>ac_codec := (ac_codec c)\<lparr>cc_lossless_allow_list := v\<rparr>\<rparr>) r15),
      (k16, \<lambda>c. mapR (\<lambda>v. c\<lparr>ac_io_ranks := v\<rparr>) r16)] amio_default =
    \<lparr>ac_staging_pool = \<lparr>sc_buffer_count = if has k1 then to_size (projr r1) else 16, sc_buffer_capacity_bytes = if has k2 then to_size (projr r2) else 1048576, sc_max_buffer_count = if has k3 then to_size (projr r3) else 4096\<rparr>,
     ac_worker_pool = \<lparr>wc_threads = if has k4 then to_size (projr r4) else 1, wc_cpu_cores = if has k5 then projr r5 else [], wc_numa_domain = if has k6 then Some (projr r6) else None\<rparr>,
     ac_prefetch = \<lparr>pc_depth = if has k7 then to_size (projr r7) else 4, pc_read_timeout_s = if has k8 then to_size (projr r8) else 60\<rparr>,
     ac_staging_timeout_ms = if has k9 then to_size (projr r9) else 5000,
     ac_backpressure = \<lparr>bp_low_watermark = if has k10 then to_size (projr r10) else 0, bp_high_watermark = if has k11 then to_size (projr r11) else 0, bp_queue_capacity = if has k12 then to_size (projr r12) else 1024\<rparr>,
     ac_backend = if has k13 then projr r13 else [],
     ac_codec = \<lparr>cc_lossless_allow_list = if has k15 then projr r15 else [], cc_active_codec = if has k14 then projr r14 else []\<rparr>,
     ac_io_ranks = if has k16 then projr r16 else []\<rparr>"
  using assms by (simp add: apply_step_mapR amio_default_def if_records split del: if_split cong: if_cong)

lemma apply_steps_config:
  assumes "\<forall>step\<in>set (manifest_steps Y m). \<not> unreadable Y m step"
  shows "fold (apply_step (config_has Y m)) (manifest_steps Y m) amio_default = manifest_config Y m"
  using assms
  unfolding manifest_steps_def size_step_def manifest_config_def field_or_def Let_def list.set ball_simps unreadable_def fst_conv snd_conv is_ok_mapR
    de_Morgan_conj not_not imp_conv_disj [symmetric] id_apply
  by (intro fold_steps) (elim conjE, assumption)+

lemma populate_manifest:
  "case List.find (unreadable Y m) (manifest_steps Y m) of
     None \<Rightarrow> populate_from_conf Y m err = (fst (validate (manifest_config Y m) err), manifest_config Y m, snd (validate (manifest_config Y m) err))
   | Some step \<Rightarrow> \<exists>c e. populate_from_conf Y m err = (AMIO_ERR_MANIFEST_INVALID, c, e) \<and> ve_field_path e = fst step"
proof -
  have u: "(\<lambda>step. config_has Y m (fst step) \<and> \<not> is_ok (snd step amio_default)) = unreadable Y m" by (simp add: unreadable_def fun_eq_iff)
  note rk = read_keys_find [OF manifest_steps_uniform [of Y m], of "config_has Y m" amio_default amio_default, unfolded u]
  show ?thesis
  proof (cases "List.find (unreadable Y m) (manifest_steps Y m)")
    case None
    then have "\<forall>step\<in>set (manifest_steps Y m). \<not> unreadable Y m step" unfolding find_None_iff by blast
    from apply_steps_config [OF this] show ?thesis using rk None by (simp add: populate_from_conf_def case_prod_unfold)
  next
    case (Some step)
    then show ?thesis using rk by (auto simp: populate_from_conf_def)
  qed
qed

text \<open>
  C30. A manifest is accepted exactly when it is well typed and in the schema, and then means what it says. Every field of the
  accepted configuration is the manifest's value under the key, or the default when the key is absent;
  otherwise the result is an error code, and a key that is present but of another type is reported by its
  path, the first such key in the documented order.
\<close>

theorem manifest_read_correctly:
  assumes "config_from_string Y content = Inr m"
  shows "case parse_string Y content fmt config_out err of (code, config, err') \<Rightarrow>
    (code = AMIO_OK \<longleftrightarrow> (\<forall>step\<in>set (manifest_steps Y m). \<not> unreadable Y m step) \<and> schema_ok (manifest_config Y m)) \<and>
    (code = AMIO_OK \<longrightarrow> config = manifest_config Y m \<and> err' = err) \<and>
    (case List.find (unreadable Y m) (manifest_steps Y m) of
       None \<Rightarrow> True | Some step \<Rightarrow> code = AMIO_ERR_MANIFEST_INVALID \<and> ve_field_path err' = fst step)"
proof -
  have p: "parse_string Y content fmt config_out err = populate_from_conf Y m err" by (simp add: parse_string_def assms)
  show ?thesis
  proof (cases "List.find (unreadable Y m) (manifest_steps Y m)")
    case None
    then have "\<forall>step\<in>set (manifest_steps Y m). \<not> unreadable Y m step" unfolding find_None_iff by blast
    then show ?thesis using populate_manifest [of Y m err] None validate_ok [of "manifest_config Y m" err] by (auto simp: p)
  next
    case (Some step)
    then have "\<not> (\<forall>step\<in>set (manifest_steps Y m). \<not> unreadable Y m step)" by (auto simp: find_Some_iff dest: nth_mem)
    then show ?thesis using populate_manifest [of Y m err] Some by (auto simp: p)
  qed
qed

section \<open>Writing and reading back\<close>

text \<open>
  What YAML reads of the text: nested mappings of plain scalars. A value that is left empty is the null node.
  \<open>as_int\<close> is the library's conversion of a scalar to \<open>int\<close>.
\<close>

definition plain :: "string \<Rightarrow> ytree" where
  "plain s = (if s = [] then YNull else YScalar s)"


definition yaml_for :: "(ytree \<Rightarrow> int option) \<Rightarrow> (string \<Rightarrow> string + ytree) \<Rightarrow> (ytree, int) yaml_api" where
  "yaml_for as_int load = (tree_api load)\<lparr>y_as_int := as_int\<rparr>"

lemma resolve_one:
  "dot_free a \<Longrightarrow> a \<noteq> [] \<Longrightarrow> yaml_resolve Y root a = walk Y a [a] root"
  using resolve_join [of "[a]" Y root] by simp

lemma resolve_two:
  "dot_free a \<Longrightarrow> dot_free b \<Longrightarrow> a \<noteq> [] \<Longrightarrow> b \<noteq> [] \<Longrightarrow> yaml_resolve Y root (a @ CHR ''.'' # b) = walk Y (a @ CHR ''.'' # b) [a, b] root"
  using resolve_join [of "[a, b]" Y root] by simp

lemma resolve_keys:
  "yaml_resolve Y root ''staging_pool.buffer_count'' = walk Y ''staging_pool.buffer_count'' [''staging_pool'', ''buffer_count''] root"
  "yaml_resolve Y root ''staging_pool.buffer_capacity_bytes'' = walk Y ''staging_pool.buffer_capacity_bytes'' [''staging_pool'', ''buffer_capacity_bytes''] root"
  "yaml_resolve Y root ''staging_pool.max_buffer_count'' = walk Y ''staging_pool.max_buffer_count'' [''staging_pool'', ''max_buffer_count''] root"
  "yaml_resolve Y root ''worker_pool.threads'' = walk Y ''worker_pool.threads'' [''worker_pool'', ''threads''] root"
  "yaml_resolve Y root ''worker_pool.cpu_cores'' = walk Y ''worker_pool.cpu_cores'' [''worker_pool'', ''cpu_cores''] root"
  "yaml_resolve Y root ''worker_pool.numa_domain'' = walk Y ''worker_pool.numa_domain'' [''worker_pool'', ''numa_domain''] root"
  "yaml_resolve Y root ''prefetch.depth'' = walk Y ''prefetch.depth'' [''prefetch'', ''depth''] root"
  "yaml_resolve Y root ''prefetch.read_timeout_s'' = walk Y ''prefetch.read_timeout_s'' [''prefetch'', ''read_timeout_s''] root"
  "yaml_resolve Y root ''staging_timeout_ms'' = walk Y ''staging_timeout_ms'' [''staging_timeout_ms''] root"
  "yaml_resolve Y root ''backpressure.low_watermark'' = walk Y ''backpressure.low_watermark'' [''backpressure'', ''low_watermark''] root"
  "yaml_resolve Y root ''backpressure.high_watermark'' = walk Y ''backpressure.high_watermark'' [''backpressure'', ''high_watermark''] root"
  "yaml_resolve Y root ''backpressure.queue_capacity'' = walk Y ''backpressure.queue_capacity'' [''backpressure'', ''queue_capacity''] root"
  "yaml_resolve Y root ''backend'' = walk Y ''backend'' [''backend''] root"
  "yaml_resolve Y root ''codec.active_codec'' = walk Y ''codec.active_codec'' [''codec'', ''active_codec''] root"
  "yaml_resolve Y root ''codec.lossless_allow_list'' = walk Y ''codec.lossless_allow_list'' [''codec'', ''lossless_allow_list''] root"
  "yaml_resolve Y root ''io_ranks'' = walk Y ''io_ranks'' [''io_ranks''] root"
  using resolve_two [of "''staging_pool''" "''buffer_count''" Y root] resolve_two [of "''staging_pool''" "''buffer_capacity_bytes''" Y root]
    resolve_two [of "''staging_pool''" "''max_buffer_count''" Y root] resolve_two [of "''worker_pool''" "''threads''" Y root]
    resolve_two [of "''worker_pool''" "''cpu_cores''" Y root] resolve_two [of "''worker_pool''" "''numa_domain''" Y root]
    resolve_two [of "''prefetch''" "''depth''" Y root] resolve_two [of "''prefetch''" "''read_timeout_s''" Y root]
    resolve_one [of "''staging_timeout_ms''" Y root] resolve_two [of "''backpressure''" "''low_watermark''" Y root]
    resolve_two [of "''backpressure''" "''high_watermark''" Y root] resolve_two [of "''backpressure''" "''queue_capacity''" Y root]
    resolve_one [of "''backend''" Y root] resolve_two [of "''codec''" "''active_codec''" Y root]
    resolve_two [of "''codec''" "''lossless_allow_list''" Y root] resolve_one [of "''io_ranks''" Y root]
  by (simp_all add: dot_free_def del: walk.simps)

lemma yaml_for_simps [simp]:
  "y_type (yaml_for ai ld) = ytree_type" "y_size (yaml_for ai ld) = ytree_size" "y_at_key (yaml_for ai ld) = ytree_key"
  "y_at_index (yaml_for ai ld) = ytree_index" "y_as_int (yaml_for ai ld) = ai" "y_as_string (yaml_for ai ld) = ytree_string"
  "y_load (yaml_for ai ld) = ld"
  by (simp_all add: yaml_for_def tree_api_def)



lemma plain_type [simp]: "ytree_type (plain s) = (if s = [] then NT_Null else NT_Scalar)"
  by (simp add: plain_def)

























definition no_error :: ValidationError where
  "no_error = \<lparr>ve_field_path = [], ve_message = [], ve_line = 0\<rparr>"




theorem manifest_read_correctly_witness:
  "fst (parse_string (tree_api (\<lambda>_. Inr (YMap [(''backend'', YSequence [])]))) [] ''yaml'' amio_default no_error) = AMIO_ERR_MANIFEST_INVALID"
proof -
  define Y where "Y = tree_api (\<lambda>_. Inr (YMap [(''backend'', YSequence [])]))"
  let ?m = "Some (YMap [(''backend'', YSequence [])])"
  have "config_from_string Y [] = Inr ?m" by (simp add: config_from_string_def tree_from_string_def Y_def tree_api_def)
  moreover have "\<exists>step. List.find (unreadable Y ?m) (manifest_steps Y ?m) = Some step"
    by (simp add: manifest_steps_def size_step_def unreadable_def config_has_def config_get_string_def get_node_def resolve_keys descend_def Let_def
        Y_def tree_api_def convert_string_def convert_scalar_def)
  ultimately show ?thesis
    using manifest_read_correctly [where Y = Y and content = "[]" and m = ?m and fmt = "''yaml''" and config_out = amio_default and err = no_error] by (auto simp: Y_def)
qed

end
