(* ===== verification/Amio_Staging_Pool.thy ===== *)
theory Amio_Staging_Pool
  imports Helm_Prelude "HOL-Library.Multiset"
begin

text \<open>
  AMIO's staging pool: \<^verbatim>\<open>amio/src/staging/staging_pool.cpp\<close>.

  A buffer is named by its index in the pool's vector, which the source recovers by pointer
  subtraction. The byte storage behind a buffer is its size in \<open>sb_data\<close>, \<open>None\<close> for the null
  pointer. The mutex makes each operation one step, except that \<open>acquire\<close> gives the mutex up
  while it waits on the condition variable: what the other threads do meanwhile, and whether the wait timed
  out, is an argument. The result is \<open>None\<close> as long as the call is still waiting.
  The assertions of the source, active in debug builds only, are hypotheses of the lemmas.
  The order \<open>std::sort\<close> gives to equal elements is unspecified, so the sort is a parameter.
\<close>

section \<open>Operations\<close>

datatype GrowMode = Bounded | Grow

record StagingBuffer =
  sb_data :: "nat option"
  sb_capacity_bytes :: nat
  sb_used_bytes :: nat
  sb_ref_count :: int
  sb_seq :: "64 word"

record StagingPool =
  sp_buffers :: "StagingBuffer list"
  sp_free_list :: "nat list"
  sp_buffer_count :: nat
  sp_max_buffer_count :: nat
  sp_buffer_capacity :: nat
  sp_timeout_ms :: int
  sp_grow_mode :: GrowMode
  sp_grow_warned :: bool

definition fresh_buffer :: StagingBuffer where
  "fresh_buffer = \<lparr>sb_data = None, sb_capacity_bytes = 0, sb_used_bytes = 0, sb_ref_count = 0, sb_seq = 0\<rparr>"

definition mk_staging_pool ::
  "((nat \<Rightarrow> nat) \<Rightarrow> nat list \<Rightarrow> nat list) \<Rightarrow> nat \<Rightarrow> nat \<Rightarrow> int \<Rightarrow> nat \<Rightarrow> GrowMode \<Rightarrow> StagingPool" where
  "mk_staging_pool std_sort buffer_count buffer_capacity timeout_ms max_buffer_count mode =
     (let buffers = replicate buffer_count fresh_buffer in
      \<lparr>sp_buffers = buffers,
       sp_free_list = std_sort (\<lambda>i. sb_capacity_bytes (buffers ! i)) [0..<buffer_count],
       sp_buffer_count = buffer_count,
       sp_max_buffer_count = (if mode = Bounded then buffer_count else max_buffer_count),
       sp_buffer_capacity = buffer_capacity, sp_timeout_ms = timeout_ms, sp_grow_mode = mode, sp_grow_warned = False\<rparr>)"

definition kMaxBufferCount :: nat where
  "kMaxBufferCount = 4096"

definition mk_growing_pool :: "((nat \<Rightarrow> nat) \<Rightarrow> nat list \<Rightarrow> nat list) \<Rightarrow> nat \<Rightarrow> nat \<Rightarrow> int \<Rightarrow> StagingPool" where
  "mk_growing_pool std_sort buffer_count buffer_capacity timeout_ms =
     mk_staging_pool std_sort buffer_count buffer_capacity timeout_ms kMaxBufferCount Grow"

definition first_index :: "('a \<Rightarrow> bool) \<Rightarrow> 'a list \<Rightarrow> nat" where
  "first_index P xs = length (takeWhile (\<lambda>x. \<not> P x) xs)"

definition find_best_fit :: "nat \<Rightarrow> StagingPool \<Rightarrow> nat" where
  "find_best_fit required_bytes p =
     (let free = sp_free_list p; buf = (\<lambda>i. sp_buffers p ! i);
          a = first_index (\<lambda>i. sb_data (buf i) \<noteq> None \<and> sb_capacity_bytes (buf i) \<ge> required_bytes) free;
          b = first_index (\<lambda>i. sb_data (buf i) = None) free
      in if a < length free then a
         else if b < length free then b
         else if free \<noteq> [] then length free - 1
         else length free)"

definition ensure_storage :: "nat \<Rightarrow> nat \<Rightarrow> StagingPool \<Rightarrow> StagingPool" where
  "ensure_storage buf_idx required_bytes p =
     (let b = sp_buffers p ! buf_idx;
          target = (if required_bytes > sp_buffer_capacity p then required_bytes else sp_buffer_capacity p)
      in if sb_data b \<noteq> None \<and> sb_capacity_bytes b \<ge> target then p
         else p\<lparr>sp_buffers := (sp_buffers p)[buf_idx := b\<lparr>sb_data := Some target, sb_capacity_bytes := target\<rparr>]\<rparr>)"

definition remove_from_free_list :: "nat \<Rightarrow> StagingPool \<Rightarrow> nat \<times> StagingPool" where
  "remove_from_free_list free_idx p =
     (let buf_idx = sp_free_list p ! free_idx; b = sp_buffers p ! buf_idx in
      (buf_idx, p\<lparr>sp_free_list := take free_idx (sp_free_list p) @ drop (Suc free_idx) (sp_free_list p),
                  sp_buffers := (sp_buffers p)[buf_idx := b\<lparr>sb_ref_count := 1, sb_seq := sb_seq b + 1\<rparr>]\<rparr>))"

definition take_buffer :: "nat \<Rightarrow> StagingPool \<Rightarrow> (nat \<times> StagingPool) option" where
  "take_buffer required_bytes p =
     (let idx = find_best_fit required_bytes p in
      if idx < length (sp_free_list p)
      then Some (remove_from_free_list idx (ensure_storage (sp_free_list p ! idx) required_bytes p))
      else None)"

definition can_grow :: "StagingPool \<Rightarrow> bool" where
  "can_grow p \<longleftrightarrow> sp_grow_mode p = Grow \<and> length (sp_buffers p) < sp_max_buffer_count p"

definition append_slot :: "StagingPool \<Rightarrow> StagingPool" where
  "append_slot p =
     (let buffers = sp_buffers p @ [fresh_buffer] in
      p\<lparr>sp_buffers := buffers, sp_free_list := sp_free_list p @ [length buffers - 1],
        sp_grow_warned := (sp_grow_warned p \<or> length buffers > sp_buffer_count p)\<rparr>)"

definition staging_release :: "nat \<Rightarrow> StagingPool \<Rightarrow> StagingPool" where
  "staging_release buf_idx p =
     (let b = (sp_buffers p ! buf_idx)\<lparr>sb_ref_count := sb_ref_count (sp_buffers p ! buf_idx) - 1\<rparr>;
          cap = (\<lambda>i. sb_capacity_bytes (sp_buffers p ! i));
          before = (\<lambda>a. cap a < cap buf_idx)
      in if sb_ref_count b = 0
         then p\<lparr>sp_buffers := (sp_buffers p)[buf_idx := b\<lparr>sb_used_bytes := 0\<rparr>],
                sp_free_list := takeWhile before (sp_free_list p) @ buf_idx # dropWhile before (sp_free_list p)\<rparr>
         else p\<lparr>sp_buffers := (sp_buffers p)[buf_idx := b]\<rparr>)"

definition staging_add_ref :: "nat \<Rightarrow> StagingPool \<Rightarrow> StagingPool" where
  "staging_add_ref buf_idx p =
     p\<lparr>sp_buffers := (sp_buffers p)[buf_idx :=
         (sp_buffers p ! buf_idx)\<lparr>sb_ref_count := sb_ref_count (sp_buffers p ! buf_idx) + 1\<rparr>]\<rparr>"

text \<open>What other threads do while this one waits. An acquisition of another thread that does not find a
  buffer leaves the pool as it is, so only successful attempts matter.\<close>

datatype staging_op = Try_acquire nat | Release_buffer nat | Add_ref nat | Set_used nat nat

definition try_acquire :: "nat \<Rightarrow> StagingPool \<Rightarrow> (nat \<times> StagingPool) option" where
  "try_acquire required_bytes p =
     (case take_buffer required_bytes p of
        Some r \<Rightarrow> Some r
      | None \<Rightarrow> if can_grow p then take_buffer required_bytes (append_slot p) else None)"

definition staging_step :: "staging_op \<Rightarrow> StagingPool \<Rightarrow> StagingPool" where
  "staging_step op p =
     (case op of
        Try_acquire n \<Rightarrow> (case try_acquire n p of Some (_, p') \<Rightarrow> p' | None \<Rightarrow> p)
      | Release_buffer i \<Rightarrow> staging_release i p
      | Add_ref i \<Rightarrow> staging_add_ref i p
      | Set_used i n \<Rightarrow> p\<lparr>sp_buffers := (sp_buffers p)[i := (sp_buffers p ! i)\<lparr>sb_used_bytes := n\<rparr>]\<rparr>)"

datatype cv_status = No_timeout | Timed_out

function staging_acquire :: "nat \<Rightarrow> (staging_op list \<times> cv_status) list \<Rightarrow> StagingPool \<Rightarrow> (nat option \<times> StagingPool) option" where
  "staging_acquire required_bytes wakeups p =
     (case take_buffer required_bytes p of
        Some (buf, p') \<Rightarrow> Some (Some buf, p')
      | None \<Rightarrow>
          if can_grow p then staging_acquire required_bytes wakeups (append_slot p)
          else (case wakeups of
                  [] \<Rightarrow> None
                | (ops, status) # rest \<Rightarrow>
                    let p1 = fold staging_step ops p in
                    if status = Timed_out
                    then (case take_buffer required_bytes p1 of
                            Some (buf, p') \<Rightarrow> Some (Some buf, p')
                          | None \<Rightarrow> Some (None, p1))
                    else staging_acquire required_bytes rest p1))"
  by pat_completeness auto

termination staging_acquire
  by (relation "measures [\<lambda>(r, w, p). length w, \<lambda>(r, w, p). sp_max_buffer_count p - length (sp_buffers p)]")
     (auto simp: can_grow_def append_slot_def Let_def)

declare staging_acquire.simps [simp del]

section \<open>Accessors\<close>

definition total_buffer_count :: "StagingPool \<Rightarrow> nat" where
  "total_buffer_count p = length (sp_buffers p)"

definition max_buffer_count :: "StagingPool \<Rightarrow> nat" where
  "max_buffer_count p = sp_max_buffer_count p"

definition initial_buffer_count :: "StagingPool \<Rightarrow> nat" where
  "initial_buffer_count p = sp_buffer_count p"

definition free_buffer_count :: "StagingPool \<Rightarrow> nat" where
  "free_buffer_count p = length (sp_free_list p)"

definition buffer_capacity :: "StagingPool \<Rightarrow> nat" where
  "buffer_capacity p = sp_buffer_capacity p"

definition committed_bytes :: "StagingPool \<Rightarrow> nat" where
  "committed_bytes p = sum_list (map sb_capacity_bytes (sp_buffers p)) mod 2 ^ 64"

definition allocated_buffer_count :: "StagingPool \<Rightarrow> nat" where
  "allocated_buffer_count p = length (filter (\<lambda>b. sb_data b \<noteq> None) (sp_buffers p))"

definition timeout_ms :: "StagingPool \<Rightarrow> int" where
  "timeout_ms p = sp_timeout_ms p"

section \<open>The invariant\<close>

text \<open>
  The free list holds exactly the buffers nobody references, each once, in ascending order of
  capacity; committed buffers have at least the nominal capacity; a free buffer has no payload.
\<close>

definition buffer_ok :: "nat \<Rightarrow> StagingBuffer \<Rightarrow> bool" where
  "buffer_ok nominal b \<longleftrightarrow> 0 \<le> sb_ref_count b \<and>
     (case sb_data b of None \<Rightarrow> sb_capacity_bytes b = 0 \<and> sb_ref_count b = 0
                      | Some n \<Rightarrow> sb_capacity_bytes b = n \<and> nominal \<le> n) \<and>
     (sb_ref_count b = 0 \<longrightarrow> sb_used_bytes b = 0)"

abbreviation slot_ref :: "StagingPool \<Rightarrow> nat \<Rightarrow> int" where
  "slot_ref p i \<equiv> sb_ref_count (sp_buffers p ! i)"

abbreviation slot_cap :: "StagingPool \<Rightarrow> nat \<Rightarrow> nat" where
  "slot_cap p i \<equiv> sb_capacity_bytes (sp_buffers p ! i)"

definition staging_inv :: "StagingPool \<Rightarrow> bool" where
  "staging_inv p \<longleftrightarrow> distinct (sp_free_list p) \<and>
     (\<forall>i. i \<in> set (sp_free_list p) \<longleftrightarrow> i < length (sp_buffers p) \<and> slot_ref p i = 0) \<and>
     sorted (map (slot_cap p) (sp_free_list p)) \<and>
     list_all (buffer_ok (sp_buffer_capacity p)) (sp_buffers p) \<and>
     length (sp_buffers p) \<le> sp_max_buffer_count p"

lemma staging_invD:
  assumes "staging_inv p"
  shows "distinct (sp_free_list p)"
    and "i \<in> set (sp_free_list p) \<longleftrightarrow> i < length (sp_buffers p) \<and> slot_ref p i = 0"
    and "sorted (map (slot_cap p) (sp_free_list p))"
    and "i < length (sp_buffers p) \<Longrightarrow> buffer_ok (sp_buffer_capacity p) (sp_buffers p ! i)"
    and "length (sp_buffers p) \<le> sp_max_buffer_count p"
  using assms unfolding staging_inv_def by (auto simp: list_all_length)

section \<open>List lemmas\<close>

lemma first_index_le: "first_index P xs \<le> length xs"
  by (simp add: first_index_def length_takeWhile_le)

lemma first_index_hit: "first_index P xs < length xs \<Longrightarrow> P (xs ! first_index P xs)"
  using nth_length_takeWhile [of "\<lambda>x. \<not> P x" xs] by (simp add: first_index_def)

lemma first_index_before: "j < first_index P xs \<Longrightarrow> \<not> P (xs ! j)"
  unfolding first_index_def by (metis nth_mem set_takeWhileD takeWhile_nth)

lemma first_index_none: "\<not> first_index P xs < length xs \<longleftrightarrow> (\<forall>x\<in>set xs. \<not> P x)"
  by (induction xs) (auto simp: first_index_def)

lemma first_index_some: "first_index P xs < length xs \<longleftrightarrow> (\<exists>x\<in>set xs. P x)"
  using first_index_none [of P xs] by blast

lemma remove_nth:
  assumes "distinct xs" "i < length xs"
  shows "set (take i xs @ drop (Suc i) xs) = set xs - {xs ! i}" "distinct (take i xs @ drop (Suc i) xs)"
proof -
  have x: "xs = take i xs @ xs ! i # drop (Suc i) xs" using assms(2) by (rule id_take_nth_drop)
  then have "distinct (take i xs @ xs ! i # drop (Suc i) xs)" using assms(1) by metis
  then have d: "xs ! i \<notin> set (take i xs)" "xs ! i \<notin> set (drop (Suc i) xs)" "distinct (take i xs @ drop (Suc i) xs)" by auto
  have "set xs = set (take i xs) \<union> insert (xs ! i) (set (drop (Suc i) xs))" by (subst x) simp
  then show "set (take i xs @ drop (Suc i) xs) = set xs - {xs ! i}" using d(1,2) by auto
  show "distinct (take i xs @ drop (Suc i) xs)" by (rule d(3))
qed

lemma sorted_remove_nth: "sorted (map f xs) \<Longrightarrow> sorted (map f (take i xs @ drop (Suc i) xs))"
proof (induction xs arbitrary: i)
  case (Cons x xs)
  then show ?case by (cases i) (auto dest!: in_set_takeD in_set_dropD)
qed simp

lemma sorted_lower_bound:
  "sorted (map f xs) \<Longrightarrow> sorted (map f (takeWhile (\<lambda>a. f a < f x) xs @ x # dropWhile (\<lambda>a. f a < f x) xs))"
proof (induction xs)
  case (Cons y ys)
  then show ?case by (fastforce dest: set_takeWhileD set_dropWhileD)
qed simp

section \<open>Acquiring\<close>

lemma find_best_fit_bound: "find_best_fit n p < length (sp_free_list p) \<longleftrightarrow> sp_free_list p \<noteq> []"
  using first_index_le by (auto simp: find_best_fit_def Let_def)

lemma take_buffer_None: "take_buffer n p = None \<longleftrightarrow> sp_free_list p = []"
  by (simp add: take_buffer_def Let_def find_best_fit_bound)

lemma take_buffer_spec:
  assumes inv: "staging_inv p" and t: "take_buffer n p = Some (i, p')"
  shows "i \<in> set (sp_free_list p)" "staging_inv p'"
    and "sp_buffers p' = (sp_buffers p)[i := sp_buffers p' ! i]" "length (sp_buffers p') = length (sp_buffers p)"
    and "slot_ref p' i = 1" "max n (sp_buffer_capacity p) \<le> slot_cap p' i" "sb_used_bytes (sp_buffers p' ! i) = 0"
    and "sp_max_buffer_count p' = sp_max_buffer_count p" "sp_grow_mode p' = sp_grow_mode p" "sp_buffer_capacity p' = sp_buffer_capacity p"
proof -
  let ?idx = "find_best_fit n p" and ?F = "sp_free_list p"
  let ?q = "ensure_storage i n p"
  have idx: "?idx < length ?F" and i: "i = ?F ! ?idx" and p': "p' = snd (remove_from_free_list ?idx ?q)"
    using t by (auto simp: take_buffer_def Let_def remove_from_free_list_def ensure_storage_def split: if_splits)
  show m: "i \<in> set ?F" using idx i by simp
  then have il: "i < length (sp_buffers p)" "slot_ref p i = 0" using staging_invD(2) [OF inv] by auto
  note bi = staging_invD(4) [OF inv il(1)]
  define b where "b = sp_buffers ?q ! i"
  have q: "sp_buffers ?q = (sp_buffers p)[i := b]" "sp_free_list ?q = ?F" "sp_buffer_capacity ?q = sp_buffer_capacity p"
      "sp_max_buffer_count ?q = sp_max_buffer_count p" "sp_grow_mode ?q = sp_grow_mode p"
    using il by (auto simp: ensure_storage_def Let_def b_def)
  have b: "buffer_ok (sp_buffer_capacity p) b" "sb_ref_count b = 0" "max n (sp_buffer_capacity p) \<le> sb_capacity_bytes b"
      "sb_data b \<noteq> None" "sb_used_bytes b = 0"
    using bi il by (auto simp: b_def ensure_storage_def Let_def buffer_ok_def split: option.splits)
  define c where "c = b\<lparr>sb_ref_count := 1, sb_seq := sb_seq b + 1\<rparr>"
  have okc: "buffer_ok (sp_buffer_capacity p) c" using b by (auto simp: c_def buffer_ok_def split: option.splits)
  have bufs: "sp_buffers p' = (sp_buffers p)[i := c]"
    and free: "sp_free_list p' = take ?idx ?F @ drop (Suc ?idx) ?F"
    and rest: "sp_buffer_capacity p' = sp_buffer_capacity p" "sp_max_buffer_count p' = sp_max_buffer_count p"
      "sp_grow_mode p' = sp_grow_mode p"
    using q i il by (auto simp: p' remove_from_free_list_def Let_def c_def)
  note rm = remove_nth [OF staging_invD(1) [OF inv] idx, folded i, folded free]
  have same: "map (slot_cap p') (sp_free_list p') = map (slot_cap p) (sp_free_list p')"
    using rm(1) bufs by auto
  have "sorted (map (slot_cap p') (sp_free_list p'))"
    unfolding same unfolding free by (rule sorted_remove_nth [OF staging_invD(3) [OF inv]])
  moreover have "list_all (buffer_ok (sp_buffer_capacity p')) (sp_buffers p')"
    using staging_invD(4) [OF inv] okc rest il by (simp add: bufs list_all_length nth_list_update)
  moreover have "j \<in> set (sp_free_list p') \<longleftrightarrow> j < length (sp_buffers p') \<and> slot_ref p' j = 0" for j
    using staging_invD(2) [OF inv, of j] rm(1) il by (auto simp: bufs nth_list_update c_def)
  ultimately show "staging_inv p'"
    using rm(2) rest staging_invD(5) [OF inv] by (simp add: staging_inv_def bufs)
  show "sp_buffers p' = (sp_buffers p)[i := sp_buffers p' ! i]" "length (sp_buffers p') = length (sp_buffers p)"
      "slot_ref p' i = 1" "max n (sp_buffer_capacity p) \<le> slot_cap p' i" "sb_used_bytes (sp_buffers p' ! i) = 0"
    using b il by (simp_all add: bufs c_def)
  show "sp_max_buffer_count p' = sp_max_buffer_count p" "sp_grow_mode p' = sp_grow_mode p" "sp_buffer_capacity p' = sp_buffer_capacity p"
    by (rule rest)+
qed

lemma append_slot_spec:
  assumes inv: "staging_inv p" and g: "can_grow p" and f: "sp_free_list p = []"
  shows "staging_inv (append_slot p)" "sp_free_list (append_slot p) = [length (sp_buffers p)]"
    and "sp_buffers (append_slot p) = sp_buffers p @ [fresh_buffer]"
    and "sp_max_buffer_count (append_slot p) = sp_max_buffer_count p" "sp_grow_mode (append_slot p) = sp_grow_mode p"
      "sp_buffer_capacity (append_slot p) = sp_buffer_capacity p"
proof -
  show s: "sp_free_list (append_slot p) = [length (sp_buffers p)]" "sp_buffers (append_slot p) = sp_buffers p @ [fresh_buffer]"
      "sp_max_buffer_count (append_slot p) = sp_max_buffer_count p" "sp_grow_mode (append_slot p) = sp_grow_mode p"
      "sp_buffer_capacity (append_slot p) = sp_buffer_capacity p"
    using f by (simp_all add: append_slot_def Let_def)
  have "\<not> (i < length (sp_buffers p) \<and> slot_ref p i = 0)" for i using staging_invD(2) [OF inv, of i] f by simp
  then show "staging_inv (append_slot p)"
    using inv g s by (auto simp: staging_inv_def can_grow_def nth_append less_Suc_eq buffer_ok_def fresh_buffer_def)
qed

lemma staging_release_spec:
  assumes inv: "staging_inv p" and i: "i < length (sp_buffers p)" "0 < slot_ref p i"
  shows "staging_inv (staging_release i p)"
    and "slot_ref (staging_release i p) j = slot_ref p j - (if j = i then 1 else 0)"
    and "length (sp_buffers (staging_release i p)) = length (sp_buffers p)"
    and "slot_cap (staging_release i p) j = slot_cap p j"
    and "sp_max_buffer_count (staging_release i p) = sp_max_buffer_count p" "sp_grow_mode (staging_release i p) = sp_grow_mode p"
      "sp_buffer_capacity (staging_release i p) = sp_buffer_capacity p"
proof -
  let ?r = "staging_release i p" and ?before = "\<lambda>a. slot_cap p a < slot_cap p i"
  show len: "length (sp_buffers ?r) = length (sp_buffers p)" by (simp add: staging_release_def Let_def)
  have nth: "sp_buffers ?r ! j = (if j = i then (sp_buffers p ! i)\<lparr>sb_ref_count := slot_ref p i - 1,
      sb_used_bytes := (if slot_ref p i = 1 then 0 else sb_used_bytes (sp_buffers p ! i))\<rparr> else sp_buffers p ! j)" for j
    using i by (auto simp: staging_release_def Let_def nth_list_update)
  show "slot_ref ?r j = slot_ref p j - (if j = i then 1 else 0)" "slot_cap ?r j = slot_cap p j" for j
    by (simp_all add: nth)
  then have cap: "slot_cap ?r = slot_cap p" by blast
  show rest: "sp_max_buffer_count ?r = sp_max_buffer_count p" "sp_grow_mode ?r = sp_grow_mode p" "sp_buffer_capacity ?r = sp_buffer_capacity p"
    by (simp_all add: staging_release_def Let_def)
  have fr: "sp_free_list ?r = (if slot_ref p i = 1 then takeWhile ?before (sp_free_list p) @ i # dropWhile ?before (sp_free_list p)
      else sp_free_list p)"
    by (auto simp: staging_release_def Let_def)
  have ni: "i \<notin> set (sp_free_list p)" using staging_invD(2) [OF inv, of i] i by simp
  have tw: "set (takeWhile ?before (sp_free_list p)) \<union> set (dropWhile ?before (sp_free_list p)) = set (sp_free_list p)"
    "distinct (takeWhile ?before (sp_free_list p) @ dropWhile ?before (sp_free_list p))"
    using staging_invD(1) [OF inv] by (metis set_append takeWhile_dropWhile_id, metis takeWhile_dropWhile_id)
  have "i \<notin> set (takeWhile ?before (sp_free_list p))" "i \<notin> set (dropWhile ?before (sp_free_list p))" using tw(1) ni by blast+
  then have "distinct (sp_free_list ?r)" unfolding fr using tw(2) staging_invD(1) [OF inv] by (simp del: takeWhile_dropWhile_id)
  moreover have "sorted (map (slot_cap ?r) (sp_free_list ?r))"
    unfolding cap using sorted_lower_bound [OF staging_invD(3) [OF inv], of i] staging_invD(3) [OF inv] fr by (simp split: if_splits)
  moreover have "set (sp_free_list ?r) = (if slot_ref p i = 1 then insert i (set (sp_free_list p)) else set (sp_free_list p))"
    using fr tw(1) by auto
  then have "j \<in> set (sp_free_list ?r) \<longleftrightarrow> j < length (sp_buffers ?r) \<and> slot_ref ?r j = 0" for j
    using staging_invD(2) [OF inv, of j] i len ni by (auto simp: nth)
  moreover have "buffer_ok (sp_buffer_capacity p) (sp_buffers ?r ! i)"
    using staging_invD(4) [OF inv i(1)] i(2) by (simp add: nth buffer_ok_def split: option.splits)
  then have "buffer_ok (sp_buffer_capacity p) (sp_buffers ?r ! j)" if "j < length (sp_buffers p)" for j
    using staging_invD(4) [OF inv that] by (cases "j = i") (simp_all add: nth)
  then have "list_all (buffer_ok (sp_buffer_capacity ?r)) (sp_buffers ?r)"
    using rest len by (simp add: list_all_length)
  ultimately show "staging_inv ?r"
    using rest len staging_invD(5) [OF inv] by (simp add: staging_inv_def)
qed

lemma staging_touch:
  assumes inv: "staging_inv p" and i: "i < length (sp_buffers p)" "0 < slot_ref p i"
    and b: "buffer_ok (sp_buffer_capacity p) b" "0 < sb_ref_count b" "sb_capacity_bytes b = slot_cap p i"
  shows "staging_inv (p\<lparr>sp_buffers := (sp_buffers p)[i := b]\<rparr>)"
proof -
  let ?q = "p\<lparr>sp_buffers := (sp_buffers p)[i := b]\<rparr>"
  have "i \<notin> set (sp_free_list p)" using staging_invD(2) [OF inv, of i] i by simp
  then have same: "map (slot_cap ?q) (sp_free_list ?q) = map (slot_cap p) (sp_free_list p)"
    using i(1) by (auto simp: nth_list_update)
  have "sorted (map (slot_cap ?q) (sp_free_list ?q))" unfolding same by (rule staging_invD(3) [OF inv])
  moreover have "list_all (buffer_ok (sp_buffer_capacity ?q)) (sp_buffers ?q)"
    using i(1) b(1) staging_invD(4) [OF inv] by (simp add: list_all_length nth_list_update)
  moreover have "j \<in> set (sp_free_list ?q) \<longleftrightarrow> j < length (sp_buffers ?q) \<and> slot_ref ?q j = 0" for j
    using staging_invD(2) [OF inv, of j] i b(2) by (auto simp: nth_list_update)
  ultimately show ?thesis
    using staging_invD(1,5) [OF inv] by (simp add: staging_inv_def)
qed

definition op_allowed :: "StagingPool \<Rightarrow> staging_op \<Rightarrow> bool" where
  "op_allowed p op = (case op of Try_acquire n \<Rightarrow> True
     | Release_buffer i \<Rightarrow> i < length (sp_buffers p) \<and> 0 < slot_ref p i
     | Add_ref i \<Rightarrow> i < length (sp_buffers p) \<and> 0 < slot_ref p i
     | Set_used i n \<Rightarrow> i < length (sp_buffers p) \<and> 0 < slot_ref p i)"

fun ops_allowed :: "staging_op list \<Rightarrow> StagingPool \<Rightarrow> bool" where
  "ops_allowed [] p = True"
| "ops_allowed (op # ops) p = (op_allowed p op \<and> ops_allowed ops (staging_step op p))"

definition same_limits :: "StagingPool \<Rightarrow> StagingPool \<Rightarrow> bool" where
  "same_limits p q \<longleftrightarrow> sp_max_buffer_count q = sp_max_buffer_count p \<and> sp_grow_mode q = sp_grow_mode p \<and>
     sp_buffer_capacity q = sp_buffer_capacity p"

lemma try_acquire_spec:
  assumes inv: "staging_inv p" and t: "try_acquire n p = Some (i, p')"
  shows "staging_inv p' \<and> same_limits p p' \<and> i < length (sp_buffers p') \<and> slot_ref p' i = 1 \<and>
    max n (sp_buffer_capacity p) \<le> slot_cap p' i \<and> (i < length (sp_buffers p) \<longrightarrow> slot_ref p i = 0) \<and>
    length (sp_buffers p) \<le> length (sp_buffers p') \<and>
    (\<forall>j<length (sp_buffers p'). length (sp_buffers p) \<le> j \<longrightarrow> j = i) \<and>
    (\<forall>j<length (sp_buffers p). j \<noteq> i \<longrightarrow> sp_buffers p' ! j = sp_buffers p ! j)"
proof (cases "take_buffer n p")
  case (Some r)
  then have k: "take_buffer n p = Some (i, p')" using t by (simp add: try_acquire_def)
  note k = take_buffer_spec [OF inv k]
  have "\<forall>j<length (sp_buffers p). j \<noteq> i \<longrightarrow> sp_buffers p' ! j = sp_buffers p ! j" using k(3) by (metis nth_list_update_neq)
  then show ?thesis using k(1,2,4-10) staging_invD(2) [OF inv, of i] by (auto simp: same_limits_def)
next
  case None
  then have g: "can_grow p" and k: "take_buffer n (append_slot p) = Some (i, p')"
    using t by (auto simp: try_acquire_def split: if_splits)
  note a = append_slot_spec [OF inv g None [unfolded take_buffer_None]]
  note k = take_buffer_spec [OF a(1) k]
  have i: "i = length (sp_buffers p)" using k(1) a(2) by simp
  have "sp_buffers p' ! j = sp_buffers p ! j" if "j < length (sp_buffers p)" for j
    using k(3) i that a(3) by (metis nth_append nth_list_update_neq less_irrefl)
  then show ?thesis using k(2,4-10) a(3-6) i by (auto simp: same_limits_def)
qed

lemma staging_step_inv:
  assumes inv: "staging_inv p" and ok: "op_allowed p op"
  shows "staging_inv (staging_step op p) \<and> same_limits p (staging_step op p)"
proof (cases op)
  case (Try_acquire n)
  have "staging_inv p' \<and> same_limits p p'" if "try_acquire n p = Some (i, p')" for i p'
    using try_acquire_spec [OF inv that] by blast
  then show ?thesis
    using inv Try_acquire by (auto simp: staging_step_def same_limits_def split: option.splits)
next
  case (Release_buffer i)
  then show ?thesis
    using staging_release_spec [OF inv, of i] ok by (simp add: staging_step_def op_allowed_def same_limits_def)
next
  case (Add_ref i)
  then show ?thesis
    using staging_touch [OF inv, of i] staging_invD(4) [OF inv, of i] ok
    by (auto simp: staging_step_def staging_add_ref_def op_allowed_def same_limits_def buffer_ok_def split: option.splits)
next
  case (Set_used i n)
  then show ?thesis
    using staging_touch [OF inv, of i] staging_invD(4) [OF inv, of i] ok
    by (auto simp: staging_step_def op_allowed_def same_limits_def buffer_ok_def split: option.splits)
qed

lemma fold_step_inv:
  "staging_inv p \<Longrightarrow> ops_allowed ops p \<Longrightarrow> staging_inv (fold staging_step ops p) \<and> same_limits p (fold staging_step ops p)"
proof (induction ops arbitrary: p)
  case (Cons op ops)
  then have "staging_inv (staging_step op p)" "same_limits p (staging_step op p)" using staging_step_inv by auto
  then show ?case using Cons by (fastforce simp: same_limits_def)
qed (simp add: same_limits_def)

lemma staging_step_grows:
  assumes "staging_inv p" "op_allowed p op"
  shows "length (sp_buffers p) \<le> length (sp_buffers (staging_step op p))"
  using try_acquire_spec [OF assms(1)]
  by (cases op) (auto simp: staging_step_def staging_release_def staging_add_ref_def Let_def split: option.splits)

lemma fold_step_grows:
  "staging_inv p \<Longrightarrow> ops_allowed ops p \<Longrightarrow> length (sp_buffers p) \<le> length (sp_buffers (fold staging_step ops p))"
proof (induction ops arbitrary: p)
  case (Cons op ops)
  then have "length (sp_buffers p) \<le> length (sp_buffers (staging_step op p))" using staging_step_grows by simp
  also have "\<dots> \<le> length (sp_buffers (fold staging_step ops (staging_step op p)))"
    using Cons staging_step_inv by simp
  finally show ?case by simp
qed simp

section \<open>Properties\<close>

fun waits_allowed :: "(staging_op list \<times> cv_status) list \<Rightarrow> StagingPool \<Rightarrow> bool" where
  "waits_allowed [] p = True"
| "waits_allowed ((ops, status) # rest) p = (ops_allowed ops p \<and> waits_allowed rest (fold staging_step ops p))"

definition acquired :: "nat \<Rightarrow> StagingPool \<Rightarrow> nat option \<Rightarrow> StagingPool \<Rightarrow> bool" where
  "acquired n p r p' \<longleftrightarrow> staging_inv p' \<and>
     (case r of
        Some i \<Rightarrow> i < length (sp_buffers p') \<and> slot_ref p' i = 1 \<and> max n (sp_buffer_capacity p) \<le> slot_cap p' i
      | None \<Rightarrow> \<not> can_grow p' \<and> sp_free_list p' = [] \<and> (\<forall>j<length (sp_buffers p'). 0 < slot_ref p' j))"

lemma try_acquire_None: "try_acquire n p = None \<longleftrightarrow> sp_free_list p = [] \<and> \<not> can_grow p"
proof -
  have "take_buffer n (append_slot p) \<noteq> None" unfolding take_buffer_None by (simp add: append_slot_def Let_def)
  then show ?thesis using take_buffer_None [of n p] by (auto simp: try_acquire_def split: option.splits)
qed

lemma acquire_try:
  "staging_acquire n w p =
     (case try_acquire n p of
        Some (i, p') \<Rightarrow> Some (Some i, p')
      | None \<Rightarrow> (case w of
          [] \<Rightarrow> None
        | (ops, status) # rest \<Rightarrow>
            let p1 = fold staging_step ops p in
            if status = Timed_out
            then (case take_buffer n p1 of Some (i, p') \<Rightarrow> Some (Some i, p') | None \<Rightarrow> Some (None, p1))
            else staging_acquire n rest p1))"
proof (cases "take_buffer n p")
  case None
  show ?thesis
  proof (cases "can_grow p")
    case True
    have "take_buffer n (append_slot p) \<noteq> None" unfolding take_buffer_None by (simp add: append_slot_def Let_def)
    then show ?thesis
      using None True staging_acquire.simps [of n w p] staging_acquire.simps [of n w "append_slot p"]
      by (auto simp: try_acquire_def)
  next
    case False
    then show ?thesis using None by (simp add: staging_acquire.simps [of n w p] try_acquire_def)
  qed
qed (simp add: staging_acquire.simps [of n w p] try_acquire_def split: option.splits prod.splits)

lemma exhausted:
  assumes "staging_inv p" "sp_free_list p = []" "j < length (sp_buffers p)"
  shows "0 < slot_ref p j"
  using staging_invD(2) [OF assms(1), of j] staging_invD(4) [OF assms(1,3)] assms(2,3) by (auto simp: buffer_ok_def)

lemma staging_acquire_result:
  assumes "staging_inv p" "waits_allowed w p" "Timed_out \<in> snd ` set w"
  shows "\<exists>r p'. staging_acquire n w p = Some (r, p') \<and> acquired n p r p'"
  using assms
proof (induction w arbitrary: p)
  case (Cons e rest)
  obtain ops status where e: "e = (ops, status)" by (cases e)
  show ?case
  proof (cases "try_acquire n p")
    case (Some r)
    then obtain i p' where r: "try_acquire n p = Some (i, p')" by (cases r) auto
    then show ?thesis using try_acquire_spec [OF Cons.prems(1) r] acquire_try [of n "e # rest" p] by (simp add: acquired_def)
  next
    case None
    let ?p1 = "fold staging_step ops p"
    have i1: "staging_inv ?p1" "same_limits p ?p1" using fold_step_inv Cons.prems e by auto
    show ?thesis
    proof (cases "status = Timed_out")
      case True
      show ?thesis
      proof (cases "take_buffer n ?p1")
        case (Some r)
        then obtain i p' where r: "take_buffer n ?p1 = Some (i, p')" by (cases r) auto
        have "staging_acquire n (e # rest) p = Some (Some i, p')" using None True r e acquire_try [of n "e # rest" p] by simp
        moreover have "i < length (sp_buffers ?p1)" using take_buffer_spec(1) [OF i1(1) r] staging_invD(2) [OF i1(1)] by blast
        ultimately show ?thesis using take_buffer_spec [OF i1(1) r] i1(2) by (simp add: acquired_def same_limits_def)
      next
        case None1: None
        have "\<not> can_grow p" using None by (simp add: try_acquire_None)
        moreover have "staging_acquire n (e # rest) p = Some (None, ?p1)"
          using None None1 True e acquire_try [of n "e # rest" p] by simp
        moreover have "length (sp_buffers p) \<le> length (sp_buffers ?p1)" using Cons.prems(1,2) e by (intro fold_step_grows) auto
        ultimately show ?thesis
          using None1 i1 exhausted [OF i1(1)] by (auto simp: acquired_def take_buffer_None can_grow_def same_limits_def)
      qed
    next
      case False
      then have "Timed_out \<in> snd ` set rest" using Cons.prems(3) e by auto
      then obtain r p' where "staging_acquire n rest ?p1 = Some (r, p')" "acquired n ?p1 r p'"
        using Cons.IH i1(1) Cons.prems(2) e by fastforce
      then show ?thesis
        using None False e acquire_try [of n "e # rest" p] i1(2) by (cases r) (simp_all add: acquired_def same_limits_def)
    qed
  qed
qed simp

text \<open>
  C14. Acquiring returns by its deadline, and reports backpressure only when nothing could be done: whatever
  other threads do while it waits, once a wait has timed out the call has returned; a buffer it
  returns has enough room and exactly one reference, the new one; it returns null only when every
  slot is referenced and the pool may not grow any more; and with a free buffer, or below
  the ceiling in growing mode, it does not wait at all.
\<close>

theorem staging_acquire_correct:
  assumes "staging_inv p" "waits_allowed w p" "Timed_out \<in> snd ` set w"
  shows "(\<exists>r p'. staging_acquire n w p = Some (r, p') \<and> staging_inv p' \<and>
      (case r of
         Some i \<Rightarrow> i < length (sp_buffers p') \<and> slot_ref p' i = 1 \<and> n \<le> slot_cap p' i
       | None \<Rightarrow> \<not> can_grow p' \<and> (\<forall>j<length (sp_buffers p'). 0 < slot_ref p' j))) \<and>
    (sp_free_list p \<noteq> [] \<or> can_grow p \<longrightarrow> (\<exists>i p'. staging_acquire n [] p = Some (Some i, p')))"
proof -
  obtain r p' where "staging_acquire n w p = Some (r, p')" "acquired n p r p'"
    using staging_acquire_result [OF assms] by blast
  moreover have "\<exists>i p'. staging_acquire n [] p = Some (Some i, p')" if "sp_free_list p \<noteq> [] \<or> can_grow p"
    using that try_acquire_None [of n p] acquire_try [of n "[]" p] by (cases "try_acquire n p") auto
  ultimately show ?thesis by (cases r) (auto simp: acquired_def)
qed

definition fits :: "nat \<Rightarrow> StagingPool \<Rightarrow> nat \<Rightarrow> bool" where
  "fits n p k \<longleftrightarrow> sb_data (sp_buffers p ! k) \<noteq> None \<and> n \<le> slot_cap p k"

lemma best_fit_cases:
  assumes inv: "staging_inv p" and j: "j \<in> set (sp_free_list p)" and i: "i = sp_free_list p ! find_best_fit n p"
  shows "if \<exists>k\<in>set (sp_free_list p). fits n p k then fits n p i \<and> (fits n p j \<longrightarrow> slot_cap p i \<le> slot_cap p j)
    else if \<exists>k\<in>set (sp_free_list p). sb_data (sp_buffers p ! k) = None then sb_data (sp_buffers p ! i) = None
    else slot_cap p j \<le> slot_cap p i"
proof -
  let ?F = "sp_free_list p" and ?free = "\<lambda>k. sb_data (sp_buffers p ! k) = None"
  let ?a = "first_index (fits n p) ?F" and ?b = "first_index ?free ?F"
  have ne: "?F \<noteq> []" using j by auto
  obtain kj where kj: "kj < length ?F" "j = ?F ! kj" using j by (auto simp: in_set_conv_nth)
  have idx: "find_best_fit n p = (if ?a < length ?F then ?a else if ?b < length ?F then ?b else length ?F - 1)"
    using ne by (simp add: find_best_fit_def Let_def fits_def [abs_def])
  have mono: "slot_cap p (?F ! x) \<le> slot_cap p (?F ! y)" if "x \<le> y" "y < length ?F" for x y
    using sorted_nth_mono [OF staging_invD(3) [OF inv], of x y] that by simp
  have small: "slot_cap p i \<le> slot_cap p j" if "fits n p j" "find_best_fit n p = ?a"
  proof -
    have "?a \<le> kj" using first_index_before [of kj "fits n p" ?F] that(1) kj(2) by (meson not_less)
    then show ?thesis using mono [of ?a kj] kj i that(2) by simp
  qed
  have large: "slot_cap p j \<le> slot_cap p i" if "find_best_fit n p = length ?F - 1"
    using mono [of kj "length ?F - 1"] kj i that by simp
  show ?thesis
    unfolding first_index_some [of "fits n p" ?F, symmetric] first_index_some [of ?free ?F, symmetric]
  proof (cases "?a < length ?F")
    case True
    then show "if ?a < length ?F then fits n p i \<and> (fits n p j \<longrightarrow> slot_cap p i \<le> slot_cap p j)
      else if ?b < length ?F then ?free i else slot_cap p j \<le> slot_cap p i"
      using first_index_hit [OF True] idx i small by simp
  next
    case False
    then show "if ?a < length ?F then fits n p i \<and> (fits n p j \<longrightarrow> slot_cap p i \<le> slot_cap p j)
      else if ?b < length ?F then ?free i else slot_cap p j \<le> slot_cap p i"
      using first_index_hit [of ?free ?F] idx i large by (cases "?b < length ?F") simp_all
  qed
qed

text \<open>
  Selection is best fit and commits memory only when it must: when a committed free buffer is large enough, the
  smallest such buffer is reused as it is; otherwise an uncommitted slot is given the larger of
  the request and the nominal capacity; otherwise the largest free buffer is grown
  to the request. No other buffer changes.
\<close>

theorem staging_best_fit:
  assumes inv: "staging_inv p" and t: "take_buffer n p = Some (i, p')" and j: "j \<in> set (sp_free_list p)"
  shows "i \<in> set (sp_free_list p) \<and> (\<forall>k. k \<noteq> i \<longrightarrow> sp_buffers p' ! k = sp_buffers p ! k) \<and>
    (if \<exists>k\<in>set (sp_free_list p). fits n p k
     then sb_data (sp_buffers p' ! i) = sb_data (sp_buffers p ! i) \<and> n \<le> slot_cap p i \<and>
          (fits n p j \<longrightarrow> slot_cap p i \<le> slot_cap p j)
     else sb_data (sp_buffers p' ! i) = Some (max n (sp_buffer_capacity p)) \<and>
          (if \<exists>k\<in>set (sp_free_list p). sb_data (sp_buffers p ! k) = None
           then sb_data (sp_buffers p ! i) = None else slot_cap p j \<le> slot_cap p i))"
proof -
  let ?F = "sp_free_list p" and ?idx = "find_best_fit n p"
  have idx: "?idx < length ?F" using j by (auto simp: find_best_fit_bound)
  have i: "i = ?F ! ?idx" and p': "p' = snd (remove_from_free_list ?idx (ensure_storage i n p))"
    using t idx by (auto simp: take_buffer_def Let_def remove_from_free_list_def ensure_storage_def split: if_splits)
  have mem: "i \<in> set ?F" using i idx by simp
  then have il: "i < length (sp_buffers p)" using staging_invD(2) [OF inv] by blast
  have other: "\<forall>k. k \<noteq> i \<longrightarrow> sp_buffers p' ! k = sp_buffers p ! k" using take_buffer_spec(3) [OF inv t] by (metis nth_list_update_neq)
  have "sb_data (sp_buffers p' ! i) =
      (if sb_data (sp_buffers p ! i) \<noteq> None \<and> max n (sp_buffer_capacity p) \<le> slot_cap p i then sb_data (sp_buffers p ! i)
       else Some (max n (sp_buffer_capacity p)))"
    using i il by (simp add: p' remove_from_free_list_def ensure_storage_def Let_def max_def)
  then have data': "sb_data (sp_buffers p' ! i) =
      (if fits n p i then sb_data (sp_buffers p ! i) else Some (max n (sp_buffer_capacity p)))"
    using staging_invD(4) [OF inv il] by (auto simp: fits_def buffer_ok_def)
  have nf: "fits n p i \<Longrightarrow> \<exists>k\<in>set ?F. fits n p k" using mem by blast
  have room: "fits n p i \<Longrightarrow> n \<le> slot_cap p i" by (simp add: fits_def)
  note c = best_fit_cases [OF inv j i]
  show ?thesis
  proof (cases "\<exists>k\<in>set ?F. fits n p k")
    case True
    then show ?thesis using c mem other data' room by auto
  next
    case False
    then have "sb_data (sp_buffers p' ! i) = Some (max n (sp_buffer_capacity p))" using data' nf by auto
    then show ?thesis using c mem other False by (simp split: if_splits)
  qed
qed

text \<open>The guarantee of the library sort.\<close>

definition sorts :: "((nat \<Rightarrow> nat) \<Rightarrow> nat list \<Rightarrow> nat list) \<Rightarrow> bool" where
  "sorts std_sort \<longleftrightarrow> (\<forall>key xs. mset (std_sort key xs) = mset xs \<and> sorted (map key (std_sort key xs)))"

lemma mk_staging_pool_inv:
  assumes "sorts std_sort" "buffer_count \<le> max_count"
  shows "staging_inv (mk_staging_pool std_sort buffer_count capacity timeout max_count mode)"
proof -
  let ?key = "\<lambda>i. sb_capacity_bytes (replicate buffer_count fresh_buffer ! i)"
  let ?l = "std_sort ?key [0..<buffer_count]"
  have "mset ?l = mset [0..<buffer_count]" "sorted (map ?key ?l)" using assms(1) by (auto simp: sorts_def)
  moreover from this(1) have "set ?l = {0..<buffer_count}" "distinct ?l"
    by (metis set_upt mset_eq_setD, metis distinct_upt mset_eq_imp_distinct_iff)
  ultimately show ?thesis
    using assms(2) by (auto simp: staging_inv_def mk_staging_pool_def Let_def fresh_buffer_def buffer_ok_def list_all_length)
qed

text \<open>
  C35. The pool never loses or shares a buffer: after any sequence of acquisitions, releases, added
  references and payload updates by the holders, starting from a new pool, every slot is either on the free
  list or referenced, never both, the free list is in ascending order of capacity, and the number
  of slots stays within the ceiling, which is the configured count in bounded mode.
\<close>

theorem staging_pool_conserves:
  assumes "sorts std_sort" "buffer_count \<le> max_count"
    and "ops_allowed ops (mk_staging_pool std_sort buffer_count capacity timeout max_count mode)"
    and "p = fold staging_step ops (mk_staging_pool std_sort buffer_count capacity timeout max_count mode)"
  shows "free_buffer_count p + card {i. i < total_buffer_count p \<and> 0 < slot_ref p i} = total_buffer_count p \<and>
    (\<forall>i. i \<in> set (sp_free_list p) \<longleftrightarrow> i < total_buffer_count p \<and> slot_ref p i = 0) \<and>
    sorted (map (slot_cap p) (sp_free_list p)) \<and> total_buffer_count p \<le> max_buffer_count p \<and>
    max_buffer_count p = (if mode = Bounded then buffer_count else max_count)"
proof -
  let ?p0 = "mk_staging_pool std_sort buffer_count capacity timeout max_count mode"
  have inv: "staging_inv p" and lim: "same_limits ?p0 p"
    using fold_step_inv [OF mk_staging_pool_inv [OF assms(1,2)] assms(3)] assms(4) by auto
  let ?held = "{i. i < total_buffer_count p \<and> 0 < slot_ref p i}"
  have "set (sp_free_list p) \<union> ?held = {..<total_buffer_count p}" "set (sp_free_list p) \<inter> ?held = {}"
    using staging_invD(2) [OF inv] staging_invD(4) [OF inv] by (force simp: total_buffer_count_def buffer_ok_def)+
  then have "card (set (sp_free_list p)) + card ?held = card {..<total_buffer_count p}"
    by (metis card_Un_disjoint finite_Un finite_lessThan)
  then have "free_buffer_count p + card ?held = total_buffer_count p"
    using distinct_card [OF staging_invD(1) [OF inv]] by (simp add: free_buffer_count_def)
  then show ?thesis
    using staging_invD(2,3,5) [OF inv] lim
    by (simp add: total_buffer_count_def max_buffer_count_def same_limits_def mk_staging_pool_def Let_def)
qed

section \<open>Witnesses\<close>

lemma sort_key_sorts: "sorts sort_key"
  by (simp add: sorts_def)

definition busy_pool :: StagingPool where
  "busy_pool = staging_step (Try_acquire 3) (mk_staging_pool sort_key 1 8 100 1 Bounded)"

lemma busy_pool_inv: "staging_inv busy_pool"
  unfolding busy_pool_def using staging_step_inv [OF mk_staging_pool_inv [OF sort_key_sorts]] by (simp add: op_allowed_def)

theorem staging_acquire_correct_witness:
  "(\<exists>r p'. staging_acquire 5 [([], No_timeout), ([Release_buffer 0], Timed_out)] busy_pool = Some (r, p') \<and> staging_inv p' \<and>
      (case r of Some i \<Rightarrow> i < length (sp_buffers p') \<and> slot_ref p' i = 1 \<and> 5 \<le> slot_cap p' i
       | None \<Rightarrow> \<not> can_grow p' \<and> (\<forall>j<length (sp_buffers p'). 0 < slot_ref p' j)))"
proof -
  have "waits_allowed [([], No_timeout), ([Release_buffer 0], Timed_out)] busy_pool" by code_simp
  then show ?thesis
    using staging_acquire_correct [OF busy_pool_inv, of "[([], No_timeout), ([Release_buffer 0], Timed_out)]" 5] by simp
qed

definition mixed_pool :: StagingPool where
  "mixed_pool = fold staging_step [Try_acquire 3, Try_acquire 20, Release_buffer 0, Release_buffer 1] (mk_staging_pool sort_key 3 8 100 4 Grow)"

lemma mixed_pool_inv: "staging_inv mixed_pool"
proof -
  have "ops_allowed [Try_acquire 3, Try_acquire 20, Release_buffer 0, Release_buffer 1] (mk_staging_pool sort_key 3 8 100 4 Grow)"
    by code_simp
  from fold_step_inv [OF mk_staging_pool_inv [OF sort_key_sorts] this] show ?thesis unfolding mixed_pool_def by simp
qed

theorem staging_best_fit_witness:
  "\<exists>p'. take_buffer 10 mixed_pool = Some (1, p') \<and> sb_data (sp_buffers p' ! 1) = Some 20"
proof -
  have t: "take_buffer 10 mixed_pool = Some (1, snd (the (take_buffer 10 mixed_pool)))" by code_simp
  have "\<exists>k\<in>set (sp_free_list mixed_pool). fits 10 mixed_pool k" "1 \<in> set (sp_free_list mixed_pool)"
    "sb_data (sp_buffers mixed_pool ! 1) = Some 20" by code_simp+
  then have "sb_data (sp_buffers (snd (the (take_buffer 10 mixed_pool))) ! 1) = Some 20"
    using staging_best_fit [OF mixed_pool_inv t, of 1] by simp
  then show ?thesis using t by blast
qed

theorem staging_pool_conserves_witness:
  "free_buffer_count mixed_pool + card {i. i < total_buffer_count mixed_pool \<and> 0 < slot_ref mixed_pool i} = total_buffer_count mixed_pool"
proof -
  have "ops_allowed [Try_acquire 3, Try_acquire 20, Release_buffer 0, Release_buffer 1] (mk_staging_pool sort_key 3 8 100 4 Grow)"
    by code_simp
  then show ?thesis
    using staging_pool_conserves [OF sort_key_sorts _ _ mixed_pool_def] by simp
qed

end
