(* ===== verification/Amio_Prefetch.thy ===== *)
theory Amio_Prefetch
  imports Amio_Handle_Table Amio_Staging_Pool
begin

text \<open>
  AMIO's prefetch queue: \<^verbatim>\<open>amio/src/prefetch/prefetch_queue.cpp\<close>, on top of the staging pool.

  The state joins the queue, the pool and the fetches that have been dispatched. A fetch (the body of
  \<open>sync_fetch\<close>) runs in stages; a stage is what happens in one critical section of the queue's
  or the pool's mutex, together with the driver call on a buffer that only this fetch holds. A
  worker thread executes the stages as events between those of other threads; without a worker pool the
  calling thread executes them in a row. \<open>get_buffer\<close> takes what other threads do each time it does
  not hold the mutex as a list of gaps, with the outcome of the wait for the gaps in which it waits; its
  result is \<open>None\<close> while it is still waiting.

  The driver is a parameter: \<open>read meta bbox buffer\<close> is \<open>None\<close> when it throws, otherwise the number
  of bytes it reports. \<open>pf_filled\<close> is history: the selection last read into each buffer. The queue always has a
  staging pool, as its one construction in \<^verbatim>\<open>amio_core.cpp\<close> provides. Timesteps are
  unbounded integers; sizes wrap at 64 bits.
\<close>

section \<open>Data\<close>

datatype amio_dtype =
    AMIO_DTYPE_F32 | AMIO_DTYPE_F64 | AMIO_DTYPE_I8 | AMIO_DTYPE_I16 | AMIO_DTYPE_I32 | AMIO_DTYPE_I64
  | AMIO_DTYPE_U8 | AMIO_DTYPE_U16 | AMIO_DTYPE_U32 | AMIO_DTYPE_U64 | AMIO_DTYPE_other int

definition AMIO_MAX_RANK :: int where
  "AMIO_MAX_RANK = 7"

record amio_shape =
  sh_rank :: int
  sh_extents :: "int list"
  sh_strides :: "int list"

record amio_bbox =
  bb_rank :: int
  bb_offsets :: "int list"
  bb_extents :: "int list"
  bb_strides :: "int list"

record VariableInfo =
  vi_found :: bool
  vi_dtype :: amio_dtype
  vi_shape :: amio_shape
  vi_total_timesteps :: int

record VarMeta =
  vm_dataset_id :: nat
  vm_variable_id :: nat
  vm_name :: string
  vm_dtype :: amio_dtype
  vm_shape :: amio_shape
  vm_timestep :: int

fun element_size :: "amio_dtype \<Rightarrow> nat" where
  "element_size AMIO_DTYPE_F32 = 4"
| "element_size AMIO_DTYPE_F64 = 8"
| "element_size AMIO_DTYPE_I8 = 1"
| "element_size AMIO_DTYPE_I16 = 2"
| "element_size AMIO_DTYPE_I32 = 4"
| "element_size AMIO_DTYPE_I64 = 8"
| "element_size AMIO_DTYPE_U8 = 1"
| "element_size AMIO_DTYPE_U16 = 2"
| "element_size AMIO_DTYPE_U32 = 4"
| "element_size AMIO_DTYPE_U64 = 8"
| "element_size (AMIO_DTYPE_other _) = 0"

record PrefetchQueue =
  pq_depth :: nat
  pq_read_timeout_s :: int
  pq_total_timesteps :: int
  pq_dataset_id :: nat
  pq_var_name :: string
  pq_info :: VariableInfo
  pq_completed :: "int \<rightharpoonup> nat"
  pq_fetched_bbox :: "int \<rightharpoonup> amio_bbox"
  pq_pending :: "int set"
  pq_failed :: "int \<rightharpoonup> amio_err"
  pq_latched_bbox :: "amio_bbox option"
  pq_kicked_off :: bool
  pq_cancelled :: bool

definition mk_prefetch_queue :: "nat \<Rightarrow> int \<Rightarrow> nat \<Rightarrow> string \<Rightarrow> VariableInfo \<Rightarrow> int \<Rightarrow> PrefetchQueue" where
  "mk_prefetch_queue depth read_timeout_s dataset_id var_name info total_timesteps =
     (let d = (if depth < 1 then 1 else depth); r = (if read_timeout_s < 1 then 1 else read_timeout_s) in
      \<lparr>pq_depth = (if d > 1024 then 1024 else d), pq_read_timeout_s = (if r > 3600 then 3600 else r),
       pq_total_timesteps = total_timesteps, pq_dataset_id = dataset_id, pq_var_name = var_name, pq_info = info,
       pq_completed = Map.empty, pq_fetched_bbox = Map.empty, pq_pending = {}, pq_failed = Map.empty,
       pq_latched_bbox = None, pq_kicked_off = False, pq_cancelled = False\<rparr>)"

definition leading :: "int \<Rightarrow> 'a list \<Rightarrow> 'a list" where
  "leading rank xs = take (nat (min rank AMIO_MAX_RANK)) xs"

fun bbox_same :: "amio_bbox option \<Rightarrow> amio_bbox option \<Rightarrow> bool" where
  "bbox_same None None = True"
| "bbox_same (Some x) (Some y) =
     (bb_rank x = bb_rank y \<and> leading (bb_rank x) (bb_offsets x) = leading (bb_rank x) (bb_offsets y) \<and>
      leading (bb_rank x) (bb_extents x) = leading (bb_rank x) (bb_extents y) \<and>
      leading (bb_rank x) (bb_strides x) = leading (bb_rank x) (bb_strides y))"
| "bbox_same _ _ = False"

definition extents_product :: "int list \<Rightarrow> int option" where
  "extents_product exts =
     (if list_all (\<lambda>e. e > 0) exts then Some (foldl (\<lambda>p e. (p * e) mod 2 ^ 64) 1 exts) else None)"

definition acquire_bytes :: "VariableInfo \<Rightarrow> amio_bbox option \<Rightarrow> StagingPool \<Rightarrow> nat" where
  "acquire_bytes info bbox pool =
     (let elem = element_size (vi_dtype info);
          full = (if elem > 0 \<and> sh_rank (vi_shape info) > 0 then
                    case extents_product (leading (sh_rank (vi_shape info)) (sh_extents (vi_shape info))) of
                      Some n \<Rightarrow> nat (int elem * n mod 2 ^ 64) | None \<Rightarrow> 0
                  else 0);
          payload = (case bbox of
                       Some bb \<Rightarrow>
                         if bb_rank bb > 0 then
                           (case extents_product (leading (bb_rank bb) (bb_extents bb)) of
                              Some n \<Rightarrow> if elem > 0 then nat (int elem * n mod 2 ^ 64) else full
                            | None \<Rightarrow> full)
                         else full
                     | None \<Rightarrow> full)
      in if payload > 0 then payload else buffer_capacity pool)"

definition var_meta :: "PrefetchQueue \<Rightarrow> int \<Rightarrow> VarMeta" where
  "var_meta q timestep =
     \<lparr>vm_dataset_id = pq_dataset_id q, vm_variable_id = 0, vm_name = pq_var_name q, vm_dtype = vi_dtype (pq_info q),
      vm_shape = vi_shape (pq_info q), vm_timestep = timestep\<rparr>"

definition zero_fill :: "int list \<Rightarrow> int list" where
  "zero_fill xs = xs @ replicate (7 - length xs) 0"

definition bounding_box :: "amio_bbox \<Rightarrow> amio_bbox" where
  "bounding_box bb =
     \<lparr>bb_rank = bb_rank bb, bb_offsets = zero_fill (leading (bb_rank bb) (bb_offsets bb)),
      bb_extents = zero_fill (leading (bb_rank bb) (bb_extents bb)),
      bb_strides = zero_fill (leading (bb_rank bb) (bb_strides bb))\<rparr>"

section \<open>The system\<close>

datatype fetch_stage = Queued | Begun | Holding nat | Filled nat | Failing amio_err | Done

record fetch_task =
  ft_timestep :: int
  ft_sel :: "amio_bbox option"
  ft_stage :: fetch_stage

datatype worker_mode = No_workers | Workers_running | Workers_shut_down

type_synonym driver_read = "VarMeta \<Rightarrow> amio_bbox option \<Rightarrow> StagingBuffer \<Rightarrow> nat option"

record prefetch_system =
  pf_queue :: PrefetchQueue
  pf_pool :: StagingPool
  pf_tasks :: "fetch_task list"
  pf_workers :: worker_mode
  pf_host :: "nat set"
  pf_filled :: "nat \<Rightarrow> amio_bbox option"

definition mark_complete :: "int \<Rightarrow> nat \<Rightarrow> amio_bbox option \<Rightarrow> PrefetchQueue \<Rightarrow> PrefetchQueue" where
  "mark_complete timestep buf bbox q =
     q\<lparr>pq_pending := pq_pending q - {timestep}, pq_completed := (pq_completed q)(timestep \<mapsto> buf),
       pq_fetched_bbox := (pq_fetched_bbox q)(timestep := bbox)\<rparr>"

definition mark_failed :: "int \<Rightarrow> amio_err \<Rightarrow> PrefetchQueue \<Rightarrow> PrefetchQueue" where
  "mark_failed timestep err q =
     q\<lparr>pq_pending := pq_pending q - {timestep}, pq_failed := (pq_failed q)(timestep \<mapsto> err)\<rparr>"

definition set_stage :: "nat \<Rightarrow> fetch_stage \<Rightarrow> prefetch_system \<Rightarrow> prefetch_system" where
  "set_stage k st s = s\<lparr>pf_tasks := (pf_tasks s)[k := (pf_tasks s ! k)\<lparr>ft_stage := st\<rparr>]\<rparr>"

definition fetch_start :: "nat \<Rightarrow> prefetch_system \<Rightarrow> prefetch_system" where
  "fetch_start k s =
     (if pq_cancelled (pf_queue s)
      then set_stage k Done (s\<lparr>pf_queue := (pf_queue s)\<lparr>pq_pending := pq_pending (pf_queue s) - {ft_timestep (pf_tasks s ! k)}\<rparr>\<rparr>)
      else set_stage k Begun s)"

definition fetch_acquire :: "bool \<Rightarrow> nat \<Rightarrow> prefetch_system \<Rightarrow> prefetch_system" where
  "fetch_acquire timed_out k s =
     (let bytes = acquire_bytes (pq_info (pf_queue s)) (ft_sel (pf_tasks s ! k)) (pf_pool s) in
      case (if timed_out then take_buffer bytes (pf_pool s) else try_acquire bytes (pf_pool s)) of
        Some (buf, pool) \<Rightarrow> set_stage k (Holding buf) (s\<lparr>pf_pool := pool\<rparr>)
      | None \<Rightarrow> if timed_out then set_stage k (Failing AMIO_ERR_STAGING_BACKPRESSURE) s else s)"

definition fetch_read :: "driver_read option \<Rightarrow> nat \<Rightarrow> nat \<Rightarrow> prefetch_system \<Rightarrow> prefetch_system" where
  "fetch_read driver buf k s =
     (let task = pf_tasks s ! k; b = sp_buffers (pf_pool s) ! buf;
          outcome = (case driver of
                       Some read \<Rightarrow> read (var_meta (pf_queue s) (ft_timestep task)) (map_option bounding_box (ft_sel task)) b
                     | None \<Rightarrow> Some (sb_used_bytes b))
      in case outcome of
           Some used \<Rightarrow>
             let s1 = s\<lparr>pf_pool := staging_step (Set_used buf used) (pf_pool s), pf_filled := (pf_filled s)(buf := ft_sel task)\<rparr> in
             if used > sb_capacity_bytes b
             then set_stage k (Failing AMIO_ERR_BACKEND_FAILURE) (s1\<lparr>pf_pool := staging_release buf (pf_pool s1)\<rparr>)
             else set_stage k (Filled buf) s1
         | None \<Rightarrow> set_stage k (Failing AMIO_ERR_BACKEND_FAILURE) (s\<lparr>pf_pool := staging_release buf (pf_pool s)\<rparr>))"

definition fetch_finish :: "nat \<Rightarrow> prefetch_system \<Rightarrow> prefetch_system" where
  "fetch_finish k s =
     (let task = pf_tasks s ! k in
      case ft_stage task of
        Failing e \<Rightarrow> set_stage k Done (s\<lparr>pf_queue := mark_failed (ft_timestep task) e (pf_queue s)\<rparr>)
      | Filled buf \<Rightarrow> set_stage k Done (s\<lparr>pf_queue := mark_complete (ft_timestep task) buf (ft_sel task) (pf_queue s)\<rparr>)
      | _ \<Rightarrow> s)"

text \<open>One stage of fetch \<open>k\<close>; \<open>timed_out\<close> tells an acquisition that its deadline has passed.\<close>

definition fetch_stage_step :: "driver_read option \<Rightarrow> bool \<Rightarrow> nat \<Rightarrow> prefetch_system \<Rightarrow> prefetch_system" where
  "fetch_stage_step driver timed_out k s =
     (if k \<ge> length (pf_tasks s) then s
      else case ft_stage (pf_tasks s ! k) of
             Queued \<Rightarrow> fetch_start k s
           | Begun \<Rightarrow> fetch_acquire timed_out k s
           | Holding buf \<Rightarrow> fetch_read driver buf k s
           | Filled buf \<Rightarrow> fetch_finish k s
           | Failing e \<Rightarrow> fetch_finish k s
           | Done \<Rightarrow> s)"

definition fetch_acquire_blocking :: "nat \<Rightarrow> prefetch_system \<Rightarrow> prefetch_system" where
  "fetch_acquire_blocking k s =
     (if k < length (pf_tasks s) \<and> ft_stage (pf_tasks s ! k) = Begun then
        let s1 = fetch_acquire False k s in
        if ft_stage (pf_tasks s1 ! k) = Begun then fetch_acquire True k s1 else s1
      else s)"

definition sync_fetch :: "driver_read option \<Rightarrow> nat \<Rightarrow> prefetch_system \<Rightarrow> prefetch_system" where
  "sync_fetch driver k s =
     fetch_stage_step driver True k (fetch_stage_step driver True k
       (fetch_acquire_blocking k (fetch_stage_step driver True k s)))"

definition schedule_fetch :: "driver_read option \<Rightarrow> int \<Rightarrow> prefetch_system \<Rightarrow> prefetch_system" where
  "schedule_fetch driver timestep s =
     (let q = pf_queue s in
      if pq_cancelled q then s
      else if timestep \<in> pq_pending q \<or> pq_completed q timestep \<noteq> None \<or> pq_failed q timestep \<noteq> None then s
      else
        let s1 = s\<lparr>pf_queue := q\<lparr>pq_pending := insert timestep (pq_pending q)\<rparr>\<rparr>;
            task = \<lparr>ft_timestep = timestep, ft_sel = pq_latched_bbox q, ft_stage = Queued\<rparr>;
            s2 = s1\<lparr>pf_tasks := pf_tasks s @ [task]\<rparr>
        in case pf_workers s of
             Workers_running \<Rightarrow> s2
           | Workers_shut_down \<Rightarrow> s1
           | No_workers \<Rightarrow> sync_fetch driver (length (pf_tasks s)) s2)"

definition schedule_initial :: "driver_read option \<Rightarrow> prefetch_system \<Rightarrow> prefetch_system" where
  "schedule_initial driver s =
     (let q = pf_queue s; count = min (int (pq_depth q)) (pq_total_timesteps q) in
      fold (\<lambda>t. schedule_fetch driver (int t)) [0..<nat count] (s\<lparr>pf_queue := q\<lparr>pq_kicked_off := True\<rparr>\<rparr>))"

definition schedule_next :: "driver_read option \<Rightarrow> int \<Rightarrow> prefetch_system \<Rightarrow> prefetch_system" where
  "schedule_next driver current_timestep s =
     (let next_t = current_timestep + int (pq_depth (pf_queue s)) in
      if next_t \<ge> pq_total_timesteps (pf_queue s) then s else schedule_fetch driver next_t s)"

definition cancel_pending :: "prefetch_system \<Rightarrow> prefetch_system" where
  "cancel_pending s =
     (let q = pf_queue s; bufs = map (\<lambda>t. the (pq_completed q t)) (sorted_list_of_set (dom (pq_completed q))) in
      s\<lparr>pf_pool := fold staging_release bufs (pf_pool s),
        pf_queue := q\<lparr>pq_cancelled := True, pq_pending := {}, pq_completed := Map.empty, pq_fetched_bbox := Map.empty,
                      pq_failed := Map.empty\<rparr>\<rparr>)"

declare cancel_pending_def [code del]

section \<open>Reading\<close>

datatype prefetch_event = Ev_stage bool nat | Ev_schedule int | Ev_host_release nat | Ev_cancel

definition prefetch_exec :: "driver_read option \<Rightarrow> prefetch_event \<Rightarrow> prefetch_system \<Rightarrow> prefetch_system" where
  "prefetch_exec driver ev s =
     (case ev of
        Ev_stage timed_out k \<Rightarrow> fetch_stage_step driver timed_out k s
      | Ev_schedule t \<Rightarrow> schedule_fetch driver t s
      | Ev_host_release buf \<Rightarrow>
          if buf \<in> pf_host s then s\<lparr>pf_host := pf_host s - {buf}, pf_pool := staging_release buf (pf_pool s)\<rparr> else s
      | Ev_cancel \<Rightarrow> cancel_pending s)"

type_synonym gaps = "(prefetch_event list \<times> cv_status) list"

fun next_gap :: "gaps \<Rightarrow> prefetch_event list \<times> gaps" where
  "next_gap [] = ([], [])"
| "next_gap ((evs, _) # gaps) = (evs, gaps)"

definition hand_out :: "int \<Rightarrow> nat \<Rightarrow> prefetch_system \<Rightarrow> prefetch_system" where
  "hand_out timestep buf s =
     s\<lparr>pf_queue := (pf_queue s)\<lparr>pq_completed := (pq_completed (pf_queue s))(timestep := None)\<rparr>,
       pf_host := insert buf (pf_host s)\<rparr>"

definition forget_bbox :: "int \<Rightarrow> prefetch_system \<Rightarrow> prefetch_system" where
  "forget_bbox timestep s =
     s\<lparr>pf_queue := (pf_queue s)\<lparr>pq_fetched_bbox := (pq_fetched_bbox (pf_queue s))(timestep := None)\<rparr>\<rparr>"

definition drop_stale :: "int \<Rightarrow> nat \<Rightarrow> prefetch_system \<Rightarrow> prefetch_system" where
  "drop_stale timestep buf s =
     forget_bbox timestep
       (s\<lparr>pf_pool := staging_release buf (pf_pool s),
          pf_queue := (pf_queue s)\<lparr>pq_completed := (pq_completed (pf_queue s))(timestep := None)\<rparr>\<rparr>)"

definition forget_failure :: "int \<Rightarrow> prefetch_system \<Rightarrow> prefetch_system" where
  "forget_failure timestep s = s\<lparr>pf_queue := (pf_queue s)\<lparr>pq_failed := (pq_failed (pf_queue s))(timestep := None)\<rparr>\<rparr>"

type_synonym get_result = "(amio_err \<times> nat option) \<times> prefetch_system"

definition unlocked_schedule :: "driver_read option \<Rightarrow> int \<Rightarrow> gaps \<Rightarrow> prefetch_system \<Rightarrow> gaps \<times> prefetch_system" where
  "unlocked_schedule driver timestep gaps s =
     (case next_gap gaps of (g1, gaps1) \<Rightarrow>
      case next_gap gaps1 of (g2, gaps2) \<Rightarrow>
        (gaps2, fold (prefetch_exec driver) g2 (schedule_fetch driver timestep (fold (prefetch_exec driver) g1 s))))"

definition wait_check ::
  "driver_read option \<Rightarrow> int \<Rightarrow> amio_bbox option \<Rightarrow> gaps \<Rightarrow> prefetch_system \<Rightarrow> get_result + gaps \<times> prefetch_system" where
  "wait_check driver timestep req gaps s =
     (let after_completed = (\<lambda>(gaps', s').
        case pq_failed (pf_queue s') timestep of
          Some err \<Rightarrow> Inl ((err, None), forget_failure timestep s')
        | None \<Rightarrow> if pq_cancelled (pf_queue s') then Inl ((AMIO_ERR_BACKEND_FAILURE, None), s') else Inr (gaps', s'))
      in case pq_completed (pf_queue s) timestep of
           Some buf \<Rightarrow>
             if bbox_same (pq_fetched_bbox (pf_queue s) timestep) req
             then Inl ((AMIO_OK, Some buf), forget_bbox timestep (hand_out timestep buf s))
             else after_completed (unlocked_schedule driver timestep gaps (drop_stale timestep buf s))
         | None \<Rightarrow> after_completed (gaps, s))"

lemma next_gap_shorter: "next_gap gaps = (g, gaps') \<Longrightarrow> length gaps' \<le> length gaps"
  by (cases gaps rule: next_gap.cases) auto

lemma wait_check_gaps: "wait_check driver timestep req gaps s = Inr (gaps', s') \<Longrightarrow> length gaps' \<le> length gaps"
  by (auto simp: wait_check_def unlocked_schedule_def Let_def split: option.splits if_splits prod.splits dest!: next_gap_shorter)

lemma next_gap_subset: "next_gap gaps = (g, gaps') \<Longrightarrow> set gaps' \<subseteq> set gaps"
  by (cases gaps rule: next_gap.cases) auto

lemma unlocked_schedule_subset: "unlocked_schedule driver timestep gaps s = (gaps', s') \<Longrightarrow> set gaps' \<subseteq> set gaps"
  by (auto simp: unlocked_schedule_def split: prod.splits dest!: next_gap_subset)

lemma wait_check_subset: "wait_check driver timestep req gaps s = Inr (gaps', s') \<Longrightarrow> set gaps' \<subseteq> set gaps"
  by (auto simp: wait_check_def Let_def split: option.splits if_splits prod.splits dest!: unlocked_schedule_subset)

function get_wait ::
  "driver_read option \<Rightarrow> int \<Rightarrow> amio_bbox option \<Rightarrow> gaps \<Rightarrow> prefetch_system \<Rightarrow> get_result option" where
  "get_wait driver timestep req gaps s =
     (case wait_check driver timestep req gaps s of
        Inl r \<Rightarrow> Some r
      | Inr (gaps', s') \<Rightarrow>
          (case gaps' of
             [] \<Rightarrow> None
           | (evs, status) # rest \<Rightarrow>
               let s1 = fold (prefetch_exec driver) evs s' in
               if status = Timed_out then
                 (case pq_completed (pf_queue s1) timestep of
                    Some buf \<Rightarrow> Some ((AMIO_OK, Some buf), hand_out timestep buf s1)
                  | None \<Rightarrow>
                      (case pq_failed (pf_queue s1) timestep of
                         Some err \<Rightarrow> Some ((err, None), forget_failure timestep s1)
                       | None \<Rightarrow> Some ((AMIO_ERR_TIMEOUT, None), s1)))
               else get_wait driver timestep req rest s1))"
  by pat_completeness auto

termination get_wait
  by (relation "measure (\<lambda>(d, t, r, gaps, s). length gaps)") (auto dest!: wait_check_gaps)

declare get_wait.simps [simp del]

fun kick_off :: "driver_read option \<Rightarrow> int list \<Rightarrow> gaps \<Rightarrow> prefetch_system \<Rightarrow> gaps \<times> prefetch_system" where
  "kick_off driver [] gaps s =
     (case next_gap gaps of (g, gaps') \<Rightarrow> (gaps', fold (prefetch_exec driver) g s))"
| "kick_off driver (t # ts) gaps s =
     (case next_gap gaps of (g, gaps') \<Rightarrow>
        kick_off driver ts gaps' (schedule_fetch driver t (fold (prefetch_exec driver) g s)))"

definition ensure_fetch ::
  "driver_read option \<Rightarrow> int \<Rightarrow> amio_bbox option \<Rightarrow> gaps \<Rightarrow> prefetch_system \<Rightarrow> get_result option" where
  "ensure_fetch driver timestep req gaps s =
     (case (if timestep \<notin> pq_pending (pf_queue s) then unlocked_schedule driver timestep gaps s else (gaps, s)) of
        (gaps', s') \<Rightarrow> get_wait driver timestep req gaps' s')"

definition get_ready ::
  "driver_read option \<Rightarrow> int \<Rightarrow> amio_bbox option \<Rightarrow> gaps \<Rightarrow> prefetch_system \<Rightarrow> get_result option" where
  "get_ready driver timestep req gaps s =
     (case pq_failed (pf_queue s) timestep of
        Some err \<Rightarrow> Some ((err, None), forget_failure timestep s)
      | None \<Rightarrow>
          (case pq_completed (pf_queue s) timestep of
             Some buf \<Rightarrow>
               if bbox_same (pq_fetched_bbox (pf_queue s) timestep) req
               then Some ((AMIO_OK, Some buf), forget_bbox timestep (hand_out timestep buf s))
               else ensure_fetch driver timestep req gaps (drop_stale timestep buf s)
           | None \<Rightarrow> ensure_fetch driver timestep req gaps s))"

definition get_buffer ::
  "driver_read option \<Rightarrow> int \<Rightarrow> amio_bbox option \<Rightarrow> gaps \<Rightarrow> prefetch_system \<Rightarrow> get_result option" where
  "get_buffer driver timestep bbox gaps s =
     (let q = (pf_queue s)\<lparr>pq_latched_bbox := bbox\<rparr>;
          count = min (int (pq_depth q)) (pq_total_timesteps q - timestep)
      in if \<not> pq_kicked_off q
         then case kick_off driver (map (\<lambda>k. timestep + int k) [0..<nat count]) gaps (s\<lparr>pf_queue := q\<lparr>pq_kicked_off := True\<rparr>\<rparr>) of
                (gaps', s') \<Rightarrow> get_ready driver timestep bbox gaps' s'
         else get_ready driver timestep bbox gaps (s\<lparr>pf_queue := q\<rparr>))"

definition completed_count :: "prefetch_system \<Rightarrow> nat" where
  "completed_count s = card (dom (pq_completed (pf_queue s)))"

definition pending_count :: "prefetch_system \<Rightarrow> nat" where
  "pending_count s = card (pq_pending (pf_queue s))"

definition failed_count :: "prefetch_system \<Rightarrow> nat" where
  "failed_count s = card (dom (pq_failed (pf_queue s)))"

section \<open>Ownership\<close>

text \<open>
  A buffer is owned by the fetch that fills it, by the completed entry of a timestep, or by the host.
  The invariant: no buffer has two owners, an owned buffer has reference count one, and
  every other buffer is free.
\<close>

datatype owner = O_task nat | O_done int | O_host nat

definition own_inv :: "StagingPool \<Rightarrow> (owner \<rightharpoonup> nat) \<Rightarrow> bool" where
  "own_inv p H \<longleftrightarrow> staging_inv p \<and> (\<forall>a b i. H a = Some i \<longrightarrow> H b = Some i \<longrightarrow> a = b) \<and>
     (\<forall>a i. H a = Some i \<longrightarrow> i < length (sp_buffers p) \<and> slot_ref p i = 1) \<and>
     (\<forall>i<length (sp_buffers p). i \<notin> ran H \<longrightarrow> slot_ref p i = 0)"

lemma own_invD:
  assumes "own_inv p H"
  shows "staging_inv p" "H a = Some i \<Longrightarrow> H b = Some i \<Longrightarrow> a = b"
    and "H a = Some i \<Longrightarrow> i < length (sp_buffers p)" "H a = Some i \<Longrightarrow> slot_ref p i = 1"
    and "i < length (sp_buffers p) \<Longrightarrow> i \<notin> ran H \<Longrightarrow> slot_ref p i = 0"
  using assms unfolding own_inv_def by blast+

lemma own_acquire:
  assumes inv: "own_inv p H" and t: "try_acquire n p = Some (i, p')" and a: "H a = None"
  shows "own_inv p' (H(a \<mapsto> i))"
proof -
  have k: "staging_inv p'" "i < length (sp_buffers p')" "slot_ref p' i = 1" "length (sp_buffers p) \<le> length (sp_buffers p')"
    and unref: "i < length (sp_buffers p) \<Longrightarrow> slot_ref p i = 0"
    and last: "\<And>j. j < length (sp_buffers p') \<Longrightarrow> length (sp_buffers p) \<le> j \<Longrightarrow> j = i"
    and other: "\<And>j. j < length (sp_buffers p) \<Longrightarrow> j \<noteq> i \<Longrightarrow> sp_buffers p' ! j = sp_buffers p ! j"
    using try_acquire_spec [OF own_invD(1) [OF inv] t] by blast+
  have free: "H b \<noteq> Some i" for b using own_invD(3,4) [OF inv, of b i] unref by auto
  have new: "j < length (sp_buffers p') \<Longrightarrow> \<not> j < length (sp_buffers p) \<Longrightarrow> j \<noteq> i \<Longrightarrow> slot_ref p' j = 0" for j
    using last by (meson not_less)
  show ?thesis
    unfolding own_inv_def
  proof (intro conjI allI impI)
    show "staging_inv p'" by (rule k(1))
    show "b = c" if "(H(a \<mapsto> i)) b = Some j" "(H(a \<mapsto> i)) c = Some j" for b c j
      using that free own_invD(2) [OF inv, of b j c] by (auto split: if_splits)
    show "j < length (sp_buffers p')" "slot_ref p' j = 1" if "(H(a \<mapsto> i)) b = Some j" for b j
      using that k(2-4) free [of b] own_invD(3,4) [OF inv, of b j] other [of j] by (cases "b = a"; force)+
    show "slot_ref p' j = 0" if "j < length (sp_buffers p')" "j \<notin> ran (H(a \<mapsto> i))" for j
    proof -
      have j: "j \<noteq> i" "j \<notin> ran H" using that(2) ran_map_upd [of H a i] a by simp_all
      show ?thesis
      proof (cases "j < length (sp_buffers p)")
        case True
        then show ?thesis using own_invD(5) [OF inv True j(2)] other [OF True j(1)] by simp
      next
        case False
        then show ?thesis using new [OF that(1)] j(1) by blast
      qed
    qed
  qed
qed

lemma own_release:
  assumes inv: "own_inv p H" and a: "H a = Some i"
  shows "own_inv (staging_release i p) (H(a := None))"
proof -
  note r = staging_release_spec [OF own_invD(1) [OF inv] own_invD(3) [OF inv a]]
  have one: "0 < slot_ref p i" using own_invD(4) [OF inv a] by simp
  have ran: "j \<in> ran H \<longleftrightarrow> j = i \<or> j \<in> ran (H(a := None))" for j
    using a by (auto simp: ran_def) (metis option.inject)
  show ?thesis
    unfolding own_inv_def
  proof (intro conjI allI impI)
    show "staging_inv (staging_release i p)" using r(1) one by simp
    show "b = c" if "(H(a := None)) b = Some j" "(H(a := None)) c = Some j" for b c j
      using that own_invD(2) [OF inv, of b j c] by (auto split: if_splits)
    show "j < length (sp_buffers (staging_release i p))" "slot_ref (staging_release i p) j = 1" if "(H(a := None)) b = Some j" for b j
      using that own_invD(3,4) [OF inv, of b j] own_invD(2) [OF inv a, of b] r(2,3) one by (auto split: if_splits)
    show "slot_ref (staging_release i p) j = 0" if "j < length (sp_buffers (staging_release i p))" "j \<notin> ran (H(a := None))" for j
      using that r(2,3) one own_invD(4) [OF inv a] own_invD(5) [OF inv, of j] ran [of j] by (cases "j = i") auto
  qed
qed

lemma own_move:
  assumes inv: "own_inv p H" and a: "H a = Some i" and b: "H b = None"
  shows "own_inv p (H(a := None, b \<mapsto> i))"
proof -
  have ab: "a \<noteq> b" using a b by auto
  have "j \<in> ran (H(a := None, b \<mapsto> i)) \<longleftrightarrow> j \<in> ran H" for j
    using a b ab by (auto simp: ran_def) (metis option.distinct(1) option.inject)
  then have "ran (H(a := None, b \<mapsto> i)) = ran H" by blast
  then show ?thesis
    using inv a ab unfolding own_inv_def by (auto split: if_splits)
qed

lemma own_used:
  assumes inv: "own_inv p H" and a: "H a = Some i"
  shows "own_inv (staging_step (Set_used i n) p) H"
proof -
  have "op_allowed p (Set_used i n)" using own_invD(3,4) [OF inv a] by (simp add: op_allowed_def)
  then have "staging_inv (staging_step (Set_used i n) p)" using staging_step_inv own_invD(1) [OF inv] by blast
  moreover have "length (sp_buffers (staging_step (Set_used i n) p)) = length (sp_buffers p)"
    "slot_ref (staging_step (Set_used i n) p) j = slot_ref p j" for j
    using own_invD(3) [OF inv a] by (cases "j = i"; simp add: staging_step_def)+
  ultimately show ?thesis using inv unfolding own_inv_def by simp
qed

definition task_buffer :: "fetch_task \<Rightarrow> nat option" where
  "task_buffer task = (case ft_stage task of Holding i \<Rightarrow> Some i | Filled i \<Rightarrow> Some i | _ \<Rightarrow> None)"

fun holds :: "prefetch_system \<Rightarrow> owner \<Rightarrow> nat option" where
  "holds s (O_task k) = (if k < length (pf_tasks s) then task_buffer (pf_tasks s ! k) else None)"
| "holds s (O_done t) = pq_completed (pf_queue s) t"
| "holds s (O_host i) = (if i \<in> pf_host s then Some i else None)"

abbreviation active :: "prefetch_system \<Rightarrow> nat \<Rightarrow> bool" where
  "active s k \<equiv> k < length (pf_tasks s) \<and> ft_stage (pf_tasks s ! k) \<noteq> Done"

abbreviation task_time :: "prefetch_system \<Rightarrow> nat \<Rightarrow> int" where
  "task_time s k \<equiv> ft_timestep (pf_tasks s ! k)"

text \<open>At most one fetch is under way per timestep, and none for a completed one.\<close>

definition fetch_inv :: "prefetch_system \<Rightarrow> bool" where
  "fetch_inv s \<longleftrightarrow>
     (\<forall>k l. active s k \<longrightarrow> active s l \<longrightarrow> task_time s k = task_time s l \<longrightarrow> k = l) \<and>
     (\<forall>k. active s k \<longrightarrow> pq_completed (pf_queue s) (task_time s k) = None) \<and>
     (\<not> pq_cancelled (pf_queue s) \<longrightarrow> (\<forall>k. active s k \<longrightarrow> task_time s k \<in> pq_pending (pf_queue s))) \<and>
     finite (dom (pq_completed (pf_queue s)))"

text \<open>What a buffer was filled with is what its fetch or its entry says.\<close>

definition filled_inv :: "prefetch_system \<Rightarrow> bool" where
  "filled_inv s \<longleftrightarrow>
     (\<forall>k i. k < length (pf_tasks s) \<longrightarrow> ft_stage (pf_tasks s ! k) = Filled i \<longrightarrow> pf_filled s i = ft_sel (pf_tasks s ! k)) \<and>
     (\<forall>t i. pq_completed (pf_queue s) t = Some i \<longrightarrow> pf_filled s i = pq_fetched_bbox (pf_queue s) t)"

definition prefetch_inv :: "prefetch_system \<Rightarrow> bool" where
  "prefetch_inv s \<longleftrightarrow> own_inv (pf_pool s) (holds s) \<and> fetch_inv s \<and> filled_inv s"

lemma fetch_invD:
  assumes "fetch_inv s"
  shows "active s k \<Longrightarrow> active s l \<Longrightarrow> task_time s k = task_time s l \<Longrightarrow> k = l"
    and "active s k \<Longrightarrow> pq_completed (pf_queue s) (task_time s k) = None"
    and "\<not> pq_cancelled (pf_queue s) \<Longrightarrow> active s k \<Longrightarrow> task_time s k \<in> pq_pending (pf_queue s)"
    and "finite (dom (pq_completed (pf_queue s)))"
  using assms unfolding fetch_inv_def by blast+

lemma filled_invD:
  assumes "filled_inv s"
  shows "k < length (pf_tasks s) \<Longrightarrow> ft_stage (pf_tasks s ! k) = Filled i \<Longrightarrow> pf_filled s i = ft_sel (pf_tasks s ! k)"
    and "pq_completed (pf_queue s) t = Some i \<Longrightarrow> pf_filled s i = pq_fetched_bbox (pf_queue s) t"
  using assms unfolding filled_inv_def by blast+

lemma prefetch_invD:
  assumes "prefetch_inv s"
  shows "own_inv (pf_pool s) (holds s)" "fetch_inv s" "filled_inv s"
  using assms unfolding prefetch_inv_def by blast+

lemma holds_eqI:
  assumes "\<And>k. holds s' (O_task k) = H (O_task k)" "\<And>t. holds s' (O_done t) = H (O_done t)" "\<And>i. holds s' (O_host i) = H (O_host i)"
  shows "holds s' = H"
proof
  show "holds s' a = H a" for a using assms by (cases a) simp_all
qed

lemma set_stage_fields [simp]:
  "pf_queue (set_stage k st s) = pf_queue s" "pf_pool (set_stage k st s) = pf_pool s" "pf_host (set_stage k st s) = pf_host s"
  "pf_filled (set_stage k st s) = pf_filled s" "length (pf_tasks (set_stage k st s)) = length (pf_tasks s)"
  "pf_workers (set_stage k st s) = pf_workers s"
  by (simp_all add: set_stage_def)

lemma set_stage_nth:
  "k < length (pf_tasks s) \<Longrightarrow> pf_tasks (set_stage k st s) ! l =
     (if l = k then (pf_tasks s ! k)\<lparr>ft_stage := st\<rparr> else pf_tasks s ! l)"
  by (simp add: set_stage_def nth_list_update)

lemma holds_set_stage:
  assumes "k < length (pf_tasks s)"
  shows "holds (set_stage k st s) = (holds s)(O_task k := (case st of Holding i \<Rightarrow> Some i | Filled i \<Rightarrow> Some i | _ \<Rightarrow> None))"
  using assms by (intro holds_eqI) (auto simp: set_stage_nth task_buffer_def split: fetch_stage.splits)

text \<open>Changing the stage of a fetch, with the pool and queue updates that go with it.\<close>

lemma fetch_inv_stage:
  assumes "fetch_inv s" "k < length (pf_tasks s)" "ft_stage (pf_tasks s ! k) \<noteq> Done \<or> st = Done"
  shows "fetch_inv (set_stage k st (s\<lparr>pf_pool := p, pf_filled := f\<rparr>))"
  using assms unfolding fetch_inv_def by (auto simp: set_stage_nth split: if_splits)

lemma filled_inv_stage:
  assumes "filled_inv s" "k < length (pf_tasks s)" "\<And>i. st = Filled i \<Longrightarrow> pf_filled s i = ft_sel (pf_tasks s ! k)"
  shows "filled_inv (set_stage k st (s\<lparr>pf_pool := p\<rparr>))"
  using assms unfolding filled_inv_def by (auto simp: set_stage_nth split: if_splits)

lemma filled_inv_stage_read:
  assumes "filled_inv (s\<lparr>pf_filled := g\<rparr>)" "k < length (pf_tasks s)" "\<And>i. st = Filled i \<Longrightarrow> g i = ft_sel (pf_tasks s ! k)"
  shows "filled_inv (set_stage k st (s\<lparr>pf_pool := p, pf_filled := g\<rparr>))"
  using assms unfolding filled_inv_def by (auto simp: set_stage_nth split: if_splits)

lemma holds_pool [simp]: "holds (s\<lparr>pf_pool := p\<rparr>) = holds s" "holds (s\<lparr>pf_filled := f\<rparr>) = holds s"
  by (intro holds_eqI; simp)+

lemma task_buffer_holds:
  assumes "k < length (pf_tasks s)" "ft_stage (pf_tasks s ! k) = st"
  shows "holds s (O_task k) = (case st of Holding i \<Rightarrow> Some i | Filled i \<Rightarrow> Some i | _ \<Rightarrow> None)"
  using assms by (auto simp: task_buffer_def)

lemma fetch_start_inv:
  assumes inv: "prefetch_inv s" and k: "k < length (pf_tasks s)" "ft_stage (pf_tasks s ! k) = Queued"
  shows "prefetch_inv (fetch_start k s)"
proof (cases "pq_cancelled (pf_queue s)")
  case False
  have h: "holds (set_stage k Begun s) = holds s"
    using task_buffer_holds [OF k] holds_set_stage [OF k(1), of Begun] by (simp add: fun_upd_idem)
  show ?thesis
    using False prefetch_invD [OF inv] h fetch_inv_stage [of s k Begun "pf_filled s" "pf_pool s"] filled_inv_stage [of s k Begun "pf_pool s"] k
    by (simp add: fetch_start_def prefetch_inv_def)
next
  case True
  define s1 where "s1 = s\<lparr>pf_queue := (pf_queue s)\<lparr>pq_pending := pq_pending (pf_queue s) - {ft_timestep (pf_tasks s ! k)}\<rparr>\<rparr>"
  have k1: "k < length (pf_tasks s1)" "ft_stage (pf_tasks s1 ! k) = Queued" using k by (simp_all add: s1_def)
  have "holds s1 = holds s" by (intro holds_eqI) (simp_all add: s1_def)
  then have "own_inv (pf_pool s1) (holds s1)" using prefetch_invD(1) [OF inv] by (simp add: s1_def)
  moreover have "holds (set_stage k Done s1) = holds s1"
    using task_buffer_holds [OF k1] holds_set_stage [OF k1(1), of Done] by (simp add: fun_upd_idem)
  moreover have "fetch_inv s1" "filled_inv s1"
    using prefetch_invD(2,3) [OF inv] True by (auto simp: s1_def fetch_inv_def filled_inv_def)
  ultimately show ?thesis
    using True fetch_inv_stage [of s1 k Done "pf_filled s1" "pf_pool s1"] filled_inv_stage [of s1 k Done "pf_pool s1"] k1
    by (simp add: fetch_start_def prefetch_inv_def s1_def [symmetric])
qed

lemma take_is_try: "take_buffer n p = Some r \<Longrightarrow> try_acquire n p = Some r"
  by (simp add: try_acquire_def)

lemma fetch_acquire_inv:
  assumes inv: "prefetch_inv s" and k: "k < length (pf_tasks s)" "ft_stage (pf_tasks s ! k) = Begun"
  shows "prefetch_inv (fetch_acquire timed_out k s)"
proof -
  let ?n = "acquire_bytes (pq_info (pf_queue s)) (ft_sel (pf_tasks s ! k)) (pf_pool s)"
  have free: "holds s (O_task k) = None" using task_buffer_holds [OF k] by simp
  note i = prefetch_invD [OF inv]
  have hold: "prefetch_inv (set_stage k (Holding buf) (s\<lparr>pf_pool := p\<rparr>))" if "try_acquire ?n (pf_pool s) = Some (buf, p)" for buf p
    using own_acquire [OF i(1) that free] fetch_inv_stage [OF i(2) k(1), of "Holding buf" "pf_filled s" p]
      filled_inv_stage [OF i(3) k(1), of "Holding buf" p] k holds_set_stage [of k "s\<lparr>pf_pool := p\<rparr>" "Holding buf"]
    by (simp add: prefetch_inv_def)
  have fail: "prefetch_inv (set_stage k (Failing e) s)" for e
    using i fetch_inv_stage [OF i(2) k(1), of "Failing e" "pf_filled s" "pf_pool s"] filled_inv_stage [OF i(3) k(1), of "Failing e" "pf_pool s"]
      k holds_set_stage [OF k(1), of "Failing e"] free
    by (simp add: prefetch_inv_def fun_upd_idem)
  show ?thesis
    using hold fail inv take_is_try [of ?n "pf_pool s"]
    by (cases timed_out) (auto simp: fetch_acquire_def Let_def split: option.splits)
qed

lemma fetch_read_inv:
  assumes inv: "prefetch_inv s" and k: "k < length (pf_tasks s)" "ft_stage (pf_tasks s ! k) = Holding buf"
  shows "prefetch_inv (fetch_read driver buf k s)"
proof -
  note i = prefetch_invD [OF inv]
  have own: "holds s (O_task k) = Some buf" using task_buffer_holds [OF k] by simp
  let ?f = "(pf_filled s)(buf := ft_sel (pf_tasks s ! k))"
  have f: "filled_inv (s\<lparr>pf_filled := ?f\<rparr>)"
    unfolding filled_inv_def
  proof (intro conjI allI impI)
    fix l j assume l: "l < length (pf_tasks (s\<lparr>pf_filled := ?f\<rparr>))" "ft_stage (pf_tasks (s\<lparr>pf_filled := ?f\<rparr>) ! l) = Filled j"
    then have "holds s (O_task l) = Some j" using task_buffer_holds [of l s "Filled j"] by simp
    then have "j \<noteq> buf" using own_invD(2) [OF i(1) own, of "O_task l"] l k by auto
    then show "pf_filled (s\<lparr>pf_filled := ?f\<rparr>) j = ft_sel (pf_tasks (s\<lparr>pf_filled := ?f\<rparr>) ! l)"
      using filled_invD(1) [OF i(3)] l by simp
  next
    fix t j assume t: "pq_completed (pf_queue (s\<lparr>pf_filled := ?f\<rparr>)) t = Some j"
    then have "j \<noteq> buf" using own_invD(2) [OF i(1) own, of "O_done t"] by auto
    then show "pf_filled (s\<lparr>pf_filled := ?f\<rparr>) j = pq_fetched_bbox (pf_queue (s\<lparr>pf_filled := ?f\<rparr>)) t"
      using filled_invD(2) [OF i(3)] t by simp
  qed
  have base: "fetch_inv (s\<lparr>pf_filled := g\<rparr>)" for g using i(2) by (simp add: fetch_inv_def)
  have done1: "prefetch_inv (set_stage k st (s\<lparr>pf_pool := p, pf_filled := g\<rparr>))"
    if "own_inv p ((holds s)(O_task k := (case st of Holding i \<Rightarrow> Some i | Filled i \<Rightarrow> Some i | _ \<Rightarrow> None)))"
      "filled_inv (s\<lparr>pf_filled := g\<rparr>)" "\<And>j. st = Filled j \<Longrightarrow> g j = ft_sel (pf_tasks s ! k)" "st \<noteq> Done" for st p g
    using that fetch_inv_stage [OF i(2) k(1), of st g p] filled_inv_stage_read [OF that(2) k(1) that(3)] k
      holds_set_stage [of k "s\<lparr>pf_pool := p, pf_filled := g\<rparr>" st]
    by (simp add: prefetch_inv_def)
  note rel = own_release [OF i(1) own] and used = own_used [OF i(1) own]
  have thrown: "prefetch_inv (set_stage k (Failing e) (s\<lparr>pf_pool := staging_release buf (pf_pool s)\<rparr>))" for e
    using done1 [where st = "Failing e" and p = "staging_release buf (pf_pool s)" and g = "pf_filled s"] rel i(3) by simp
  have late: "prefetch_inv (set_stage k (Failing e) (s\<lparr>pf_pool := staging_release buf (staging_step (Set_used buf n) (pf_pool s)), pf_filled := ?f\<rparr>))" for e n
    using own_release [OF used own] f by (intro done1) auto
  have full: "prefetch_inv (set_stage k (Filled buf) (s\<lparr>pf_pool := staging_step (Set_used buf n) (pf_pool s), pf_filled := ?f\<rparr>))" for n
    using used f own by (intro done1) (auto simp: fun_upd_idem)
  have swap: "s\<lparr>pf_pool := p, pf_filled := g, pf_pool := staging_release j (pf_pool (s\<lparr>pf_pool := p, pf_filled := g\<rparr>))\<rparr> =
      s\<lparr>pf_pool := staging_release j p, pf_filled := g\<rparr>" for p j g by simp
  show ?thesis using thrown late full by (auto simp only: fetch_read_def Let_def swap split: option.splits if_split)
qed

lemma fetch_inv_finish:
  assumes inv: "fetch_inv s" and k: "active s k" and q: "pq_cancelled q = pq_cancelled (pf_queue s)"
    "pq_pending q = pq_pending (pf_queue s) - {task_time s k}"
    "pq_completed q = pq_completed (pf_queue s) \<or> (\<exists>b. pq_completed q = (pq_completed (pf_queue s))(task_time s k \<mapsto> b))"
  shows "fetch_inv (set_stage k Done (s\<lparr>pf_queue := q\<rparr>))"
proof -
  have fin: "finite (dom (pq_completed q))" using q(3) fetch_invD(4) [OF inv] by auto
  have ne: "task_time s l \<noteq> task_time s k" if "active s l" "l \<noteq> k" for l
    using fetch_invD(1) [OF inv that(1) k] that(2) by blast
  have none: "pq_completed q (task_time s l) = None" if "active s l" "l \<noteq> k" for l
    using q(3) ne [OF that] fetch_invD(2) [OF inv that(1)] by auto
  have pend: "task_time s l \<in> pq_pending q" if "active s l" "l \<noteq> k" "\<not> pq_cancelled (pf_queue s)" for l
    unfolding q(2) using ne [OF that(1,2)] fetch_invD(3) [OF inv that(3,1)] by blast
  let ?s = "set_stage k Done (s\<lparr>pf_queue := q\<rparr>)"
  have act: "active s l \<and> l \<noteq> k" "task_time ?s l = task_time s l" if "active ?s l" for l
    using that k by (auto simp: set_stage_nth split: if_splits)
  show ?thesis
    unfolding fetch_inv_def
  proof (intro conjI allI impI)
    show "l = m" if "active ?s l" "active ?s m" "task_time ?s l = task_time ?s m" for l m
      using act [OF that(1)] act [OF that(2)] that(3) fetch_invD(1) [OF inv, of l m] by simp
    show "pq_completed (pf_queue ?s) (task_time ?s l) = None" if "active ?s l" for l
      using act [OF that] none [of l] by simp
    show "task_time ?s l \<in> pq_pending (pf_queue ?s)" if "\<not> pq_cancelled (pf_queue ?s)" "active ?s l" for l
      using act [OF that(2)] that(1) pend [of l] q(1) by simp
    show "finite (dom (pq_completed (pf_queue ?s)))" using fin by simp
  qed
qed

lemma holds_queue:
  "holds (s\<lparr>pf_queue := q\<rparr>) = (\<lambda>a. case a of O_done t \<Rightarrow> pq_completed q t | _ \<Rightarrow> holds s a)"
  by (intro holds_eqI) simp_all

lemma holds_queue_same: "pq_completed q = pq_completed (pf_queue s) \<Longrightarrow> holds (s\<lparr>pf_queue := q\<rparr>) = holds s"
  by (intro holds_eqI) simp_all

lemma fetch_finish_inv:
  assumes inv: "prefetch_inv s" and k: "k < length (pf_tasks s)"
  shows "prefetch_inv (fetch_finish k s)"
proof (cases "ft_stage (pf_tasks s ! k)")
  case (Failing e)
  let ?q = "mark_failed (task_time s k) e (pf_queue s)"
  have h: "holds (set_stage k Done (s\<lparr>pf_queue := ?q\<rparr>)) = holds s"
    using task_buffer_holds [OF k Failing] holds_set_stage [of k "s\<lparr>pf_queue := ?q\<rparr>" Done] k
    by (simp add: holds_queue_same mark_failed_def fun_upd_idem)
  have "fetch_inv (set_stage k Done (s\<lparr>pf_queue := ?q\<rparr>))"
    using fetch_inv_finish [OF prefetch_invD(2) [OF inv], of k ?q] k Failing by (simp add: mark_failed_def)
  moreover have "filled_inv (set_stage k Done (s\<lparr>pf_queue := ?q\<rparr>))"
    using prefetch_invD(3) [OF inv] k unfolding filled_inv_def by (auto simp: set_stage_nth mark_failed_def split: if_splits)
  ultimately show ?thesis using Failing prefetch_invD(1) [OF inv] h by (simp add: fetch_finish_def prefetch_inv_def Let_def)
next
  case (Filled buf)
  let ?t = "task_time s k"
  let ?q = "mark_complete ?t buf (ft_sel (pf_tasks s ! k)) (pf_queue s)"
  have act: "active s k" using k Filled by simp
  have own: "holds s (O_task k) = Some buf" using task_buffer_holds [OF k Filled] by simp
  have none: "holds s (O_done ?t) = None" using fetch_invD(2) [OF prefetch_invD(2) [OF inv] act] by simp
  have h: "holds (set_stage k Done (s\<lparr>pf_queue := ?q\<rparr>)) = (holds s)(O_task k := None, O_done ?t \<mapsto> buf)"
    using holds_set_stage [of k "s\<lparr>pf_queue := ?q\<rparr>" Done] k
    by (simp add: holds_queue mark_complete_def) (auto simp: fun_eq_iff split: owner.splits)
  have "fetch_inv (set_stage k Done (s\<lparr>pf_queue := ?q\<rparr>))"
    using fetch_inv_finish [OF prefetch_invD(2) [OF inv] act, of ?q] by (auto simp: mark_complete_def)
  moreover have "filled_inv (set_stage k Done (s\<lparr>pf_queue := ?q\<rparr>))"
    using prefetch_invD(3) [OF inv] k Filled unfolding filled_inv_def
    by (auto simp: set_stage_nth mark_complete_def split: if_splits)
  ultimately show ?thesis
    using Filled own_move [OF prefetch_invD(1) [OF inv] own none] h by (simp add: fetch_finish_def prefetch_inv_def Let_def)
qed (use inv in \<open>simp_all add: fetch_finish_def\<close>)

lemma fetch_stage_step_inv:
  assumes "prefetch_inv s"
  shows "prefetch_inv (fetch_stage_step driver timed_out k s)"
  using assms fetch_start_inv [OF assms] fetch_acquire_inv [OF assms] fetch_read_inv [OF assms] fetch_finish_inv [OF assms]
  by (auto simp: fetch_stage_step_def split: fetch_stage.splits)

lemma fetch_acquire_blocking_inv:
  assumes "prefetch_inv s"
  shows "prefetch_inv (fetch_acquire_blocking k s)"
proof -
  have len: "length (pf_tasks (fetch_acquire to k s)) = length (pf_tasks s)" for to
    by (simp add: fetch_acquire_def Let_def split: option.splits)
  show ?thesis
    using assms fetch_acquire_inv [OF assms, of k False] fetch_acquire_inv [of "fetch_acquire False k s" k True]
    by (auto simp: fetch_acquire_blocking_def Let_def len)
qed

lemma sync_fetch_inv: "prefetch_inv s \<Longrightarrow> prefetch_inv (sync_fetch driver k s)"
  unfolding sync_fetch_def by (intro fetch_stage_step_inv fetch_acquire_blocking_inv)

lemma prefetch_inv_queue:
  assumes "prefetch_inv s" "pq_completed q = pq_completed (pf_queue s)" "pq_fetched_bbox q = pq_fetched_bbox (pf_queue s)"
    "pq_pending (pf_queue s) \<subseteq> pq_pending q" "pq_cancelled q = pq_cancelled (pf_queue s)"
  shows "prefetch_inv (s\<lparr>pf_queue := q\<rparr>)"
  using assms holds_queue_same [of q s] unfolding prefetch_inv_def fetch_inv_def filled_inv_def by (auto; blast)

lemma prefetch_inv_task:
  assumes inv: "prefetch_inv s" and t: "\<And>k. active s k \<Longrightarrow> task_time s k \<noteq> t" "pq_completed (pf_queue s) t = None"
    "t \<in> pq_pending (pf_queue s)" and task: "ft_timestep task = t" "ft_stage task = Queued"
  shows "prefetch_inv (s\<lparr>pf_tasks := pf_tasks s @ [task]\<rparr>)"
proof -
  let ?s = "s\<lparr>pf_tasks := pf_tasks s @ [task]\<rparr>"
  have h: "holds ?s = holds s"
    using task(2) by (intro holds_eqI) (auto simp: nth_append task_buffer_def)
  have act: "active ?s k \<longleftrightarrow> active s k \<or> k = length (pf_tasks s)" for k
    using task(2) by (auto simp: nth_append)
  have time: "task_time ?s k = (if k = length (pf_tasks s) then t else task_time s k)" if "active ?s k" for k
    using task(1) that by (auto simp: nth_append)
  have "fetch_inv ?s"
    unfolding fetch_inv_def
  proof (intro conjI allI impI)
    show "k = l" if "active ?s k" "active ?s l" "task_time ?s k = task_time ?s l" for k l
      using that time [of k] time [of l] act [of k] act [of l] t(1) [of k] t(1) [of l] fetch_invD(1) [OF prefetch_invD(2) [OF inv], of k l]
      by (metis (lifting))
    show "pq_completed (pf_queue ?s) (task_time ?s k) = None" if "active ?s k" for k
      using time [OF that] act [of k] that t(2) fetch_invD(2) [OF prefetch_invD(2) [OF inv], of k] by auto
    show "task_time ?s k \<in> pq_pending (pf_queue ?s)" if "\<not> pq_cancelled (pf_queue ?s)" "active ?s k" for k
      using time [OF that(2)] act [of k] that t(3) fetch_invD(3) [OF prefetch_invD(2) [OF inv], of k] by auto
    show "finite (dom (pq_completed (pf_queue ?s)))" using fetch_invD(4) [OF prefetch_invD(2) [OF inv]] by simp
  qed
  moreover have "filled_inv ?s"
    using prefetch_invD(3) [OF inv] task(2) unfolding filled_inv_def by (auto simp: nth_append)
  ultimately show ?thesis using prefetch_invD(1) [OF inv] h by (simp add: prefetch_inv_def)
qed

lemma schedule_fetch_inv:
  assumes inv: "prefetch_inv s"
  shows "prefetch_inv (schedule_fetch driver t s)"
proof -
  let ?q = "pf_queue s"
  let ?s1 = "s\<lparr>pf_queue := ?q\<lparr>pq_pending := insert t (pq_pending ?q)\<rparr>\<rparr>"
  let ?task = "\<lparr>ft_timestep = t, ft_sel = pq_latched_bbox ?q, ft_stage = Queued\<rparr>"
  have one: "prefetch_inv ?s1" by (rule prefetch_inv_queue [OF inv]) auto
  have two: "prefetch_inv (?s1\<lparr>pf_tasks := pf_tasks s @ [?task]\<rparr>)"
    if "\<not> pq_cancelled ?q" "t \<notin> pq_pending ?q" "pq_completed ?q t = None"
    using prefetch_inv_task [OF one, of t ?task] that fetch_invD(3) [OF prefetch_invD(2) [OF inv] that(1)] by auto
  show ?thesis
    using inv one two sync_fetch_inv [OF two, of driver "length (pf_tasks s)"]
    by (simp add: schedule_fetch_def Let_def split: worker_mode.split)
qed

lemma own_release_done:
  assumes "own_inv p H" "distinct ts" "\<And>t. t \<in> set ts \<Longrightarrow> H (O_done t) = Some (f t)"
  shows "own_inv (fold staging_release (map f ts) p) (\<lambda>a. case a of O_done t \<Rightarrow> if t \<in> set ts then None else H a | _ \<Rightarrow> H a)"
  using assms
proof (induction ts arbitrary: p H)
  case Nil
  have "(\<lambda>a. case a of O_done t \<Rightarrow> if t \<in> set [] then None else H a | _ \<Rightarrow> H a) = H" by (auto simp: fun_eq_iff split: owner.splits)
  then show ?case using Nil.prems(1) by simp
next
  case (Cons t ts)
  have "own_inv (staging_release (f t) p) (H(O_done t := None))" using own_release [OF Cons.prems(1)] Cons.prems(3) by simp
  then have "own_inv (fold staging_release (map f ts) (staging_release (f t) p))
      (\<lambda>a. case a of O_done u \<Rightarrow> if u \<in> set ts then None else (H(O_done t := None)) a | _ \<Rightarrow> (H(O_done t := None)) a)"
    by (rule Cons.IH) (use Cons.prems(2,3) in auto)
  moreover have "(\<lambda>a. case a of O_done u \<Rightarrow> if u \<in> set ts then None else (H(O_done t := None)) a | _ \<Rightarrow> (H(O_done t := None)) a) =
      (\<lambda>a. case a of O_done u \<Rightarrow> if u \<in> set (t # ts) then None else H a | _ \<Rightarrow> H a)"
    by (auto simp: fun_eq_iff split: owner.splits)
  ultimately show ?case by (simp only: list.map fold_simps)
qed

lemma cancel_pending_inv:
  assumes inv: "prefetch_inv s"
  shows "prefetch_inv (cancel_pending s)"
proof -
  let ?c = "pq_completed (pf_queue s)"
  let ?ts = "sorted_list_of_set (dom ?c)"
  have ts: "distinct ?ts" "set ?ts = dom ?c" using fetch_invD(4) [OF prefetch_invD(2) [OF inv]] by simp_all
  have h: "holds (cancel_pending s) = (\<lambda>a. case a of O_done t \<Rightarrow> if t \<in> set ?ts then None else holds s a | _ \<Rightarrow> holds s a)"
    unfolding ts(2) by (intro holds_eqI) (simp_all add: cancel_pending_def Let_def domIff)
  have p: "pf_pool (cancel_pending s) = fold staging_release (map (\<lambda>t. the (?c t)) ?ts) (pf_pool s)"
    by (simp add: cancel_pending_def Let_def)
  have "own_inv (pf_pool (cancel_pending s)) (holds (cancel_pending s))"
    unfolding h p by (rule own_release_done [OF prefetch_invD(1) [OF inv] ts(1)]) (use ts(2) in auto)
  moreover have "fetch_inv (cancel_pending s)" "filled_inv (cancel_pending s)"
    using prefetch_invD(2,3) [OF inv] by (auto simp: fetch_inv_def filled_inv_def cancel_pending_def Let_def)
  ultimately show ?thesis by (simp add: prefetch_inv_def)
qed

lemma host_release_inv:
  assumes inv: "prefetch_inv s" and b: "buf \<in> pf_host s"
  shows "prefetch_inv (s\<lparr>pf_host := pf_host s - {buf}, pf_pool := staging_release buf (pf_pool s)\<rparr>)"
    (is "prefetch_inv ?s")
proof -
  have "holds ?s = (holds s)(O_host buf := None)" by (intro holds_eqI) auto
  then have "own_inv (pf_pool ?s) (holds ?s)" using own_release [OF prefetch_invD(1) [OF inv], of "O_host buf"] b by simp
  moreover have "fetch_inv ?s" "filled_inv ?s" using prefetch_invD(2,3) [OF inv] by (simp_all add: fetch_inv_def filled_inv_def)
  ultimately show ?thesis by (simp add: prefetch_inv_def)
qed

lemma prefetch_exec_inv: "prefetch_inv s \<Longrightarrow> prefetch_inv (prefetch_exec driver ev s)"
  by (cases ev) (simp_all add: prefetch_exec_def fetch_stage_step_inv schedule_fetch_inv host_release_inv cancel_pending_inv)

lemma prefetch_run_inv: "prefetch_inv s \<Longrightarrow> prefetch_inv (fold (prefetch_exec driver) evs s)"
  by (induction evs arbitrary: s) (simp_all add: prefetch_exec_inv)

lemma fetch_inv_forget:
  assumes "fetch_inv s"
  shows "fetch_inv (s\<lparr>pf_queue := (pf_queue s)\<lparr>pq_completed := (pq_completed (pf_queue s))(t := None)\<rparr>\<rparr>)"
proof -
  have "finite (dom ((pq_completed (pf_queue s))(t := None)))" using fetch_invD(4) [OF assms] by simp
  then show ?thesis using assms unfolding fetch_inv_def by simp
qed

lemma hand_out_inv:
  assumes inv: "prefetch_inv s" and t: "pq_completed (pf_queue s) t = Some buf"
  shows "prefetch_inv (hand_out t buf s)" "buf \<in> pf_host (hand_out t buf s)"
    "pf_filled (hand_out t buf s) buf = pq_fetched_bbox (pf_queue s) t"
proof -
  have d: "holds s (O_done t) = Some buf" using t by simp
  have "holds s (O_host buf) = None" using own_invD(2) [OF prefetch_invD(1) [OF inv] d, of "O_host buf"] by auto
  then have "own_inv (pf_pool s) ((holds s)(O_done t := None, O_host buf \<mapsto> buf))"
    using own_move [OF prefetch_invD(1) [OF inv] d] by blast
  moreover have "holds (hand_out t buf s) = (holds s)(O_done t := None, O_host buf \<mapsto> buf)"
    by (intro holds_eqI) (auto simp: hand_out_def)
  moreover have "fetch_inv (hand_out t buf s)"
    using fetch_inv_forget [OF prefetch_invD(2) [OF inv], of t] by (simp add: hand_out_def fetch_inv_def)
  moreover have "filled_inv (hand_out t buf s)"
    using prefetch_invD(3) [OF inv] by (auto simp: hand_out_def filled_inv_def)
  ultimately show "prefetch_inv (hand_out t buf s)" by (simp add: prefetch_inv_def hand_out_def)
  show "buf \<in> pf_host (hand_out t buf s)" by (simp add: hand_out_def)
  show "pf_filled (hand_out t buf s) buf = pq_fetched_bbox (pf_queue s) t"
    using filled_invD(2) [OF prefetch_invD(3) [OF inv] t] by (simp add: hand_out_def)
qed

lemma forget_bbox_inv:
  assumes inv: "prefetch_inv s" and t: "pq_completed (pf_queue s) t = None"
  shows "prefetch_inv (forget_bbox t s)"
proof -
  have "holds (forget_bbox t s) = holds s" by (intro holds_eqI) (simp_all add: forget_bbox_def)
  then show ?thesis
    using inv t unfolding prefetch_inv_def fetch_inv_def filled_inv_def by (auto simp: forget_bbox_def)
qed

lemma drop_stale_inv:
  assumes inv: "prefetch_inv s" and t: "pq_completed (pf_queue s) t = Some buf"
  shows "prefetch_inv (drop_stale t buf s)"
proof -
  let ?s = "s\<lparr>pf_pool := staging_release buf (pf_pool s), pf_queue := (pf_queue s)\<lparr>pq_completed := (pq_completed (pf_queue s))(t := None)\<rparr>\<rparr>"
  have "holds ?s = (holds s)(O_done t := None)" by (intro holds_eqI) auto
  then have "own_inv (pf_pool ?s) (holds ?s)" using own_release [OF prefetch_invD(1) [OF inv], of "O_done t" buf] t by simp
  moreover have "fetch_inv ?s" using fetch_inv_forget [OF prefetch_invD(2) [OF inv], of t] by (simp add: fetch_inv_def)
  moreover have "filled_inv ?s" using prefetch_invD(3) [OF inv] by (auto simp: filled_inv_def)
  ultimately have "prefetch_inv ?s" by (simp add: prefetch_inv_def)
  then show ?thesis unfolding drop_stale_def by (rule forget_bbox_inv) simp
qed

lemma forget_failure_inv: "prefetch_inv s \<Longrightarrow> prefetch_inv (forget_failure t s)"
  unfolding forget_failure_def by (rule prefetch_inv_queue) auto

lemma unlocked_schedule_inv:
  assumes "unlocked_schedule driver t gaps s = (gaps', s')" "prefetch_inv s"
  shows "prefetch_inv s'"
  using assms by (auto simp: unlocked_schedule_def prefetch_run_inv schedule_fetch_inv split: prod.splits)

text \<open>What a read promises of its result: a returned buffer belongs to the host and holds the requested selection.\<close>

definition read_result_ok :: "bool \<Rightarrow> amio_bbox option \<Rightarrow> get_result \<Rightarrow> bool" where
  "read_result_ok checked req r = (case r of ((err, b), s') \<Rightarrow> prefetch_inv s' \<and>
     (case b of Some buf \<Rightarrow> err = AMIO_OK \<and> buf \<in> pf_host s' \<and> (checked \<longrightarrow> bbox_same (pf_filled s' buf) req) | None \<Rightarrow> True))"

lemma read_result_error: "prefetch_inv s \<Longrightarrow> read_result_ok c req ((err, None), s)"
  by (simp add: read_result_ok_def)

lemma matching_result:
  assumes "prefetch_inv s" "pq_completed (pf_queue s) t = Some buf" "bbox_same (pq_fetched_bbox (pf_queue s) t) req"
  shows "read_result_ok c req ((AMIO_OK, Some buf), forget_bbox t (hand_out t buf s))"
proof -
  have "prefetch_inv (forget_bbox t (hand_out t buf s))"
    using forget_bbox_inv [OF hand_out_inv(1) [OF assms(1,2)], of t] by (simp add: hand_out_def)
  then show ?thesis
    using hand_out_inv(2,3) [OF assms(1,2)] assms(3) by (simp add: read_result_ok_def forget_bbox_def)
qed

lemma wait_check_ok:
  assumes inv: "prefetch_inv s"
  shows "wait_check driver t req gaps s = Inl r \<Longrightarrow> read_result_ok c req r"
    and "wait_check driver t req gaps s = Inr (gaps', s') \<Longrightarrow> prefetch_inv s'"
proof -
  have drop: "prefetch_inv s1" if "pq_completed (pf_queue s) t = Some buf" "unlocked_schedule driver t gaps (drop_stale t buf s) = (g, s1)" for buf g s1
    using unlocked_schedule_inv [OF that(2) drop_stale_inv [OF inv that(1)]] .
  show "wait_check driver t req gaps s = Inl r \<Longrightarrow> read_result_ok c req r"
    using inv drop matching_result [OF inv, of t _ req c]
    by (auto simp: wait_check_def Let_def read_result_error forget_failure_inv split: option.splits if_splits prod.splits)
  show "wait_check driver t req gaps s = Inr (gaps', s') \<Longrightarrow> prefetch_inv s'"
    using inv drop by (auto simp: wait_check_def Let_def split: option.splits if_splits prod.splits)
qed

lemma get_wait_ok:
  assumes "prefetch_inv s" "get_wait driver t req gaps s = Some r" "c \<longrightarrow> Timed_out \<notin> snd ` set gaps"
  shows "read_result_ok c req r"
  using assms
proof (induction driver t req gaps s rule: get_wait.induct)
  case (1 driver t req gaps s)
  show ?case
  proof (cases "wait_check driver t req gaps s")
    case (Inl r')
    then show ?thesis using wait_check_ok(1) [OF 1(2) Inl] 1(3) by (simp add: get_wait.simps)
  next
    case (Inr gs)
    then obtain gaps' s' where w: "wait_check driver t req gaps s = Inr (gaps', s')" by (cases gs) auto
    then obtain evs status rest where g: "gaps' = (evs, status) # rest" using 1(3) by (cases gaps') (auto simp: get_wait.simps)
    have sub: "set gaps' \<subseteq> set gaps" using wait_check_subset [OF w] .
    define s1 where "s1 = fold (prefetch_exec driver) evs s'"
    have inv: "prefetch_inv s1" using prefetch_run_inv [OF wait_check_ok(2) [OF 1(2) w]] by (simp add: s1_def)
    show ?thesis
    proof (cases "status = Timed_out")
      case False
      then have "get_wait driver t req rest s1 = Some r" using 1(3) w g by (subst (asm) get_wait.simps) (simp add: s1_def Let_def)
      moreover have "c \<longrightarrow> Timed_out \<notin> snd ` set rest" using 1(4) sub g by auto
      ultimately show ?thesis using 1(1) [OF w refl g refl s1_def False inv] by blast
    next
      case True
      then have "\<not> c" using 1(4) sub g by force
      then show ?thesis
        using 1(3) w g True inv hand_out_inv(1,2) [OF inv, of t] forget_failure_inv [OF inv, of t]
        by (subst (asm) get_wait.simps) (auto simp: s1_def [symmetric] Let_def read_result_ok_def split: option.splits)
    qed
  qed
qed

lemma kick_off_inv: "prefetch_inv s \<Longrightarrow> prefetch_inv (snd (kick_off driver ts gaps s))"
  by (induction driver ts gaps s rule: kick_off.induct) (auto simp: prefetch_run_inv schedule_fetch_inv split: prod.splits)

lemma kick_off_subset: "set (fst (kick_off driver ts gaps s)) \<subseteq> set gaps"
  by (induction driver ts gaps s rule: kick_off.induct) (fastforce split: prod.splits dest!: next_gap_subset)+

lemma get_ready_ok:
  assumes inv: "prefetch_inv s" and get: "get_ready driver t req gaps s = Some r" and c: "c \<longrightarrow> Timed_out \<notin> snd ` set gaps"
  shows "read_result_ok c req r"
proof -
  have "read_result_ok c req r" if e: "ensure_fetch driver t req gaps s' = Some r" and i': "prefetch_inv s'" for s'
  proof (cases "t \<in> pq_pending (pf_queue s')")
    case True
    then have "get_wait driver t req gaps s' = Some r" using e by (simp add: ensure_fetch_def)
    then show ?thesis using get_wait_ok [OF i'] c by blast
  next
    case False
    obtain g' u where u: "unlocked_schedule driver t gaps s' = (g', u)" by fastforce
    then have "get_wait driver t req g' u = Some r" using e False by (simp add: ensure_fetch_def)
    then show ?thesis using get_wait_ok [OF unlocked_schedule_inv [OF u i']] unlocked_schedule_subset [OF u] c by blast
  qed
  then show ?thesis
    using get inv drop_stale_inv [OF inv] matching_result [OF inv] read_result_error [OF forget_failure_inv [OF inv]]
    by (auto simp: get_ready_def split: option.splits if_splits)
qed

lemma get_buffer_ok:
  assumes inv: "prefetch_inv s" and get: "get_buffer driver t req gaps s = Some r" and c: "c \<longrightarrow> Timed_out \<notin> snd ` set gaps"
  shows "read_result_ok c req r"
proof -
  let ?q = "(pf_queue s)\<lparr>pq_latched_bbox := req\<rparr>"
  let ?ts = "map (\<lambda>k. t + int k) [0..<nat (min (int (pq_depth ?q)) (pq_total_timesteps ?q - t))]"
  let ?s = "s\<lparr>pf_queue := ?q\<lparr>pq_kicked_off := True\<rparr>\<rparr>"
  have start: "prefetch_inv (s\<lparr>pf_queue := ?q\<rparr>)" "prefetch_inv ?s" by (rule prefetch_inv_queue [OF inv]; simp)+
  obtain g u where g: "kick_off driver ?ts gaps ?s = (g, u)" by fastforce
  show ?thesis
  proof (cases "pq_kicked_off (pf_queue s)")
    case True
    then show ?thesis using get_ready_ok [OF start(1) _ c, of driver t req r] get by (simp add: get_buffer_def Let_def)
  next
    case False
    have "prefetch_inv u" "set g \<subseteq> set gaps"
      using kick_off_inv [OF start(2), of driver ?ts gaps] kick_off_subset [of driver ?ts gaps ?s] unfolding g by simp_all
    moreover have "get_ready driver t req g u = Some r" using get False g by (simp add: get_buffer_def Let_def)
    ultimately show ?thesis using get_ready_ok c by blast
  qed
qed

section \<open>Reachable states\<close>

definition prefetch_start :: "PrefetchQueue \<Rightarrow> StagingPool \<Rightarrow> worker_mode \<Rightarrow> prefetch_system" where
  "prefetch_start q p w = \<lparr>pf_queue = q, pf_pool = p, pf_tasks = [], pf_workers = w, pf_host = {}, pf_filled = (\<lambda>_. None)\<rparr>"

inductive prefetch_reachable :: "driver_read option \<Rightarrow> prefetch_system \<Rightarrow> prefetch_system \<Rightarrow> bool"
  for driver s0 where
  start: "prefetch_reachable driver s0 s0"
| event: "prefetch_reachable driver s0 s \<Longrightarrow> prefetch_reachable driver s0 (prefetch_exec driver ev s)"
| read: "prefetch_reachable driver s0 s \<Longrightarrow> get_buffer driver t bbox gaps s = Some (r, s') \<Longrightarrow> prefetch_reachable driver s0 s'"
| initial: "prefetch_reachable driver s0 s \<Longrightarrow> prefetch_reachable driver s0 (schedule_initial driver s)"
| next_step: "prefetch_reachable driver s0 s \<Longrightarrow> prefetch_reachable driver s0 (schedule_next driver t s)"

inductive_cases prefetch_reachableE: "prefetch_reachable driver s0 s"

lemma schedule_all_inv: "prefetch_inv s \<Longrightarrow> prefetch_inv (fold (\<lambda>t. schedule_fetch driver (f t)) ts s)"
  by (induction ts arbitrary: s) (simp_all add: schedule_fetch_inv)

lemma schedule_initial_inv:
  assumes "prefetch_inv s"
  shows "prefetch_inv (schedule_initial driver s)"
  unfolding schedule_initial_def Let_def by (intro schedule_all_inv prefetch_inv_queue [OF assms]) simp_all

lemma schedule_next_inv: "prefetch_inv s \<Longrightarrow> prefetch_inv (schedule_next driver t s)"
  by (simp add: schedule_next_def Let_def schedule_fetch_inv)

lemma prefetch_start_inv:
  assumes "staging_inv p" "\<forall>i<length (sp_buffers p). slot_ref p i = 0"
  shows "prefetch_inv (prefetch_start (mk_prefetch_queue d r ds v info n) p w)"
proof -
  have "holds (prefetch_start (mk_prefetch_queue d r ds v info n) p w) = Map.empty"
    by (intro holds_eqI) (simp_all add: prefetch_start_def mk_prefetch_queue_def Let_def)
  then show ?thesis
    using assms
    by (simp add: prefetch_inv_def own_inv_def fetch_inv_def filled_inv_def prefetch_start_def mk_prefetch_queue_def Let_def)
qed

lemma prefetch_reachable_inv:
  assumes "prefetch_reachable driver s0 s" "prefetch_inv s0"
  shows "prefetch_inv s"
  using assms
proof (induction rule: prefetch_reachable.induct)
  case (read s t bbox gaps r s')
  then have "read_result_ok False bbox (r, s')" using get_buffer_ok [of s driver t bbox gaps "(r, s')" False] by simp
  then show ?case by (cases r) (simp add: read_result_ok_def)
qed (simp_all add: prefetch_exec_inv schedule_initial_inv schedule_next_inv)

lemma mk_staging_pool_free:
  "\<forall>i<length (sp_buffers (mk_staging_pool std_sort n c t m mode)). slot_ref (mk_staging_pool std_sort n c t m mode) i = 0"
  by (simp add: mk_staging_pool_def Let_def fresh_buffer_def)

abbreviation new_prefetch ::
  "((nat \<Rightarrow> nat) \<Rightarrow> nat list \<Rightarrow> nat list) \<Rightarrow> nat \<Rightarrow> nat \<Rightarrow> int \<Rightarrow> nat \<Rightarrow> GrowMode \<Rightarrow> nat \<Rightarrow> int \<Rightarrow> nat \<Rightarrow> string \<Rightarrow> VariableInfo \<Rightarrow>
     int \<Rightarrow> worker_mode \<Rightarrow> prefetch_system" where
  "new_prefetch std_sort n cap ms m mode depth rt ds v info steps w \<equiv>
     prefetch_start (mk_prefetch_queue depth rt ds v info steps) (mk_staging_pool std_sort n cap ms m mode) w"

lemma new_prefetch_inv:
  assumes "sorts std_sort" "n \<le> m"
  shows "prefetch_inv (new_prefetch std_sort n cap ms m mode depth rt ds v info steps w)"
  by (rule prefetch_start_inv [OF mk_staging_pool_inv [OF assms] mk_staging_pool_free])

lemma own_count:
  assumes "own_inv p H" "i < length (sp_buffers p)"
  shows "slot_ref p i = int (card {a. H a = Some i}) \<and> card {a. H a = Some i} \<le> 1"
proof (cases "i \<in> ran H")
  case True
  then obtain a where a: "H a = Some i" by (auto simp: ran_def)
  then have "{b. H b = Some i} = {a}" using own_invD(2) [OF assms(1) a] by blast
  then show ?thesis using own_invD(4) [OF assms(1) a] by simp
next
  case False
  then have "{b. H b = Some i} = {}" by (auto simp: ran_def)
  then show ?thesis using own_invD(5) [OF assms False] by simp
qed

text \<open>
  C12. No staging buffer is leaked, shared or released twice by the prefetch pipeline: in every state that
  fetches in any interleaving, reads with any interference while they wait, host releases and cancellation
  can reach from a new queue and pool, the reference count of a slot is the number of its owners
  (a fetch that fills it, a completed timestep, the host), and that number is at most one.
\<close>

theorem prefetch_ownership:
  assumes "sorts std_sort" "n \<le> m"
    and "prefetch_reachable driver (new_prefetch std_sort n cap ms m mode depth rt ds v info steps w) s"
    and "i < total_buffer_count (pf_pool s)"
  shows "slot_ref (pf_pool s) i = int (card {a. holds s a = Some i}) \<and> card {a. holds s a = Some i} \<le> 1"
  using own_count prefetch_invD(1) [OF prefetch_reachable_inv [OF assms(3) new_prefetch_inv [OF assms(1,2)]]] assms(4)
  by (simp add: total_buffer_count_def)

text \<open>
  C13. A read that does not run into its deadline never hands the host data for another selection: in every reachable state,
  whatever other threads do while the read has released the lock, a buffer it
  returns comes with \<open>AMIO_OK\<close>, has become the host's, was last filled by a fetch of a selection equal
  to the requested one, and has the host as its only owner.
\<close>

theorem get_buffer_matches_selection:
  assumes "sorts std_sort" "n \<le> m"
    and "prefetch_reachable driver (new_prefetch std_sort n cap ms m mode depth rt ds v info steps w) s"
    and "get_buffer driver t bbox gaps s = Some ((err, Some buf), s')" and "Timed_out \<notin> snd ` set gaps"
  shows "err = AMIO_OK \<and> buf \<in> pf_host s' \<and> bbox_same (pf_filled s' buf) bbox \<and> {a. holds s' a = Some buf} = {O_host buf}"
proof -
  have "read_result_ok True bbox ((err, Some buf), s')"
    using get_buffer_ok [OF prefetch_reachable_inv [OF assms(3) new_prefetch_inv [OF assms(1,2)]] assms(4)] assms(5) by simp
  then have r: "prefetch_inv s'" "err = AMIO_OK" "buf \<in> pf_host s'" "bbox_same (pf_filled s' buf) bbox"
    by (simp_all add: read_result_ok_def)
  then have "holds s' (O_host buf) = Some buf" by simp
  then show ?thesis using r own_invD(2) [OF prefetch_invD(1) [OF r(1)]] by blast
qed

section \<open>Reading without workers\<close>

lemma bbox_same_refl [simp]: "bbox_same b b"
  by (cases b) simp_all













section \<open>Witnesses\<close>

definition demo_info :: VariableInfo where
  "demo_info = \<lparr>vi_found = True, vi_dtype = AMIO_DTYPE_F32, vi_shape = \<lparr>sh_rank = 1, sh_extents = [2], sh_strides = [1]\<rparr>, vi_total_timesteps = 4\<rparr>"

definition demo_driver :: "driver_read option" where
  "demo_driver = Some (\<lambda>meta bbox b. if vm_timestep meta = 3 then None else Some 4)"

definition demo_box :: amio_bbox where
  "demo_box = \<lparr>bb_rank = 1, bb_offsets = [1], bb_extents = [1], bb_strides = [1]\<rparr>"

abbreviation demo_system :: "worker_mode \<Rightarrow> prefetch_system" where
  "demo_system \<equiv> new_prefetch sort_key 2 8 100 2 Bounded 1 10 0 ''T'' demo_info 4"

definition demo_gaps :: "cv_status \<Rightarrow> gaps" where
  "demo_gaps status = [([], No_timeout), ([], No_timeout), (replicate 4 (Ev_stage False 0), status), ([], No_timeout),
     (replicate 4 (Ev_stage False 1), No_timeout), ([], No_timeout)]"

definition demo_read :: "cv_status \<Rightarrow> get_result" where
  "demo_read status = the (get_buffer demo_driver 1 (Some demo_box) (demo_gaps status) (prefetch_exec demo_driver (Ev_schedule 1) (demo_system Workers_running)))"

lemma demo_get:
  assumes "map_option fst (get_buffer demo_driver 1 (Some demo_box) (demo_gaps status) (prefetch_exec demo_driver (Ev_schedule 1) (demo_system Workers_running))) = Some r"
  shows "get_buffer demo_driver 1 (Some demo_box) (demo_gaps status) (prefetch_exec demo_driver (Ev_schedule 1) (demo_system Workers_running)) = Some (r, snd (demo_read status))"
  using assms by (cases "get_buffer demo_driver 1 (Some demo_box) (demo_gaps status) (prefetch_exec demo_driver (Ev_schedule 1) (demo_system Workers_running))") (auto simp: demo_read_def)

lemmas demo_reach = prefetch_reachable.event [OF prefetch_reachable.start, of demo_driver "demo_system Workers_running" "Ev_schedule 1"]

lemma demo_read_result:
  "get_buffer demo_driver 1 (Some demo_box) (demo_gaps No_timeout) (prefetch_exec demo_driver (Ev_schedule 1) (demo_system Workers_running)) =
     Some ((AMIO_OK, Some 0), snd (demo_read No_timeout))"
  by (rule demo_get) code_simp

theorem prefetch_ownership_witness:
  "slot_ref (pf_pool (snd (demo_read No_timeout))) 0 = 1 \<and> card {a. holds (snd (demo_read No_timeout)) a = Some 0} = 1"
proof -
  have "prefetch_reachable demo_driver (demo_system Workers_running) (snd (demo_read No_timeout))"
    by (rule prefetch_reachable.read [OF demo_reach demo_read_result])
  moreover have "0 < total_buffer_count (pf_pool (snd (demo_read No_timeout)))" "slot_ref (pf_pool (snd (demo_read No_timeout))) 0 = 1"
    by code_simp+
  ultimately show ?thesis using prefetch_ownership [OF sort_key_sorts] by fastforce
qed

theorem get_buffer_matches_selection_witness:
  "bbox_same (pf_filled (snd (demo_read No_timeout)) 0) (Some demo_box)"
proof -
  have "Timed_out \<notin> snd ` set (demo_gaps No_timeout)" by code_simp
  then show ?thesis using get_buffer_matches_selection [OF sort_key_sorts _ demo_reach demo_read_result] by simp
qed


text \<open>
  The check made when the wait has timed out looks for the timestep only: a fetch of another selection that
  completes at that moment is handed out although the read asked for \<open>demo_box\<close>.
\<close>

lemma timeout_returns_other_selection:
  "\<exists>s'. get_buffer demo_driver 1 (Some demo_box) (demo_gaps Timed_out) (prefetch_exec demo_driver (Ev_schedule 1) (demo_system Workers_running)) =
     Some ((AMIO_OK, Some 0), s') \<and> \<not> bbox_same (pf_filled s' 0) (Some demo_box)"
proof -
  have "get_buffer demo_driver 1 (Some demo_box) (demo_gaps Timed_out) (prefetch_exec demo_driver (Ev_schedule 1) (demo_system Workers_running)) =
      Some ((AMIO_OK, Some 0), snd (demo_read Timed_out))" by (rule demo_get) code_simp
  moreover have "\<not> bbox_same (pf_filled (snd (demo_read Timed_out)) 0) (Some demo_box)" by code_simp
  ultimately show ?thesis by blast
qed

text \<open>
  A worker that has passed its cancellation check completes its fetch after the queue was cancelled; the
  completed entry keeps its buffer, since cancellation has already walked over the completed timesteps.
\<close>

lemma completed_after_cancel:
  "pq_cancelled (pf_queue (fold (prefetch_exec demo_driver) [Ev_schedule 1, Ev_stage False 0, Ev_cancel, Ev_stage False 0, Ev_stage False 0, Ev_stage False 0]
      (demo_system Workers_running))) \<and>
   slot_ref (pf_pool (fold (prefetch_exec demo_driver) [Ev_schedule 1, Ev_stage False 0, Ev_cancel, Ev_stage False 0, Ev_stage False 0, Ev_stage False 0]
      (demo_system Workers_running))) 0 = 1"
proof -
  let ?s = "fold (prefetch_exec demo_driver) [Ev_schedule 1, Ev_stage False 0] (demo_system Workers_running)"
  have none: "pq_completed (pf_queue ?s) = Map.empty"
    by (simp add: prefetch_exec_def schedule_fetch_def fetch_stage_step_def fetch_start_def set_stage_def prefetch_start_def mk_prefetch_queue_def Let_def)
  have "cancel_pending ?s = ?s\<lparr>pf_queue := (pf_queue ?s)\<lparr>pq_cancelled := True, pq_pending := {}, pq_completed := Map.empty,
      pq_fetched_bbox := Map.empty, pq_failed := Map.empty\<rparr>\<rparr>"
    unfolding cancel_pending_def Let_def none by simp
  moreover have "pq_cancelled (pf_queue (fold (prefetch_exec demo_driver) [Ev_stage False 0, Ev_stage False 0, Ev_stage False 0] (?s\<lparr>pf_queue := (pf_queue ?s)\<lparr>pq_cancelled := True, pq_pending := {}, pq_completed := Map.empty,
      pq_fetched_bbox := Map.empty, pq_failed := Map.empty\<rparr>\<rparr>))) \<and>
    slot_ref (pf_pool (fold (prefetch_exec demo_driver) [Ev_stage False 0, Ev_stage False 0, Ev_stage False 0] (?s\<lparr>pf_queue := (pf_queue ?s)\<lparr>pq_cancelled := True, pq_pending := {}, pq_completed := Map.empty,
      pq_fetched_bbox := Map.empty, pq_failed := Map.empty\<rparr>\<rparr>))) 0 = 1"
    by code_simp
  ultimately show ?thesis by (simp add: prefetch_exec_def [of _ Ev_cancel])
qed

end
