(* ===== verification/Amio_Exceptions.thy ===== *)
theory Amio_Exceptions
  imports "HOL-Library.AList" Amio_Handle_Table Conf_Yaml Helm_Decimal
begin

text \<open>
  What stands between AMIO's worker threads and the C interface: the descriptions of the status
  codes (\<^verbatim>\<open>amio_strerror.cpp\<close>), the exception cordon and the registry of task outcomes
  (\<^verbatim>\<open>exception_bridge.cpp\<close>), and the split of the communicator into I/O and compute ranks
  (\<^verbatim>\<open>comm_split.cpp\<close>).

  A callback's run is its result: \<open>None\<close> when it returns, the exception otherwise. The registry's
  hash table is an association list with distinct keys. The time stamp of a diagnostic, the macro
  \<^verbatim>\<open>AMIO_HAS_MPI\<close> and the result of \<^verbatim>\<open>halo::Communicator::split\<close> are arguments.
\<close>

section \<open>Status codes\<close>

fun amio_err_value :: "amio_err \<Rightarrow> int" where
  "amio_err_value AMIO_OK = 0"
| "amio_err_value AMIO_ERR_NULL_HANDLE = 1"
| "amio_err_value AMIO_ERR_INVALID_HANDLE = 2"
| "amio_err_value AMIO_ERR_MANIFEST_NOT_FOUND = 3"
| "amio_err_value AMIO_ERR_MANIFEST_INVALID = 4"
| "amio_err_value AMIO_ERR_ALREADY_INITIALIZED = 5"
| "amio_err_value AMIO_ERR_FINALIZE_TIMEOUT = 6"
| "amio_err_value AMIO_ERR_STAGING_BACKPRESSURE = 7"
| "amio_err_value AMIO_ERR_INVALID_BINDING = 8"
| "amio_err_value AMIO_ERR_COMM_SPLIT_FAILED = 9"
| "amio_err_value AMIO_ERR_THREADING_UNSUPPORTED = 10"
| "amio_err_value AMIO_ERR_UNKNOWN_BACKEND = 11"
| "amio_err_value AMIO_ERR_LOSSY_CODEC_FORBIDDEN = 12"
| "amio_err_value AMIO_ERR_VIEWS_OUTSTANDING = 13"
| "amio_err_value AMIO_ERR_QUEUE_FULL = 14"
| "amio_err_value AMIO_ERR_TIMEOUT = 15"
| "amio_err_value AMIO_ERR_BACKEND_FAILURE = 16"
| "amio_err_value AMIO_ERR_INVALID_INPUT = 17"

definition kAmioErrorTable :: "string list" where
  "kAmioErrorTable =
    [''AMIO_OK: success'',
     ''AMIO_ERR_NULL_HANDLE: null opaque handle'',
     ''AMIO_ERR_INVALID_HANDLE: handle never initialized, finalized, released, or stale (generation mismatch)'',
     ''AMIO_ERR_MANIFEST_NOT_FOUND: manifest path missing or unreadable'',
     ''AMIO_ERR_MANIFEST_INVALID: manifest failed schema validation'',
     ''AMIO_ERR_ALREADY_INITIALIZED: amio_init invoked twice on the same handle'',
     ''AMIO_ERR_FINALIZE_TIMEOUT: finalize drain phase exceeded its 30-second bound'',
     ''AMIO_ERR_STAGING_BACKPRESSURE: no staging buffer became available within the configured staging timeout'',
     ''AMIO_ERR_INVALID_BINDING: requested CPU core or NUMA domain is not present or not permitted'',
     ''AMIO_ERR_COMM_SPLIT_FAILED: MPI communicator split failed or I/O rank set is not a subset of world'',
     ''AMIO_ERR_THREADING_UNSUPPORTED: host did not initialize MPI with at least MPI_THREAD_MULTIPLE'',
     ''AMIO_ERR_UNKNOWN_BACKEND: configuration backend key does not match any registered driver'',
     ''AMIO_ERR_LOSSY_CODEC_FORBIDDEN: requested codec is not on the lossless allow-list'',
     ''AMIO_ERR_VIEWS_OUTSTANDING: dataset close called while one or more Memory_Views are still outstanding'',
     ''AMIO_ERR_QUEUE_FULL: worker queue depth would exceed capacity and backpressure is not configured'',
     ''AMIO_ERR_TIMEOUT: synchronous wait, flush, or read exceeded its configured timeout'',
     ''AMIO_ERR_BACKEND_FAILURE: backend driver reported a serialization or deserialization failure'',
     ''AMIO_ERR_INVALID_INPUT: null host pointer, unsupported dtype, or invalid shape descriptor'']"

definition kUnknownBufferBytes :: nat where
  "kUnknownBufferBytes = 64"

definition snprintf_unknown :: "int \<Rightarrow> string" where
  "snprintf_unknown err = take (kUnknownBufferBytes - 1) (''AMIO_ERR_UNKNOWN('' @ dec_int err @ '')'')"

definition amio_strerror :: "int \<Rightarrow> string" where
  "amio_strerror err =
     (if err \<ge> 0 \<and> nat err < length kAmioErrorTable then kAmioErrorTable ! nat err else snprintf_unknown err)"

section \<open>Exceptions and diagnostics\<close>

datatype cxx_exception = Ex_conf Conf_Error | Ex_invalid_argument string | Ex_std string | Ex_other

fun translate_exception_to_error :: "cxx_exception \<Rightarrow> amio_err \<times> string" where
  "translate_exception_to_error (Ex_conf e) =
     ((case ce_code e of
         File_Not_Found \<Rightarrow> AMIO_ERR_MANIFEST_NOT_FOUND
       | Parse_Error \<Rightarrow> AMIO_ERR_MANIFEST_INVALID
       | Key_Not_Found \<Rightarrow> AMIO_ERR_MANIFEST_INVALID
       | Type_Mismatch \<Rightarrow> AMIO_ERR_INVALID_INPUT
       | Invalid_Arg \<Rightarrow> AMIO_ERR_INVALID_INPUT
       | _ \<Rightarrow> AMIO_ERR_BACKEND_FAILURE), ce_what e)"
| "translate_exception_to_error (Ex_invalid_argument what) = (AMIO_ERR_INVALID_INPUT, what)"
| "translate_exception_to_error (Ex_std what) = (AMIO_ERR_BACKEND_FAILURE, what)"
| "translate_exception_to_error Ex_other = (AMIO_ERR_BACKEND_FAILURE, ''Unknown exception (non-std)'')"

definition is_unrecoverable :: "amio_err \<Rightarrow> bool" where
  "is_unrecoverable error_code \<longleftrightarrow>
     error_code \<in> {AMIO_ERR_COMM_SPLIT_FAILED, AMIO_ERR_THREADING_UNSUPPORTED, AMIO_ERR_FINALIZE_TIMEOUT}"

record IOCommunicator =
  ic_valid :: bool
  ic_is_io_rank :: bool
  ic_comm :: "(int \<times> int) option"

definition ic_rank :: "IOCommunicator \<Rightarrow> int" where
  "ic_rank c = (case ic_comm c of Some (r, n) \<Rightarrow> r | None \<Rightarrow> 0)"

definition ic_size :: "IOCommunicator \<Rightarrow> int" where
  "ic_size c = (case ic_comm c of Some (r, n) \<Rightarrow> n | None \<Rightarrow> 1)"

datatype diagnostic = Log_fatal string | Log_error string | To_stderr string

definition newline :: string where
  "newline = [CHR 0x0A]"

definition emit_parallel_stacktrace ::
  "bool \<Rightarrow> string \<Rightarrow> IOCommunicator \<Rightarrow> amio_err \<Rightarrow> string \<Rightarrow> bool \<Rightarrow> string \<times> diagnostic" where
  "emit_parallel_stacktrace has_mpi time_buf io_comm error_code message has_logger =
     (let trace = ''[AMIO FATAL] '' @ time_buf @ newline
            @ ''  Error code: '' @ dec_int (amio_err_value error_code) @ '' ('' @ amio_strerror (amio_err_value error_code) @ '')'' @ newline
            @ ''  Message: '' @ message @ newline
            @ ''  I/O Communicator: '' @ (if ic_valid io_comm then ''valid'' else ''invalid'') @ '', rank='' @ dec_int (ic_rank io_comm)
            @ '', size='' @ dec_int (ic_size io_comm)
            @ '', is_io_rank='' @ (if ic_is_io_rank io_comm then ''true'' else ''false'') @ newline
            @ (if has_mpi then ''  [MPI collective stack trace would be gathered here]'' @ newline else [])
      in (trace, if has_logger then (if is_unrecoverable error_code then Log_fatal trace else Log_error trace) else To_stderr trace))"

section \<open>Outcomes\<close>

record TaskOutcome =
  to_error_code :: amio_err
  to_message :: string
  to_stack_trace :: string

definition is_failure :: "TaskOutcome \<Rightarrow> bool" where
  "is_failure o1 \<longleftrightarrow> to_error_code o1 \<noteq> AMIO_OK"

definition default_outcome :: TaskOutcome where
  "default_outcome = \<lparr>to_error_code = AMIO_OK, to_message = [], to_stack_trace = []\<rparr>"

type_synonym OutcomeRegistry = "(nat \<times> TaskOutcome list) list"

definition get_outcomes :: "nat \<Rightarrow> OutcomeRegistry \<Rightarrow> TaskOutcome list" where
  "get_outcomes handle_id reg = (case map_of reg handle_id of Some os \<Rightarrow> os | None \<Rightarrow> [])"

definition record_outcome :: "nat \<Rightarrow> TaskOutcome \<Rightarrow> OutcomeRegistry \<Rightarrow> OutcomeRegistry" where
  "record_outcome handle_id outcome reg = AList.update handle_id (get_outcomes handle_id reg @ [outcome]) reg"

definition has_failure :: "nat \<Rightarrow> OutcomeRegistry \<Rightarrow> bool" where
  "has_failure handle_id reg = (case map_of reg handle_id of Some os \<Rightarrow> list_ex is_failure os | None \<Rightarrow> False)"

definition get_first_failure :: "nat \<Rightarrow> OutcomeRegistry \<Rightarrow> TaskOutcome" where
  "get_first_failure handle_id reg =
     (case map_of reg handle_id of
        None \<Rightarrow> default_outcome
      | Some os \<Rightarrow> (case find is_failure os of Some o1 \<Rightarrow> o1 | None \<Rightarrow> default_outcome))"

definition clear_outcomes :: "nat \<Rightarrow> OutcomeRegistry \<Rightarrow> OutcomeRegistry" where
  "clear_outcomes handle_id reg = AList.delete handle_id reg"

definition clear_all_outcomes :: "OutcomeRegistry \<Rightarrow> OutcomeRegistry" where
  "clear_all_outcomes reg = []"

definition failure_count :: "OutcomeRegistry \<Rightarrow> nat" where
  "failure_count reg = length (filter (\<lambda>(_, os). list_ex is_failure os) reg)"

definition execute_with_exception_cordon ::
  "bool \<Rightarrow> string \<Rightarrow> cxx_exception option \<Rightarrow> nat \<Rightarrow> IOCommunicator \<Rightarrow> bool \<Rightarrow> OutcomeRegistry \<Rightarrow>
     TaskOutcome \<times> diagnostic option \<times> OutcomeRegistry" where
  "execute_with_exception_cordon has_mpi time_buf callback_result handle_id io_comm has_logger reg =
     (case callback_result of
        None \<Rightarrow> (default_outcome, None, reg)
      | Some e \<Rightarrow>
          (case translate_exception_to_error e of (code, msg) \<Rightarrow>
           case emit_parallel_stacktrace has_mpi time_buf io_comm code msg has_logger of (trace, diag) \<Rightarrow>
             let outcome = \<lparr>to_error_code = code, to_message = msg, to_stack_trace = trace\<rparr>
             in (outcome, Some diag, record_outcome handle_id outcome reg)))"

section \<open>Communicator split\<close>

record CommConfig =
  cc_io_ranks :: "int list"
  cc_world_size :: int

definition is_default :: "CommConfig \<Rightarrow> bool" where
  "is_default config \<longleftrightarrow> cc_io_ranks config = []"

fun check_ranks :: "int \<Rightarrow> int set \<Rightarrow> int list \<Rightarrow> amio_err" where
  "check_ranks world_size seen [] = AMIO_OK"
| "check_ranks world_size seen (rank # ranks) =
     (if rank < 0 \<or> rank \<ge> world_size then AMIO_ERR_COMM_SPLIT_FAILED
      else if rank \<in> seen then AMIO_ERR_COMM_SPLIT_FAILED
      else check_ranks world_size (insert rank seen) ranks)"

definition validate_comm_config :: "CommConfig \<Rightarrow> amio_err" where
  "validate_comm_config config =
     (if is_default config then AMIO_OK
      else if cc_world_size config \<le> 0 then AMIO_ERR_COMM_SPLIT_FAILED
      else if int (length (cc_io_ranks config)) \<ge> cc_world_size config then AMIO_ERR_COMM_SPLIT_FAILED
      else check_ranks (cc_world_size config) {} (cc_io_ranks config))"

definition config_is_io_rank :: "CommConfig \<Rightarrow> int \<Rightarrow> bool" where
  "config_is_io_rank config my_rank = (is_default config \<or> my_rank \<in> set (cc_io_ranks config))"

definition split_communicator ::
  "bool \<Rightarrow> (int \<Rightarrow> int \<Rightarrow> (int \<times> int) option) \<Rightarrow> CommConfig \<Rightarrow> int \<Rightarrow> IOCommunicator \<Rightarrow> amio_err \<times> IOCommunicator" where
  "split_communicator can_split halo_split config my_rank result =
     (if is_default config then (AMIO_OK, result\<lparr>ic_valid := True, ic_is_io_rank := True\<rparr>)
      else if validate_comm_config config \<noteq> AMIO_OK then (validate_comm_config config, result)
      else if my_rank < 0 \<or> my_rank \<ge> cc_world_size config then (AMIO_ERR_COMM_SPLIT_FAILED, result)
      else let is_io = my_rank \<in> set (cc_io_ranks config) in
           if can_split then
             (case halo_split (if is_io then 0 else 1) my_rank of
                Some comm \<Rightarrow> (AMIO_OK, \<lparr>ic_valid = True, ic_is_io_rank = is_io, ic_comm = Some comm\<rparr>)
              | None \<Rightarrow> (AMIO_ERR_COMM_SPLIT_FAILED, result))
           else (AMIO_ERR_COMM_SPLIT_FAILED, result))"

section \<open>Properties\<close>

lemma err_value_range: "0 \<le> amio_err_value e \<and> amio_err_value e < 18"
  by (cases e) simp_all

lemma err_value_inj: "amio_err_value d = amio_err_value e \<Longrightarrow> d = e"
  by (cases d; cases e) simp_all

lemma error_table_length: "length kAmioErrorTable = 18"
  by (simp add: kAmioErrorTable_def)

lemma error_table_distinct: "distinct kAmioErrorTable"
  by code_simp

lemma error_table_known: "list_all (\<lambda>d. take 17 d \<noteq> ''AMIO_ERR_UNKNOWN('' ) kAmioErrorTable"
  by code_simp

lemma unknown_fits:
  assumes "- (2 ^ 31) \<le> err" "err < 2 ^ 31"
  shows "snprintf_unknown err = ''AMIO_ERR_UNKNOWN('' @ dec_int err @ '')''"
proof -
  have "nat x < 10 ^ Suc 9" if "x \<le> 2 ^ 31" for x :: int using that by simp
  then have "length (dec_digits (nat x)) \<le> 10" if "x \<le> 2 ^ 31" for x :: int using length_dec_digits [of "nat x" 9] that by simp
  from this [of err] this [of "- err"] have "length (dec_int err) \<le> 11" using assms by (auto simp: dec_int_def)
  then show ?thesis by (simp add: snprintf_unknown_def kUnknownBufferBytes_def)
qed

text \<open>
  The description of a status identifies it: \<open>amio_strerror\<close> never truncates, and two different values
  of a C \<open>int\<close>, known codes or not, never share a description.
\<close>

theorem amio_strerror_injective:
  assumes "- (2 ^ 31) \<le> e" "e < 2 ^ 31" "- (2 ^ 31) \<le> e'" "e' < 2 ^ 31" "amio_strerror e = amio_strerror e'"
  shows "e = e' \<and> amio_strerror e = (if 0 \<le> e \<and> e < 18 then kAmioErrorTable ! nat e else ''AMIO_ERR_UNKNOWN('' @ dec_int e @ '')'')"
proof -
  have unk: "take 17 (snprintf_unknown x) = ''AMIO_ERR_UNKNOWN(''" if "- (2 ^ 31) \<le> x" "x < 2 ^ 31" for x
    using unknown_fits [OF that] by simp
  have known: "take 17 (kAmioErrorTable ! nat x) \<noteq> ''AMIO_ERR_UNKNOWN(''" if "0 \<le> x" "x < 18" for x
    using error_table_known that by (simp add: list_all_length error_table_length)
  have cases: "amio_strerror x = (if 0 \<le> x \<and> x < 18 then kAmioErrorTable ! nat x else snprintf_unknown x)" for x
    by (auto simp: amio_strerror_def error_table_length)
  have "e = e'"
  proof (cases "0 \<le> e \<and> e < 18"; cases "0 \<le> e' \<and> e' < 18")
    assume r: "0 \<le> e \<and> e < 18" "0 \<le> e' \<and> e' < 18"
    then have "nat e = nat e'" using assms(5) nth_eq_iff_index_eq [OF error_table_distinct, of "nat e" "nat e'"]
      by (auto simp: cases error_table_length)
    then show ?thesis using r eq_nat_nat_iff [of e e'] by blast
  next
    assume "\<not> (0 \<le> e \<and> e < 18)" "\<not> (0 \<le> e' \<and> e' < 18)"
    then have "snprintf_unknown e = snprintf_unknown e'" using assms(5) cases by metis
    then have "dec_int e = dec_int e'" unfolding unknown_fits [OF assms(1,2)] unknown_fits [OF assms(3,4)] by simp
    then show ?thesis by (rule dec_int_inj)
  next
    assume "0 \<le> e \<and> e < 18" "\<not> (0 \<le> e' \<and> e' < 18)"
    then show ?thesis using assms(5) known [of e] unk [OF assms(3,4)] by (metis cases)
  next
    assume "\<not> (0 \<le> e \<and> e < 18)" "0 \<le> e' \<and> e' < 18"
    then show ?thesis using assms(5) known [of e'] unk [OF assms(1,2)] by (metis cases)
  qed
  then show ?thesis using unknown_fits [OF assms(1,2)] by (auto simp: cases)
qed

lemma translate_not_ok: "fst (translate_exception_to_error e) \<noteq> AMIO_OK"
  by (cases e) (auto split: Error_Code.splits)

lemma emit_once:
  assumes "emit_parallel_stacktrace mpi time comm code msg logger = (trace, diag)"
  shows "diag \<in> {Log_fatal trace, Log_error trace, To_stderr trace}"
proof -
  have "(if b then (if c then Log_fatal t else Log_error t) else To_stderr t) \<in> {Log_fatal t, Log_error t, To_stderr t}" for b c t by simp
  then show ?thesis using assms unfolding emit_parallel_stacktrace_def Let_def prod.inject by metis
qed

lemma get_outcomes_record:
  "get_outcomes h (record_outcome k out reg) = (if h = k then get_outcomes k reg @ [out] else get_outcomes h reg)"
  by (simp add: record_outcome_def get_outcomes_def update_conv')

lemma has_failure_outcomes: "has_failure h reg = list_ex is_failure (get_outcomes h reg)"
  by (simp add: has_failure_def get_outcomes_def split: option.splits)

lemma first_failure_outcomes:
  "get_first_failure h reg = (case find is_failure (get_outcomes h reg) of Some o1 \<Rightarrow> o1 | None \<Rightarrow> default_outcome)"
  by (simp add: get_first_failure_def get_outcomes_def split: option.splits)

lemma list_ex_find: "list_ex P xs \<longleftrightarrow> find P xs \<noteq> None"
  by (induction xs) auto

lemma find_append: "find P (xs @ ys) = (case find P xs of Some x \<Rightarrow> Some x | None \<Rightarrow> find P ys)"
  by (induction xs) auto

text \<open>
  The exception cordon lets nothing through and forgets nothing: a callback that returns leaves the
  registry as it was; one that throws, whatever it throws, gives a failure code other than
  \<open>AMIO_OK\<close>, emits its trace exactly once, and appends the outcome with that trace to its own handle, which
  from then on reports the failure (the first one it ever had), while every other handle is unchanged.
\<close>

theorem exception_cordon_records:
  assumes "execute_with_exception_cordon mpi time result h comm logger reg = (outcome, diag, reg')"
  shows "case result of
           None \<Rightarrow> \<not> is_failure outcome \<and> diag = None \<and> reg' = reg
         | Some e \<Rightarrow> is_failure outcome \<and> to_error_code outcome = fst (translate_exception_to_error e) \<and>
             diag \<in> Some ` {Log_fatal (to_stack_trace outcome), Log_error (to_stack_trace outcome), To_stderr (to_stack_trace outcome)} \<and>
             get_outcomes h reg' = get_outcomes h reg @ [outcome] \<and> has_failure h reg' \<and>
             get_first_failure h reg' = (if has_failure h reg then get_first_failure h reg else outcome) \<and>
             (\<forall>k. k \<noteq> h \<longrightarrow> get_outcomes k reg' = get_outcomes k reg)"
proof (cases result)
  case None
  then show ?thesis using assms by (auto simp: execute_with_exception_cordon_def default_outcome_def is_failure_def)
next
  case (Some e)
  obtain code msg where t: "translate_exception_to_error e = (code, msg)" by fastforce
  have code: "code \<noteq> AMIO_OK" using translate_not_ok [of e] t by simp
  obtain trace d where em: "emit_parallel_stacktrace mpi time comm code msg logger = (trace, d)" by fastforce
  have r: "reg' = record_outcome h outcome reg" "to_error_code outcome = code"
    "diag \<in> Some ` {Log_fatal (to_stack_trace outcome), Log_error (to_stack_trace outcome), To_stderr (to_stack_trace outcome)}"
    using assms Some t em emit_once [OF em] by (auto simp: execute_with_exception_cordon_def Let_def)
  have f: "is_failure outcome" using r code by (simp add: is_failure_def)
  have "get_first_failure h reg' = (if has_failure h reg then get_first_failure h reg else outcome)"
    using f unfolding r(1) first_failure_outcomes has_failure_outcomes get_outcomes_record list_ex_find
    by (simp add: find_append split: option.split)
  then show ?thesis using Some t f r by (simp add: has_failure_outcomes get_outcomes_record)
qed

text \<open>The registry as the sequence of records it was built from.\<close>

lemma registry_history:
  "get_outcomes h (fold (\<lambda>(k, out). record_outcome k out) hist reg) = get_outcomes h reg @ map snd (filter (\<lambda>(k, _). k = h) hist)"
  by (induction hist arbitrary: reg) (auto simp: get_outcomes_record)

lemma registry_distinct: "distinct (map fst reg) \<Longrightarrow> distinct (map fst (fold (\<lambda>(k, out). record_outcome k out) hist reg))"
  by (induction hist arbitrary: reg) (auto simp: record_outcome_def distinct_update)

lemma failure_count_card:
  assumes "distinct (map fst reg)"
  shows "failure_count reg = card {h. has_failure h reg}"
proof -
  let ?f = "filter (\<lambda>(_, os). list_ex is_failure os) reg"
  have "has_failure h reg \<longleftrightarrow> (\<exists>os. (h, os) \<in> set reg \<and> list_ex is_failure os)" for h
    unfolding has_failure_def map_of_eq_Some_iff [OF assms, symmetric] by (simp split: option.split)
  then have "{h. has_failure h reg} = fst ` set ?f" by force
  moreover have "distinct (map fst ?f)" using assms by (simp add: distinct_map_filter)
  ultimately show ?thesis by (metis distinct_card failure_count_def length_map set_map)
qed

text \<open>
  The registry is a faithful summary of everything recorded: after any sequence of records the outcomes of a
  handle are its records in order, \<open>has_failure\<close> tells whether one of them failed, and
  \<open>failure_count\<close> is the number of handles with a failure; clearing a handle removes exactly its outcomes.
\<close>

theorem outcome_registry_refines_log:
  "let reg = fold (\<lambda>(k, out). record_outcome k out) hist [] in
    get_outcomes h reg = map snd (filter (\<lambda>(k, _). k = h) hist) \<and>
    has_failure h reg = (\<exists>out. (h, out) \<in> set hist \<and> is_failure out) \<and>
    failure_count reg = card {k. \<exists>out. (k, out) \<in> set hist \<and> is_failure out} \<and>
    get_outcomes k (clear_outcomes h reg) = (if k = h then [] else get_outcomes k reg) \<and>
    get_outcomes k (clear_all_outcomes reg) = []"
proof -
  define reg where "reg = fold (\<lambda>(k, out). record_outcome k out) hist []"
  have o: "get_outcomes h reg = map snd (filter (\<lambda>(k, _). k = h) hist)" for h
    using registry_history [of h hist "[]"] by (simp add: reg_def get_outcomes_def)
  have f: "has_failure h reg = (\<exists>out. (h, out) \<in> set hist \<and> is_failure out)" for h
    unfolding has_failure_outcomes o by (force simp: list_ex_iff)
  have "distinct (map fst reg)" using registry_distinct [of "[]" hist] by (simp add: reg_def)
  from failure_count_card [OF this] show ?thesis
    unfolding reg_def [symmetric] Let_def using o f by (auto simp: clear_outcomes_def clear_all_outcomes_def get_outcomes_def delete_conv')
qed

lemma check_ranks_ok:
  "check_ranks n seen ranks = AMIO_OK \<longleftrightarrow> distinct ranks \<and> set ranks \<inter> seen = {} \<and> (\<forall>r\<in>set ranks. 0 \<le> r \<and> r < n)"
  by (induction n seen ranks rule: check_ranks.induct) (auto simp: not_le)

lemma validate_comm_config_ok:
  "validate_comm_config c = AMIO_OK \<longleftrightarrow> is_default c \<or>
     (int (length (cc_io_ranks c)) < cc_world_size c \<and> distinct (cc_io_ranks c) \<and> set (cc_io_ranks c) \<subseteq> {0..<cc_world_size c})"
  using check_ranks_ok [of "cc_world_size c" "{}" "cc_io_ranks c"]
  by (auto simp: validate_comm_config_def is_default_def)

lemma validate_comm_config_codes: "validate_comm_config c \<in> {AMIO_OK, AMIO_ERR_COMM_SPLIT_FAILED}"
proof -
  have "check_ranks n seen ranks \<in> {AMIO_OK, AMIO_ERR_COMM_SPLIT_FAILED}" for n seen ranks
    by (induction n seen ranks rule: check_ranks.induct) auto
  then show ?thesis by (simp add: validate_comm_config_def)
qed

text \<open>
  When the communicator is split, every rank of the world is either an I/O or a compute rank and both groups exist:
  if one rank's split succeeds with a non-default configuration, exactly as many ranks
  of the world have the I/O role as the configuration names, at least one and not all, each rank of the world gets the color of its role, and
  a split that fails leaves the communicator record as it was.
\<close>

theorem comm_split_partitions:
  assumes "split_communicator can halo_split config my_rank result = (err, result')"
  shows "(err = AMIO_OK \<or> err = AMIO_ERR_COMM_SPLIT_FAILED \<and> result' = result) \<and>
    (err = AMIO_OK \<longrightarrow> ic_valid result' \<and> ic_is_io_rank result' = config_is_io_rank config my_rank) \<and>
    (err = AMIO_OK \<and> \<not> is_default config \<longrightarrow>
       card {r \<in> {0..<cc_world_size config}. config_is_io_rank config r} = length (cc_io_ranks config) \<and>
       0 < length (cc_io_ranks config) \<and> int (length (cc_io_ranks config)) < cc_world_size config \<and>
       ic_comm result' = halo_split (if config_is_io_rank config my_rank then 0 else 1) my_rank)"
proof -
  have card: "card {r \<in> {0..<cc_world_size config}. config_is_io_rank config r} = length (cc_io_ranks config)"
    if "validate_comm_config config = AMIO_OK" "\<not> is_default config"
  proof -
    have "{r \<in> {0..<cc_world_size config}. config_is_io_rank config r} = set (cc_io_ranks config)"
      using that by (auto simp: config_is_io_rank_def validate_comm_config_ok)
    then show ?thesis using that distinct_card [of "cc_io_ranks config"] by (simp add: validate_comm_config_ok)
  qed
  show ?thesis
  proof (cases "is_default config")
    case True
    then show ?thesis using assms by (auto simp: split_communicator_def config_is_io_rank_def)
  next
    case False
    then have "0 < length (cc_io_ranks config)" by (simp add: is_default_def)
    then show ?thesis
      using assms False card validate_comm_config_ok [of config] validate_comm_config_codes [of config]
      by (auto simp: split_communicator_def config_is_io_rank_def Let_def split: if_splits option.splits)
  qed
qed

section \<open>Witnesses\<close>

theorem amio_strerror_injective_witness:
  "amio_strerror (-5) = ''AMIO_ERR_UNKNOWN(-5)''"
proof -
  have "dec_int (-5) = ''-5''" by code_simp
  then show ?thesis using amio_strerror_injective [of "-5" "-5"] by simp
qed

theorem exception_cordon_records_witness:
  "has_failure 7 (snd (snd (execute_with_exception_cordon False ''t'' (Some Ex_other) 7 \<lparr>ic_valid = True, ic_is_io_rank = True, ic_comm = None\<rparr> False [])))"
  using exception_cordon_records [of False "''t''" "Some Ex_other" 7 "\<lparr>ic_valid = True, ic_is_io_rank = True, ic_comm = None\<rparr>" False "[]"]
  by (cases "execute_with_exception_cordon False ''t'' (Some Ex_other) 7 \<lparr>ic_valid = True, ic_is_io_rank = True, ic_comm = None\<rparr> False []") auto

theorem comm_split_partitions_witness:
  "card {r \<in> {0..<4}. config_is_io_rank \<lparr>cc_io_ranks = [0, 2], cc_world_size = 4\<rparr> r} = 2"
proof -
  let ?c = "\<lparr>cc_io_ranks = [0, 2], cc_world_size = 4\<rparr>" and ?r = "\<lparr>ic_valid = False, ic_is_io_rank = False, ic_comm = None\<rparr>"
  have "split_communicator True (\<lambda>color key. Some (0, 2)) ?c 2 ?r = (AMIO_OK, \<lparr>ic_valid = True, ic_is_io_rank = True, ic_comm = Some (0, 2)\<rparr>)"
    by code_simp
  from comm_split_partitions [OF this] show ?thesis by (simp add: is_default_def)
qed

end
