(* ===== verification/Amio_Worker_Pool.thy ===== *)
theory Amio_Worker_Pool
  imports "HOL-Library.Multiset" Amio_Exceptions
begin

text \<open>
  AMIO's pool of background threads: \<^verbatim>\<open>amio/src/workers/worker_pool.cpp\<close>.

  The pool is a state machine. An event is what one thread does while it holds the pool's mutex, or the end of
  a callback: the locked part of a submission, one iteration of the worker loop of a
  thread, the completion of the callback that a thread runs, the shutdown flag. The operations that check a
  flag before they take the mutex, or wait on a condition variable, take the events of other threads in
  between as arguments. A callback is an identifier; its result comes with the
  event that completes it. The heap of prefetch tasks is a list of which the event names one of the
  minimal elements. Sequence numbers are unbounded.
\<close>

section \<open>State\<close>

record DatasetVariableKey =
  dk_dataset_id :: nat
  dk_variable_id :: nat

definition dv_less :: "DatasetVariableKey \<Rightarrow> DatasetVariableKey \<Rightarrow> bool" where
  "dv_less a b =
     (if dk_dataset_id a \<noteq> dk_dataset_id b then dk_dataset_id a < dk_dataset_id b else dk_variable_id a < dk_variable_id b)"

record WriteTask =
  wt_dv_key :: DatasetVariableKey
  wt_dv_seq :: nat
  wt_handle_id :: nat
  wt_callback :: nat

record PrefetchTask =
  pt_timestep :: int
  pt_distance :: int
  pt_dataset_id :: nat
  pt_handle_id :: nat
  pt_callback :: nat

record BackpressureConfig =
  bp_enabled :: bool
  bp_low_watermark :: nat
  bp_high_watermark :: nat
  bp_queue_capacity :: nat

record DvOrderState =
  dv_next_seq :: nat
  dv_exec_seq :: nat

datatype thread_state = Idle | is_Writing: Writing (writing_task: WriteTask) | is_Prefetching: Prefetching (prefetching_task: PrefetchTask) | Exited

record WorkerPool =
  wp_write_queue :: "WriteTask list"
  wp_prefetch_queue :: "PrefetchTask list"
  wp_dv_states :: "DatasetVariableKey \<rightharpoonup> DvOrderState"
  wp_threads :: "thread_state list"
  wp_shutdown :: bool
  wp_in_flight :: nat
  wp_writes_completed :: nat
  wp_prefetches_completed :: nat
  wp_thread_count :: nat
  wp_io_comm :: IOCommunicator
  wp_pinning_errors :: nat
  wp_backpressure :: BackpressureConfig
  wp_outcomes :: OutcomeRegistry

definition default_backpressure :: BackpressureConfig where
  "default_backpressure = \<lparr>bp_enabled = False, bp_low_watermark = 0, bp_high_watermark = 0, bp_queue_capacity = 1024\<rparr>"

definition mk_pool :: "nat \<Rightarrow> IOCommunicator \<Rightarrow> BackpressureConfig \<Rightarrow> WorkerPool" where
  "mk_pool threads io_comm bp =
     \<lparr>wp_write_queue = [], wp_prefetch_queue = [], wp_dv_states = Map.empty, wp_threads = replicate threads Idle,
      wp_shutdown = False, wp_in_flight = 0, wp_writes_completed = 0, wp_prefetches_completed = 0,
      wp_thread_count = threads, wp_io_comm = io_comm, wp_pinning_errors = 0, wp_backpressure = bp, wp_outcomes = []\<rparr>"

definition mk_worker_pool :: "nat \<Rightarrow> WorkerPool" where
  "mk_worker_pool thread_count =
     mk_pool thread_count \<lparr>ic_valid = True, ic_is_io_rank = True, ic_comm = None\<rparr> default_backpressure"

definition mk_worker_pool_config :: "nat \<Rightarrow> IOCommunicator \<Rightarrow> BackpressureConfig \<Rightarrow> WorkerPool" where
  "mk_worker_pool_config thread_count io_comm bp =
     mk_pool thread_count (if \<not> ic_valid io_comm then io_comm\<lparr>ic_valid := True, ic_is_io_rank := True\<rparr> else io_comm) bp"

text \<open>The start of a pinned thread: a failed binding is counted and the thread continues.\<close>

definition worker_loop_pinned :: "amio_err list \<Rightarrow> nat \<Rightarrow> WorkerPool \<Rightarrow> WorkerPool" where
  "worker_loop_pinned pin_results thread_index s =
     (if thread_index < length pin_results \<and> pin_results ! thread_index \<noteq> AMIO_OK
      then s\<lparr>wp_pinning_errors := wp_pinning_errors s + 1\<rparr> else s)"

section \<open>Submission\<close>

definition get_dv_state :: "DatasetVariableKey \<Rightarrow> WorkerPool \<Rightarrow> DvOrderState" where
  "get_dv_state key s = (case wp_dv_states s key of Some st \<Rightarrow> st | None \<Rightarrow> \<lparr>dv_next_seq = 0, dv_exec_seq = 0\<rparr>)"

definition push_write :: "DatasetVariableKey \<Rightarrow> nat \<Rightarrow> nat \<Rightarrow> WorkerPool \<Rightarrow> nat \<times> WorkerPool" where
  "push_write dv_key handle_id callback s =
     (let state = get_dv_state dv_key s; seq = dv_next_seq state;
          task = \<lparr>wt_dv_key = dv_key, wt_dv_seq = seq, wt_handle_id = handle_id, wt_callback = callback\<rparr>
      in (seq, s\<lparr>wp_dv_states := (wp_dv_states s)(dv_key \<mapsto> state\<lparr>dv_next_seq := seq + 1\<rparr>),
                 wp_write_queue := wp_write_queue s @ [task]\<rparr>))"

text \<open>The part of a submission after the wait for the low watermark.\<close>

definition admit_write :: "DatasetVariableKey \<Rightarrow> nat \<Rightarrow> nat \<Rightarrow> WorkerPool \<Rightarrow> (amio_err \<times> nat) \<times> WorkerPool" where
  "admit_write dv_key handle_id callback s =
     (if bp_enabled (wp_backpressure s) \<and> wp_shutdown s then ((AMIO_OK, 0), s)
      else if \<not> bp_enabled (wp_backpressure s) \<and> length (wp_write_queue s) \<ge> bp_queue_capacity (wp_backpressure s)
      then ((AMIO_ERR_QUEUE_FULL, 0), s)
      else case push_write dv_key handle_id callback s of (seq, s') \<Rightarrow> ((AMIO_OK, seq), s'))"

definition push_prefetch :: "int \<Rightarrow> int \<Rightarrow> nat \<Rightarrow> nat \<Rightarrow> nat \<Rightarrow> WorkerPool \<Rightarrow> WorkerPool" where
  "push_prefetch timestep distance dataset_id handle_id callback s =
     s\<lparr>wp_prefetch_queue := wp_prefetch_queue s @
         [\<lparr>pt_timestep = timestep, pt_distance = distance, pt_dataset_id = dataset_id, pt_handle_id = handle_id,
           pt_callback = callback\<rparr>]\<rparr>"

section \<open>Workers\<close>

definition is_top :: "nat \<Rightarrow> PrefetchTask list \<Rightarrow> bool" where
  "is_top i q \<longleftrightarrow> i < length q \<and> list_all (\<lambda>t. pt_distance (q ! i) \<le> pt_distance t) q"

definition start_prefetch :: "nat \<Rightarrow> nat \<Rightarrow> WorkerPool \<Rightarrow> WorkerPool" where
  "start_prefetch thread i s =
     s\<lparr>wp_prefetch_queue := take i (wp_prefetch_queue s) @ drop (Suc i) (wp_prefetch_queue s),
       wp_in_flight := wp_in_flight s + 1,
       wp_threads := (wp_threads s)[thread := Prefetching (wp_prefetch_queue s ! i)]\<rparr>"

definition try_execute_one :: "nat \<Rightarrow> nat \<Rightarrow> WorkerPool \<Rightarrow> WorkerPool" where
  "try_execute_one thread i s =
     (case wp_write_queue s of
        task # rest \<Rightarrow>
          let state = get_dv_state (wt_dv_key task) s;
              s1 = s\<lparr>wp_dv_states := (wp_dv_states s)(wt_dv_key task \<mapsto> state)\<rparr>
          in if wt_dv_seq task \<noteq> dv_exec_seq state then
               let s2 = s1\<lparr>wp_write_queue := rest @ [task]\<rparr> in
               if wp_prefetch_queue s2 \<noteq> [] then start_prefetch thread i s2 else s2
             else s1\<lparr>wp_write_queue := rest, wp_in_flight := wp_in_flight s + 1,
                     wp_threads := (wp_threads s)[thread := Writing task]\<rparr>
      | [] \<Rightarrow> if wp_prefetch_queue s \<noteq> [] then start_prefetch thread i s else s)"

text \<open>One iteration of the loop of a thread, up to the release of the mutex.\<close>

definition worker_iteration :: "nat \<Rightarrow> nat \<Rightarrow> WorkerPool \<Rightarrow> WorkerPool" where
  "worker_iteration thread i s =
     (if thread < length (wp_threads s) \<and> wp_threads s ! thread = Idle \<and> (wp_prefetch_queue s = [] \<or> is_top i (wp_prefetch_queue s)) then
        if wp_shutdown s \<and> wp_write_queue s = [] \<and> wp_prefetch_queue s = []
        then s\<lparr>wp_threads := (wp_threads s)[thread := Exited]\<rparr>
        else try_execute_one thread i s
      else s)"

definition record_result :: "bool \<Rightarrow> string \<Rightarrow> nat \<Rightarrow> cxx_exception option \<Rightarrow> WorkerPool \<Rightarrow> WorkerPool" where
  "record_result has_mpi time_buf handle_id result s =
     (if handle_id \<noteq> 0
      then s\<lparr>wp_outcomes := snd (snd (execute_with_exception_cordon has_mpi time_buf result handle_id (wp_io_comm s) False (wp_outcomes s)))\<rparr>
      else s)"

definition finish_write :: "bool \<Rightarrow> string \<Rightarrow> nat \<Rightarrow> WriteTask \<Rightarrow> cxx_exception option \<Rightarrow> WorkerPool \<Rightarrow> WorkerPool" where
  "finish_write has_mpi time_buf thread task result s =
     (let s1 = record_result has_mpi time_buf (wt_handle_id task) result s; state = get_dv_state (wt_dv_key task) s1
      in s1\<lparr>wp_dv_states := (wp_dv_states s1)(wt_dv_key task \<mapsto> state\<lparr>dv_exec_seq := dv_exec_seq state + 1\<rparr>),
            wp_writes_completed := wp_writes_completed s1 + 1, wp_in_flight := wp_in_flight s1 - 1,
            wp_threads := (wp_threads s1)[thread := Idle]\<rparr>)"

definition finish_prefetch :: "bool \<Rightarrow> string \<Rightarrow> nat \<Rightarrow> PrefetchTask \<Rightarrow> cxx_exception option \<Rightarrow> WorkerPool \<Rightarrow> WorkerPool" where
  "finish_prefetch has_mpi time_buf thread task result s =
     (let s1 = record_result has_mpi time_buf (pt_handle_id task) result s
      in s1\<lparr>wp_prefetches_completed := wp_prefetches_completed s1 + 1, wp_in_flight := wp_in_flight s1 - 1,
            wp_threads := (wp_threads s1)[thread := Idle]\<rparr>)"

datatype pool_event =
    Admit_write DatasetVariableKey nat nat
  | Push_prefetch int int nat nat nat
  | Iterate nat nat
  | Finish nat "cxx_exception option" bool string
  | Set_shutdown

definition pool_exec :: "pool_event \<Rightarrow> WorkerPool \<Rightarrow> WorkerPool" where
  "pool_exec ev s =
     (case ev of
        Admit_write key h cb \<Rightarrow> snd (admit_write key h cb s)
      | Push_prefetch t d ds h cb \<Rightarrow> push_prefetch t d ds h cb s
      | Iterate thread i \<Rightarrow> worker_iteration thread i s
      | Finish thread result has_mpi time_buf \<Rightarrow>
          (if thread < length (wp_threads s) then
             case wp_threads s ! thread of
               Writing task \<Rightarrow> finish_write has_mpi time_buf thread task result s
             | Prefetching task \<Rightarrow> finish_prefetch has_mpi time_buf thread task result s
             | _ \<Rightarrow> s
           else s)
      | Set_shutdown \<Rightarrow> s\<lparr>wp_shutdown := True\<rparr>)"

abbreviation pool_run :: "pool_event list \<Rightarrow> WorkerPool \<Rightarrow> WorkerPool" where
  "pool_run evs \<equiv> fold pool_exec evs"

section \<open>Interface\<close>

text \<open>\<open>before\<close>: between the check of the flag and the lock; \<open>waiting\<close>: while the writer is held back.\<close>

definition submit_write :: "DatasetVariableKey \<Rightarrow> nat \<Rightarrow> nat \<Rightarrow> pool_event list \<Rightarrow> pool_event list \<Rightarrow> WorkerPool \<Rightarrow> (amio_err \<times> nat) \<times> WorkerPool" where
  "submit_write dv_key handle_id callback before waiting s =
     (if wp_shutdown s then ((AMIO_OK, 0), s)
      else
        let s1 = pool_run before s; bp = wp_backpressure s1;
            s2 = (if bp_enabled bp \<and> length (wp_write_queue s1) \<ge> bp_high_watermark bp \<and>
                     \<not> (length (wp_write_queue s1) < bp_low_watermark bp \<or> wp_shutdown s1)
                  then pool_run waiting s1 else s1)
        in admit_write dv_key handle_id callback s2)"

definition submit_write_legacy :: "DatasetVariableKey \<Rightarrow> nat \<Rightarrow> nat \<Rightarrow> pool_event list \<Rightarrow> pool_event list \<Rightarrow> WorkerPool \<Rightarrow> nat \<times> WorkerPool" where
  "submit_write_legacy dv_key handle_id callback before waiting s =
     (case submit_write dv_key handle_id callback before waiting s of
        ((rc, seq), s') \<Rightarrow> (if rc \<noteq> AMIO_OK then 0 else seq, s'))"

definition submit_prefetch :: "int \<Rightarrow> int \<Rightarrow> nat \<Rightarrow> nat \<Rightarrow> nat \<Rightarrow> pool_event list \<Rightarrow> WorkerPool \<Rightarrow> WorkerPool" where
  "submit_prefetch timestep distance dataset_id handle_id callback before s =
     (if wp_shutdown s then s else push_prefetch timestep distance dataset_id handle_id callback (pool_run before s))"

definition drained :: "WorkerPool \<Rightarrow> bool" where
  "drained s \<longleftrightarrow> wp_write_queue s = [] \<and> wp_prefetch_queue s = [] \<and> wp_in_flight s = 0"

text \<open>The wait ends at the first moment the condition holds, or with the last of the events that fit into the timeout.\<close>

fun drain :: "pool_event list \<Rightarrow> WorkerPool \<Rightarrow> bool \<times> WorkerPool" where
  "drain [] s = (drained s, s)"
| "drain (ev # evs) s = (if drained s then (True, s) else drain evs (pool_exec ev s))"

text \<open>Joining ends when every thread has left its loop; \<open>None\<close> is a shutdown that is still joining.\<close>

definition joined :: "WorkerPool \<Rightarrow> bool" where
  "joined s \<longleftrightarrow> list_all (\<lambda>t. t = Exited) (wp_threads s)"

definition shutdown_pool :: "pool_event list \<Rightarrow> WorkerPool \<Rightarrow> WorkerPool option" where
  "shutdown_pool evs s = (let s' = pool_run evs (pool_exec Set_shutdown s) in if joined s' then Some s' else None)"

definition thread_count :: "WorkerPool \<Rightarrow> nat" where
  "thread_count s = wp_thread_count s"

definition write_queue_depth :: "WorkerPool \<Rightarrow> nat" where
  "write_queue_depth s = length (wp_write_queue s)"

definition prefetch_queue_depth :: "WorkerPool \<Rightarrow> nat" where
  "prefetch_queue_depth s = length (wp_prefetch_queue s)"

definition total_writes_completed :: "WorkerPool \<Rightarrow> nat" where
  "total_writes_completed s = wp_writes_completed s"

definition total_prefetches_completed :: "WorkerPool \<Rightarrow> nat" where
  "total_prefetches_completed s = wp_prefetches_completed s"

definition queue_capacity :: "WorkerPool \<Rightarrow> nat" where
  "queue_capacity s = bp_queue_capacity (wp_backpressure s)"

section \<open>What happens to the writes\<close>

datatype write_mark = Accepted WriteTask | Began WriteTask | Ended WriteTask

definition pool_log :: "pool_event \<Rightarrow> WorkerPool \<Rightarrow> write_mark list" where
  "pool_log ev s =
     (case ev of
        Admit_write key h cb \<Rightarrow>
          if length (wp_write_queue (pool_exec ev s)) > length (wp_write_queue s)
          then [Accepted (last (wp_write_queue (pool_exec ev s)))] else []
      | Iterate thread i \<Rightarrow>
          if thread < length (wp_threads s) \<and> wp_threads s ! thread = Idle
          then case wp_threads (pool_exec ev s) ! thread of Writing task \<Rightarrow> [Began task] | _ \<Rightarrow> []
          else []
      | Finish thread result m t \<Rightarrow>
          if thread < length (wp_threads s) then case wp_threads s ! thread of Writing task \<Rightarrow> [Ended task] | _ \<Rightarrow> [] else []
      | _ \<Rightarrow> [])"

definition logged_exec :: "pool_event \<Rightarrow> WorkerPool \<times> write_mark list \<Rightarrow> WorkerPool \<times> write_mark list" where
  "logged_exec ev = (\<lambda>(s, log). (pool_exec ev s, log @ pool_log ev s))"

definition pool_history :: "pool_event list \<Rightarrow> WorkerPool \<Rightarrow> write_mark list" where
  "pool_history evs s = snd (fold logged_exec evs (s, []))"

fun accepted :: "DatasetVariableKey \<Rightarrow> write_mark list \<Rightarrow> WriteTask list" where
  "accepted k [] = []"
| "accepted k (Accepted t # log) = (if wt_dv_key t = k then t # accepted k log else accepted k log)"
| "accepted k (_ # log) = accepted k log"

fun executions :: "DatasetVariableKey \<Rightarrow> write_mark list \<Rightarrow> write_mark list" where
  "executions k [] = []"
| "executions k (Began t # log) = (if wt_dv_key t = k then Began t # executions k log else executions k log)"
| "executions k (Ended t # log) = (if wt_dv_key t = k then Ended t # executions k log else executions k log)"
| "executions k (_ # log) = executions k log"

definition serial :: "WriteTask list \<Rightarrow> write_mark list" where
  "serial ts = concat (map (\<lambda>t. [Began t, Ended t]) ts)"

lemma accepted_append [simp]: "accepted k (xs @ ys) = accepted k xs @ accepted k ys"
  by (induction k xs rule: accepted.induct) auto

lemma executions_append [simp]: "executions k (xs @ ys) = executions k xs @ executions k ys"
  by (induction k xs rule: executions.induct) auto

lemma serial_append [simp]: "serial (xs @ ys) = serial xs @ serial ys"
  by (simp add: serial_def)

lemma serial_simps [simp]: "serial [] = []" "serial (t # ts) = Began t # Ended t # serial ts"
  by (simp_all add: serial_def)

definition running :: "thread_state multiset \<Rightarrow> WriteTask multiset" where
  "running M = image_mset writing_task (filter_mset is_Writing M)"

definition busy :: "thread_state \<Rightarrow> bool" where
  "busy t \<longleftrightarrow> is_Writing t \<or> is_Prefetching t"

lemma running_simps [simp]:
  "running {#} = {#}" "running (add_mset t M) = (case t of Writing w \<Rightarrow> add_mset w (running M) | _ \<Rightarrow> running M)"
  by (cases t; simp add: running_def)+

lemma threads_split:
  assumes "i < length xs"
  obtains M where "mset xs = add_mset (xs ! i) M" "\<And>v. mset (xs[i := v]) = add_mset v M"
proof
  show "mset xs = add_mset (xs ! i) (mset xs - {#xs ! i#})" using assms by simp
  show "mset (xs[i := v]) = add_mset v (mset xs - {#xs ! i#})" for v using assms by (rule mset_update)
qed

abbreviation next_of :: "WorkerPool \<Rightarrow> DatasetVariableKey \<Rightarrow> nat" where
  "next_of s k \<equiv> dv_next_seq (get_dv_state k s)"

abbreviation exec_of :: "WorkerPool \<Rightarrow> DatasetVariableKey \<Rightarrow> nat" where
  "exec_of s k \<equiv> dv_exec_seq (get_dv_state k s)"

abbreviation of_key :: "DatasetVariableKey \<Rightarrow> WriteTask multiset \<Rightarrow> WriteTask multiset" where
  "of_key k M \<equiv> filter_mset (\<lambda>t. wt_dv_key t = k) M"

text \<open>
  The invariant of a pool with its history: for each pair of dataset and variable the accepted writes are numbered in order;
  those not executed yet are the queued and the running ones; a running one is the next in order; and the
  executions so far are the serial executions of the finished ones followed by the start of the running one.
\<close>

definition key_inv :: "WorkerPool \<Rightarrow> write_mark list \<Rightarrow> DatasetVariableKey \<Rightarrow> bool" where
  "key_inv s log k \<longleftrightarrow>
     next_of s k = length (accepted k log) \<and>
     map wt_dv_seq (accepted k log) = [0..<length (accepted k log)] \<and>
     of_key k (mset (wp_write_queue s)) + of_key k (running (mset (wp_threads s))) = mset (drop (exec_of s k) (accepted k log)) \<and>
     exec_of s k \<le> length (accepted k log) \<and>
     (\<forall>t. t \<in># of_key k (running (mset (wp_threads s))) \<longrightarrow> wt_dv_seq t = exec_of s k) \<and>
     (\<exists>r. mset r = of_key k (running (mset (wp_threads s))) \<and>
          executions k log = serial (take (exec_of s k) (accepted k log)) @ map Began r)"

definition pool_inv :: "WorkerPool \<Rightarrow> write_mark list \<Rightarrow> bool" where
  "pool_inv s log \<longleftrightarrow> (\<forall>k. key_inv s log k) \<and> wp_in_flight s = size (filter_mset busy (mset (wp_threads s)))"

lemma key_inv_same:
  assumes "key_inv s log k" "get_dv_state k s' = get_dv_state k s"
    "of_key k (mset (wp_write_queue s')) = of_key k (mset (wp_write_queue s))"
    "of_key k (running (mset (wp_threads s'))) = of_key k (running (mset (wp_threads s)))"
    "accepted k log' = accepted k log" "executions k log' = executions k log"
  shows "key_inv s' log' k"
  using assms unfolding key_inv_def by simp

lemma get_dv_state_upd:
  "get_dv_state k (s\<lparr>wp_dv_states := (wp_dv_states s)(key \<mapsto> st)\<rparr>) = (if k = key then st else get_dv_state k s)"
  by (simp add: get_dv_state_def)

lemma get_dv_state_cong: "wp_dv_states s' = wp_dv_states s \<Longrightarrow> get_dv_state k s' = get_dv_state k s"
  by (simp add: get_dv_state_def)

lemma key_invD:
  assumes "key_inv s log k"
  shows "next_of s k = length (accepted k log)"
    "\<And>n. n < length (accepted k log) \<Longrightarrow> wt_dv_seq (accepted k log ! n) = n"
    "of_key k (mset (wp_write_queue s)) + of_key k (running (mset (wp_threads s))) = mset (drop (exec_of s k) (accepted k log))"
    "exec_of s k \<le> length (accepted k log)"
    "t \<in># of_key k (running (mset (wp_threads s))) \<Longrightarrow> wt_dv_seq t = exec_of s k"
    "\<exists>r. mset r = of_key k (running (mset (wp_threads s))) \<and> executions k log = serial (take (exec_of s k) (accepted k log)) @ map Began r"
proof -
  note d = assms [unfolded key_inv_def]
  show "next_of s k = length (accepted k log)" "exec_of s k \<le> length (accepted k log)"
    "of_key k (mset (wp_write_queue s)) + of_key k (running (mset (wp_threads s))) = mset (drop (exec_of s k) (accepted k log))"
    "t \<in># of_key k (running (mset (wp_threads s))) \<Longrightarrow> wt_dv_seq t = exec_of s k"
    "\<exists>r. mset r = of_key k (running (mset (wp_threads s))) \<and> executions k log = serial (take (exec_of s k) (accepted k log)) @ map Began r"
    using d by blast+
  show "wt_dv_seq (accepted k log ! n) = n" if "n < length (accepted k log)" for n
    using arg_cong [OF conjunct1 [OF conjunct2 [OF d]], of "\<lambda>xs. xs ! n"] that by simp
qed

lemma accepted_key: "t \<in> set (accepted k log) \<Longrightarrow> wt_dv_key t = k"
  by (induction k log rule: accepted.induct) (auto split: if_splits)

text \<open>A queued or running write is found among the accepted ones at its sequence number.\<close>

lemma outstanding_nth:
  assumes inv: "key_inv s log k" and t: "t \<in># of_key k (mset (wp_write_queue s)) + of_key k (running (mset (wp_threads s)))"
  shows "exec_of s k \<le> wt_dv_seq t" "wt_dv_seq t < length (accepted k log)" "accepted k log ! wt_dv_seq t = t"
proof -
  have "t \<in> set (drop (exec_of s k) (accepted k log))" using t key_invD(3) [OF inv] by simp
  then obtain m where m: "m < length (accepted k log) - exec_of s k" "t = accepted k log ! (exec_of s k + m)"
    by (auto simp: in_set_conv_nth)
  then have "wt_dv_seq t = exec_of s k + m" using key_invD(2) [OF inv, of "exec_of s k + m"] by simp
  then show "exec_of s k \<le> wt_dv_seq t" "wt_dv_seq t < length (accepted k log)" "accepted k log ! wt_dv_seq t = t" using m by simp_all
qed

lemma distinct_accepted:
  assumes "key_inv s log k"
  shows "distinct (accepted k log)"
  using assms unfolding key_inv_def by (metis distinct_map distinct_upt)

lemma running_single:
  assumes inv: "key_inv s log k" and t: "t \<in># of_key k (running (mset (wp_threads s)))"
  shows "of_key k (running (mset (wp_threads s))) = {#t#}"
    "exec_of s k < length (accepted k log)" "accepted k log ! exec_of s k = t"
    "of_key k (mset (wp_write_queue s)) = mset (drop (Suc (exec_of s k)) (accepted k log))"
proof -
  let ?R = "of_key k (running (mset (wp_threads s)))" and ?Q = "of_key k (mset (wp_write_queue s))"
  let ?E = "exec_of s k" and ?A = "accepted k log"
  have nth: "?A ! ?E = u" "?E < length ?A" if "u \<in># ?R" for u
    using outstanding_nth(2,3) [OF inv, of u] key_invD(5) [OF inv that] that by simp_all
  show e: "?E < length ?A" "?A ! ?E = t" using nth [OF t] by simp_all
  have d: "mset (drop ?E ?A) = add_mset t (mset (drop (Suc ?E) ?A))" using e by (simp add: Cons_nth_drop_Suc [symmetric])
  have "count (mset (drop ?E ?A)) t \<le> 1"
    using distinct_accepted [OF inv] by (metis distinct_count_atmost_1 distinct_drop le_numeral_extra(4) zero_le_one)
  then have "count ?R t \<le> 1" using key_invD(3) [OF inv] by (metis add_leD2 count_union)
  moreover have "\<And>u. u \<in># ?R \<Longrightarrow> u = t" using nth(1) e(2) by blast
  ultimately show r: "?R = {#t#}"
    using t by (intro multiset_eqI) (metis One_nat_def count_add_mset count_empty count_greater_eq_one_iff count_inI le_antisym)
  show "?Q = mset (drop (Suc ?E) ?A)" using key_invD(3) [OF inv] d r by simp
qed

lemma key_inv_accept:
  assumes inv: "key_inv s log k" and t: "wt_dv_key t = k" "wt_dv_seq t = next_of s k"
    and s': "get_dv_state k s' = (get_dv_state k s)\<lparr>dv_next_seq := next_of s k + 1\<rparr>"
      "wp_write_queue s' = wp_write_queue s @ [t]" "wp_threads s' = wp_threads s"
  shows "key_inv s' (log @ [Accepted t]) k"
proof -
  note d = inv [unfolded key_inv_def]
  show ?thesis unfolding key_inv_def using d s' t by auto
qed

lemma push_write_inv:
  assumes inv: "pool_inv s log" and p: "push_write key h cb s = (seq, s')"
  shows "pool_inv s' (log @ [Accepted (last (wp_write_queue s'))])" "length (wp_write_queue s') = Suc (length (wp_write_queue s))"
proof -
  let ?t = "\<lparr>wt_dv_key = key, wt_dv_seq = next_of s key, wt_handle_id = h, wt_callback = cb\<rparr>"
  have s': "wp_write_queue s' = wp_write_queue s @ [?t]" "wp_threads s' = wp_threads s" "wp_in_flight s' = wp_in_flight s"
    "get_dv_state k s' = (if k = key then (get_dv_state key s)\<lparr>dv_next_seq := next_of s key + 1\<rparr> else get_dv_state k s)" for k
    using p by (auto simp: push_write_def Let_def get_dv_state_def)
  have "key_inv s' (log @ [Accepted ?t]) k" for k
  proof (cases "k = key")
    case True
    show ?thesis by (rule key_inv_accept [of s log k]) (use True inv s' in \<open>simp_all add: pool_inv_def\<close>)
  next
    case False
    show ?thesis by (rule key_inv_same [of s log k]) (use False inv s' in \<open>simp_all add: pool_inv_def\<close>)
  qed
  then show "pool_inv s' (log @ [Accepted (last (wp_write_queue s'))])" using inv s' by (simp add: pool_inv_def)
  show "length (wp_write_queue s') = Suc (length (wp_write_queue s))" using s'(1) by simp
qed

lemma pool_inv_other:
  assumes "pool_inv s log" "mset (wp_write_queue s') = mset (wp_write_queue s)" "\<And>k. get_dv_state k s' = get_dv_state k s"
    "running (mset (wp_threads s')) = running (mset (wp_threads s))"
    "wp_in_flight s' = size (filter_mset busy (mset (wp_threads s')))"
  shows "pool_inv s' log"
  using assms unfolding pool_inv_def by (auto intro: key_inv_same)

lemma start_prefetch_inv:
  assumes inv: "pool_inv s log" and th: "thread < length (wp_threads s)" "wp_threads s ! thread = Idle"
  shows "pool_inv (start_prefetch thread i s) log"
proof -
  obtain M where M: "mset (wp_threads s) = add_mset (wp_threads s ! thread) M" "\<And>v. mset ((wp_threads s)[thread := v]) = add_mset v M"
    using threads_split [OF th(1)] by blast
  show ?thesis
    using inv th M by (intro pool_inv_other [OF inv]) (simp_all add: start_prefetch_def get_dv_state_def pool_inv_def busy_def)
qed

lemma key_inv_begin:
  assumes inv: "key_inv s log k" and q: "wp_write_queue s = t # rest" and t: "wt_dv_key t = k" "wt_dv_seq t = exec_of s k"
    and s': "get_dv_state k s' = get_dv_state k s" "wp_write_queue s' = rest"
      "running (mset (wp_threads s')) = add_mset t (running (mset (wp_threads s)))"
  shows "key_inv s' (log @ [Began t]) k"
proof -
  note d = inv [unfolded key_inv_def]
  obtain r where r: "mset r = of_key k (running (mset (wp_threads s)))" "executions k log = serial (take (exec_of s k) (accepted k log)) @ map Began r"
    using d by blast
  have "\<exists>r'. mset r' = of_key k (running (mset (wp_threads s'))) \<and>
      executions k (log @ [Began t]) = serial (take (exec_of s' k) (accepted k (log @ [Began t]))) @ map Began r'"
    using r s' t by (intro exI [of _ "r @ [t]"]) simp
  moreover have "next_of s' k = length (accepted k (log @ [Began t]))"
    "map wt_dv_seq (accepted k (log @ [Began t])) = [0..<length (accepted k (log @ [Began t]))]"
    "of_key k (mset (wp_write_queue s')) + of_key k (running (mset (wp_threads s'))) = mset (drop (exec_of s' k) (accepted k (log @ [Began t])))"
    "exec_of s' k \<le> length (accepted k (log @ [Began t]))"
    "\<forall>u. u \<in># of_key k (running (mset (wp_threads s'))) \<longrightarrow> wt_dv_seq u = exec_of s' k"
    using d q s' t by auto
  ultimately show ?thesis unfolding key_inv_def by blast
qed

lemma begin_write_inv:
  assumes inv: "pool_inv s log" and th: "thread < length (wp_threads s)" "wp_threads s ! thread = Idle"
    and q: "wp_write_queue s = t # rest" "wt_dv_seq t = exec_of s (wt_dv_key t)"
    and s': "\<And>k. get_dv_state k s' = get_dv_state k s" "wp_write_queue s' = rest" "wp_in_flight s' = wp_in_flight s + 1"
      "wp_threads s' = (wp_threads s)[thread := Writing t]"
  shows "pool_inv s' (log @ [Began t])"
proof -
  obtain M where M: "mset (wp_threads s) = add_mset (wp_threads s ! thread) M" "\<And>v. mset ((wp_threads s)[thread := v]) = add_mset v M"
    using threads_split [OF th(1)] by blast
  have run: "running (mset (wp_threads s')) = add_mset t (running (mset (wp_threads s)))" using M th s' by simp
  have "key_inv s' (log @ [Began t]) k" for k
  proof (cases "k = wt_dv_key t")
    case True
    show ?thesis by (rule key_inv_begin [of s log k t rest]) (use True inv q s' run in \<open>simp_all add: pool_inv_def\<close>)
  next
    case False
    show ?thesis by (rule key_inv_same [of s log k]) (use False inv q s' run in \<open>simp_all add: pool_inv_def\<close>)
  qed
  moreover have "wp_in_flight s' = size (filter_mset busy (mset (wp_threads s')))" using inv M th s' by (simp add: pool_inv_def busy_def)
  ultimately show ?thesis by (simp add: pool_inv_def)
qed

lemma key_inv_end:
  assumes inv: "key_inv s log k" and t: "wt_dv_key t = k" "t \<in># running (mset (wp_threads s))"
    and s': "get_dv_state k s' = (get_dv_state k s)\<lparr>dv_exec_seq := exec_of s k + 1\<rparr>" "wp_write_queue s' = wp_write_queue s"
      "running (mset (wp_threads s)) = add_mset t (running (mset (wp_threads s')))"
  shows "key_inv s' (log @ [Ended t]) k"
proof -
  have tR: "t \<in># of_key k (running (mset (wp_threads s)))" using t by simp
  note r = running_single [OF inv tR]
  have none: "of_key k (running (mset (wp_threads s'))) = {#}" using r(1) s'(3) t(1) by simp
  obtain l where l: "mset l = {#t#}" "executions k log = serial (take (exec_of s k) (accepted k log)) @ map Began l"
    using key_invD(6) [OF inv] r(1) by auto
  then have "executions k (log @ [Ended t]) = serial (take (Suc (exec_of s k)) (accepted k log))"
    using r(2,3) t(1) by (simp add: take_Suc_conv_app_nth)
  then show ?thesis using inv r none s' t(1) unfolding key_inv_def by auto
qed

lemma finish_write_inv:
  assumes inv: "pool_inv s log" and th: "thread < length (wp_threads s)" "wp_threads s ! thread = Writing t"
  shows "pool_inv (finish_write m b thread t result s) (log @ [Ended t])"
proof -
  let ?s' = "finish_write m b thread t result s"
  obtain M where M: "mset (wp_threads s) = add_mset (wp_threads s ! thread) M" "\<And>v. mset ((wp_threads s)[thread := v]) = add_mset v M"
    using threads_split [OF th(1)] by blast
  have s': "wp_write_queue ?s' = wp_write_queue s" "wp_threads ?s' = (wp_threads s)[thread := Idle]" "wp_in_flight ?s' = wp_in_flight s - 1"
    "get_dv_state k ?s' = (if k = wt_dv_key t then (get_dv_state k s)\<lparr>dv_exec_seq := exec_of s k + 1\<rparr> else get_dv_state k s)" for k
    by (simp_all add: finish_write_def record_result_def get_dv_state_def Let_def)
  have run: "running (mset (wp_threads s)) = add_mset t (running (mset (wp_threads ?s')))" using M th s' by simp
  have "key_inv ?s' (log @ [Ended t]) k" for k
  proof (cases "k = wt_dv_key t")
    case True
    show ?thesis by (rule key_inv_end [of s log k t]) (use True inv s' run in \<open>simp_all add: pool_inv_def\<close>)
  next
    case False
    show ?thesis by (rule key_inv_same [of s log k]) (use False inv s' run in \<open>simp_all add: pool_inv_def\<close>)
  qed
  moreover have "wp_in_flight ?s' = size (filter_mset busy (mset (wp_threads ?s')))" using inv M th s' by (simp add: pool_inv_def busy_def)
  ultimately show ?thesis by (simp add: pool_inv_def)
qed

lemma finish_prefetch_inv:
  assumes inv: "pool_inv s log" and th: "thread < length (wp_threads s)" "wp_threads s ! thread = Prefetching t"
  shows "pool_inv (finish_prefetch m b thread t result s) log"
proof -
  obtain M where M: "mset (wp_threads s) = add_mset (wp_threads s ! thread) M" "\<And>v. mset ((wp_threads s)[thread := v]) = add_mset v M"
    using threads_split [OF th(1)] by blast
  show ?thesis
    using inv M th
    by (intro pool_inv_other [OF inv]) (simp_all add: finish_prefetch_def record_result_def get_dv_state_def Let_def pool_inv_def busy_def)
qed

lemma worker_iteration_cases:
  assumes th: "thread < length (wp_threads s)" "wp_threads s ! thread = Idle" and s': "s' = worker_iteration thread i s"
  shows "s' = s \<or> s' = s\<lparr>wp_threads := (wp_threads s)[thread := Exited]\<rparr> \<or>
    (\<exists>t rest. wp_write_queue s = t # rest \<and> wt_dv_seq t = exec_of s (wt_dv_key t) \<and> (\<forall>k. get_dv_state k s' = get_dv_state k s) \<and>
       wp_write_queue s' = rest \<and> wp_in_flight s' = wp_in_flight s + 1 \<and> wp_threads s' = (wp_threads s)[thread := Writing t]) \<or>
    (\<exists>u. mset (wp_write_queue u) = mset (wp_write_queue s) \<and> (\<forall>k. get_dv_state k u = get_dv_state k s) \<and> wp_threads u = wp_threads s \<and>
       wp_in_flight u = wp_in_flight s \<and> (s' = u \<or> s' = start_prefetch thread i u))"
proof (cases "(wp_prefetch_queue s = [] \<or> is_top i (wp_prefetch_queue s)) \<and> \<not> (wp_shutdown s \<and> wp_write_queue s = [] \<and> wp_prefetch_queue s = [])")
  case False
  then show ?thesis using th s' by (auto simp: worker_iteration_def)
next
  case True
  then have e: "s' = try_execute_one thread i s" using th s' by (auto simp: worker_iteration_def)
  show ?thesis
  proof (cases "wp_write_queue s")
    case Nil
    then have "s' = s \<or> s' = start_prefetch thread i s" using e by (simp add: try_execute_one_def)
    then show ?thesis by blast
  next
    case (Cons t rest)
    let ?u = "s\<lparr>wp_dv_states := (wp_dv_states s)(wt_dv_key t \<mapsto> get_dv_state (wt_dv_key t) s), wp_write_queue := rest @ [t]\<rparr>"
    show ?thesis
    proof (cases "wt_dv_seq t = exec_of s (wt_dv_key t)")
      case True
      then show ?thesis using e Cons by (simp add: try_execute_one_def Let_def get_dv_state_def)
    next
      case False
      then have "s' = ?u \<or> s' = start_prefetch thread i ?u" using e Cons by (simp add: try_execute_one_def Let_def)
      moreover have "mset (wp_write_queue ?u) = mset (wp_write_queue s) \<and> (\<forall>k. get_dv_state k ?u = get_dv_state k s) \<and> wp_threads ?u = wp_threads s \<and>
          wp_in_flight ?u = wp_in_flight s" using Cons by (simp add: get_dv_state_def)
      ultimately show ?thesis by blast
    qed
  qed
qed

lemma iterate_inv:
  assumes inv: "pool_inv s log"
  shows "pool_inv (pool_exec (Iterate thread i) s) (log @ pool_log (Iterate thread i) s)"
proof (cases "thread < length (wp_threads s) \<and> wp_threads s ! thread = Idle")
  case False
  then have "pool_exec (Iterate thread i) s = s" "pool_log (Iterate thread i) s = []"
    by (auto simp: pool_exec_def worker_iteration_def pool_log_def)
  then show ?thesis using inv by simp
next
  case True
  then have th: "thread < length (wp_threads s)" "wp_threads s ! thread = Idle" by simp_all
  define s' where "s' = worker_iteration thread i s"
  have x: "pool_exec (Iterate thread i) s = s'" by (simp add: pool_exec_def s'_def)
  have lg: "pool_log (Iterate thread i) s = (case wp_threads s' ! thread of Writing task \<Rightarrow> [Began task] | _ \<Rightarrow> [])"
    using th by (simp add: pool_log_def x)
  obtain M where M: "mset (wp_threads s) = add_mset (wp_threads s ! thread) M" "\<And>v. mset ((wp_threads s)[thread := v]) = add_mset v M"
    using threads_split [OF th(1)] by blast
  consider "s' = s" | "s' = s\<lparr>wp_threads := (wp_threads s)[thread := Exited]\<rparr>"
    | (begun) t rest where "wp_write_queue s = t # rest" "wt_dv_seq t = exec_of s (wt_dv_key t)" "\<forall>k. get_dv_state k s' = get_dv_state k s"
       "wp_write_queue s' = rest" "wp_in_flight s' = wp_in_flight s + 1" "wp_threads s' = (wp_threads s)[thread := Writing t]"
    | (other) u where "mset (wp_write_queue u) = mset (wp_write_queue s)" "\<forall>k. get_dv_state k u = get_dv_state k s" "wp_threads u = wp_threads s"
       "wp_in_flight u = wp_in_flight s" "s' = u \<or> s' = start_prefetch thread i u"
    using worker_iteration_cases [OF th s'_def] by blast
  then show ?thesis
  proof cases
    case 1
    then show ?thesis using inv x lg th by simp
  next
    case 2
    have "pool_inv s' log"
      by (rule pool_inv_other [OF inv]) (use 2 inv M th in \<open>simp_all add: get_dv_state_def pool_inv_def busy_def\<close>)
    then show ?thesis using x lg th 2 by simp
  next
    case begun
    then have "pool_inv s' (log @ [Began t])" using begin_write_inv [OF inv th begun(1,2)] by simp
    then show ?thesis using x lg th begun by simp
  next
    case other
    have u: "pool_inv u log" by (rule pool_inv_other [OF inv]) (use other inv in \<open>simp_all add: pool_inv_def\<close>)
    then have "pool_inv s' log" using other(5) start_prefetch_inv [OF u, of thread i] th other(3) by auto
    moreover have "pool_log (Iterate thread i) s = []" using lg th other(3,5) by (auto simp: start_prefetch_def)
    ultimately show ?thesis using x by simp
  qed
qed

lemma pool_exec_inv:
  assumes inv: "pool_inv s log"
  shows "pool_inv (pool_exec ev s) (log @ pool_log ev s)"
proof (cases ev)
  case (Admit_write key h cb)
  obtain seq s1 where p: "push_write key h cb s = (seq, s1)" by fastforce
  have "pool_exec ev s = s \<and> pool_log ev s = [] \<or> pool_exec ev s = s1 \<and> pool_log ev s = [Accepted (last (wp_write_queue s1))]"
    using push_write_inv(2) [OF inv p] Admit_write p by (auto simp: pool_exec_def pool_log_def admit_write_def)
  then show ?thesis using inv push_write_inv(1) [OF inv p] by auto
next
  case (Push_prefetch t d ds h cb)
  have "pool_inv (push_prefetch t d ds h cb s) log"
    by (rule pool_inv_other [OF inv]) (use inv in \<open>simp_all add: push_prefetch_def get_dv_state_def pool_inv_def\<close>)
  then show ?thesis using Push_prefetch by (simp add: pool_exec_def pool_log_def)
next
  case (Iterate thread i)
  then show ?thesis using iterate_inv [OF inv] by simp
next
  case (Finish thread result m b)
  then show ?thesis
    using inv finish_write_inv [OF inv, of thread _ m b result] finish_prefetch_inv [OF inv, of thread _ m b result]
    by (auto simp: pool_exec_def pool_log_def split: thread_state.splits)
next
  case Set_shutdown
  have "pool_inv (s\<lparr>wp_shutdown := True\<rparr>) log"
    by (rule pool_inv_other [OF inv]) (use inv in \<open>simp_all add: get_dv_state_def pool_inv_def\<close>)
  then show ?thesis using Set_shutdown by (simp add: pool_exec_def pool_log_def)
qed

lemma logged_exec_simp [simp]: "logged_exec ev (s, log) = (pool_exec ev s, log @ pool_log ev s)"
  by (simp add: logged_exec_def)

lemma logged_fold: "fold logged_exec evs (s, log) = (pool_run evs s, log @ pool_history evs s)"
proof (induction evs arbitrary: s log)
  case Nil
  then show ?case by (simp add: pool_history_def)
next
  case (Cons ev evs)
  show ?case
    using Cons [of "pool_exec ev s" "log @ pool_log ev s"] Cons [of "pool_exec ev s" "pool_log ev s"]
    by (simp add: pool_history_def)
qed

lemma pool_history_Cons: "pool_history (ev # evs) s = pool_log ev s @ pool_history evs (pool_exec ev s)"
  using logged_fold [of evs "pool_exec ev s" "pool_log ev s"] by (simp add: pool_history_def)

lemma pool_run_inv: "pool_inv s log \<Longrightarrow> pool_inv (pool_run evs s) (log @ pool_history evs s)"
proof (induction evs arbitrary: s log)
  case Nil
  then show ?case by (simp add: pool_history_def)
next
  case (Cons ev evs)
  show ?case using Cons.IH [OF pool_exec_inv [OF Cons.prems]] by (simp add: pool_history_Cons)
qed

lemma mk_pool_inv: "pool_inv (mk_pool n comm bp) []"
proof -
  have "running (mset (replicate n Idle)) = {#}" "filter_mset busy (mset (replicate n Idle)) = {#}"
    by (induction n) (simp_all add: busy_def)
  then show ?thesis by (auto simp: pool_inv_def key_inv_def mk_pool_def get_dv_state_def)
qed

lemma pool_reachable_inv: "pool_inv (pool_run evs (mk_pool n comm bp)) (pool_history evs (mk_pool n comm bp))"
  using pool_run_inv [OF mk_pool_inv, of evs] by simp

text \<open>
  C9. Writes to one variable of a dataset run one at a time and in the order in which they were submitted, whatever the number of
  threads and the interleaving: in every history of the pool the starts and ends of the writes of a key are an initial
  part of the serial execution of the accepted writes in the order of acceptance, which have
  the sequence numbers 0, 1, 2, ...
\<close>

theorem writes_in_submission_order:
  "\<exists>rest. serial (accepted k (pool_history evs (mk_pool n comm bp))) = executions k (pool_history evs (mk_pool n comm bp)) @ rest \<and>
     map wt_dv_seq (accepted k (pool_history evs (mk_pool n comm bp))) = [0..<length (accepted k (pool_history evs (mk_pool n comm bp)))]"
proof -
  define s log where "s = pool_run evs (mk_pool n comm bp)" and "log = pool_history evs (mk_pool n comm bp)"
  have inv: "key_inv s log k" using pool_reachable_inv [of evs n comm bp] by (simp add: pool_inv_def s_def log_def)
  obtain r where r: "mset r = of_key k (running (mset (wp_threads s)))" "executions k log = serial (take (exec_of s k) (accepted k log)) @ map Began r"
    using key_invD(6) [OF inv] by blast
  let ?A = "accepted k log" and ?E = "exec_of s k"
  have "serial ?A = serial (take ?E ?A) @ serial (drop ?E ?A)" by (metis append_take_drop_id serial_append)
  moreover have "\<exists>rest. serial (drop ?E ?A) = map Began r @ rest"
  proof (cases r)
    case (Cons t ts)
    then have "t \<in># of_key k (running (mset (wp_threads s)))" using r(1) by (metis list.set_intros(1) set_mset_mset)
    note single = running_single [OF inv this]
    have "r = [t]" using r(1) single(1) Cons by simp
    then show ?thesis using single(2,3) by (simp add: Cons_nth_drop_Suc [symmetric])
  qed simp
  moreover have "map wt_dv_seq ?A = [0..<length ?A]" using inv by (simp add: key_inv_def)
  ultimately show ?thesis using r(2) unfolding log_def [symmetric] by auto
qed

lemma quiet_complete:
  assumes inv: "pool_inv s log" and q: "wp_write_queue s = []" and idle: "\<forall>t\<in>set (wp_threads s). \<not> busy t"
  shows "executions k log = serial (accepted k log)"
proof -
  have "set_mset (running (mset (wp_threads s))) = {}" using idle by (auto simp: running_def busy_def)
  then have none: "running (mset (wp_threads s)) = {#}" by simp
  have k: "key_inv s log k" using inv by (simp add: pool_inv_def)
  have "mset (drop (exec_of s k) (accepted k log)) = {#}" using key_invD(3) [OF k] none q by simp
  then have "exec_of s k = length (accepted k log)" using key_invD(4) [OF k] by simp
  then show ?thesis using key_invD(1,6) [OF k] none by simp
qed

lemma drain_run: "drain es u = (True, s) \<Longrightarrow> drained s \<and> (\<exists>es'. s = pool_run es' u)"
proof (induction es arbitrary: u)
  case Nil
  then show ?case by (auto intro: exI [of _ "[]"])
next
  case (Cons e es)
  show ?case
  proof (cases "drained u")
    case True
    then show ?thesis using Cons.prems by (auto intro: exI [of _ "[]"])
  next
    case False
    then obtain es' where "drained s" "s = pool_run es' (pool_exec e u)" using Cons by auto
    then show ?thesis by (auto intro: exI [of _ "e # es'"])
  qed
qed

text \<open>
  C24. Draining means what it says: when the condition that \<open>drain\<close> waits for is met, every write accepted so far has
  been executed to its end, in order, and no thread is inside a callback.
\<close>

theorem drain_completes_all:
  assumes "drain evs' (pool_run evs (mk_pool n comm bp)) = (True, s)"
  shows "\<exists>es. s = pool_run (evs @ es) (mk_pool n comm bp) \<and> (\<forall>t\<in>set (wp_threads s). \<not> busy t) \<and>
    (\<forall>k. executions k (pool_history (evs @ es) (mk_pool n comm bp)) = serial (accepted k (pool_history (evs @ es) (mk_pool n comm bp))))"
proof -
  obtain es where d: "drained s" and s: "s = pool_run (evs @ es) (mk_pool n comm bp)" using drain_run [OF assms] by auto
  have inv: "pool_inv s (pool_history (evs @ es) (mk_pool n comm bp))" using pool_reachable_inv [of "evs @ es"] s by simp
  have "set_mset (filter_mset busy (mset (wp_threads s))) = {}" using inv d by (simp add: pool_inv_def drained_def)
  then have "\<forall>t\<in>set (wp_threads s). \<not> busy t" by auto
  then show ?thesis using s quiet_complete [OF inv] d by (auto simp: drained_def)
qed

lemma queue_bound_exec:
  assumes "\<not> bp_enabled (wp_backpressure s)" "length (wp_write_queue s) \<le> bp_queue_capacity (wp_backpressure s)"
  shows "length (wp_write_queue (pool_exec ev s)) \<le> bp_queue_capacity (wp_backpressure s) \<and> wp_backpressure (pool_exec ev s) = wp_backpressure s"
  using assms
  by (cases ev) (auto simp: pool_exec_def admit_write_def push_write_def push_prefetch_def worker_iteration_def try_execute_one_def start_prefetch_def
      finish_write_def finish_prefetch_def record_result_def Let_def split: thread_state.split list.split)

text \<open>
  Without backpressure the write queue never exceeds its capacity, in any history.
\<close>

theorem write_queue_bounded:
  assumes "\<not> bp_enabled bp"
  shows "write_queue_depth (pool_run evs (mk_pool n comm bp)) \<le> bp_queue_capacity bp"
proof -
  have "\<not> bp_enabled (wp_backpressure s) \<Longrightarrow> length (wp_write_queue s) \<le> bp_queue_capacity (wp_backpressure s) \<Longrightarrow>
      length (wp_write_queue (pool_run evs s)) \<le> bp_queue_capacity (wp_backpressure s)" for s
  proof (induction evs arbitrary: s)
    case (Cons ev evs)
    then show ?case using queue_bound_exec [OF Cons.prems, of ev] Cons.IH [of "pool_exec ev s"] by auto
  qed simp
  from this [of "mk_pool n comm bp"] show ?thesis using assms by (simp add: mk_pool_def write_queue_depth_def)
qed

text \<open>The rotation of the write queue by an idle worker reaches the first write that is ready.\<close>

lemma rotation_finds_ready:
  assumes "wp_write_queue s = xs @ t # ys" "\<forall>x\<in>set xs. wt_dv_seq x \<noteq> exec_of s (wt_dv_key x)" "wt_dv_seq t = exec_of s (wt_dv_key t)"
    "th < length (wp_threads s)" "wp_threads s ! th = Idle" "wp_prefetch_queue s = []"
  shows "wp_threads (pool_run (replicate (Suc (length xs)) (Iterate th 0)) s) ! th = Writing t"
  using assms
proof (induction xs arbitrary: s ys)
  case Nil
  then show ?case by (simp add: pool_exec_def worker_iteration_def try_execute_one_def Let_def)
next
  case (Cons x xs)
  let ?s = "pool_exec (Iterate th 0) s"
  have s': "?s = s\<lparr>wp_dv_states := (wp_dv_states s)(wt_dv_key x \<mapsto> get_dv_state (wt_dv_key x) s), wp_write_queue := xs @ t # ys @ [x]\<rparr>"
    using Cons.prems by (simp add: pool_exec_def worker_iteration_def try_execute_one_def Let_def)
  have dv: "get_dv_state k ?s = get_dv_state k s" for k by (simp add: s' get_dv_state_def)
  have "wp_threads (pool_run (replicate (Suc (length xs)) (Iterate th 0)) ?s) ! th = Writing t"
    by (rule Cons.IH [of _ "ys @ [x]"]) (use Cons.prems in \<open>simp_all add: dv\<close>, use Cons.prems in \<open>simp_all add: s'\<close>)
  then show ?case by simp
qed

text \<open>
  Waiting for their turn never starves the writes: in every reachable state in which writes are queued and none is
  being executed, an idle worker that iterates (with no prefetch to do) starts a write after at
  most as many iterations as there are queued writes.
\<close>

theorem idle_worker_starts_write:
  assumes "s = pool_run evs (mk_pool n comm bp)" "wp_write_queue s \<noteq> []" "wp_prefetch_queue s = []"
    "th < length (wp_threads s)" "wp_threads s ! th = Idle" "\<forall>t\<in>set (wp_threads s). \<not> is_Writing t"
  shows "\<exists>m<length (wp_write_queue s). \<exists>t\<in>set (wp_write_queue s).
    wp_threads (pool_run (replicate (Suc m) (Iterate th 0)) s) ! th = Writing t"
proof -
  let ?log = "pool_history evs (mk_pool n comm bp)"
  define k where "k = wt_dv_key (hd (wp_write_queue s))"
  have inv: "key_inv s ?log k" using pool_reachable_inv [of evs n comm bp] assms(1) by (simp add: pool_inv_def)
  have "set_mset (running (mset (wp_threads s))) = {}" using assms(6) by (auto simp: running_def)
  then have none: "running (mset (wp_threads s)) = {#}" by simp
  have "hd (wp_write_queue s) \<in># of_key k (mset (wp_write_queue s))" using assms(2) by (simp add: k_def)
  then have ne: "drop (exec_of s k) (accepted k ?log) \<noteq> []" using key_invD(3) [OF inv] none by auto
  define t where "t = accepted k ?log ! exec_of s k"
  have lt: "exec_of s k < length (accepted k ?log)" using ne by simp
  then have "t \<in># mset (drop (exec_of s k) (accepted k ?log))" by (simp add: t_def Cons_nth_drop_Suc [symmetric])
  then have tq: "t \<in> set (wp_write_queue s)" "wt_dv_key t = k"
    using key_invD(3) [OF inv, symmetric] none by auto
  have "wt_dv_seq t = exec_of s (wt_dv_key t)" using key_invD(2) [OF inv lt] tq(2) by (simp add: t_def)
  then obtain xs u ys where split: "wp_write_queue s = xs @ u # ys" "wt_dv_seq u = exec_of s (wt_dv_key u)"
    "\<forall>x\<in>set xs. wt_dv_seq x \<noteq> exec_of s (wt_dv_key x)"
    using split_list_first_prop [of "wp_write_queue s" "\<lambda>t. wt_dv_seq t = exec_of s (wt_dv_key t)"] tq(1) by blast
  then show ?thesis
    using rotation_finds_ready [OF split(1,3,2) assms(4,5,3)] by (intro exI [of _ "length xs"]) auto
qed

definition work_event :: "pool_event \<Rightarrow> bool" where
  "work_event ev \<longleftrightarrow> (case ev of Iterate _ _ \<Rightarrow> True | Finish _ _ _ _ \<Rightarrow> True | Set_shutdown \<Rightarrow> True | _ \<Rightarrow> False)"

lemma exec_threads_length: "length (wp_threads (pool_exec ev s)) = length (wp_threads s)"
  by (cases ev) (auto simp: pool_exec_def admit_write_def push_write_def push_prefetch_def worker_iteration_def try_execute_one_def start_prefetch_def
      finish_write_def finish_prefetch_def record_result_def Let_def split: thread_state.split list.split)

lemma exit_needs_shutdown:
  assumes "Exited \<in> set (wp_threads s) \<longrightarrow> wp_shutdown s"
  shows "Exited \<in> set (wp_threads (pool_exec ev s)) \<longrightarrow> wp_shutdown (pool_exec ev s)"
  using assms
  by (cases ev) (auto simp: pool_exec_def admit_write_def push_write_def push_prefetch_def worker_iteration_def try_execute_one_def start_prefetch_def
      finish_write_def finish_prefetch_def record_result_def Let_def split: thread_state.split list.split dest!: subsetD [OF set_update_subset_insert])

lemma exit_means_empty:
  assumes "Exited \<in> set (wp_threads s) \<longrightarrow> wp_write_queue s = [] \<and> wp_prefetch_queue s = []" "work_event ev"
  shows "Exited \<in> set (wp_threads (pool_exec ev s)) \<longrightarrow> wp_write_queue (pool_exec ev s) = [] \<and> wp_prefetch_queue (pool_exec ev s) = []"
  using assms
  by (cases ev) (auto simp: work_event_def pool_exec_def worker_iteration_def try_execute_one_def start_prefetch_def
      finish_write_def finish_prefetch_def record_result_def Let_def split: thread_state.split list.split dest!: subsetD [OF set_update_subset_insert])

lemma run_exit_needs_shutdown:
  "(Exited \<in> set (wp_threads s) \<longrightarrow> wp_shutdown s) \<Longrightarrow> Exited \<in> set (wp_threads (pool_run evs s)) \<longrightarrow> wp_shutdown (pool_run evs s)"
proof (induction evs arbitrary: s)
  case (Cons ev evs)
  show ?case using Cons.IH [OF exit_needs_shutdown [OF Cons.prems, of ev]] by simp
qed simp

lemma run_exit_means_empty:
  assumes "list_all work_event evs" "Exited \<in> set (wp_threads s) \<longrightarrow> wp_write_queue s = [] \<and> wp_prefetch_queue s = []"
  shows "Exited \<in> set (wp_threads (pool_run evs s)) \<longrightarrow> wp_write_queue (pool_run evs s) = [] \<and> wp_prefetch_queue (pool_run evs s) = []"
  using assms
proof (induction evs arbitrary: s)
  case (Cons ev evs)
  then have "work_event ev" "list_all work_event evs" by simp_all
  then show ?case using Cons.IH [OF _ exit_means_empty [OF Cons.prems(2)], of ev] by simp
qed simp

lemma run_threads_length: "length (wp_threads (pool_run evs s)) = length (wp_threads s)"
  by (induction evs arbitrary: s) (simp_all add: exec_threads_length)

text \<open>
  C25. An orderly shutdown loses nothing: when \<open>shutdown\<close> has joined the threads of a pool with at least one thread, and nobody
  submitted work after the flag was set, both queues are empty and every accepted write has been executed to its end.
\<close>

theorem shutdown_completes_all:
  assumes "0 < n" "\<not> wp_shutdown (pool_run evs (mk_pool n comm bp))" "list_all work_event evs'"
    and "shutdown_pool evs' (pool_run evs (mk_pool n comm bp)) = Some s"
  shows "wp_write_queue s = [] \<and> wp_prefetch_queue s = [] \<and>
    (\<forall>k. executions k (pool_history (evs @ Set_shutdown # evs') (mk_pool n comm bp)) =
         serial (accepted k (pool_history (evs @ Set_shutdown # evs') (mk_pool n comm bp))))"
proof -
  let ?s0 = "mk_pool n comm bp" and ?es = "evs @ Set_shutdown # evs'"
  have s: "s = pool_run ?es ?s0" and j: "list_all (\<lambda>t. t = Exited) (wp_threads s)"
    using assms(4) by (auto simp: shutdown_pool_def joined_def Let_def split: if_splits)
  have "Exited \<notin> set (wp_threads (pool_run evs ?s0))"
    using run_exit_needs_shutdown [of ?s0 evs] assms(2) by (auto simp: mk_pool_def)
  then have "Exited \<in> set (wp_threads s) \<longrightarrow> wp_write_queue s = [] \<and> wp_prefetch_queue s = []"
    unfolding s using run_exit_means_empty [of "Set_shutdown # evs'" "pool_run evs ?s0"] assms(3) by (simp add: work_event_def)
  moreover have "length (wp_threads s) = n" unfolding s run_threads_length by (simp add: mk_pool_def)
  then have "hd (wp_threads s) \<in> set (wp_threads s)" using assms(1) by (intro hd_in_set) auto
  ultimately have q: "wp_write_queue s = []" "wp_prefetch_queue s = []" using j by (auto simp: list_all_iff)
  have "pool_inv s (pool_history ?es ?s0)" unfolding s by (rule pool_reachable_inv)
  then show ?thesis using q quiet_complete [of s "pool_history ?es ?s0"] j by (auto simp: list_all_iff busy_def)
qed

text \<open>
  A submission answers truthfully: \<open>submit_write\<close> returns either a queue-full status, and the queue holds at least its
  capacity, or \<open>AMIO_OK\<close>; unless the pool is shut down the accepted task is at the
  end of the queue with the returned sequence number, which is the number of earlier accepted writes of its key.
\<close>

theorem submit_write_result:
  assumes "s = pool_run evs (mk_pool n comm bp)" "submit_write key h cb before waiting s = ((rc, seq), s')" "\<not> wp_shutdown s'"
  shows "(rc = AMIO_ERR_QUEUE_FULL \<and> seq = 0 \<and> \<not> bp_enabled (wp_backpressure s') \<and>
      bp_queue_capacity (wp_backpressure s') \<le> write_queue_depth s') \<or>
    (rc = AMIO_OK \<and> wp_write_queue s' \<noteq> [] \<and>
      last (wp_write_queue s') = \<lparr>wt_dv_key = key, wt_dv_seq = seq, wt_handle_id = h, wt_callback = cb\<rparr> \<and>
      (\<exists>es. s' = snd (push_write key h cb (pool_run es s)) \<and> seq = length (accepted key (pool_history (evs @ es) (mk_pool n comm bp)))))"
proof -
  have "\<exists>es. submit_write key h cb before waiting s = admit_write key h cb (pool_run es s)" if "\<not> wp_shutdown s"
  proof -
    have "submit_write key h cb before waiting s = admit_write key h cb (pool_run before s) \<or>
        submit_write key h cb before waiting s = admit_write key h cb (pool_run (before @ waiting) s)"
      using that by (simp add: submit_write_def Let_def)
    then show ?thesis by blast
  qed
  moreover have "\<not> wp_shutdown s" using assms(2,3) by (auto simp: submit_write_def)
  ultimately obtain es where es: "admit_write key h cb (pool_run es s) = ((rc, seq), s')" using assms(2) by auto
  have "next_of (pool_run es s) key = length (accepted key (pool_history (evs @ es) (mk_pool n comm bp)))"
    using pool_reachable_inv [of "evs @ es" n comm bp] assms(1) by (simp add: pool_inv_def key_inv_def)
  then show ?thesis
    using es assms(3) by (auto simp: admit_write_def push_write_def write_queue_depth_def Let_def split: if_splits)
qed

section \<open>Witnesses\<close>

abbreviation demo_key :: DatasetVariableKey where
  "demo_key \<equiv> \<lparr>dk_dataset_id = 1, dk_variable_id = 2\<rparr>"

abbreviation demo_comm :: IOCommunicator where
  "demo_comm \<equiv> \<lparr>ic_valid = True, ic_is_io_rank = True, ic_comm = None\<rparr>"

abbreviation demo_pool :: "nat \<Rightarrow> WorkerPool" where
  "demo_pool n \<equiv> mk_pool n demo_comm default_backpressure"

definition demo_work :: "pool_event list" where
  "demo_work = [Admit_write demo_key 5 10, Admit_write demo_key 5 11, Iterate 0 0, Iterate 1 0, Finish 0 (Some Ex_other) False [], Iterate 1 0, Finish 1 None False []]"

theorem drain_completes_all_witness:
  "\<exists>s. drain [] (pool_run demo_work (demo_pool 2)) = (True, s) \<and> (\<forall>t\<in>set (wp_threads s). \<not> busy t)"
proof -
  have d: "drain [] (pool_run demo_work (demo_pool 2)) = (True, pool_run demo_work (demo_pool 2))"
  proof -
    have "drained (pool_run demo_work (demo_pool 2))" by code_simp
    then show ?thesis by simp
  qed
  then show ?thesis using drain_completes_all [OF d] by blast
qed

theorem write_queue_bounded_witness:
  "write_queue_depth (pool_run demo_work (demo_pool 2)) \<le> 1024"
  using write_queue_bounded [of default_backpressure demo_work 2 demo_comm] by (simp add: default_backpressure_def)

theorem idle_worker_starts_write_witness:
  "\<exists>m<2. is_Writing (wp_threads (pool_run (replicate (Suc m) (Iterate 1 0)) (pool_run (take 2 demo_work) (demo_pool 2))) ! 1)"
proof -
  let ?s = "pool_run (take 2 demo_work) (demo_pool 2)"
  have q: "length (wp_write_queue ?s) = 2" "wp_prefetch_queue ?s = []" "1 < length (wp_threads ?s)" "wp_threads ?s ! 1 = Idle"
    "\<forall>t\<in>set (wp_threads ?s). \<not> is_Writing t"
    by code_simp+
  then have "wp_write_queue ?s \<noteq> []" by auto
  from idle_worker_starts_write [OF refl this q(2-5)] show ?thesis using q(1) by force
qed

theorem shutdown_completes_all_witness:
  "wp_write_queue (pool_run [Iterate 0 0, Iterate 1 0] (pool_exec Set_shutdown (pool_run demo_work (demo_pool 2)))) = []"
proof -
  have "joined (pool_run [Iterate 0 0, Iterate 1 0] (pool_exec Set_shutdown (pool_run demo_work (demo_pool 2))))"
    "\<not> wp_shutdown (pool_run demo_work (demo_pool 2))" by code_simp+
  then show ?thesis
    using shutdown_completes_all [of 2 demo_work demo_comm default_backpressure "[Iterate 0 0, Iterate 1 0]"]
    by (simp add: shutdown_pool_def work_event_def Let_def)
qed

theorem submit_write_result_witness:
  "fst (submit_write demo_key 0 12 [] [] (pool_run demo_work (demo_pool 2))) = (AMIO_OK, 2) \<and>
   (\<exists>es. 2 = length (accepted demo_key (pool_history (demo_work @ es) (demo_pool 2))))"
proof -
  let ?s = "pool_run demo_work (demo_pool 2)"
  have f: "fst (submit_write demo_key 0 12 [] [] ?s) = (AMIO_OK, 2)" "\<not> wp_shutdown (snd (submit_write demo_key 0 12 [] [] ?s))" by code_simp+
  then have "submit_write demo_key 0 12 [] [] ?s = ((AMIO_OK, 2), snd (submit_write demo_key 0 12 [] [] ?s))" by (metis prod.collapse)
  from submit_write_result [OF refl this f(2)] show ?thesis using f(1) by auto
qed

text \<open>
  A submission that passes the check of the shutdown flag before it takes the mutex can be accepted after the last worker has
  left: the write is reported as accepted and never executed.
\<close>

lemma write_lost_in_shutdown:
  "(case submit_write demo_key 0 7 [Set_shutdown, Iterate 0 0] [] (demo_pool 1) of
      ((rc, seq), s) \<Rightarrow> rc = AMIO_OK \<and> joined s \<and> map wt_callback (wp_write_queue s) = [7])"
  by code_simp

text \<open>The convenience overload returns 0 for the first accepted write and for a refused one.\<close>

lemma first_sequence_is_failure_code:
  "fst (submit_write_legacy demo_key 0 7 [] [] (demo_pool 1)) = 0 \<and>
   fst (submit_write_legacy demo_key 0 7 [] [] (mk_pool 1 demo_comm (default_backpressure\<lparr>bp_queue_capacity := 0\<rparr>))) = 0"
  by code_simp

text \<open>With backpressure a writer whose wait ends without progress enqueues above the high watermark.\<close>

lemma backpressure_wait_expires:
  "let s = pool_run [Admit_write demo_key 0 1] (mk_pool 0 demo_comm \<lparr>bp_enabled = True, bp_low_watermark = 1, bp_high_watermark = 1, bp_queue_capacity = 4\<rparr>)
   in write_queue_depth (snd (submit_write demo_key 0 2 [] [] s)) = 2"
  by code_simp

end
