(* ===== verification/Logs_Consolidation.thy ===== *)
theory Logs_Consolidation
  imports "HOL-Library.List_Lexorder" "HOL-Library.Char_ord" Helm_Prelude Helm_Decimal
begin

text \<open>
  Consolidation of log records over the ranks of a communicator: \<^verbatim>\<open>logs/src/detail/consolidation.cpp\<close>, with the severities
  (\<^verbatim>\<open>severity.hpp\<close>, \<^verbatim>\<open>severity.cpp\<close>) and records (\<^verbatim>\<open>log_record.cpp\<close>) it works on.

  The wire format stores a 32-bit integer as its object representation; the model writes it in little-endian order.
  The ordered map of groups is an association list in ascending order of its keys. The results of \<^verbatim>\<open>MPI_Comm_size\<close>, \<^verbatim>\<open>MPI_Gather\<close>
  and \<^verbatim>\<open>MPI_Gatherv\<close> are parameters.
\<close>

section \<open>Severities and records\<close>

datatype Severity_Level = Severity (severity_value: int)

definition DEBUG :: Severity_Level where
  "DEBUG = Severity 0"

definition INFO :: Severity_Level where
  "INFO = Severity 1"

definition WARNING :: Severity_Level where
  "WARNING = Severity 2"

definition ERROR :: Severity_Level where
  "ERROR = Severity 3"

definition FATAL :: Severity_Level where
  "FATAL = Severity 4"

lemmas severity_defs = DEBUG_def INFO_def WARNING_def ERROR_def FATAL_def

definition severity_to_string :: "Severity_Level \<Rightarrow> string" where
  "severity_to_string level =
     (if level = DEBUG then ''DEBUG''
      else if level = INFO then ''INFO''
      else if level = WARNING then ''WARNING''
      else if level = ERROR then ''ERROR''
      else if level = FATAL then ''FATAL''
      else ''UNKNOWN'')"

record Source_Location =
  loc_file :: string
  loc_line :: int
  loc_function :: string

record Log_Record =
  lr_severity :: Severity_Level
  lr_message :: string
  lr_rank :: int
  lr_location :: "Source_Location option"
  lr_context_labels :: "string list"
  lr_stack_trace :: "string option"

definition triggers_abort :: "Log_Record \<Rightarrow> bool" where
  "triggers_abort r \<longleftrightarrow> lr_severity r = FATAL"

section \<open>Ranges of ranks\<close>

record Rank_Range =
  rr_first :: int
  rr_last :: int

definition range_to_string :: "Rank_Range \<Rightarrow> string" where
  "range_to_string r = dec_int (rr_first r) @ ''-'' @ dec_int (rr_last r)"

fun compact_loop :: "int \<Rightarrow> int \<Rightarrow> int list \<Rightarrow> Rank_Range list" where
  "compact_loop first last1 [] = [\<lparr>rr_first = first, rr_last = last1\<rparr>]"
| "compact_loop first last1 (r # ranks) =
     (if r = last1 + 1 then compact_loop first r ranks
      else \<lparr>rr_first = first, rr_last = last1\<rparr> # compact_loop r r ranks)"

definition compact_ranges :: "int list \<Rightarrow> Rank_Range list" where
  "compact_ranges ranks =
     (if ranks = [] then []
      else case remdups_adj (sort ranks) of
             [] \<Rightarrow> []
           | r # rest \<Rightarrow> compact_loop r r rest)"

section \<open>Keys\<close>

datatype Consolidation_Key = Consolidation_Key (ck_severity: Severity_Level) (ck_message: string)

definition key_compare :: "Consolidation_Key \<Rightarrow> Consolidation_Key \<Rightarrow> bool" where
  "key_compare a b =
     (if ck_severity a \<noteq> ck_severity b then severity_value (ck_severity a) < severity_value (ck_severity b)
      else ck_message a < ck_message b)"

instantiation Consolidation_Key :: linorder
begin

definition less_Consolidation_Key :: "Consolidation_Key \<Rightarrow> Consolidation_Key \<Rightarrow> bool" where
  "less_Consolidation_Key = key_compare"

definition less_eq_Consolidation_Key :: "Consolidation_Key \<Rightarrow> Consolidation_Key \<Rightarrow> bool" where
  "less_eq_Consolidation_Key a b \<longleftrightarrow> a = b \<or> a < b"

instance
proof
  fix a b c :: Consolidation_Key
  have sev: "ck_severity a = ck_severity b \<longleftrightarrow> severity_value (ck_severity a) = severity_value (ck_severity b)" for a b
    by (metis Severity_Level.expand)
  have ne: "x \<noteq> y \<Longrightarrow> severity_value x \<noteq> severity_value y" for x y by (metis Severity_Level.expand)
  show "(a < b) = (a \<le> b \<and> \<not> b \<le> a)"
    by (auto simp: less_eq_Consolidation_Key_def less_Consolidation_Key_def key_compare_def split: if_splits)
  show "a \<le> a" by (simp add: less_eq_Consolidation_Key_def)
  show "a \<le> b \<Longrightarrow> b \<le> c \<Longrightarrow> a \<le> c"
    by (auto simp: less_eq_Consolidation_Key_def less_Consolidation_Key_def key_compare_def sev split: if_splits)
  show "a \<le> b \<Longrightarrow> b \<le> a \<Longrightarrow> a = b"
    by (auto simp: less_eq_Consolidation_Key_def less_Consolidation_Key_def key_compare_def split: if_splits)
  show "a \<le> b \<or> b \<le> a"
    using ne [of "ck_severity a" "ck_severity b"]
    by (auto simp: less_eq_Consolidation_Key_def less_Consolidation_Key_def key_compare_def Consolidation_Key.expand)
qed

end

definition record_key :: "Log_Record \<Rightarrow> Consolidation_Key" where
  "record_key r = Consolidation_Key (lr_severity r) (lr_message r)"

record Consolidated_Record =
  cr_key :: Consolidation_Key
  cr_rank_count :: int
  cr_ranges :: "Rank_Range list"

section \<open>Wire format\<close>

definition int_bytes :: "int \<Rightarrow> string" where
  "int_bytes x = map (\<lambda>k. char_of (nat (x div 256 ^ k mod 256))) [0..<4]"

definition int_of_bytes :: "string \<Rightarrow> int" where
  "int_of_bytes bs = wrap32 (foldr (\<lambda>b v. of_char b + 256 * v) bs 0)"

definition serialize_record :: "Log_Record \<Rightarrow> int \<Rightarrow> string \<Rightarrow> string result" where
  "serialize_record record1 rank buffer =
     (let severity = severity_value (lr_severity record1); msg_len = wrap32 (int (length (lr_message record1))) in
      if msg_len < 0 then Inl Undefined_behaviour
      else Inr (buffer @ int_bytes severity @ int_bytes msg_len @ take (nat msg_len) (lr_message record1) @ int_bytes rank))"

type_synonym groups = "(Consolidation_Key \<times> int list) list"

fun group_push :: "Consolidation_Key \<Rightarrow> int \<Rightarrow> groups \<Rightarrow> groups" where
  "group_push key rank [] = [(key, [rank])]"
| "group_push key rank ((k, ranks) # groups) =
     (if key = k then (k, ranks @ [rank]) # groups
      else if key < k then (key, [rank]) # (k, ranks) # groups
      else (k, ranks) # group_push key rank groups)"

function deserialize_records :: "string \<Rightarrow> groups \<Rightarrow> groups" where
  "deserialize_records buffer groups =
     (if length buffer < 12 then groups
      else
        let severity = int_of_bytes (take 4 buffer); msg_len = int_of_bytes (take 4 (drop 4 buffer)) in
        if msg_len < 0 \<or> 8 + nat msg_len + 4 > length buffer then groups
        else
          let message = take (nat msg_len) (drop 8 buffer); rank = int_of_bytes (take 4 (drop (8 + nat msg_len) buffer))
          in deserialize_records (drop (8 + nat msg_len + 4) buffer) (group_push (Consolidation_Key (Severity severity) message) rank groups))"
  by pat_completeness auto

termination deserialize_records
  by (relation "measure (\<lambda>(buffer, _). length buffer)") auto

declare deserialize_records.simps [simp del]

fun serialize_all :: "Log_Record list \<Rightarrow> int \<Rightarrow> string \<Rightarrow> string result" where
  "serialize_all [] rank buffer = Inr buffer"
| "serialize_all (r # rs) rank buffer = bindR (serialize_record r rank buffer) (serialize_all rs rank)"

section \<open>Consolidation\<close>

definition consolidated :: "Consolidation_Key \<times> int list \<Rightarrow> Consolidated_Record" where
  "consolidated g =
     (let ranges = compact_ranges (snd g) in
      \<lparr>cr_key = fst g, cr_rank_count = foldl (\<lambda>count r. count + (rr_last r - rr_first r + 1)) 0 ranges, cr_ranges = ranges\<rparr>)"

fun displacements :: "int \<Rightarrow> int list \<Rightarrow> (int list \<times> int) result" where
  "displacements acc [] = Inr ([], acc)"
| "displacements acc (n # sizes) =
     bindR (ub32 (acc + n)) (\<lambda>acc'. mapR (\<lambda>(ds, sum). (acc # ds, sum)) (displacements acc' sizes))"

text \<open>
  The collective call on one rank: \<open>gather\<close> returns the sizes at the root, \<open>gatherv sizes displs total\<close> the buffer
  of the given size that it filled at the root; \<open>None\<close> is a call that did not return \<^verbatim>\<open>MPI_SUCCESS\<close>.
\<close>

definition consolidate_collective ::
  "int option \<Rightarrow> (int \<Rightarrow> int list option) \<Rightarrow> (string \<Rightarrow> int list \<Rightarrow> int list \<Rightarrow> int \<Rightarrow> string option) \<Rightarrow> int \<Rightarrow> Log_Record list \<Rightarrow>
     Consolidated_Record list result" where
  "consolidate_collective comm_size gather gatherv my_rank buffered =
     (case comm_size of
        None \<Rightarrow> Inr []
      | Some n \<Rightarrow>
          bindR (serialize_all buffered my_rank []) (\<lambda>local_data.
            case gather (wrap32 (int (length local_data))) of
              None \<Rightarrow> Inr []
            | Some all_sizes \<Rightarrow>
                bindR (if my_rank = 0 then displacements 0 all_sizes else Inr ([], 0)) (\<lambda>(displs, size1).
                  case gatherv local_data all_sizes displs size1 of
                    None \<Rightarrow> Inr []
                  | Some all_data \<Rightarrow>
                      if my_rank \<noteq> 0 then Inr []
                      else Inr (map consolidated (deserialize_records all_data [])))))"

definition consolidate_local :: "Log_Record list \<Rightarrow> Consolidated_Record list" where
  "consolidate_local buffered =
     map (\<lambda>key. \<lparr>cr_key = key, cr_rank_count = int (length (filter (\<lambda>r. lr_severity r = ck_severity key \<and> lr_message r = ck_message key) buffered)),
                 cr_ranges = [\<lparr>rr_first = - 1, rr_last = - 1\<rparr>]\<rparr>)
       (map fst (fold (\<lambda>r. group_push (record_key r) 1) buffered []))"

section \<open>Compaction is exact\<close>

definition covers :: "Rank_Range list \<Rightarrow> int set" where
  "covers rs = (\<Union>r\<in>set rs. {rr_first r..rr_last r})"

definition separated :: "Rank_Range list \<Rightarrow> bool" where
  "separated rs \<longleftrightarrow> (\<forall>r\<in>set rs. rr_first r \<le> rr_last r) \<and> sorted_wrt (\<lambda>a b. rr_last a + 1 < rr_first b) rs"

lemma covers_simps [simp]: "covers [] = {}" "covers (r # rs) = {rr_first r..rr_last r} \<union> covers rs"
  by (simp_all add: covers_def)

lemma compact_loop_spec:
  assumes "lo \<le> hi" "sorted_wrt (<) (hi # ranks)"
  shows "covers (compact_loop lo hi ranks) = {lo..hi} \<union> set ranks \<and> separated (compact_loop lo hi ranks) \<and>
    (\<forall>r\<in>set (compact_loop lo hi ranks). lo \<le> rr_first r)"
  using assms
proof (induction lo hi ranks rule: compact_loop.induct)
  case (1 lo hi)
  then show ?case by (simp add: separated_def)
next
  case (2 lo hi r ranks)
  show ?case
  proof (cases "r = hi + 1")
    case True
    then have "{lo..r} = insert r {lo..hi}" using 2(3) by auto
    then show ?thesis using 2(1) [OF True] 2(3,4) True by auto
  next
    case False
    then have lt: "hi + 1 < r" using 2(4) by simp
    have ih: "covers (compact_loop r r ranks) = {r..r} \<union> set ranks" "separated (compact_loop r r ranks)"
      "\<forall>q\<in>set (compact_loop r r ranks). r \<le> rr_first q"
      using 2(2) [OF False] 2(4) by simp_all
    then show ?thesis using False lt 2(3) by (auto simp: separated_def)
  qed
qed

lemma sorted_distinct_adj: "sorted xs \<Longrightarrow> distinct_adj xs \<Longrightarrow> distinct xs"
  by (induction xs rule: induct_list012) fastforce+

lemma separated_ConsD: "separated (r # rs) \<Longrightarrow> separated rs \<and> rr_first r \<le> rr_last r \<and> (\<forall>q\<in>set rs. rr_last r + 1 < rr_first q)"
  by (simp add: separated_def)

lemma finite_covers [simp]: "finite (covers rs)"
  by (simp add: covers_def)

lemma separated_card:
  "separated rs \<Longrightarrow> foldl (\<lambda>count r. count + (rr_last r - rr_first r + 1)) c rs = c + int (card (covers rs))"
proof (induction rs arbitrary: c)
  case (Cons r rs)
  note d = separated_ConsD [OF Cons.prems]
  have "{rr_first r..rr_last r} \<inter> covers rs = {}" using d by (force simp: covers_def)
  then have "card (covers (r # rs)) = card {rr_first r..rr_last r} + card (covers rs)" by (simp add: card_Un_disjoint)
  then show ?case using Cons.IH [of "c + (rr_last r - rr_first r + 1)"] d by simp
qed simp

lemma compact_canonical:
  "covers (compact_ranges ranks) = set ranks \<and> separated (compact_ranges ranks) \<and>
   cr_rank_count (consolidated (key, ranks)) = int (card (set ranks))"
proof -
  have "covers (compact_ranges ranks) = set ranks \<and> separated (compact_ranges ranks)"
  proof (cases "remdups_adj (sort ranks)")
    case Nil
    then have "ranks = []" by (metis remdups_adj_set set_empty set_sort)
    then show ?thesis by (simp add: compact_ranges_def separated_def)
  next
    case (Cons r rest)
    have "sorted (remdups_adj (sort ranks))" "distinct (remdups_adj (sort ranks))"
      by (simp_all add: sorted_distinct_adj)
    then have "sorted_wrt (<) (r # rest)" unfolding Cons by (simp only: strict_sorted_iff)
    moreover have "set (r # rest) = set ranks" using Cons by (metis remdups_adj_set set_sort)
    moreover have "ranks \<noteq> []" using Cons by auto
    ultimately show ?thesis using compact_loop_spec [of r r rest] Cons by (auto simp: compact_ranges_def)
  qed
  then show ?thesis using separated_card [of "compact_ranges ranks" 0] by (simp add: consolidated_def Let_def)
qed

text \<open>
  The ranges of a consolidated record are an exact and canonical summary of the contributing ranks: together they cover precisely
  the given ranks, in ascending order, with a gap of at least one rank between neighbours, so that no two could be merged, and
  the sum of their lengths is the number of different ranks.
\<close>

theorem compact_ranges_canonical:
  "covers (compact_ranges ranks) = set ranks \<and> separated (compact_ranges ranks) \<and>
   cr_rank_count (consolidated (key, ranks)) = int (card (set ranks))"
  by (rule compact_canonical)

section \<open>The wire format is a round trip\<close>

lemma length_int_bytes [simp]: "length (int_bytes x) = 4"
  by (simp add: int_bytes_def)

lemma of_char_byte: "0 \<le> b \<Longrightarrow> b < 256 \<Longrightarrow> (of_char (char_of (nat b) :: char) :: int) = b"
proof -
  assume b: "0 \<le> b" "b < 256"
  have "(of_char (char_of (nat b) :: char) :: int) = int (of_char (char_of (nat b) :: char))" by (simp only: of_nat_of_char)
  also have "\<dots> = int (nat b mod 256)" by (simp only: of_char_of)
  finally show ?thesis using b by simp
qed

lemma int_bytes_value: "foldr (\<lambda>b v. of_char b + 256 * v) (int_bytes x) (0::int) = x mod 4294967296"
proof -
  have "x mod 4294967296 = x mod (256 * (256 * (256 * 256)))" by simp
  also have "\<dots> = x mod 256 + 256 * (x div 256 mod 256 + 256 * (x div 256 div 256 mod 256 + 256 * (x div 256 div 256 div 256 mod 256)))"
    by (simp only: zmod_zmult2_eq [of 256] zmod_zmult2_eq) simp
  also have "\<dots> = foldr (\<lambda>b v. of_char b + 256 * v) (int_bytes x) 0"
    by (simp add: int_bytes_def upt_rec of_char_byte zdiv_zmult2_eq [symmetric])
  finally show ?thesis by simp
qed

lemma int_bytes_roundtrip [simp]: "is_i32 x \<Longrightarrow> int_of_bytes (int_bytes x) = x"
proof -
  assume x: "is_i32 x"
  have "wrap32 (x mod 4294967296) = wrap32 x" unfolding wrap32_alt by (simp add: mod_add_left_eq)
  then show ?thesis using x by (simp add: int_of_bytes_def int_bytes_value)
qed

definition wire :: "int \<Rightarrow> Log_Record \<Rightarrow> string" where
  "wire rank r = int_bytes (severity_value (lr_severity r)) @ int_bytes (int (length (lr_message r))) @ lr_message r @ int_bytes rank"

definition wire_ok :: "Log_Record \<Rightarrow> bool" where
  "wire_ok r \<longleftrightarrow> is_i32 (severity_value (lr_severity r)) \<and> length (lr_message r) < 2 ^ 31"

lemma wire_ok_len: "wire_ok r \<Longrightarrow> is_i32 (int (length (lr_message r)))"
  by (simp add: wire_ok_def is_i32_def)

lemma serialize_record_wire: "wire_ok r \<Longrightarrow> serialize_record r rank buffer = Inr (buffer @ wire rank r)"
  using wire_ok_len [of r] by (simp add: serialize_record_def wire_def)

lemma serialize_all_wire: "list_all wire_ok rs \<Longrightarrow> serialize_all rs rank buffer = Inr (buffer @ concat (map (wire rank) rs))"
  by (induction rs arbitrary: buffer) (simp_all add: serialize_record_wire)

lemma deserialize_step:
  assumes r: "wire_ok r" and rank: "is_i32 rank"
  shows "deserialize_records (wire rank r @ rest) groups = deserialize_records rest (group_push (record_key r) rank groups)"
proof -
  have "is_i32 (severity_value (lr_severity r))" using r by (simp add: wire_ok_def)
  then show ?thesis
    using wire_ok_len [OF r] rank by (subst deserialize_records.simps) (simp add: wire_def record_key_def Let_def)
qed

lemma deserialize_short: "length buffer < 12 \<Longrightarrow> deserialize_records buffer groups = groups"
  by (subst deserialize_records.simps) simp

lemma deserialize_wire:
  assumes "list_all wire_ok rs" "is_i32 rank"
  shows "deserialize_records (concat (map (wire rank) rs) @ rest) groups = deserialize_records rest (fold (\<lambda>r. group_push (record_key r) rank) rs groups)"
  using assms(1) by (induction rs arbitrary: groups) (simp_all add: deserialize_step [OF _ assms(2)])

text \<open>
  C34. Serialising records and reading them back loses nothing: for records whose message fits the length field, reading the bytes that
  \<open>serialize_record\<close> wrote enters every record's key with its rank into the groups, in order, and stops at the end of the buffer.
\<close>

theorem record_wire_roundtrip:
  assumes "list_all wire_ok rs" "is_i32 rank"
  shows "\<exists>data. serialize_all rs rank [] = Inr data \<and> deserialize_records data groups = fold (\<lambda>r. group_push (record_key r) rank) rs groups"
  using serialize_all_wire [OF assms(1), of rank "[]"] deserialize_wire [OF assms, of "[]" groups] deserialize_short [of "[]"] by simp

section \<open>Groups\<close>

lemma group_push_keys: "set (map fst (group_push k r g)) = insert k (set (map fst g))"
  by (induction k r g rule: group_push.induct) auto

lemma group_push_sorted: "sorted_wrt (<) (map fst g) \<Longrightarrow> sorted_wrt (<) (map fst (group_push k r g))"
proof (induction k r g rule: group_push.induct)
  case (2 key rank k ranks groups)
  then show ?case
    using group_push_keys [of key rank groups] by (auto simp: not_less order.strict_iff_order dest: order.strict_trans)
qed simp

lemma group_push_map_of:
  "sorted_wrt (<) (map fst g) \<Longrightarrow>
   map_of (group_push k r g) = (map_of g)(k \<mapsto> (case map_of g k of None \<Rightarrow> [] | Some rs \<Rightarrow> rs) @ [r])"
proof (induction k r g rule: group_push.induct)
  case (2 key rank k ranks groups)
  have "map_of groups key = None" if "key < k" using 2(2) that by (auto simp: map_of_eq_None_iff dest: order.strict_trans)
  then show ?case using 2 by (auto simp: fun_eq_iff)
qed simp

abbreviation push_all :: "(Consolidation_Key \<times> int) list \<Rightarrow> groups \<Rightarrow> groups" where
  "push_all ps g \<equiv> fold (\<lambda>(k, r). group_push k r) ps g"

lemma push_all_sorted: "sorted_wrt (<) (map fst g) \<Longrightarrow> sorted_wrt (<) (map fst (push_all ps g))"
  by (induction ps arbitrary: g) (auto simp: group_push_sorted)

lemma push_all_keys: "set (map fst (push_all ps g)) = fst ` set ps \<union> set (map fst g)"
  by (induction ps arbitrary: g) (auto simp: group_push_keys simp del: set_map)

lemma push_all_map_of:
  assumes "sorted_wrt (<) (map fst g)" "k \<in> fst ` set ps"
  shows "map_of (push_all ps g) k = Some ((case map_of g k of None \<Rightarrow> [] | Some rs \<Rightarrow> rs) @ map snd (filter (\<lambda>(k', _). k' = k) ps))"
proof -
  have "map_of (push_all ps g) k =
      (if filter (\<lambda>(k', _). k' = k) ps = [] then map_of g k
       else Some ((case map_of g k of None \<Rightarrow> [] | Some rs \<Rightarrow> rs) @ map snd (filter (\<lambda>(k', _). k' = k) ps)))"
    using assms(1)
  proof (induction ps arbitrary: g)
    case (Cons p ps)
    obtain k1 r where p: "p = (k1, r)" by (cases p)
    show ?case
      using Cons.IH [OF group_push_sorted [OF Cons.prems, of k1 r]] by (auto simp: p group_push_map_of [OF Cons.prems])
  qed simp
  then show ?thesis using assms(2) by (auto simp: filter_empty_conv)
qed

section \<open>Consolidation is correct\<close>

text \<open>What \<^verbatim>\<open>MPI_Gatherv\<close> promises at the root: each rank's data at its displacement, in a buffer of the given size.\<close>

definition gathered :: "string list \<Rightarrow> int list \<Rightarrow> int \<Rightarrow> string \<Rightarrow> bool" where
  "gathered datas displs size1 data \<longleftrightarrow> int (length data) = size1 \<and>
     (\<forall>i<length datas. take (length (datas ! i)) (drop (nat (displs ! i)) data) = datas ! i)"

lemma sum_list_int: "sum_list (map (\<lambda>x. int (f x)) xs) = int (sum_list (map f xs))"
  by (induction xs) simp_all

lemma displacements_ok:
  assumes "0 \<le> acc" "acc + sum_list sizes < 2 ^ 31" "list_all (\<lambda>n. 0 \<le> n) sizes"
  shows "\<exists>ds. displacements acc sizes = Inr (ds, acc + sum_list sizes) \<and> length ds = length sizes \<and>
    (\<forall>i<length sizes. ds ! i = acc + sum_list (take i sizes))"
  using assms
proof (induction sizes arbitrary: acc)
  case (Cons n sizes)
  have nn: "0 \<le> sum_list sizes" using Cons.prems(3) by (simp add: list_all_iff sum_list_nonneg)
  then obtain ds where ds: "displacements (acc + n) sizes = Inr (ds, acc + n + sum_list sizes)" "length ds = length sizes"
    "\<forall>i<length sizes. ds ! i = acc + n + sum_list (take i sizes)"
    using Cons.IH [of "acc + n"] Cons.prems by (auto simp: add.assoc)
  moreover have "is_i32 (acc + n)" using Cons.prems nn by (simp add: is_i32_def)
  ultimately show ?case by (auto simp: add.assoc nth_Cons split: nat.split)
qed simp

lemma gathered_concat:
  assumes "gathered datas displs size1 data" "\<forall>i<length datas. displs ! i = int (sum_list (map length (take i datas)))"
    "size1 = int (sum_list (map length datas))"
  shows "data = concat datas"
proof -
  have "take (sum_list (map length (take m datas))) data = concat (take m datas)" if "m \<le> length datas" for m
    using that
  proof (induction m)
    case (Suc m)
    then have m: "m < length datas" by simp
    have "take (length (datas ! m)) (drop (sum_list (map length (take m datas))) data) = datas ! m"
      using assms(1,2) m by (simp add: gathered_def)
    moreover have "take (sum_list (map length (take m datas))) data = concat (take m datas)" using Suc by simp
    ultimately show ?case using m by (simp add: take_Suc_conv_app_nth take_add)
  qed simp
  from this [of "length datas"] show ?thesis using assms(1,3) by (simp add: gathered_def)
qed

definition rank_data :: "int \<Rightarrow> Log_Record list \<Rightarrow> string" where
  "rank_data rank rs = concat (map (wire rank) rs)"

definition world_data :: "Log_Record list list \<Rightarrow> string list" where
  "world_data buffers = map (\<lambda>i. rank_data (int i) (buffers ! i)) [0..<length buffers]"

definition world_pushes :: "Log_Record list list \<Rightarrow> (Consolidation_Key \<times> int) list" where
  "world_pushes buffers = concat (map (\<lambda>i. map (\<lambda>r. (record_key r, int i)) (buffers ! i)) [0..<length buffers])"

lemma fold_push_map: "fold (\<lambda>r. group_push (record_key r) rank) rs g = push_all (map (\<lambda>r. (record_key r, rank)) rs) g"
  by (induction rs arbitrary: g) simp_all

lemma deserialize_world:
  assumes "list_all (list_all wire_ok) buffers" "length buffers < 2 ^ 31" "m \<le> length buffers"
  shows "deserialize_records (concat (map (\<lambda>i. rank_data (int i) (buffers ! i)) [0..<m]) @ rest) g =
    deserialize_records rest (push_all (concat (map (\<lambda>i. map (\<lambda>r. (record_key r, int i)) (buffers ! i)) [0..<m])) g)"
  using assms(3)
proof (induction m arbitrary: rest)
  case (Suc m)
  then have m: "list_all wire_ok (buffers ! m)" "is_i32 (int m)" using assms(1,2) by (auto simp: list_all_length is_i32_def)
  show ?case using Suc by (simp add: rank_data_def deserialize_wire [OF m] fold_push_map)
qed simp

lemma world_pushes_mem: "(k, x) \<in> set (world_pushes buffers) \<longleftrightarrow> (\<exists>i<length buffers. x = int i \<and> k \<in> record_key ` set (buffers ! i))"
  by (auto simp: world_pushes_def)

text \<open>
  C16. Collective consolidation at the root reports exactly what happened in the whole world: if the gather calls do what MPI promises and
  the data of all ranks fit into 32-bit sizes, the representatives are in ascending order of their keys, there is exactly one
  for every key that some rank buffered, and its ranges cover precisely the ranks that buffered it, with their number as count.
\<close>

theorem collective_consolidation_exact:
  assumes "list_all (list_all wire_ok) buffers" "buffers \<noteq> []" "length buffers < 2 ^ 31"
    and "sum_list (map length (world_data buffers)) < 2 ^ 31"
    and "gather (int (length (world_data buffers ! 0))) = Some (map (\<lambda>d. int (length d)) (world_data buffers))"
    and "\<And>displs size1. displacements 0 (map (\<lambda>d. int (length d)) (world_data buffers)) = Inr (displs, size1) \<Longrightarrow> \<exists>data. gatherv (world_data buffers ! 0) (map (\<lambda>d. int (length d)) (world_data buffers)) displs size1 = Some data \<and>
           gathered (world_data buffers) displs size1 data"
  shows "\<exists>reps. consolidate_collective (Some (int (length buffers))) gather gatherv 0 (buffers ! 0) = Inr reps \<and>
    sorted_wrt (<) (map cr_key reps) \<and> cr_key ` set reps = (\<Union>rs\<in>set buffers. record_key ` set rs) \<and>
    (\<forall>c\<in>set reps. covers (cr_ranges c) = {int i |i. i < length buffers \<and> cr_key c \<in> record_key ` set (buffers ! i)} \<and>
       separated (cr_ranges c) \<and>
       cr_rank_count c = int (card {int i |i. i < length buffers \<and> cr_key c \<in> record_key ` set (buffers ! i)}))"
proof -
  let ?W = "world_data buffers" and ?P = "world_pushes buffers"
  let ?sizes = "map (\<lambda>d. int (length d)) ?W"
  have len: "length ?W = length buffers" by (simp add: world_data_def)
  note sum = sum_list_int [of length]
  obtain ds where ds: "displacements 0 ?sizes = Inr (ds, int (sum_list (map length ?W)))"
    "\<forall>i<length ?W. ds ! i = int (sum_list (map length (take i ?W)))"
    using displacements_ok [of 0 ?sizes] assms(4) by (auto simp: sum list_all_iff take_map)
  obtain data where data: "gatherv (?W ! 0) ?sizes ds (int (sum_list (map length ?W))) = Some data"
    "gathered ?W ds (int (sum_list (map length ?W))) data" using assms(6) [OF ds(1)] by blast
  have d: "data = concat ?W" using gathered_concat [OF data(2)] ds(2) by simp
  have b0: "list_all wire_ok (buffers ! 0)" "?W ! 0 = concat (map (wire 0) (buffers ! 0))"
    using assms(1,2) by (auto simp: list_all_length world_data_def rank_data_def)
  have "length (?W ! 0) \<in> set (map length ?W)" using assms(2) len by simp
  then have "length (?W ! 0) \<le> sum_list (map length ?W)" by (rule member_le_sum_list) simp
  then have w: "wrap32 (int (length (?W ! 0))) = int (length (?W ! 0))" using assms(4) by (intro wrap32_id) (simp add: is_i32_def)
  have "deserialize_records (concat ?W) [] = push_all ?P []"
    using deserialize_world [OF assms(1,3) order.refl, of "[]" "[]"] by (simp add: world_data_def world_pushes_def deserialize_short)
  then have res: "consolidate_collective (Some (int (length buffers))) gather gatherv 0 (buffers ! 0) = Inr (map consolidated (push_all ?P []))"
    using serialize_all_wire [OF b0(1), of 0 "[]"] b0(2) w assms(5) ds(1) data(1) d by (simp add: consolidate_collective_def)
  have keys: "map cr_key (map consolidated g) = map fst g" for g by (simp add: consolidated_def Let_def)
  have entry: "set ranks = {int i |i. i < length buffers \<and> k \<in> record_key ` set (buffers ! i)}" if "(k, ranks) \<in> set (push_all ?P [])" for k ranks
  proof -
    have "distinct (map fst (push_all ?P []))" using push_all_sorted [of "[]" ?P] by (simp add: strict_sorted_iff)
    then have "map_of (push_all ?P []) k = Some ranks" using that by simp
    moreover have "k \<in> fst ` set ?P" using that push_all_keys [of ?P "[]"] by (metis empty_set image_eqI fst_conv list.simps(8) set_map sup_bot.right_neutral)
    ultimately have "ranks = map snd (filter (\<lambda>(k', _). k' = k) ?P)" using push_all_map_of [of "[]" k ?P] by simp
    then have "set ranks = {x. (k, x) \<in> set ?P}" by force
    then show ?thesis by (auto simp: world_pushes_mem)
  qed
  have "fst ` set (push_all ?P []) = (\<Union>rs\<in>set buffers. record_key ` set rs)"
  proof -
    have "fst ` set ?P = (\<Union>rs\<in>set buffers. record_key ` set rs)" by (force simp: world_pushes_def in_set_conv_nth)
    then show ?thesis using push_all_keys [of ?P "[]"] by simp
  qed
  then have "cr_key ` set (map consolidated (push_all ?P [])) = (\<Union>rs\<in>set buffers. record_key ` set rs)" using keys by (metis set_map)
  moreover have "sorted_wrt (<) (map cr_key (map consolidated (push_all ?P [])))" unfolding keys using push_all_sorted [of "[]" ?P] by simp
  moreover have "covers (cr_ranges (consolidated g)) = set (snd g) \<and> separated (cr_ranges (consolidated g)) \<and>
      cr_rank_count (consolidated g) = int (card (set (snd g))) \<and> cr_key (consolidated g) = fst g" for g
    using compact_canonical [of "snd g" "fst g"] by (simp add: consolidated_def Let_def)
  ultimately show ?thesis using res entry by (intro exI [of _ "map consolidated (push_all ?P [])"]) fastforce
qed

lemma local_keys:
  "set (map fst (fold (\<lambda>r. group_push (record_key r) 1) rs [])) = record_key ` set rs"
  "sorted_wrt (<) (map fst (fold (\<lambda>r. group_push (record_key r) 1) rs []))"
proof -
  have e: "fold (\<lambda>r. group_push (record_key r) 1) rs [] = push_all (map (\<lambda>r. (record_key r, 1)) rs) []" by (rule fold_push_map)
  show "set (map fst (fold (\<lambda>r. group_push (record_key r) 1) rs [])) = record_key ` set rs"
    unfolding e push_all_keys by (simp add: image_image)
  show "sorted_wrt (<) (map fst (fold (\<lambda>r. group_push (record_key r) 1) rs []))"
    unfolding e by (rule push_all_sorted) simp
qed

text \<open>
  Local consolidation keeps every record accounted for: one representative per key, in ascending order, counting the records of that
  key, so that the counts add up to the number of buffered records.
\<close>

theorem local_consolidation_counts:
  "sorted_wrt (<) (map cr_key (consolidate_local rs)) \<and> cr_key ` set (consolidate_local rs) = record_key ` set rs \<and>
   (\<forall>c\<in>set (consolidate_local rs). cr_rank_count c = int (length (filter (\<lambda>r. record_key r = cr_key c) rs))) \<and>
   sum_list (map cr_rank_count (consolidate_local rs)) = int (length rs)"
proof -
  let ?ks = "map fst (fold (\<lambda>r. group_push (record_key r) 1) rs [])"
  have key: "lr_severity r = ck_severity k \<and> lr_message r = ck_message k \<longleftrightarrow> record_key r = k" for r k
    by (cases k) (auto simp: record_key_def)
  have loc: "consolidate_local rs = map (\<lambda>k. \<lparr>cr_key = k, cr_rank_count = int (length (filter (\<lambda>r. record_key r = k) rs)),
      cr_ranges = [\<lparr>rr_first = - 1, rr_last = - 1\<rparr>]\<rparr>) ?ks"
    by (simp add: consolidate_local_def key)
  have count: "sum_list (map (\<lambda>k. length (filter (\<lambda>r. record_key r = k) xs)) ks) = length xs"
    if "distinct ks" "record_key ` set xs \<subseteq> set ks" for ks and xs :: "Log_Record list"
    using that(2)
  proof (induction xs)
    case (Cons x xs)
    have "(\<Sum>k\<leftarrow>ks. length (filter (\<lambda>r. record_key r = k) (x # xs))) = (\<Sum>k\<leftarrow>ks. (if record_key x = k then 1 else 0) + length (filter (\<lambda>r. record_key r = k) xs))"
      by (intro arg_cong [where f = sum_list] map_cong) auto
    also have "\<dots> = (\<Sum>k\<leftarrow>ks. if record_key x = k then 1 else 0) + length xs" using Cons by (simp add: sum_list_addf)
    also have "(\<Sum>k\<leftarrow>ks. if record_key x = k then 1 else 0) = (1::nat)"
      using that(1) Cons.prems by (simp add: sum_list_distinct_conv_sum_set)
    finally show ?case by simp
  qed simp
  have "sum_list (map (\<lambda>k. int (length (filter (\<lambda>r. record_key r = k) rs))) ?ks) = int (length rs)"
    using count [of ?ks rs] local_keys [of rs] unfolding sum_list_int strict_sorted_iff by simp
  then have total: "sum_list (map cr_rank_count (consolidate_local rs)) = int (length rs)" by (simp add: loc comp_def)
  have keys: "map cr_key (consolidate_local rs) = ?ks" by (simp add: loc comp_def)
  then have "cr_key ` set (consolidate_local rs) = record_key ` set rs" using local_keys(1) [of rs] by (metis set_map)
  moreover have "\<forall>c\<in>set (consolidate_local rs). cr_rank_count c = int (length (filter (\<lambda>r. record_key r = cr_key c) rs))" by (auto simp: loc)
  ultimately show ?thesis using local_keys(2) [of rs] keys total by simp
qed

section \<open>Witnesses\<close>

definition demo_record :: "string \<Rightarrow> Log_Record" where
  "demo_record msg = \<lparr>lr_severity = WARNING, lr_message = msg, lr_rank = 0, lr_location = None, lr_context_labels = [], lr_stack_trace = None\<rparr>"

definition demo_buffers :: "Log_Record list list" where
  "demo_buffers = [[demo_record ''b''], [demo_record ''a'', demo_record ''b''], [demo_record ''b'']]"

lemma demo_wire_ok: "list_all (list_all wire_ok) demo_buffers"
  by (simp add: demo_buffers_def demo_record_def wire_ok_def WARNING_def is_i32_def)

theorem record_wire_roundtrip_witness:
  "\<exists>data. serialize_all [demo_record ''a''] 3 [] = Inr data \<and> deserialize_records data [] = [(Consolidation_Key WARNING ''a'', [3])]"
proof -
  have "list_all wire_ok [demo_record ''a'']" "is_i32 3" by (simp_all add: demo_record_def wire_ok_def WARNING_def is_i32_def)
  from record_wire_roundtrip [OF this, of "[]"] show ?thesis by (simp add: record_key_def demo_record_def)
qed

theorem collective_consolidation_exact_witness:
  "\<exists>reps. consolidate_collective (Some 3) (\<lambda>_. Some (map (\<lambda>d. int (length d)) (world_data demo_buffers)))
      (\<lambda>_ _ _ _. Some (concat (world_data demo_buffers))) 0 (demo_buffers ! 0) = Inr reps \<and>
    cr_key ` set reps = {Consolidation_Key WARNING ''a'', Consolidation_Key WARNING ''b''}"
proof -
  let ?W = "world_data demo_buffers"
  have lens: "map length ?W = [13, 26, 13]"
    by (simp add: demo_buffers_def world_data_def rank_data_def wire_def demo_record_def upt_rec)
  then have len: "length ?W = 3" by (metis length_map list.size(3,4) numeral_3_eq_3 One_nat_def add_Suc_right add_0_right)
  have "displacements 0 (map (\<lambda>d. int (length d)) ?W) = Inr ([0, 13, 39], 52)"
    using arg_cong [OF lens, of "map int"] by (simp add: comp_def ub32_def is_i32_def)
  moreover have "gathered ?W [0, 13, 39] 52 (concat ?W)"
  proof -
    obtain a b c where W: "?W = [a, b, c]" using len by (metis (no_types, lifting) length_0_conv length_Suc_conv numeral_3_eq_3)
    then have l: "length a = 13" "length b = 26" "length c = 13" using lens by simp_all
    have "take (length ([a, b, c] ! i)) (drop (nat ([0, 13, 39] ! i)) (a @ b @ c)) = [a, b, c] ! i" if "i < 3" for i
      using that l by (auto simp: less_Suc_eq numeral_3_eq_3)
    then show ?thesis using W l by (simp add: gathered_def)
  qed
  ultimately have g: "displacements 0 (map (\<lambda>d. int (length d)) ?W) = Inr (displs, size1) \<Longrightarrow> gathered ?W displs size1 (concat ?W)" for displs size1
    by simp
  have sum: "sum_list (map length ?W) < 2 ^ 31" by (simp add: lens)
  have "demo_buffers \<noteq> []" "length demo_buffers < 2 ^ 31" "length demo_buffers = 3" by (simp_all add: demo_buffers_def)
  then show ?thesis
    using collective_consolidation_exact [OF demo_wire_ok _ _ sum, of "\<lambda>_. Some (map (\<lambda>d. int (length d)) ?W)" "\<lambda>_ _ _ _. Some (concat ?W)"] g
    by (auto simp: demo_buffers_def demo_record_def record_key_def)
qed

end
