(* ===== verification/Logs_Logger.thy ===== *)
theory Logs_Logger
  imports Logs_Consolidation
begin

text \<open>
  The logger: \<^verbatim>\<open>logs/src/logger.cpp\<close>, with its sinks (\<^verbatim>\<open>sink.cpp\<close>), the thread-local context (\<^verbatim>\<open>scoped_context.cpp\<close>,
  \<^verbatim>\<open>context_stack.cpp\<close>), stack traces (\<^verbatim>\<open>stack_trace.cpp\<close>) and the view of MPI (\<^verbatim>\<open>mpi_environment.cpp\<close>).

  The state joins the logger with what it acts on: the output streams behind the sinks, standard error, and the context stack of the calling thread.
  Whether a device takes a text is a parameter; a stream whose device refused it has its fail bit set and takes nothing more.
  The results of MPI calls are parameters. Exhaustion of memory is not modelled, so the exception boundaries have nothing to absorb.
\<close>

section \<open>Streams and sinks\<close>

record ostream =
  os_text :: string
  os_fail :: bool

type_synonym device = "nat \<Rightarrow> string \<Rightarrow> bool"

definition sink_write :: "device \<Rightarrow> nat \<Rightarrow> string \<Rightarrow> (nat \<Rightarrow> ostream) \<Rightarrow> bool \<times> (nat \<Rightarrow> ostream)" where
  "sink_write dev sink formatted streams =
     (let st = streams sink in
      if os_fail st then (False, streams)
      else if dev sink formatted then (True, streams(sink := st\<lparr>os_text := os_text st @ formatted\<rparr>))
      else (False, streams(sink := st\<lparr>os_fail := True\<rparr>)))"

definition sink_flush :: "(nat \<Rightarrow> bool) \<Rightarrow> nat \<Rightarrow> (nat \<Rightarrow> ostream) \<Rightarrow> bool \<times> (nat \<Rightarrow> ostream)" where
  "sink_flush flush_ok sink streams =
     (let st = streams sink in
      if os_fail st then (False, streams)
      else if flush_ok sink then (True, streams)
      else (False, streams(sink := st\<lparr>os_fail := True\<rparr>)))"

definition MAX_SINKS :: nat where
  "MAX_SINKS = 64"

section \<open>MPI environment\<close>

datatype mpi_thread_level = MPI_THREAD_SINGLE | MPI_THREAD_FUNNELED | MPI_THREAD_SERIALIZED | MPI_THREAD_MULTIPLE

record Mpi_Environment =
  me_rank :: int
  me_thread_level :: mpi_thread_level
  me_comm :: "nat option"
  me_has_comm :: bool

definition mk_mpi_environment :: Mpi_Environment where
  "mk_mpi_environment = \<lparr>me_rank = - 1, me_thread_level = MPI_THREAD_SINGLE, me_comm = None, me_has_comm = False\<rparr>"

definition detect :: "bool \<Rightarrow> int option \<Rightarrow> mpi_thread_level option \<Rightarrow> nat \<Rightarrow> Mpi_Environment \<Rightarrow> Mpi_Environment" where
  "detect initialized comm_rank query_thread comm env =
     (let env1 = env\<lparr>me_comm := Some comm, me_has_comm := True\<rparr> in
      if initialized then
        let env2 = env1\<lparr>me_rank := (case comm_rank of Some r \<Rightarrow> r | None \<Rightarrow> - 1)\<rparr>
        in case query_thread of Some level \<Rightarrow> env2\<lparr>me_thread_level := level\<rparr> | None \<Rightarrow> env2
      else env1\<lparr>me_rank := - 1, me_thread_level := MPI_THREAD_SINGLE\<rparr>)"

definition is_thread_multiple :: "Mpi_Environment \<Rightarrow> bool" where
  "is_thread_multiple env \<longleftrightarrow> me_thread_level env = MPI_THREAD_MULTIPLE"

section \<open>Context and stack traces\<close>

definition push_context :: "string \<Rightarrow> string list \<Rightarrow> string list" where
  "push_context label stack = stack @ [label]"

definition pop_context :: "string list \<Rightarrow> string list" where
  "pop_context stack = (if stack \<noteq> [] then butlast stack else stack)"

definition MAX_LABEL_LENGTH :: nat where
  "MAX_LABEL_LENGTH = 256"

definition enter_context :: "string \<Rightarrow> string list \<Rightarrow> string list" where
  "enter_context label stack =
     push_context (if label = [] then ''<unnamed>''
                   else if length label > MAX_LABEL_LENGTH then take MAX_LABEL_LENGTH label
                   else label) stack"

record Stack_Frame =
  sf_function :: "string option"
  sf_file :: "string option"
  sf_line :: "int option"

definition MAX_TRACE_FRAMES :: nat where
  "MAX_TRACE_FRAMES = 256"

definition eol :: string where
  "eol = [CHR 0x0A]"

definition or_else :: "string option \<Rightarrow> string \<Rightarrow> string" where
  "or_else x d = (case x of Some s \<Rightarrow> s | None \<Rightarrow> d)"

definition format_frame :: "nat \<Rightarrow> Stack_Frame \<Rightarrow> string" where
  "format_frame i frame =
     ''#'' @ dec_digits i @ ''  '' @ or_else (sf_function frame) ''<unknown>'' @ '' at '' @ or_else (sf_file frame) ''<unknown>'' @ '':'' @
     or_else (map_option dec_int (sf_line frame)) ''?'' @ eol"

definition format_stack_trace :: "Stack_Frame list \<Rightarrow> string" where
  "format_stack_trace frames =
     (if frames = [] then ''[no frames available]'' @ eol
      else concat (map (\<lambda>i. format_frame i (frames ! i)) [0..<min (length frames) MAX_TRACE_FRAMES]) @
        (if length frames > MAX_TRACE_FRAMES
         then ''[... '' @ dec_digits (length frames - MAX_TRACE_FRAMES) @ '' additional frames omitted]'' @ eol else []))"

section \<open>The logger\<close>

record Logger =
  lg_mpi :: Mpi_Environment
  lg_threshold :: Severity_Level
  lg_sinks :: "nat list"
  lg_buffer :: "Log_Record list"
  lg_latched :: bool

record log_world =
  lw_logger :: Logger
  lw_streams :: "nat \<Rightarrow> ostream"
  lw_stderr :: string
  lw_context :: "string list"

definition mk_logger :: Logger where
  "mk_logger = \<lparr>lg_mpi = mk_mpi_environment, lg_threshold = INFO, lg_sinks = [], lg_buffer = [], lg_latched = False\<rparr>"

definition ABORT_EXIT_CODE :: int where
  "ABORT_EXIT_CODE = 70"

record Submit_Options =
  so_location :: "Source_Location option"
  so_frames :: "Stack_Frame list"
  so_include_stack_trace :: bool

definition configure_communicator :: "bool \<Rightarrow> int option \<Rightarrow> mpi_thread_level option \<Rightarrow> nat \<Rightarrow> Logger \<Rightarrow> Logger" where
  "configure_communicator initialized comm_rank query_thread comm lg =
     lg\<lparr>lg_mpi := detect initialized comm_rank query_thread comm (lg_mpi lg)\<rparr>"

definition set_threshold :: "Severity_Level \<Rightarrow> Logger \<Rightarrow> Logger" where
  "set_threshold level lg = lg\<lparr>lg_threshold := level\<rparr>"

definition add_sink :: "nat \<Rightarrow> Logger \<Rightarrow> Logger" where
  "add_sink sink lg = (if length (lg_sinks lg) \<ge> MAX_SINKS then lg else lg\<lparr>lg_sinks := lg_sinks lg @ [sink]\<rparr>)"

definition pad4 :: "nat \<Rightarrow> string" where
  "pad4 n = replicate (4 - length (dec_digits n)) CHR ''0'' @ dec_digits n"

fun join_labels :: "string list \<Rightarrow> string" where
  "join_labels [] = []"
| "join_labels [l] = l"
| "join_labels (l # ls) = l @ '' > '' @ join_labels ls"

definition format_record :: "Log_Record \<Rightarrow> string" where
  "format_record r =
     (if lr_rank r < 0 then ''[RANK:----]'' else ''[RANK:'' @ pad4 (nat (lr_rank r)) @ '']'') @
     '' ['' @ severity_to_string (lr_severity r) @ '']'' @
     (if lr_context_labels r \<noteq> [] then '' ['' @ join_labels (lr_context_labels r) @ '']'' else []) @
     '' '' @ lr_message r @ eol"

definition dispatch_to_sinks :: "device \<Rightarrow> string \<Rightarrow> log_world \<Rightarrow> log_world" where
  "dispatch_to_sinks dev formatted w =
     (if lg_sinks (lw_logger w) = [] then w\<lparr>lw_stderr := lw_stderr w @ formatted\<rparr>
      else w\<lparr>lw_streams := fold (\<lambda>sink streams. snd (sink_write dev sink formatted streams)) (lg_sinks (lw_logger w)) (lw_streams w)\<rparr>)"

definition flush_all_sinks :: "(nat \<Rightarrow> bool) \<Rightarrow> log_world \<Rightarrow> log_world" where
  "flush_all_sinks flush_ok w =
     w\<lparr>lw_streams := fold (\<lambda>sink streams. snd (sink_flush flush_ok sink streams)) (lg_sinks (lw_logger w)) (lw_streams w)\<rparr>"

datatype log_end = Returned | Mpi_aborted int | Process_exited int | Spinning

definition try_acquire_latch :: "log_world \<Rightarrow> bool \<times> log_world" where
  "try_acquire_latch w = (\<not> lg_latched (lw_logger w), w\<lparr>lw_logger := (lw_logger w)\<lparr>lg_latched := True\<rparr>\<rparr>)"

definition synchronized_abort :: "(nat \<Rightarrow> bool) \<Rightarrow> log_world \<Rightarrow> log_end \<times> log_world" where
  "synchronized_abort flush_ok w =
     (case try_acquire_latch (flush_all_sinks flush_ok w) of
        (True, w') \<Rightarrow> (if me_has_comm (lg_mpi (lw_logger w')) then Mpi_aborted ABORT_EXIT_CODE else Process_exited ABORT_EXIT_CODE, w')
      | (False, w') \<Rightarrow> (Spinning, w'))"

definition make_record :: "Severity_Level \<Rightarrow> string \<Rightarrow> Submit_Options \<Rightarrow> log_world \<Rightarrow> Log_Record" where
  "make_record severity message opts w =
     \<lparr>lr_severity = severity, lr_message = message, lr_rank = me_rank (lg_mpi (lw_logger w)), lr_location = so_location opts,
      lr_context_labels = lw_context w,
      lr_stack_trace = (if so_include_stack_trace opts \<and> so_frames opts \<noteq> [] then Some (format_stack_trace (so_frames opts)) else None)\<rparr>"

definition log_message :: "device \<Rightarrow> (nat \<Rightarrow> bool) \<Rightarrow> Severity_Level \<Rightarrow> string \<Rightarrow> Submit_Options \<Rightarrow> log_world \<Rightarrow> log_end \<times> log_world" where
  "log_message dev flush_ok severity message opts w =
     (if severity \<noteq> FATAL \<and> severity_value severity < severity_value (lg_threshold (lw_logger w)) then (Returned, w)
      else
        let r = make_record severity message opts w;
            w1 = w\<lparr>lw_logger := (lw_logger w)\<lparr>lg_buffer := lg_buffer (lw_logger w) @ [r]\<rparr>\<rparr>;
            w2 = dispatch_to_sinks dev (format_record r) w1
        in if severity = FATAL then synchronized_abort flush_ok w2 else (Returned, w2))"


fun join_ranges :: "Rank_Range list \<Rightarrow> string" where
  "join_ranges [] = []"
| "join_ranges [r] = range_to_string r"
| "join_ranges (r # rs) = range_to_string r @ '', '' @ join_ranges rs"

definition format_consolidated :: "Consolidated_Record \<Rightarrow> string" where
  "format_consolidated rep =
     ''[CONSOLIDATED] ['' @ severity_to_string (ck_severity (cr_key rep)) @ ''] ('' @ dec_int (cr_rank_count rep) @ '' ranks: '' @
     join_ranges (cr_ranges rep) @ '') '' @ ck_message (cr_key rep) @ eol"

type_synonym mpi_calls = "int option \<times> (int \<Rightarrow> int list option) \<times> (string \<Rightarrow> int list \<Rightarrow> int list \<Rightarrow> int \<Rightarrow> string option)"

definition consolidate :: "device \<Rightarrow> mpi_calls \<Rightarrow> log_world \<Rightarrow> log_world result" where
  "consolidate dev mpi w =
     (let lg = lw_logger w; buffered = lg_buffer lg; w1 = w\<lparr>lw_logger := lg\<lparr>lg_buffer := []\<rparr>\<rparr> in
      if buffered = [] then Inr w1
      else
        mapR (\<lambda>reps. fold (\<lambda>rep. dispatch_to_sinks dev (format_consolidated rep)) reps w1)
          (if me_has_comm (lg_mpi lg)
           then case mpi of (comm_size, gather, gatherv) \<Rightarrow> consolidate_collective comm_size gather gatherv (me_rank (lg_mpi lg)) buffered
           else Inr (consolidate_local buffered)))"

definition emit_diagnostic :: "bool \<Rightarrow> string \<Rightarrow> log_world \<Rightarrow> log_world" where
  "emit_diagnostic owns_lock context1 w =
     (if \<not> owns_lock then w else w\<lparr>lw_stderr := lw_stderr w @ ''[LOGS DIAGNOSTIC] [ERROR] '' @ context1 @ eol\<rparr>)"

section \<open>Delivery\<close>

lemma write_all_streams:
  "fold (\<lambda>sink streams. snd (sink_write dev sink text streams)) sinks streams i =
     (if i \<notin> set sinks \<or> os_fail (streams i) then streams i
      else if dev i text then (streams i)\<lparr>os_text := os_text (streams i) @ concat (replicate (count_list sinks i) text)\<rparr>
      else (streams i)\<lparr>os_fail := True\<rparr>)"
proof (induction sinks arbitrary: streams)
  case (Cons a sinks)
  define T where "T = snd (sink_write dev a text streams)"
  have T: "T j = (if j \<noteq> a \<or> os_fail (streams j) then streams j
      else if dev j text then (streams j)\<lparr>os_text := os_text (streams j) @ text\<rparr> else (streams j)\<lparr>os_fail := True\<rparr>)" for j
    by (simp add: T_def sink_write_def Let_def)
  have "fold (\<lambda>sink streams. snd (sink_write dev sink text streams)) (a # sinks) streams i =
      fold (\<lambda>sink streams. snd (sink_write dev sink text streams)) sinks T i" by (simp add: T_def)
  then show ?case unfolding Cons.IH by (auto simp: T count_notin)
qed simp



lemma dispatch_logger [simp]: "lw_logger (dispatch_to_sinks dev text w) = lw_logger w" "lw_context (dispatch_to_sinks dev text w) = lw_context w"
  by (simp_all add: dispatch_to_sinks_def)


section \<open>Formats\<close>

lemma split_at_sep: "xs @ c # us = ys @ c # vs \<Longrightarrow> c \<notin> set xs \<Longrightarrow> c \<notin> set ys \<Longrightarrow> xs = ys \<and> us = vs"
proof (induction xs arbitrary: ys)
  case Nil
  then show ?case by (cases ys) auto
next
  case (Cons x xs)
  then show ?case by (cases ys) auto
qed

lemma pad4_no_bracket: "CHR '']'' \<notin> set (pad4 n)" "CHR ''-'' \<notin> set (pad4 n)"
  using all_digits_dec_digits [of n] by (auto simp: pad4_def list_all_iff is_dec_digit_def)

lemma pad4_inj: "pad4 m = pad4 n \<Longrightarrow> m = n"
  using dec_value_zeros [of _ "dec_digits m"] dec_value_zeros [of _ "dec_digits n"] by (metis dec_value_digits of_nat_eq_iff pad4_def)

definition known_severity :: "Severity_Level \<Rightarrow> bool" where
  "known_severity s \<longleftrightarrow> 0 \<le> severity_value s \<and> severity_value s \<le> 4"

lemma known_severity_cases: "known_severity s \<Longrightarrow> s \<in> {DEBUG, INFO, WARNING, ERROR, FATAL}"
  by (cases s) (auto simp: known_severity_def severity_defs)

lemma severity_string:
  "CHR '']'' \<notin> set (severity_to_string s)"
  "known_severity s \<Longrightarrow> known_severity t \<Longrightarrow> severity_to_string s = severity_to_string t \<Longrightarrow> s = t"
proof -
  show "CHR '']'' \<notin> set (severity_to_string s)" by (simp add: severity_to_string_def)
  assume "known_severity s" "known_severity t" "severity_to_string s = severity_to_string t"
  then show "s = t" using known_severity_cases [of s] known_severity_cases [of t] by (auto simp: severity_to_string_def severity_defs)
qed

text \<open>
  A written line can be attributed: two records without context that are formatted to the same line have the same severity and message, and the same rank (or both have none).
\<close>

theorem format_record_identifies:
  assumes "format_record r = format_record q" "lr_context_labels r = []" "lr_context_labels q = []"
    "known_severity (lr_severity r)" "known_severity (lr_severity q)"
  shows "lr_severity r = lr_severity q \<and> lr_message r = lr_message q \<and> (lr_rank r = lr_rank q \<or> lr_rank r < 0 \<and> lr_rank q < 0)"
proof -
  define field where "field x = (if lr_rank x < 0 then ''----'' else pad4 (nat (lr_rank x)))" for x :: Log_Record
  have no: "CHR '']'' \<notin> set (field x)" for x by (simp add: field_def pad4_no_bracket)
  have form: "format_record x = ''[RANK:'' @ field x @ CHR '']'' # '' ['' @ severity_to_string (lr_severity x) @ CHR '']'' # '' '' @ lr_message x @ eol"
    if "lr_context_labels x = []" for x using that by (simp add: format_record_def field_def)
  have "field r @ CHR '']'' # '' ['' @ severity_to_string (lr_severity r) @ CHR '']'' # '' '' @ lr_message r @ eol =
      field q @ CHR '']'' # '' ['' @ severity_to_string (lr_severity q) @ CHR '']'' # '' '' @ lr_message q @ eol"
    using assms(1) form [OF assms(2)] form [OF assms(3)] by simp
  from split_at_sep [OF this no no] have f: "field r = field q"
    "severity_to_string (lr_severity r) @ CHR '']'' # '' '' @ lr_message r @ eol = severity_to_string (lr_severity q) @ CHR '']'' # '' '' @ lr_message q @ eol"
    by simp_all
  from split_at_sep [OF f(2) severity_string(1) severity_string(1)]
  have s: "severity_to_string (lr_severity r) = severity_to_string (lr_severity q)" "lr_message r = lr_message q" by simp_all
  have dash: "pad4 n \<noteq> ''----''" for n using pad4_no_bracket(2) [of n] by auto
  have "lr_rank r = lr_rank q \<or> lr_rank r < 0 \<and> lr_rank q < 0"
    using f(1) dash dash [symmetric] by (auto simp: field_def split: if_splits dest!: pad4_inj)
  then show ?thesis using s severity_string(2) assms(4,5) by blast
qed

definition lines :: "string \<Rightarrow> nat" where
  "lines text = count_list text (CHR 0x0A)"

definition frame_ok :: "Stack_Frame \<Rightarrow> bool" where
  "frame_ok f \<longleftrightarrow> (\<forall>s. sf_function f = Some s \<or> sf_file f = Some s \<longrightarrow> CHR 0x0A \<notin> set s)"

lemma lines_append [simp]: "lines (xs @ ys) = lines xs + lines ys"
  by (simp add: lines_def)

lemma lines_concat: "(\<And>x. x \<in> set xs \<Longrightarrow> lines x = 1) \<Longrightarrow> lines (concat xs) = length xs"
  by (induction xs) (simp_all add: lines_def)

lemma no_eol: "CHR 0x0A \<notin> set text \<Longrightarrow> lines text = 0"
  by (simp add: lines_def count_notin)

lemma dec_no_eol: "CHR 0x0A \<notin> set (dec_digits n)" "CHR 0x0A \<notin> set (dec_int x)"
  using all_digits_dec_digits [of n] all_digits_dec_digits [of "nat x"] all_digits_dec_digits [of "nat (- x)"]
  by (auto simp: dec_int_def list_all_iff is_dec_digit_def)

lemma lines_literal [simp]: "lines (c # cs) = (if c = CHR 0x0A then 1 else 0) + lines cs" "lines [] = 0"
  by (simp_all add: lines_def)

lemma format_frame_lines: "frame_ok f \<Longrightarrow> lines (format_frame i f) = 1"
  by (auto simp: format_frame_def or_else_def eol_def frame_ok_def no_eol dec_no_eol split: option.split)

text \<open>
  A stack trace of any depth is bounded: one line per frame up to 256 frames, then a single line that gives the number of those left out; an empty
  trace is one line.
\<close>

theorem stack_trace_bounded:
  assumes "list_all frame_ok frames"
  shows "lines (format_stack_trace frames) =
    (if frames = [] then 1 else min (length frames) 256 + (if length frames > 256 then 1 else 0)) \<and> lines (format_stack_trace frames) \<le> 257"
proof -
  have "lines (concat (map (\<lambda>i. format_frame i (frames ! i)) [0..<min (length frames) MAX_TRACE_FRAMES])) = min (length frames) MAX_TRACE_FRAMES"
    using assms by (subst lines_concat) (auto simp: list_all_length format_frame_lines)
  then show ?thesis by (simp add: format_stack_trace_def eol_def MAX_TRACE_FRAMES_def no_eol dec_no_eol)
qed

section \<open>Histories\<close>

datatype log_op =
    Op_log Severity_Level string Submit_Options
  | Op_threshold Severity_Level
  | Op_add_sink nat
  | Op_configure bool "int option" "mpi_thread_level option" nat
  | Op_enter string
  | Op_leave
  | Op_consolidate mpi_calls

definition log_exec :: "device \<Rightarrow> (nat \<Rightarrow> bool) \<Rightarrow> log_op \<Rightarrow> log_world \<Rightarrow> log_world" where
  "log_exec dev flush_ok op w =
     (case op of
        Op_log sev msg opts \<Rightarrow> snd (log_message dev flush_ok sev msg opts w)
      | Op_threshold level \<Rightarrow> w\<lparr>lw_logger := set_threshold level (lw_logger w)\<rparr>
      | Op_add_sink sink \<Rightarrow> w\<lparr>lw_logger := add_sink sink (lw_logger w)\<rparr>
      | Op_configure i r q c \<Rightarrow> w\<lparr>lw_logger := configure_communicator i r q c (lw_logger w)\<rparr>
      | Op_enter label \<Rightarrow> w\<lparr>lw_context := enter_context label (lw_context w)\<rparr>
      | Op_leave \<Rightarrow> w\<lparr>lw_context := pop_context (lw_context w)\<rparr>
      | Op_consolidate mpi \<Rightarrow> (case consolidate dev mpi w of Inr w' \<Rightarrow> w' | Inl _ \<Rightarrow> w))"

definition label_ok :: "string \<Rightarrow> bool" where
  "label_ok l \<longleftrightarrow> l \<noteq> [] \<and> length l \<le> MAX_LABEL_LENGTH"

definition logger_ok :: "log_world \<Rightarrow> bool" where
  "logger_ok w \<longleftrightarrow> length (lg_sinks (lw_logger w)) \<le> MAX_SINKS \<and> list_all label_ok (lw_context w) \<and>
     list_all (\<lambda>r. list_all label_ok (lr_context_labels r)) (lg_buffer (lw_logger w))"

definition log_start :: "(nat \<Rightarrow> ostream) \<Rightarrow> log_world" where
  "log_start streams = \<lparr>lw_logger = mk_logger, lw_streams = streams, lw_stderr = [], lw_context = []\<rparr>"

lemma fold_dispatch [simp]:
  "lw_logger (fold (\<lambda>rep. dispatch_to_sinks dev (f rep)) reps w) = lw_logger w"
  "lw_context (fold (\<lambda>rep. dispatch_to_sinks dev (f rep)) reps w) = lw_context w"
  by (induction reps arbitrary: w) simp_all

lemma abort_fields:
  "lg_sinks (lw_logger (snd (synchronized_abort flush_ok w))) = lg_sinks (lw_logger w)"
  "lg_buffer (lw_logger (snd (synchronized_abort flush_ok w))) = lg_buffer (lw_logger w)"
  "lw_context (snd (synchronized_abort flush_ok w)) = lw_context w"
  by (simp_all add: synchronized_abort_def try_acquire_latch_def flush_all_sinks_def split: bool.split)

lemma label_ok_unnamed: "label_ok ''<unnamed>''"
  by (simp add: label_ok_def MAX_LABEL_LENGTH_def)

lemma enter_ok: "list_all label_ok stack \<Longrightarrow> list_all label_ok (enter_context label stack)"
  using label_ok_unnamed by (auto simp: enter_context_def push_context_def label_ok_def MAX_LABEL_LENGTH_def)

lemma pop_ok: "list_all label_ok stack \<Longrightarrow> list_all label_ok (pop_context stack)"
  by (auto simp: pop_context_def list_all_iff dest: in_set_butlastD)

lemma consolidate_fields:
  assumes "consolidate dev mpi w = Inr w'"
  shows "lw_logger w' = (lw_logger w)\<lparr>lg_buffer := []\<rparr>" "lw_context w' = lw_context w"
  using assms by (auto simp: consolidate_def Let_def mapR_eq_Inr split: if_splits)

lemma log_exec_ok: "logger_ok w \<Longrightarrow> logger_ok (log_exec dev flush_ok op w)"
proof (cases op)
  case (Op_log sev msg opts)
  assume "logger_ok w"
  moreover have "lr_context_labels (make_record s m os w) = lw_context w" for s m os by (simp add: make_record_def)
  ultimately show ?thesis
    using Op_log by (simp add: log_exec_def log_message_def logger_ok_def Let_def abort_fields)
next
  case (Op_consolidate mpi)
  assume ok: "logger_ok w"
  show ?thesis
  proof (cases "consolidate dev mpi w")
    case (Inl e)
    then show ?thesis using ok Op_consolidate by (simp add: log_exec_def)
  next
    case (Inr w')
    then show ?thesis using ok Op_consolidate consolidate_fields [OF Inr] by (simp add: log_exec_def logger_ok_def)
  qed
qed (auto simp: log_exec_def logger_ok_def set_threshold_def add_sink_def configure_communicator_def enter_ok pop_ok)

text \<open>
  C33. The logger's data stay well-formed: after any sequence of logging, configuration, context and consolidation operations there are at
  most 64 sinks, and every label on the context stack and in every buffered record is non-empty and at most 256 characters long.
\<close>

theorem logger_well_formed:
  "logger_ok (fold (log_exec dev flush_ok) ops (log_start streams))"
proof -
  have "logger_ok w \<Longrightarrow> logger_ok (fold (log_exec dev flush_ok) ops w)" for w
    by (induction ops arbitrary: w) (simp_all add: log_exec_ok)
  moreover have "logger_ok (log_start streams)" by (simp add: logger_ok_def log_start_def mk_logger_def MAX_SINKS_def)
  ultimately show ?thesis by blast
qed

datatype scope_op = Enter string | Leave

definition scope_exec :: "scope_op \<Rightarrow> string list \<Rightarrow> string list" where
  "scope_exec op stack = (case op of Enter l \<Rightarrow> enter_context l stack | Leave \<Rightarrow> pop_context stack)"

inductive nested :: "scope_op list \<Rightarrow> bool" where
  none: "nested []"
| scope: "nested ops \<Longrightarrow> nested (Enter l # ops @ [Leave])"
| sequence: "nested ops \<Longrightarrow> nested ops' \<Longrightarrow> nested (ops @ ops')"

text \<open>
  Scoped contexts nest: the constructors and destructors of properly nested scopes leave the context stack exactly as they found it, and inside a scope its label is the innermost.
\<close>

theorem scoped_context_restores:
  assumes "nested ops"
  shows "fold scope_exec ops stack = stack \<and> last (fold scope_exec (Enter l # ops) stack) =
    (if l = [] then ''<unnamed>'' else take 256 l)"
proof -
  have id: "fold scope_exec ops stack = stack" for stack
    using assms
  proof (induction arbitrary: stack rule: nested.induct)
    case (scope ops l)
    have "pop_context (enter_context l stack) = stack" by (simp add: enter_context_def push_context_def pop_context_def)
    then show ?case using scope by (simp add: scope_exec_def)
  qed simp_all
  have "last (enter_context l stack) = (if l = [] then ''<unnamed>'' else take 256 l)"
    by (simp add: enter_context_def push_context_def MAX_LABEL_LENGTH_def)
  then show ?thesis using id by (simp add: scope_exec_def)
qed

lemma count_list_distinct: "distinct xs \<Longrightarrow> x \<in> set xs \<Longrightarrow> count_list xs x = 1"
  by (induction xs) (auto simp: count_notin)

lemma stream_dispatch:
  "i \<in> set (lg_sinks (lw_logger w)) \<Longrightarrow> distinct (lg_sinks (lw_logger w)) \<Longrightarrow> \<not> os_fail (lw_streams w i) \<Longrightarrow> \<forall>text. dev i text \<Longrightarrow>
   lw_streams (fold (\<lambda>rep. dispatch_to_sinks dev (f rep)) reps w) i = (lw_streams w i)\<lparr>os_text := os_text (lw_streams w i) @ concat (map f reps)\<rparr>"
proof (induction reps arbitrary: w)
  case (Cons rep reps)
  then have "lw_streams (dispatch_to_sinks dev (f rep) w) i = (lw_streams w i)\<lparr>os_text := os_text (lw_streams w i) @ f rep\<rparr>"
    by (auto simp: dispatch_to_sinks_def write_all_streams count_list_distinct)
  then show ?case using Cons.IH [of "dispatch_to_sinks dev (f rep) w"] Cons.prems by simp
qed simp

text \<open>
  Consolidation empties the buffer and writes one line per representative: the buffer is empty afterwards, all else of the logger is unchanged, and every
  sink has been given, in order, the lines of the representatives of what was buffered.
\<close>

theorem consolidate_writes_representatives:
  assumes "consolidate dev mpi w = Inr w'" "\<not> me_has_comm (lg_mpi (lw_logger w))"
    and "i \<in> set (lg_sinks (lw_logger w))" "distinct (lg_sinks (lw_logger w))" "\<not> os_fail (lw_streams w i)" "\<forall>text. dev i text"
  shows "lw_logger w' = (lw_logger w)\<lparr>lg_buffer := []\<rparr> \<and>
    os_text (lw_streams w' i) = os_text (lw_streams w i) @ concat (map format_consolidated (consolidate_local (lg_buffer (lw_logger w))))"
proof -
  let ?w1 = "w\<lparr>lw_logger := (lw_logger w)\<lparr>lg_buffer := []\<rparr>\<rparr>"
  have "w' = fold (\<lambda>rep. dispatch_to_sinks dev (format_consolidated rep)) (consolidate_local (lg_buffer (lw_logger w))) ?w1"
  proof (cases "lg_buffer (lw_logger w) = []")
    case True
    then show ?thesis using assms(1) by (simp add: consolidate_def Let_def consolidate_local_def)
  next
    case False
    then show ?thesis using assms(1,2) by (auto simp: consolidate_def Let_def)
  qed
  then show ?thesis
    using stream_dispatch [of i ?w1 dev format_consolidated] consolidate_fields(1) [OF assms(1)] assms(3-6) by simp
qed

text \<open>
  A rank whose buffer is empty returns before the collective calls: its result does not depend on them, so it takes no part in a gather
  in which the ranks with records wait for it.
\<close>

lemma empty_rank_skips_collective:
  "lg_buffer (lw_logger w) = [] \<Longrightarrow> consolidate dev mpi w = consolidate dev mpi' w"
  by (simp add: consolidate_def Let_def)

section \<open>Witnesses\<close>

definition demo_world :: log_world where
  "demo_world = fold (log_exec (\<lambda>i text. i \<noteq> 2) (\<lambda>_. True)) [Op_add_sink 1, Op_add_sink 2, Op_enter ''run'']
     (log_start (\<lambda>_. \<lparr>os_text = [], os_fail = False\<rparr>))"



theorem format_record_identifies_witness:
  "lr_message (demo_record ''x'') = ''x'' \<and> known_severity (lr_severity (demo_record ''x'')) \<and> lr_severity (demo_record ''x'') = WARNING"
proof -
  have k: "known_severity (lr_severity (demo_record ''x''))" "lr_context_labels (demo_record ''x'') = []"
    by (simp_all add: demo_record_def known_severity_def WARNING_def)
  from format_record_identifies [OF refl k(2,2) k(1,1)] show ?thesis using k(1) by (simp add: demo_record_def)
qed

theorem stack_trace_bounded_witness:
  "lines (format_stack_trace (replicate 300 \<lparr>sf_function = Some ''f'', sf_file = None, sf_line = Some 3\<rparr>)) = 257"
  using stack_trace_bounded [of "replicate 300 \<lparr>sf_function = Some ''f'', sf_file = None, sf_line = Some 3\<rparr>"]
  by (simp add: frame_ok_def list_all_iff)

theorem scoped_context_restores_witness:
  "fold scope_exec [Enter ''a'', Enter [], Leave, Leave] [''x''] = [''x'']"
proof -
  have "nested (Enter ''a'' # (Enter [] # [] @ [Leave]) @ [Leave])" by (intro nested.intros)
  from conjunct1 [OF scoped_context_restores [OF this]] show ?thesis by simp
qed

theorem consolidate_writes_representatives_witness:
  "os_text (lw_streams (fold (\<lambda>rep. dispatch_to_sinks (\<lambda>_ _. True) (format_consolidated rep)) (consolidate_local [demo_record ''b''])
     (demo_world\<lparr>lw_logger := (lw_logger demo_world)\<lparr>lg_buffer := []\<rparr>\<rparr>)) 1) = ''[CONSOLIDATED] [WARNING] (1 ranks: -1--1) b'' @ eol"
proof -
  let ?w = "demo_world\<lparr>lw_logger := (lw_logger demo_world)\<lparr>lg_buffer := [demo_record ''b'']\<rparr>\<rparr>"
  let ?w' = "fold (\<lambda>rep. dispatch_to_sinks (\<lambda>_ _. True) (format_consolidated rep)) (consolidate_local [demo_record ''b''])
     (demo_world\<lparr>lw_logger := (lw_logger demo_world)\<lparr>lg_buffer := []\<rparr>\<rparr>)"
  have c: "\<not> me_has_comm (lg_mpi (lw_logger ?w))" "1 \<in> set (lg_sinks (lw_logger ?w))" "distinct (lg_sinks (lw_logger ?w))"
    "\<not> os_fail (lw_streams ?w 1)" "os_text (lw_streams ?w 1) = []"
    "concat (map format_consolidated (consolidate_local [demo_record ''b''])) = ''[CONSOLIDATED] [WARNING] (1 ranks: -1--1) b'' @ eol"
    by code_simp+
  have "consolidate (\<lambda>_ _. True) (None, (\<lambda>_. None), (\<lambda>_ _ _ _. None)) ?w = Inr ?w'" using c(1) by (simp add: consolidate_def Let_def)
  from consolidate_writes_representatives [OF this c(1-4)] show ?thesis using c(5,6) by simp
qed

end
