(* ===== verification/Halo_Mpi.thy ===== *)
theory Halo_Mpi
  imports Helm_Prelude Helm_Decimal
begin

text \<open>
  What the HALO library takes from MPI, its error policy and its environment:
  \<^verbatim>\<open>halo/src/error_policy.cpp\<close>, \<^verbatim>\<open>halo/src/environment.cpp\<close>, \<^verbatim>\<open>halo/environment.hpp\<close>,
  \<^verbatim>\<open>halo/src/communicator.cpp\<close>, \<^verbatim>\<open>halo/detail/compute_tag.hpp\<close> and \<^verbatim>\<open>halo/detail/gpu_aware_probe.hpp\<close>.

  MPI is not part of the repository. Its queries are the fields of \<open>mpi_env\<close>; what a call returns
  is the argument \<open>rc\<close>; point-to-point communication is an argument \<open>net\<close> that maps what all ranks
  have posted to the payload of every receive. \<open>mpi_fifo\<close> states the guarantee of the standard that the
  library relies on: messages of one sender with one tag arrive in the order they were sent, and
  receives for them match in the order they were posted.
\<close>

section \<open>Errors\<close>

datatype halo_exn =
    Invalid_argument string
  | Runtime_error string
  | Out_of_range string
  | Aborted int string
  | Halo_Undefined

type_synonym 'a halo_result = "halo_exn + 'a"

datatype ErrorPolicy = Throw_on_error | Abort_with_diagnostics

record mpi_env =
  me_initialized :: bool
  me_query_thread :: int
  me_thread_multiple :: int
  me_world_rank :: int
  me_error_string :: "int \<Rightarrow> string"
  me_tag_ub :: "int option"
  me_gpu_aware :: bool

definition dispatch_error :: "mpi_env \<Rightarrow> ErrorPolicy \<Rightarrow> int \<Rightarrow> int \<Rightarrow> string \<Rightarrow> string \<Rightarrow> string \<Rightarrow> halo_exn" where
  "dispatch_error M policy mpi_error_code neighbor_rank operation comm_name neighbor_summary =
     (let local_rank = (if me_initialized M then me_world_rank M else - 1);
          msg = operation @ '' failed for rank '' @ dec_int neighbor_rank @ '': '' @ me_error_string M mpi_error_code;
          msg = (if local_rank \<ge> 0 then ''[rank '' @ dec_int local_rank @ ''] '' @ msg else msg);
          msg = (if comm_name \<noteq> [] then msg @ '' | comm='' @ [CHR 0x22] @ comm_name @ [CHR 0x22] else msg);
          msg = (if neighbor_summary \<noteq> [] then msg @ '' | neighbors={'' @ neighbor_summary @ ''}'' else msg)
      in if policy = Abort_with_diagnostics then Aborted mpi_error_code (''HALO FATAL: '' @ msg @ [CHR 0x0A])
         else Runtime_error msg)"

definition handle_mpi_error :: "mpi_env \<Rightarrow> ErrorPolicy \<Rightarrow> int \<Rightarrow> int \<Rightarrow> string \<Rightarrow> halo_exn" where
  "handle_mpi_error M policy mpi_error_code neighbor_rank operation =
     dispatch_error M policy mpi_error_code neighbor_rank operation [] []"

fun join_ranks :: "int list \<Rightarrow> string" where
  "join_ranks [] = []"
| "join_ranks [r] = dec_int r"
| "join_ranks (r # s # rs) = dec_int r @ '','' @ join_ranks (s # rs)"

definition format_neighbor_summary :: "int list \<Rightarrow> int list \<Rightarrow> string" where
  "format_neighbor_summary send_ranks recv_ranks =
     ''send-to:['' @ join_ranks send_ranks @ ''] recv-from:['' @ join_ranks recv_ranks @ '']''"

section \<open>The environment\<close>

text \<open>
  The mutex holds the thread that owns it. \<open>initialize\<close> runs under a once-flag, which an exception
  leaves unset.
\<close>

record Environment =
  en_init_flag :: bool
  en_thread_level :: int
  en_gpu_aware_mpi :: bool
  en_error_policy :: ErrorPolicy
  en_mutex :: "nat option"

definition environment0 :: Environment where
  "environment0 = \<lparr>en_init_flag = False, en_thread_level = - 1, en_gpu_aware_mpi = False,
     en_error_policy = Throw_on_error, en_mutex = None\<rparr>"

definition env_initialize :: "mpi_env \<Rightarrow> Environment \<Rightarrow> Environment halo_result" where
  "env_initialize M E =
     (if en_init_flag E then Inr E
      else if \<not> me_initialized M then Inl (Runtime_error
        (''halo::Environment::initialize(): MPI must be initialized '' @
         ''before HALO. Call MPI_Init_thread before halo::Environment::initialize().''))
      else Inr (E\<lparr>en_init_flag := True, en_thread_level := me_query_thread M, en_gpu_aware_mpi := me_gpu_aware M\<rparr>))"

definition halo_is_thread_multiple :: "mpi_env \<Rightarrow> Environment \<Rightarrow> bool" where
  "halo_is_thread_multiple M E \<longleftrightarrow> en_thread_level E = me_thread_multiple M"

definition set_error_policy :: "ErrorPolicy \<Rightarrow> Environment \<Rightarrow> Environment" where
  "set_error_policy policy E = E\<lparr>en_error_policy := policy\<rparr>"

datatype guard_result = Entered bool Environment | Blocked | Self_deadlock

definition guard_enter :: "mpi_env \<Rightarrow> nat \<Rightarrow> Environment \<Rightarrow> guard_result" where
  "guard_enter M t E =
     (if halo_is_thread_multiple M E then Entered False E
      else case en_mutex E of
             None \<Rightarrow> Entered True (E\<lparr>en_mutex := Some t\<rparr>)
           | Some owner \<Rightarrow> if owner = t then Self_deadlock else Blocked)"

definition guard_leave :: "bool \<Rightarrow> Environment \<Rightarrow> Environment" where
  "guard_leave locked E = (if locked then E\<lparr>en_mutex := None\<rparr> else E)"

section \<open>Tags\<close>

definition compute_tag :: "mpi_env \<Rightarrow> int \<Rightarrow> int \<Rightarrow> int \<Rightarrow> int" where
  "compute_tag M sender receiver comm_size =
     (let tag_ub = (case me_tag_ub M of Some ub \<Rightarrow> ub | None \<Rightarrow> 32767);
          product = sender * comm_size + receiver
      in wrap32 (product smod tag_ub))"

section \<open>Point-to-point communication\<close>

record 'a mpi_send =
  ms_dest :: int
  ms_tag :: int
  ms_data :: "'a list"

record mpi_recv =
  mr_source :: int
  mr_tag :: int
  mr_count :: int

type_synonym 'a mpi_net = "(nat \<Rightarrow> 'a mpi_send list) \<Rightarrow> (nat \<Rightarrow> mpi_recv list) \<Rightarrow> nat \<Rightarrow> nat \<Rightarrow> 'a list"

definition messages_to :: "(nat \<Rightarrow> 'a mpi_send list) \<Rightarrow> nat \<Rightarrow> mpi_recv \<Rightarrow> 'a mpi_send list" where
  "messages_to sends r q = filter (\<lambda>m. ms_dest m = int r \<and> ms_tag m = mr_tag q) (sends (nat (mr_source q)))"

definition earlier_receives :: "mpi_recv list \<Rightarrow> nat \<Rightarrow> nat" where
  "earlier_receives qs i =
     length (filter (\<lambda>q. mr_source q = mr_source (qs ! i) \<and> mr_tag q = mr_tag (qs ! i)) (take i qs))"

definition mpi_fifo :: "'a mpi_net \<Rightarrow> bool" where
  "mpi_fifo net \<longleftrightarrow>
     (\<forall>sends recvs r i.
        i < length (recvs r) \<and> 0 \<le> mr_source (recvs r ! i) \<and>
        earlier_receives (recvs r) i < length (messages_to sends r (recvs r ! i)) \<and>
        int (length (ms_data (messages_to sends r (recvs r ! i) ! earlier_receives (recvs r) i))) \<le> mr_count (recvs r ! i) \<longrightarrow>
        net sends recvs r i = ms_data (messages_to sends r (recvs r ! i) ! earlier_receives (recvs r) i))"

definition fifo_net :: "'a mpi_net" where
  "fifo_net sends recvs r i =
     (let ms = messages_to sends r (recvs r ! i); k = earlier_receives (recvs r) i
      in if k < length ms then ms_data (ms ! k) else [])"

lemma fifo_net_fifo: "mpi_fifo fifo_net"
  by (simp add: mpi_fifo_def fifo_net_def Let_def)

lemma mpi_fifoD:
  assumes "mpi_fifo net" "i < length (recvs r)" "0 \<le> mr_source (recvs r ! i)"
    and "earlier_receives (recvs r) i < length (messages_to sends r (recvs r ! i))"
    and "int (length (ms_data (messages_to sends r (recvs r ! i) ! earlier_receives (recvs r) i))) \<le> mr_count (recvs r ! i)"
  shows "net sends recvs r i = ms_data (messages_to sends r (recvs r ! i) ! earlier_receives (recvs r) i)"
  using assms unfolding mpi_fifo_def by blast

section \<open>Buffers\<close>

definition write_at :: "nat \<Rightarrow> 'a list \<Rightarrow> 'a list \<Rightarrow> 'a list" where
  "write_at off xs view = take off view @ xs @ drop (off + length xs) view"

lemma length_write_at [simp]: "off + length xs \<le> length view \<Longrightarrow> length (write_at off xs view) = length view"
  by (simp add: write_at_def)

lemma nth_write_at:
  "off + length xs \<le> length view \<Longrightarrow> j < length view \<Longrightarrow>
     write_at off xs view ! j = (if off \<le> j \<and> j < off + length xs then xs ! (j - off) else view ! j)"
  by (auto simp: write_at_def nth_append)

section \<open>Mutual exclusion of MPI calls\<close>

text \<open>
  Threads enter and leave guarded sections. The level the library was given at initialisation
  does not change while they run.
\<close>

inductive guard_step :: "mpi_env \<Rightarrow> Environment \<times> (nat \<Rightarrow> bool option) \<Rightarrow> Environment \<times> (nat \<Rightarrow> bool option) \<Rightarrow> bool"
  for M where
  enter: "held t = None \<Longrightarrow> guard_enter M t E = Entered locked E' \<Longrightarrow> guard_step M (E, held) (E', held(t := Some locked))"
| leave: "held t = Some locked \<Longrightarrow> guard_step M (E, held) (guard_leave locked E, held(t := None))"

definition guard_inv :: "mpi_env \<Rightarrow> Environment \<times> (nat \<Rightarrow> bool option) \<Rightarrow> bool" where
  "guard_inv M s \<longleftrightarrow>
     (if halo_is_thread_multiple M (fst s) then \<forall>t. snd s t \<noteq> Some True
      else (\<forall>t. snd s t = Some True \<longleftrightarrow> en_mutex (fst s) = Some t) \<and> (\<forall>t. snd s t \<noteq> Some False))"

lemma guard_step_level: "guard_step M s s' \<Longrightarrow> halo_is_thread_multiple M (fst s') = halo_is_thread_multiple M (fst s)"
  by (auto elim!: guard_step.cases simp: guard_enter_def guard_leave_def halo_is_thread_multiple_def split: if_splits option.splits)

lemma guard_step_inv: "guard_step M s s' \<Longrightarrow> guard_inv M s \<Longrightarrow> guard_inv M s'"
  by (elim guard_step.cases)
    (auto simp: guard_inv_def guard_enter_def guard_leave_def halo_is_thread_multiple_def split: if_splits option.splits)

lemma guard_run_inv: "(guard_step M)\<^sup>*\<^sup>* s s' \<Longrightarrow> guard_inv M s \<Longrightarrow> guard_inv M s'"
  by (induction rule: rtranclp_induct) (auto intro: guard_step_inv)

lemma guard_run_level: "(guard_step M)\<^sup>*\<^sup>* s s' \<Longrightarrow> halo_is_thread_multiple M (fst s') = halo_is_thread_multiple M (fst s)"
  by (induction rule: rtranclp_induct) (auto dest: guard_step_level)

text \<open>
  MPI calls are serialised below MPI_THREAD_MULTIPLE. However the threads of a process enter and leave guarded
  sections, two of them are never inside at the same time unless MPI was initialised with
  MPI_THREAD_MULTIPLE; and a thread that enters a second guard inside its own section waits for itself.
\<close>

theorem mpi_calls_serialised:
  assumes "en_mutex E = None" "\<not> halo_is_thread_multiple M E" "(guard_step M)\<^sup>*\<^sup>* (E, \<lambda>_. None) (E', held)"
    and "held t = Some locked" "held u = Some locked'"
  shows "t = u \<and> guard_enter M t E' = Self_deadlock"
proof -
  have i: "guard_inv M (E', held)" using guard_run_inv [OF assms(3)] assms(1,2) by (auto simp: guard_inv_def)
  have l: "\<not> halo_is_thread_multiple M E'" using guard_run_level [OF assms(3)] assms(2) by simp
  have m: "en_mutex E' = Some t" "en_mutex E' = Some u"
    using i l assms(4,5) by (cases locked; cases locked'; auto simp: guard_inv_def)+
  then show ?thesis using l by (simp add: guard_enter_def)
qed

definition sample_mpi :: mpi_env where
  "sample_mpi = \<lparr>me_initialized = True, me_query_thread = 2, me_thread_multiple = 3, me_world_rank = 0,
     me_error_string = (\<lambda>_. ''error''), me_tag_ub = None, me_gpu_aware = False\<rparr>"

theorem mpi_calls_serialised_witness:
  "guard_enter sample_mpi 5 (environment0\<lparr>en_mutex := Some 5\<rparr>) = Self_deadlock"
proof -
  have e: "guard_enter sample_mpi 5 environment0 = Entered True (environment0\<lparr>en_mutex := Some 5\<rparr>)"
    by (simp add: guard_enter_def halo_is_thread_multiple_def environment0_def sample_mpi_def)
  have "guard_step sample_mpi (environment0, \<lambda>_. None) (environment0\<lparr>en_mutex := Some 5\<rparr>, (\<lambda>_. None)(5 := Some True))"
    by (rule guard_step.enter [OF _ e]) simp
  then have "(guard_step sample_mpi)\<^sup>*\<^sup>* (environment0, \<lambda>_. None) (environment0\<lparr>en_mutex := Some 5\<rparr>, (\<lambda>_. None)(5 := Some True))"
    by (rule r_into_rtranclp)
  then show ?thesis
    using mpi_calls_serialised [of environment0 sample_mpi "environment0\<lparr>en_mutex := Some 5\<rparr>" "(\<lambda>_. None)(5 := Some True)" 5 True 5 True]
    by (simp add: halo_is_thread_multiple_def environment0_def sample_mpi_def)
qed

end
