(* ===== verification/Halo_Exchange.thy ===== *)
theory Halo_Exchange
  imports Halo_Mpi
begin

text \<open>
  HALO's unstructured exchange: \<^verbatim>\<open>halo/src/halo_plan.cpp\<close>, \<^verbatim>\<open>halo/halo_plan.hpp\<close>,
  \<^verbatim>\<open>halo/exchange.hpp\<close> and \<^verbatim>\<open>halo/detail/staging.hpp\<close>.

  A view is the list of its elements: the send regions of all neighbours one after the
  other, then their receive regions. An access past its end is undefined behaviour. A rank's part of an
  exchange is in two steps, posting the requests and finishing after \<open>MPI_Waitall\<close>; between them the network
  decides the payload of every receive. On the direct path the payloads are written as the
  requests complete, in an order MPI chooses.
\<close>

section \<open>Plans\<close>

record Neighbor_Info =
  ni_rank :: int
  ni_count :: nat

record Communicator =
  co_rank :: int
  co_size :: int

record Halo_Plan =
  hp_comm :: Communicator
  hp_send :: "Neighbor_Info list"
  hp_recv :: "Neighbor_Info list"
  hp_total_send :: nat
  hp_total_recv :: nat

definition uadd :: "nat \<Rightarrow> nat \<Rightarrow> nat" where
  "uadd a b = (a + b) mod 18446744073709551616"

fun validate_from :: "int set \<Rightarrow> Neighbor_Info list \<Rightarrow> int \<Rightarrow> string \<Rightarrow> unit halo_result" where
  "validate_from seen [] comm_size direction = Inr ()"
| "validate_from seen (info # infos) comm_size direction =
     (if ni_rank info < 0 \<or> ni_rank info \<ge> comm_size then Inl (Invalid_argument
        (''Halo_Plan: invalid '' @ direction @ '' neighbor rank '' @ dec_int (ni_rank info) @
         ''; valid range is [0, '' @ dec_int comm_size @ '')''))
      else if ni_rank info \<in> seen then Inl (Invalid_argument
        (''Halo_Plan: duplicate '' @ direction @ '' neighbor rank '' @ dec_int (ni_rank info)))
      else validate_from (insert (ni_rank info) seen) infos comm_size direction)"

definition validate_neighbors :: "Neighbor_Info list \<Rightarrow> int \<Rightarrow> string \<Rightarrow> unit halo_result" where
  "validate_neighbors neighbors comm_size direction = validate_from {} neighbors comm_size direction"

definition sum_counts :: "Neighbor_Info list \<Rightarrow> nat" where
  "sum_counts neighbors = foldl (\<lambda>acc info. uadd acc (ni_count info)) 0 neighbors"

definition mk_halo_plan :: "Communicator \<Rightarrow> Neighbor_Info list \<Rightarrow> Neighbor_Info list \<Rightarrow> Halo_Plan halo_result" where
  "mk_halo_plan comm send_neighbors recv_neighbors =
     bindR (validate_neighbors send_neighbors (co_size comm) ''send'') (\<lambda>_.
     bindR (validate_neighbors recv_neighbors (co_size comm) ''recv'') (\<lambda>_.
       Inr \<lparr>hp_comm = comm, hp_send = send_neighbors, hp_recv = recv_neighbors,
            hp_total_send = sum_counts send_neighbors, hp_total_recv = sum_counts recv_neighbors\<rparr>))"

definition num_send_neighbors :: "Halo_Plan \<Rightarrow> nat" where
  "num_send_neighbors plan = length (hp_send plan)"

definition num_recv_neighbors :: "Halo_Plan \<Rightarrow> nat" where
  "num_recv_neighbors plan = length (hp_recv plan)"

section \<open>Posting\<close>

datatype mpi_op = Op_Irecv | Op_Isend | Op_Waitall | Op_Dist_graph_create | Op_Neighbor_alltoallv

record exchange_env =
  xe_mpi :: mpi_env
  xe_policy :: ErrorPolicy
  xe_rc :: "mpi_op \<Rightarrow> nat \<Rightarrow> int"

definition checked :: "exchange_env \<Rightarrow> mpi_op \<Rightarrow> nat \<Rightarrow> int \<Rightarrow> string \<Rightarrow> 'b halo_result \<Rightarrow> 'b halo_result" where
  "checked X op i neighbor operation k =
     (if xe_rc X op i \<noteq> 0 then Inl (handle_mpi_error (xe_mpi X) (xe_policy X) (xe_rc X op i) neighbor operation) else k)"

fun post_irecvs :: "exchange_env \<Rightarrow> Communicator \<Rightarrow> nat \<Rightarrow> nat \<Rightarrow> Neighbor_Info list \<Rightarrow> (nat \<times> mpi_recv) list halo_result" where
  "post_irecvs X comm i recv_offset [] = Inr []"
| "post_irecvs X comm i recv_offset (neighbor # rest) =
     (let tag = compute_tag (xe_mpi X) (ni_rank neighbor) (co_rank comm) (co_size comm);
          req = \<lparr>mr_source = ni_rank neighbor, mr_tag = tag, mr_count = wrap32 (int (ni_count neighbor))\<rparr>
      in checked X Op_Irecv i (ni_rank neighbor) ''MPI_Irecv''
           (mapR ((#) (recv_offset, req)) (post_irecvs X comm (i + 1) (uadd recv_offset (ni_count neighbor)) rest)))"

fun post_isends :: "exchange_env \<Rightarrow> Communicator \<Rightarrow> 'a list \<Rightarrow> nat \<Rightarrow> nat \<Rightarrow> Neighbor_Info list \<Rightarrow> 'a mpi_send list halo_result" where
  "post_isends X comm view i send_offset [] = Inr []"
| "post_isends X comm view i send_offset (neighbor # rest) =
     (let tag = compute_tag (xe_mpi X) (co_rank comm) (ni_rank neighbor) (co_size comm);
          data = take (ni_count neighbor) (drop send_offset view);
          req = \<lparr>ms_dest = ni_rank neighbor, ms_tag = tag, ms_data = data\<rparr>
      in if send_offset + ni_count neighbor > length view then Inl Halo_Undefined
         else checked X Op_Isend i (ni_rank neighbor) ''MPI_Isend''
           (mapR ((#) req) (post_isends X comm view (i + 1) (uadd send_offset (ni_count neighbor)) rest)))"

definition exchange_post :: "exchange_env \<Rightarrow> Halo_Plan \<Rightarrow> 'a list \<Rightarrow> ((nat \<times> mpi_recv) list \<times> 'a mpi_send list) halo_result" where
  "exchange_post X plan view =
     (if num_send_neighbors plan = 0 \<and> num_recv_neighbors plan = 0 then Inr ([], [])
      else bindR (post_irecvs X (hp_comm plan) 0 (hp_total_send plan) (hp_recv plan)) (\<lambda>recvs.
           bindR (post_isends X (hp_comm plan) view 0 0 (hp_send plan)) (\<lambda>sends.
             Inr (recvs, sends))))"

section \<open>Completion\<close>

text \<open>
  \<open>finish_direct\<close> writes payload after payload into the view in the order the requests complete;
  \<open>finish_staged\<close> fills a host buffer per request (\<open>junk\<close> is what an uninitialised buffer holds) and
  copies the buffers into the view afterwards.
\<close>

fun finish_direct :: "(nat \<times> mpi_recv) list \<Rightarrow> (nat \<Rightarrow> 'a list) \<Rightarrow> nat list \<Rightarrow> 'a list \<Rightarrow> 'a list halo_result" where
  "finish_direct recvs payload [] view = Inr view"
| "finish_direct recvs payload (i # order) view =
     (let (off, req) = recvs ! i in
      if off + nat (mr_count req) > length view then Inl Halo_Undefined
      else finish_direct recvs payload order (write_at off (take (nat (mr_count req)) (payload i)) view))"

definition stage_recv :: "'a list \<Rightarrow> 'a list \<Rightarrow> nat \<Rightarrow> nat \<Rightarrow> 'a list halo_result" where
  "stage_recv host_buffer device_view offset count =
     (if offset + count > length device_view then Inl Halo_Undefined
      else Inr (write_at offset (take count host_buffer) device_view))"

definition host_buffer :: "'a \<Rightarrow> nat \<Rightarrow> 'a list \<Rightarrow> 'a list" where
  "host_buffer junk count payload = take count payload @ replicate (count - length payload) junk"

fun finish_staged :: "'a \<Rightarrow> (nat \<Rightarrow> 'a list) \<Rightarrow> nat \<Rightarrow> nat \<Rightarrow> Neighbor_Info list \<Rightarrow> 'a list \<Rightarrow> 'a list halo_result" where
  "finish_staged junk payload i recv_offset [] view = Inr view"
| "finish_staged junk payload i recv_offset (neighbor # rest) view =
     bindR (stage_recv (host_buffer junk (ni_count neighbor) (payload i)) view recv_offset (ni_count neighbor))
       (finish_staged junk payload (i + 1) (uadd recv_offset (ni_count neighbor)) rest)"

datatype 'a transfer_path = Direct "nat list" | Staged 'a

definition exchange_finish :: "exchange_env \<Rightarrow> 'a transfer_path \<Rightarrow> Halo_Plan \<Rightarrow> (nat \<times> mpi_recv) list \<Rightarrow> (nat \<Rightarrow> 'a list) \<Rightarrow> 'a list \<Rightarrow> 'a list halo_result" where
  "exchange_finish X path plan recvs payload view =
     (if num_send_neighbors plan = 0 \<and> num_recv_neighbors plan = 0 then Inr view
      else checked X Op_Waitall 0 (co_rank (hp_comm plan)) ''MPI_Waitall''
        (case path of
           Direct order \<Rightarrow> finish_direct recvs payload order view
         | Staged junk \<Rightarrow> finish_staged junk payload 0 (hp_total_send plan) (hp_recv plan) view))"

section \<open>The exchange of all ranks\<close>

definition posted_sends :: "((nat \<times> mpi_recv) list \<times> 'a mpi_send list) halo_result \<Rightarrow> 'a mpi_send list" where
  "posted_sends p = (case p of Inr (_, sends) \<Rightarrow> sends | Inl _ \<Rightarrow> [])"

definition posted_recvs :: "((nat \<times> mpi_recv) list \<times> 'a mpi_send list) halo_result \<Rightarrow> mpi_recv list" where
  "posted_recvs p = (case p of Inr (recvs, _) \<Rightarrow> map snd recvs | Inl _ \<Rightarrow> [])"

definition exchange_blocking :: "'a mpi_net \<Rightarrow> (nat \<Rightarrow> exchange_env) \<Rightarrow> (nat \<Rightarrow> 'a transfer_path) \<Rightarrow> (nat \<Rightarrow> Halo_Plan) \<Rightarrow>
    (nat \<Rightarrow> 'a list) \<Rightarrow> nat \<Rightarrow> 'a list halo_result" where
  "exchange_blocking net X path plan view r =
     (let posts = (\<lambda>q. exchange_post (X q) (plan q) (view q));
          payload = net (\<lambda>q. posted_sends (posts q)) (\<lambda>q. posted_recvs (posts q)) r
      in bindR (posts r) (\<lambda>(recvs, _). exchange_finish (X r) (path r) (plan r) recvs payload (view r)))"

section \<open>Validation\<close>

lemma validate_from_ok:
  "is_ok (validate_from seen ns n d) \<longleftrightarrow>
     (\<forall>x\<in>set ns. 0 \<le> ni_rank x \<and> ni_rank x < n \<and> ni_rank x \<notin> seen) \<and> distinct (map ni_rank ns)"
proof (induction ns arbitrary: seen)
  case (Cons a ns)
  show ?case by (auto simp: Cons.IH image_iff)
qed simp

definition neighbors_ok :: "Neighbor_Info list \<Rightarrow> int \<Rightarrow> bool" where
  "neighbors_ok ns n \<longleftrightarrow> list_all (\<lambda>x. 0 \<le> ni_rank x \<and> ni_rank x < n) ns \<and> distinct (map ni_rank ns)"

lemma validate_neighbors_ok: "is_ok (validate_neighbors ns n d) \<longleftrightarrow> neighbors_ok ns n"
  by (auto simp: validate_neighbors_def validate_from_ok neighbors_ok_def list_all_iff)

lemma validate_from_error: "validate_from seen ns n d = Inl e \<Longrightarrow> \<exists>msg. e = Invalid_argument msg"
  by (induction seen ns n d rule: validate_from.induct) (auto split: if_splits)

lemma sum_counts_mod: "sum_counts ns = sum_list (map ni_count ns) mod 18446744073709551616"
proof -
  have "acc < 18446744073709551616 \<Longrightarrow>
      foldl (\<lambda>acc info. uadd acc (ni_count info)) acc ns = (acc + sum_list (map ni_count ns)) mod 18446744073709551616" for acc
    by (induction ns arbitrary: acc) (auto simp: uadd_def mod_simps add.assoc)
  from this [of 0] show ?thesis by (simp add: sum_counts_def)
qed

text \<open>
  A plan is built exactly from valid neighbour lists. The constructor succeeds if and only if every rank of both
  lists lies in the communicator and no rank is repeated within a list; otherwise it throws
  \<open>invalid_argument\<close>. The plan it builds has the lists as given and their totals,
  modulo the width of a \<open>size_t\<close>.
\<close>

theorem halo_plan_validates:
  "case mk_halo_plan comm sends recvs of
     Inl e \<Rightarrow> (\<exists>msg. e = Invalid_argument msg) \<and> \<not> (neighbors_ok sends (co_size comm) \<and> neighbors_ok recvs (co_size comm))
   | Inr plan \<Rightarrow> neighbors_ok sends (co_size comm) \<and> neighbors_ok recvs (co_size comm) \<and>
       hp_send plan = sends \<and> hp_recv plan = recvs \<and> hp_comm plan = comm \<and>
       hp_total_send plan = sum_list (map ni_count sends) mod 18446744073709551616 \<and>
       hp_total_recv plan = sum_list (map ni_count recvs) mod 18446744073709551616"
proof (cases "mk_halo_plan comm sends recvs")
  case (Inl e)
  then have "validate_neighbors sends (co_size comm) ''send'' = Inl e \<or> validate_neighbors recvs (co_size comm) ''recv'' = Inl e"
    by (auto simp: mk_halo_plan_def bindR_eq_Inl)
  then show ?thesis
    using Inl validate_from_error validate_neighbors_ok [of sends "co_size comm" "''send''"] validate_neighbors_ok [of recvs "co_size comm" "''recv''"]
    by (fastforce simp: validate_neighbors_def is_ok_def)
next
  case (Inr plan)
  then have "is_ok (validate_neighbors sends (co_size comm) ''send'')" "is_ok (validate_neighbors recvs (co_size comm) ''recv'')"
    and "plan = \<lparr>hp_comm = comm, hp_send = sends, hp_recv = recvs, hp_total_send = sum_counts sends, hp_total_recv = sum_counts recvs\<rparr>"
    by (auto simp: mk_halo_plan_def bindR_eq_Inr)
  then show ?thesis using Inr by (simp add: validate_neighbors_ok sum_counts_mod)
qed

lemma halo_plan_ok:
  assumes "mk_halo_plan comm sends recvs = Inr plan"
  shows "neighbors_ok sends (co_size comm)" "neighbors_ok recvs (co_size comm)" "hp_comm plan = comm"
    and "sum_list (map ni_count sends) < 18446744073709551616 \<Longrightarrow> hp_total_send plan = sum_list (map ni_count sends)"
proof -
  have "is_ok (validate_neighbors sends (co_size comm) ''send'')" "is_ok (validate_neighbors recvs (co_size comm) ''recv'')"
    and p: "plan = \<lparr>hp_comm = comm, hp_send = sends, hp_recv = recvs, hp_total_send = sum_counts sends, hp_total_recv = sum_counts recvs\<rparr>"
    using assms by (auto simp: mk_halo_plan_def bindR_eq_Inr)
  then show "neighbors_ok sends (co_size comm)" "neighbors_ok recvs (co_size comm)" by (simp_all add: validate_neighbors_ok)
  show "hp_comm plan = comm" by (simp add: p)
  show "sum_list (map ni_count sends) < 18446744073709551616 \<Longrightarrow> hp_total_send plan = sum_list (map ni_count sends)"
    by (simp add: p sum_counts_mod)
qed

section \<open>What is posted\<close>

definition prefix_count :: "Neighbor_Info list \<Rightarrow> nat \<Rightarrow> nat" where
  "prefix_count ns i = sum_list (map ni_count (take i ns))"

definition total_count :: "Neighbor_Info list \<Rightarrow> nat" where
  "total_count ns = sum_list (map ni_count ns)"

lemma prefix_count_simps [simp]:
  "prefix_count ns 0 = 0" "prefix_count (n # ns) (Suc i) = ni_count n + prefix_count ns i"
  by (simp_all add: prefix_count_def)

lemma prefix_count_next: "i < length ns \<Longrightarrow> prefix_count ns (Suc i) = prefix_count ns i + ni_count (ns ! i)"
  by (simp add: prefix_count_def take_Suc_conv_app_nth)

lemma prefix_count_mono: "i \<le> j \<Longrightarrow> prefix_count ns i \<le> prefix_count ns j"
  by (auto simp: prefix_count_def le_iff_add take_add)

lemma prefix_count_total: "i < length ns \<Longrightarrow> prefix_count ns i + ni_count (ns ! i) \<le> total_count ns"
  using prefix_count_mono [of "Suc i" "length ns" ns] prefix_count_next [of i ns] by (simp add: total_count_def prefix_count_def)

lemma prefix_count_disjoint:
  "i < length ns \<Longrightarrow> j < length ns \<Longrightarrow> i \<noteq> j \<Longrightarrow>
     prefix_count ns i + ni_count (ns ! i) \<le> prefix_count ns j \<or> prefix_count ns j + ni_count (ns ! j) \<le> prefix_count ns i"
  using prefix_count_mono [of "Suc i" j ns] prefix_count_mono [of "Suc j" i ns] prefix_count_next [of i ns] prefix_count_next [of j ns]
  by (cases "i < j") auto

definition recv_request :: "mpi_env \<Rightarrow> Communicator \<Rightarrow> Neighbor_Info \<Rightarrow> mpi_recv" where
  "recv_request M comm n = \<lparr>mr_source = ni_rank n, mr_tag = compute_tag M (ni_rank n) (co_rank comm) (co_size comm),
     mr_count = wrap32 (int (ni_count n))\<rparr>"

definition send_request :: "mpi_env \<Rightarrow> Communicator \<Rightarrow> 'a list \<Rightarrow> nat \<Rightarrow> Neighbor_Info \<Rightarrow> 'a mpi_send" where
  "send_request M comm view off n = \<lparr>ms_dest = ni_rank n, ms_tag = compute_tag M (co_rank comm) (ni_rank n) (co_size comm),
     ms_data = take (ni_count n) (drop off view)\<rparr>"

definition no_mpi_error :: "exchange_env \<Rightarrow> bool" where
  "no_mpi_error X \<longleftrightarrow> (\<forall>op i. xe_rc X op i = 0)"

lemma checked_ok [simp]: "no_mpi_error X \<Longrightarrow> checked X op i n s k = k"
  by (simp add: checked_def no_mpi_error_def)

lemma post_irecvs_posts:
  assumes "no_mpi_error X" "off + total_count ns < 18446744073709551616"
  shows "post_irecvs X comm i off ns =
    Inr (map (\<lambda>k. (off + prefix_count ns k, recv_request (xe_mpi X) comm (ns ! k))) [0..<length ns])"
  using assms(2)
proof (induction ns arbitrary: i off)
  case (Cons n ns)
  then have "uadd off (ni_count n) = off + ni_count n" by (simp add: uadd_def total_count_def)
  then show ?case
    using Cons assms(1) by (simp add: total_count_def map_upt_Suc recv_request_def add.assoc del: upt_Suc)
qed simp

lemma post_isends_posts:
  assumes "no_mpi_error X" "off + total_count ns \<le> length view" "length view < 18446744073709551616"
  shows "post_isends X comm view i off ns =
    Inr (map (\<lambda>k. send_request (xe_mpi X) comm view (off + prefix_count ns k) (ns ! k)) [0..<length ns])"
  using assms(2)
proof (induction ns arbitrary: i off)
  case (Cons n ns)
  then have "uadd off (ni_count n) = off + ni_count n" using assms(3) by (simp add: uadd_def total_count_def)
  then show ?case
    using Cons assms(1) by (simp add: total_count_def map_upt_Suc send_request_def add.assoc del: upt_Suc)
qed simp

section \<open>Completion in any order\<close>

lemma finish_direct_result:
  assumes "distinct order"
    and "\<forall>i\<in>set order. recvs ! i = (off i, req i) \<and> nat (mr_count (req i)) = len i \<and> length (payload i) = len i \<and> off i + len i \<le> length view"
    and "\<forall>i\<in>set order. \<forall>j\<in>set order. i \<noteq> j \<longrightarrow> off i + len i \<le> off j \<or> off j + len j \<le> off i"
  shows "\<exists>v. finish_direct recvs payload order view = Inr v \<and> length v = length view \<and>
    (\<forall>i\<in>set order. \<forall>k<len i. v ! (off i + k) = payload i ! k) \<and>
    (\<forall>p<length view. (\<forall>i\<in>set order. p < off i \<or> off i + len i \<le> p) \<longrightarrow> v ! p = view ! p)"
  using assms
proof (induction order arbitrary: view)
  case (Cons i order)
  let ?w = "write_at (off i) (payload i) view"
  have h: "recvs ! i = (off i, req i)" "nat (mr_count (req i)) = len i" "length (payload i) = len i" "off i + len i \<le> length view"
    using Cons.prems(2) by auto
  have lw: "length ?w = length view" using h by simp
  obtain v where v: "finish_direct recvs payload order ?w = Inr v" "length v = length view"
      "\<forall>j\<in>set order. \<forall>k<len j. v ! (off j + k) = payload j ! k"
      "\<forall>p<length view. (\<forall>j\<in>set order. p < off j \<or> off j + len j \<le> p) \<longrightarrow> v ! p = ?w ! p"
    using Cons.IH [of ?w] Cons.prems lw by auto
  have own: "v ! (off i + k) = payload i ! k" if k: "k < len i" for k
  proof -
    have "\<forall>j\<in>set order. off i + k < off j \<or> off j + len j \<le> off i + k"
      using Cons.prems(1,3) k by (metis add_leD1 distinct.simps(2) le_add1 le_trans list.set_intros nat_add_left_cancel_less less_le_trans)
    then have "v ! (off i + k) = ?w ! (off i + k)" using v(4) h(4) k by auto
    then show ?thesis using h k by (simp add: nth_write_at)
  qed
  have "finish_direct recvs payload (i # order) view = Inr v" using h v(1) by simp
  moreover have "v ! p = view ! p" if "p < length view" "\<forall>j\<in>set (i # order). p < off j \<or> off j + len j \<le> p" for p
    using v(4) that h by (auto simp: nth_write_at)
  ultimately show ?case using v(2,3) own by auto
qed simp

lemma finish_staged_direct:
  assumes "\<forall>k<length ns. length (payload (i + k)) = ni_count (ns ! k) \<and> recvs ! (i + k) = (off + prefix_count ns k, req k) \<and>
      nat (mr_count (req k)) = ni_count (ns ! k)"
    and "off + total_count ns < 18446744073709551616"
  shows "finish_staged junk payload i off ns view = finish_direct recvs payload [i..<i + length ns] view"
  using assms
proof (induction ns arbitrary: i off view req)
  case (Cons n ns)
  have u: "uadd off (ni_count n) = off + ni_count n" using Cons.prems(2) by (simp add: uadd_def total_count_def)
  have h: "length (payload i) = ni_count n" "recvs ! i = (off, req 0)" "nat (mr_count (req 0)) = ni_count n"
    using Cons.prems(1) [rule_format, of 0] by auto
  have ih: "finish_staged junk payload (i + 1) (off + ni_count n) ns w = finish_direct recvs payload [i + 1..<i + 1 + length ns] w" for w
  proof (rule Cons.IH)
    show "\<forall>k<length ns. length (payload (i + 1 + k)) = ni_count (ns ! k) \<and>
        recvs ! (i + 1 + k) = (off + ni_count n + prefix_count ns k, req (Suc k)) \<and> nat (mr_count (req (Suc k))) = ni_count (ns ! k)"
    proof (intro allI impI)
      fix k assume "k < length ns"
      then show "length (payload (i + 1 + k)) = ni_count (ns ! k) \<and>
          recvs ! (i + 1 + k) = (off + ni_count n + prefix_count ns k, req (Suc k)) \<and> nat (mr_count (req (Suc k))) = ni_count (ns ! k)"
        using Cons.prems(1) [rule_format, of "Suc k"] by (simp add: add.assoc)
    qed
    show "off + ni_count n + total_count ns < 18446744073709551616" using Cons.prems(2) by (simp add: total_count_def)
  qed
  have up: "[i..<i + length (n # ns)] = i # [i + 1..<i + 1 + length ns]" by (simp add: upt_rec)
  show ?case unfolding up
    using h u ih by (simp add: stage_recv_def host_buffer_def)
qed simp

section \<open>Matching\<close>

lemma filter_unique:
  assumes "distinct (map f xs)" "j < length xs" "f (xs ! j) = a" "P (xs ! j)"
  shows "filter (\<lambda>x. f x = a \<and> P x) xs = [xs ! j]"
  using assms
proof (induction xs arbitrary: j)
  case (Cons x xs)
  show ?case
  proof (cases j)
    case 0
    then have "filter (\<lambda>y. f y = a \<and> P y) xs = []" using Cons.prems by (auto simp: filter_empty_conv image_iff)
    then show ?thesis using 0 Cons.prems by simp
  next
    case (Suc k)
    then have "a \<in> f ` set xs" using Cons.prems by auto
    then have "f x \<noteq> a" using Cons.prems(1) by auto
    then show ?thesis using Suc Cons by simp
  qed
qed simp

lemma earlier_receives_distinct:
  assumes "distinct (map mr_source qs)" "i < length qs"
  shows "earlier_receives qs i = 0"
proof -
  have "mr_source q \<noteq> mr_source (qs ! i)" if mem: "q \<in> set (take i qs)" for q
  proof -
    obtain k where "k < length (take i qs)" "take i qs ! k = q" using mem unfolding in_set_conv_nth by blast
    then have "k < i" "q = qs ! k" by auto
    then show ?thesis using assms nth_eq_iff_index_eq [OF assms(1), of k i] by auto
  qed
  then show ?thesis by (auto simp: earlier_receives_def filter_empty_conv)
qed

text \<open>
  A communicator of \<open>P\<close> ranks that agree on the largest tag, each with a plan and a view that holds its
  regions; \<open>matched\<close> says that every receive has its send.
\<close>

record 'a world =
  wo_size :: nat
  wo_env :: "nat \<Rightarrow> exchange_env"
  wo_plan :: "nat \<Rightarrow> Halo_Plan"
  wo_view :: "nat \<Rightarrow> 'a list"

definition comm_of :: "'a world \<Rightarrow> nat \<Rightarrow> Communicator" where
  "comm_of W q = \<lparr>co_rank = int q, co_size = int (wo_size W)\<rparr>"

definition world_ok :: "'a world \<Rightarrow> int option \<Rightarrow> bool" where
  "world_ok W ub \<longleftrightarrow>
     (\<forall>q<wo_size W.
        no_mpi_error (wo_env W q) \<and> me_tag_ub (xe_mpi (wo_env W q)) = ub \<and>
        mk_halo_plan (comm_of W q) (hp_send (wo_plan W q)) (hp_recv (wo_plan W q)) = Inr (wo_plan W q) \<and>
        total_count (hp_send (wo_plan W q)) + total_count (hp_recv (wo_plan W q)) \<le> length (wo_view W q) \<and>
        length (wo_view W q) < 2147483648)"

definition matched :: "'a world \<Rightarrow> bool" where
  "matched W \<longleftrightarrow>
     (\<forall>r<wo_size W. \<forall>n\<in>set (hp_recv (wo_plan W r)).
        \<exists>m\<in>set (hp_send (wo_plan W (nat (ni_rank n)))). ni_rank m = int r \<and> ni_count m = ni_count n)"

lemma world_okD:
  assumes "world_ok W ub" "q < wo_size W"
  shows "no_mpi_error (wo_env W q)" "me_tag_ub (xe_mpi (wo_env W q)) = ub"
    and "neighbors_ok (hp_send (wo_plan W q)) (int (wo_size W))" "neighbors_ok (hp_recv (wo_plan W q)) (int (wo_size W))"
    and "hp_total_send (wo_plan W q) = total_count (hp_send (wo_plan W q))" "hp_comm (wo_plan W q) = comm_of W q"
    and "total_count (hp_send (wo_plan W q)) + total_count (hp_recv (wo_plan W q)) \<le> length (wo_view W q)"
    and "length (wo_view W q) < 2147483648"
proof -
  have a: "mk_halo_plan (comm_of W q) (hp_send (wo_plan W q)) (hp_recv (wo_plan W q)) = Inr (wo_plan W q)"
    and b: "total_count (hp_send (wo_plan W q)) + total_count (hp_recv (wo_plan W q)) \<le> length (wo_view W q)"
      "length (wo_view W q) < 2147483648"
    using assms by (auto simp: world_ok_def)
  have "total_count (hp_send (wo_plan W q)) < 18446744073709551616" using b by linarith
  then show "neighbors_ok (hp_send (wo_plan W q)) (int (wo_size W))" "neighbors_ok (hp_recv (wo_plan W q)) (int (wo_size W))"
    "hp_total_send (wo_plan W q) = total_count (hp_send (wo_plan W q))" "hp_comm (wo_plan W q) = comm_of W q"
    using halo_plan_ok [OF a] by (auto simp: comm_of_def total_count_def)
qed (use assms in \<open>auto simp: world_ok_def\<close>)

definition world_sends :: "'a world \<Rightarrow> nat \<Rightarrow> 'a mpi_send list" where
  "world_sends W q = map (\<lambda>k. send_request (xe_mpi (wo_env W q)) (comm_of W q) (wo_view W q)
     (prefix_count (hp_send (wo_plan W q)) k) (hp_send (wo_plan W q) ! k)) [0..<length (hp_send (wo_plan W q))]"

definition world_recvs :: "'a world \<Rightarrow> nat \<Rightarrow> (nat \<times> mpi_recv) list" where
  "world_recvs W q = map (\<lambda>k. (total_count (hp_send (wo_plan W q)) + prefix_count (hp_recv (wo_plan W q)) k,
     recv_request (xe_mpi (wo_env W q)) (comm_of W q) (hp_recv (wo_plan W q) ! k))) [0..<length (hp_recv (wo_plan W q))]"

lemma exchange_post_world:
  assumes "world_ok W ub" "q < wo_size W"
  shows "exchange_post (wo_env W q) (wo_plan W q) (wo_view W q) = Inr (world_recvs W q, world_sends W q)"
proof -
  note w = world_okD [OF assms]
  have s: "total_count (hp_send (wo_plan W q)) + total_count (hp_recv (wo_plan W q)) < 18446744073709551616"
    "length (wo_view W q) < 18446744073709551616" using w(7,8) by linarith+
  show ?thesis
    using post_irecvs_posts [OF w(1) s(1), of "comm_of W q" 0]
      post_isends_posts [OF w(1) _ s(2), of 0 "hp_send (wo_plan W q)" "comm_of W q" 0] w(5,6,7)
    by (simp add: exchange_post_def world_recvs_def world_sends_def num_send_neighbors_def num_recv_neighbors_def)
qed

lemma distinct_dests:
  assumes "world_ok W ub" "q < wo_size W"
  shows "distinct (map ms_dest (world_sends W q))" "distinct (map (mr_source \<circ> snd) (world_recvs W q))"
proof -
  have "map ms_dest (world_sends W q) = map ni_rank (hp_send (wo_plan W q))"
    "map (mr_source \<circ> snd) (world_recvs W q) = map ni_rank (hp_recv (wo_plan W q))"
    by (auto simp: world_sends_def world_recvs_def send_request_def recv_request_def intro: nth_equalityI)
  then show "distinct (map ms_dest (world_sends W q))" "distinct (map (mr_source \<circ> snd) (world_recvs W q))"
    using world_okD(3,4) [OF assms] by (auto simp: neighbors_ok_def)
qed

lemma payload_world:
  fixes W :: "'a world"
  defines "sends \<equiv> (\<lambda>q. posted_sends (exchange_post (wo_env W q) (wo_plan W q) (wo_view W q)))"
    and "recvs \<equiv> (\<lambda>q. posted_recvs (exchange_post (wo_env W q) (wo_plan W q) (wo_view W q)))"
  assumes "mpi_fifo net" "world_ok W ub" "matched W" "r < wo_size W" "i < length (hp_recv (wo_plan W r))"
  obtains j where "j < length (hp_send (wo_plan W (nat (ni_rank (hp_recv (wo_plan W r) ! i)))))"
    and "ni_rank (hp_send (wo_plan W (nat (ni_rank (hp_recv (wo_plan W r) ! i)))) ! j) = int r"
    and "net sends recvs r i = take (ni_count (hp_recv (wo_plan W r) ! i))
      (drop (prefix_count (hp_send (wo_plan W (nat (ni_rank (hp_recv (wo_plan W r) ! i))))) j) (wo_view W (nat (ni_rank (hp_recv (wo_plan W r) ! i)))))"
    and "length (net sends recvs r i) = ni_count (hp_recv (wo_plan W r) ! i)"
proof -
  let ?n = "hp_recv (wo_plan W r) ! i"
  let ?s = "nat (ni_rank ?n)"
  let ?ss = "hp_send (wo_plan W ?s)"
  have n: "0 \<le> ni_rank ?n" "?s < wo_size W"
    using world_okD(4) [OF assms(4,6)] assms(7) by (auto simp: neighbors_ok_def list_all_length nat_less_iff)
  obtain j where j: "j < length ?ss" "ni_rank (?ss ! j) = int r" "ni_count (?ss ! j) = ni_count ?n"
    using assms(5,6,7) unfolding matched_def by (metis in_set_conv_nth nth_mem)
  have sr: "sends ?s = world_sends W ?s" "recvs r = map snd (world_recvs W r)"
    using exchange_post_world [OF assms(4)] n assms(6) by (auto simp: sends_def recvs_def posted_sends_def posted_recvs_def)
  have q: "i < length (recvs r)" "recvs r ! i = recv_request (xe_mpi (wo_env W r)) (comm_of W r) ?n"
    using assms(7) by (auto simp: sr world_recvs_def)
  have m: "world_sends W ?s ! j = send_request (xe_mpi (wo_env W ?s)) (comm_of W ?s) (wo_view W ?s) (prefix_count ?ss j) (?ss ! j)"
    using j(1) by (simp add: world_sends_def)
  have tag: "compute_tag (xe_mpi (wo_env W ?s)) a b c = compute_tag (xe_mpi (wo_env W r)) a b c" for a b c
    using world_okD(2) [OF assms(4) n(2)] world_okD(2) [OF assms(4,6)] by (simp add: compute_tag_def)
  have "ms_dest (world_sends W ?s ! j) = int r" "ms_tag (world_sends W ?s ! j) = mr_tag (recvs r ! i)" "j < length (world_sends W ?s)"
    using j n(1) by (simp_all add: m tag q(2) recv_request_def send_request_def comm_of_def) (simp add: world_sends_def)
  then have "filter (\<lambda>x. ms_dest x = int r \<and> ms_tag x = mr_tag (recvs r ! i)) (world_sends W ?s) = [world_sends W ?s ! j]"
    using filter_unique [OF distinct_dests(1) [OF assms(4) n(2)], of j "int r" "\<lambda>x. ms_tag x = mr_tag (recvs r ! i)"] by simp
  moreover have "mr_source (recvs r ! i) = ni_rank ?n" by (simp add: q(2) recv_request_def)
  ultimately have "messages_to sends r (recvs r ! i) = [world_sends W ?s ! j]" using sr(1) by (simp add: messages_to_def)
  moreover have "earlier_receives (recvs r) i = 0"
    using distinct_dests(2) [OF assms(4,6)] q(1) by (intro earlier_receives_distinct) (simp_all add: sr)
  moreover have b: "prefix_count ?ss j + ni_count ?n \<le> length (wo_view W ?s)"
    using prefix_count_total [OF j(1)] j(3) world_okD(7) [OF assms(4) n(2)] by linarith
  then have "mr_count (recvs r ! i) = int (ni_count ?n)"
    using world_okD(8) [OF assms(4) n(2)] by (simp add: q(2) recv_request_def is_i32_def)
  ultimately have "net sends recvs r i = ms_data (world_sends W ?s ! j)"
    using mpi_fifoD [of net i recvs r sends, OF assms(3) q(1)] n(1) m j(3) by (simp add: q(2) recv_request_def send_request_def)
  then have d: "net sends recvs r i = take (ni_count ?n) (drop (prefix_count ?ss j) (wo_view W ?s))"
    using m j(3) by (simp add: send_request_def)
  moreover have "length (net sends recvs r i) = ni_count ?n" using d b by simp
  ultimately show ?thesis using that j(1,2) by blast
qed

section \<open>Correctness of the exchange\<close>

definition path_ok :: "'a transfer_path \<Rightarrow> nat \<Rightarrow> bool" where
  "path_ok path n \<longleftrightarrow> (case path of Direct order \<Rightarrow> distinct order \<and> set order = {0..<n} | Staged junk \<Rightarrow> True)"

lemma exchange_finish_world:
  fixes W :: "'a world"
  assumes "world_ok W ub" "r < wo_size W" "path_ok path (length (hp_recv (wo_plan W r)))"
    and "\<forall>i<length (hp_recv (wo_plan W r)). length (payload i) = ni_count (hp_recv (wo_plan W r) ! i)"
  shows "\<exists>v. exchange_finish (wo_env W r) path (wo_plan W r) (world_recvs W r) payload (wo_view W r) = Inr v \<and>
    length v = length (wo_view W r) \<and>
    (\<forall>i<length (hp_recv (wo_plan W r)). \<forall>k<ni_count (hp_recv (wo_plan W r) ! i).
       v ! (total_count (hp_send (wo_plan W r)) + prefix_count (hp_recv (wo_plan W r)) i + k) = payload i ! k) \<and>
    (\<forall>p<length (wo_view W r). p < total_count (hp_send (wo_plan W r)) \<or>
       total_count (hp_send (wo_plan W r)) + total_count (hp_recv (wo_plan W r)) \<le> p \<longrightarrow> v ! p = wo_view W r ! p)"
    (is "\<exists>v. ?fin = Inr v \<and> ?P v")
proof -
  let ?ns = "hp_recv (wo_plan W r)" and ?ts = "total_count (hp_send (wo_plan W r))"
  let ?off = "\<lambda>i. ?ts + prefix_count ?ns i" and ?len = "\<lambda>i. ni_count (?ns ! i)"
  let ?req = "\<lambda>i. recv_request (xe_mpi (wo_env W r)) (comm_of W r) (?ns ! i)"
  note w = world_okD [OF assms(1,2)]
  have b: "?off i + ?len i \<le> length (wo_view W r)" if "i < length ?ns" for i
    using prefix_count_total [OF that] w(7) by linarith
  have c: "nat (mr_count (?req i)) = ?len i" if "i < length ?ns" for i
    using b [OF that] w(8) by (simp add: recv_request_def is_i32_def)
  have nth: "world_recvs W r ! i = (?off i, ?req i)" if "i < length ?ns" for i
    using that by (simp add: world_recvs_def)
  have direct: "\<exists>v. finish_direct (world_recvs W r) payload order (wo_view W r) = Inr v \<and> ?P v"
    if o: "distinct order" "set order = {0..<length ?ns}" for order
  proof -
    have "\<exists>v. finish_direct (world_recvs W r) payload order (wo_view W r) = Inr v \<and> length v = length (wo_view W r) \<and>
        (\<forall>i\<in>set order. \<forall>k<?len i. v ! (?off i + k) = payload i ! k) \<and>
        (\<forall>p<length (wo_view W r). (\<forall>i\<in>set order. p < ?off i \<or> ?off i + ?len i \<le> p) \<longrightarrow> v ! p = wo_view W r ! p)"
    proof (rule finish_direct_result [OF o(1)])
      show "\<forall>i\<in>set order. world_recvs W r ! i = (?off i, ?req i) \<and> nat (mr_count (?req i)) = ?len i \<and>
          length (payload i) = ?len i \<and> ?off i + ?len i \<le> length (wo_view W r)"
        using o(2) nth c b assms(4) by auto
      show "\<forall>i\<in>set order. \<forall>j\<in>set order. i \<noteq> j \<longrightarrow> ?off i + ?len i \<le> ?off j \<or> ?off j + ?len j \<le> ?off i"
        using o(2) prefix_count_disjoint [of _ ?ns] by fastforce
    qed
    moreover have "p < ?off i \<or> ?off i + ?len i \<le> p" if "i \<in> set order" "p < ?ts \<or> ?ts + total_count ?ns \<le> p" for i p
      using prefix_count_total [of i ?ns] o(2) that by auto
    ultimately show ?thesis using o(2) by auto
  qed
  have st: "finish_staged junk payload 0 ?ts ?ns (wo_view W r) = finish_direct (world_recvs W r) payload [0..<length ?ns] (wo_view W r)" for junk
    using finish_staged_direct [of ?ns payload 0 "world_recvs W r" ?ts ?req junk "wo_view W r"] nth c assms(4) w(7,8) by simp
  show ?thesis
  proof (cases "num_send_neighbors (wo_plan W r) = 0 \<and> num_recv_neighbors (wo_plan W r) = 0")
    case True
    then show ?thesis by (auto simp: exchange_finish_def num_recv_neighbors_def)
  next
    case False
    then show ?thesis
      using direct assms(3) w(1,5) st direct [of "[0..<length ?ns]"]
      by (cases path) (auto simp: exchange_finish_def path_ok_def)
  qed
qed

text \<open>
  C10. The halo exchange moves every message to its place. For ranks whose plans are valid and agree pairwise, on a network that
  keeps the order of messages, every rank's exchange succeeds, whatever the transfer path and the
  order in which requests complete: the receive region of each neighbour holds what that neighbour
  had in its send region for this rank, and everything outside the receive regions is as before.
  Tags may collide modulo the largest tag; the check for repeated ranks makes the matching unique.
\<close>

theorem exchange_delivers:
  assumes "mpi_fifo net" "world_ok W ub" "matched W" "r < wo_size W" "path_ok (path r) (length (hp_recv (wo_plan W r)))"
  shows "\<exists>view'. exchange_blocking net (wo_env W) path (wo_plan W) (wo_view W) r = Inr view' \<and> length view' = length (wo_view W r) \<and>
    (\<forall>i<length (hp_recv (wo_plan W r)). \<exists>j<length (hp_send (wo_plan W (nat (ni_rank (hp_recv (wo_plan W r) ! i))))).
       let s = nat (ni_rank (hp_recv (wo_plan W r) ! i)) in
       ni_rank (hp_send (wo_plan W s) ! j) = int r \<and>
       (\<forall>k<ni_count (hp_recv (wo_plan W r) ! i).
          view' ! (total_count (hp_send (wo_plan W r)) + prefix_count (hp_recv (wo_plan W r)) i + k) =
          wo_view W s ! (prefix_count (hp_send (wo_plan W s)) j + k))) \<and>
    (\<forall>p<length (wo_view W r). p < total_count (hp_send (wo_plan W r)) \<or>
       total_count (hp_send (wo_plan W r)) + total_count (hp_recv (wo_plan W r)) \<le> p \<longrightarrow> view' ! p = wo_view W r ! p)"
proof -
  let ?posts = "\<lambda>q. exchange_post (wo_env W q) (wo_plan W q) (wo_view W q)"
  let ?payload = "net (\<lambda>q. posted_sends (?posts q)) (\<lambda>q. posted_recvs (?posts q)) r"
  have pl: "\<exists>j<length (hp_send (wo_plan W (nat (ni_rank (hp_recv (wo_plan W r) ! i))))).
      ni_rank (hp_send (wo_plan W (nat (ni_rank (hp_recv (wo_plan W r) ! i)))) ! j) = int r \<and>
      length (?payload i) = ni_count (hp_recv (wo_plan W r) ! i) \<and>
      ?payload i = take (ni_count (hp_recv (wo_plan W r) ! i)) (drop (prefix_count (hp_send (wo_plan W (nat (ni_rank (hp_recv (wo_plan W r) ! i))))) j)
        (wo_view W (nat (ni_rank (hp_recv (wo_plan W r) ! i)))))" if "i < length (hp_recv (wo_plan W r))" for i
    by (rule payload_world [OF assms(1-4) that]) (intro exI conjI; assumption)
  obtain v where v: "exchange_finish (wo_env W r) (path r) (wo_plan W r) (world_recvs W r) ?payload (wo_view W r) = Inr v"
      "length v = length (wo_view W r)"
      "\<forall>i<length (hp_recv (wo_plan W r)). \<forall>k<ni_count (hp_recv (wo_plan W r) ! i).
         v ! (total_count (hp_send (wo_plan W r)) + prefix_count (hp_recv (wo_plan W r)) i + k) = ?payload i ! k"
      "\<forall>p<length (wo_view W r). p < total_count (hp_send (wo_plan W r)) \<or>
         total_count (hp_send (wo_plan W r)) + total_count (hp_recv (wo_plan W r)) \<le> p \<longrightarrow> v ! p = wo_view W r ! p"
    using exchange_finish_world [OF assms(2,4,5), of ?payload] pl by auto
  have "exchange_blocking net (wo_env W) path (wo_plan W) (wo_view W) r = Inr v"
    using v(1) exchange_post_world [OF assms(2,4)] by (simp add: exchange_blocking_def Let_def)
  moreover have "\<exists>j<length (hp_send (wo_plan W (nat (ni_rank (hp_recv (wo_plan W r) ! i))))).
       let s = nat (ni_rank (hp_recv (wo_plan W r) ! i)) in
       ni_rank (hp_send (wo_plan W s) ! j) = int r \<and>
       (\<forall>k<ni_count (hp_recv (wo_plan W r) ! i).
          v ! (total_count (hp_send (wo_plan W r)) + prefix_count (hp_recv (wo_plan W r)) i + k) =
          wo_view W s ! (prefix_count (hp_send (wo_plan W s)) j + k))" if i: "i < length (hp_recv (wo_plan W r))" for i
  proof -
    obtain j where j: "j < length (hp_send (wo_plan W (nat (ni_rank (hp_recv (wo_plan W r) ! i)))))"
      "ni_rank (hp_send (wo_plan W (nat (ni_rank (hp_recv (wo_plan W r) ! i)))) ! j) = int r"
      "length (?payload i) = ni_count (hp_recv (wo_plan W r) ! i)"
      "?payload i = take (ni_count (hp_recv (wo_plan W r) ! i)) (drop (prefix_count (hp_send (wo_plan W (nat (ni_rank (hp_recv (wo_plan W r) ! i))))) j)
        (wo_view W (nat (ni_rank (hp_recv (wo_plan W r) ! i)))))"
      using pl [OF i] by blast
    then have "?payload i ! k = wo_view W (nat (ni_rank (hp_recv (wo_plan W r) ! i))) !
        (prefix_count (hp_send (wo_plan W (nat (ni_rank (hp_recv (wo_plan W r) ! i))))) j + k)"
      if k: "k < ni_count (hp_recv (wo_plan W r) ! i)" for k
    proof -
      have "k < length (?payload i)" using j(3) k by simp
      then show ?thesis using k by (subst j(4)) (simp add: j(4))
    qed
    then show ?thesis using j(1,2) v(3) i by (auto simp: Let_def)
  qed
  ultimately show ?thesis using v(2,4) by blast
qed

definition ring_world :: "nat world" where
  "ring_world = \<lparr>wo_size = 2,
     wo_env = (\<lambda>_. \<lparr>xe_mpi = sample_mpi, xe_policy = Throw_on_error, xe_rc = (\<lambda>_ _. 0)\<rparr>),
     wo_plan = (\<lambda>q. \<lparr>hp_comm = \<lparr>co_rank = int q, co_size = 2\<rparr>,
        hp_send = [\<lparr>ni_rank = 1 - int q, ni_count = 2\<rparr>], hp_recv = [\<lparr>ni_rank = 1 - int q, ni_count = 2\<rparr>],
        hp_total_send = 2, hp_total_recv = 2\<rparr>),
     wo_view = (\<lambda>q. if q = 0 then [1, 2, 0, 0, 9] else [3, 4, 0, 0, 9])\<rparr>"

lemma ring_world_ok: "world_ok ring_world None \<and> matched ring_world"
proof -
  have "world_ok ring_world None"
    by (auto simp: world_ok_def ring_world_def less_2_cases_iff no_mpi_error_def sample_mpi_def mk_halo_plan_def validate_neighbors_def
        comm_of_def sum_counts_def uadd_def total_count_def)
  moreover have "matched ring_world"
    by (auto simp: matched_def ring_world_def less_2_cases_iff)
  ultimately show ?thesis by blast
qed

theorem exchange_delivers_witness:
  "\<exists>view'. exchange_blocking fifo_net (wo_env ring_world) (\<lambda>_. Direct [0]) (wo_plan ring_world) (wo_view ring_world) 0 = Inr view' \<and>
     view' ! 2 = 3 \<and> view' ! 3 = 4 \<and> view' ! 4 = 9"
proof -
  have "path_ok (Direct [0] :: nat transfer_path) (length (hp_recv (wo_plan ring_world 0)))"
    by (auto simp: path_ok_def ring_world_def)
  moreover have "0 < wo_size ring_world" by (simp add: ring_world_def)
  ultimately obtain v where v: "exchange_blocking fifo_net (wo_env ring_world) (\<lambda>_. Direct [0]) (wo_plan ring_world) (wo_view ring_world) 0 = Inr v"
    and a: "\<forall>i<length (hp_recv (wo_plan ring_world 0)). \<exists>j<length (hp_send (wo_plan ring_world (nat (ni_rank (hp_recv (wo_plan ring_world 0) ! i))))).
       let s = nat (ni_rank (hp_recv (wo_plan ring_world 0) ! i)) in
       ni_rank (hp_send (wo_plan ring_world s) ! j) = int 0 \<and>
       (\<forall>k<ni_count (hp_recv (wo_plan ring_world 0) ! i).
          v ! (total_count (hp_send (wo_plan ring_world 0)) + prefix_count (hp_recv (wo_plan ring_world 0)) i + k) =
          wo_view ring_world s ! (prefix_count (hp_send (wo_plan ring_world s)) j + k))"
    and b: "\<forall>p<length (wo_view ring_world 0). p < total_count (hp_send (wo_plan ring_world 0)) \<or>
       total_count (hp_send (wo_plan ring_world 0)) + total_count (hp_recv (wo_plan ring_world 0)) \<le> p \<longrightarrow> v ! p = wo_view ring_world 0 ! p"
    using exchange_delivers [OF fifo_net_fifo, of ring_world None 0 "\<lambda>_. Direct [0]"] ring_world_ok by blast
  have a0: "\<forall>k<2. v ! (2 + k) = [3, 4, 0, 0, 9] ! k"
    using a by (simp add: ring_world_def total_count_def)
  then have "v ! 2 = 3" "v ! 3 = 4" using a0 [rule_format, of 0] a0 [rule_format, of 1] by simp_all
  moreover have "v ! 4 = 9" using b [rule_format, of 4] by (simp add: ring_world_def total_count_def)
  ultimately show ?thesis using v by blast
qed

end
