(* ===== verification/Halo_Structured.thy ===== *)
theory Halo_Structured
  imports Halo_Exchange
begin

text \<open>
  HALO's structured exchange: \<^verbatim>\<open>halo/structured_halo_plan.hpp\<close>, \<^verbatim>\<open>halo/detail/pack_unpack.hpp\<close> and
  \<^verbatim>\<open>halo/exchange_structured.hpp\<close>.

  A view of rank 1 to 4 is a function from index lists to elements, with its list of extents.
  Kokkos is not part of the repository; what the code uses of its views is the record \<open>kokkos\<close>, an
  argument: where a subview's element lies in the view, whether a subview is contiguous in
  memory, and the order of a contiguous view's elements in memory. \<open>kokkos_ok\<close> states what Kokkos
  documents about them.
\<close>

section \<open>Plans\<close>

type_synonym index_range = "nat \<times> nat"
type_synonym Region = "index_range list"
type_synonym 'a view = "nat list \<Rightarrow> 'a"

definition u64 :: "int \<Rightarrow> nat" where
  "u64 x = nat (x mod 18446744073709551616)"

definition region_size :: "Region \<Rightarrow> nat" where
  "region_size region = foldl (\<lambda>s rg. u64 (int s * int (u64 (int (snd rg) - int (fst rg))))) 1 region"

record Structured_Halo_Plan =
  sp_extents :: "nat list"
  sp_neighbors :: "int list"
  sp_widths :: "nat list"
  sp_comm :: Communicator
  sp_send :: "Region list"
  sp_recv :: "Region list"

definition grid_rank :: "Structured_Halo_Plan \<Rightarrow> nat" where
  "grid_rank plan = length (sp_extents plan)"

definition num_faces :: "Structured_Halo_Plan \<Rightarrow> nat" where
  "num_faces plan = 2 * grid_rank plan"

fun validate_structured_extents :: "nat \<Rightarrow> nat list \<Rightarrow> nat list \<Rightarrow> unit halo_result" where
  "validate_structured_extents d (N # Ns) (h # hs) =
     (if N < u64 (2 * int h) then Inl (Invalid_argument
        (''Structured_Halo_Plan: extent['' @ dec_digits d @ ''] = '' @ dec_digits N @
         '' is less than 2 * halo_width['' @ dec_digits d @ ''] = '' @ dec_digits (u64 (2 * int h))))
      else validate_structured_extents (d + 1) Ns hs)"
| "validate_structured_extents d _ _ = Inr ()"

definition slab :: "nat list \<Rightarrow> nat \<Rightarrow> index_range \<Rightarrow> Region" where
  "slab extents d rg = map (\<lambda>k. if k = d then rg else (0, extents ! k)) [0..<length extents]"

definition send_lo :: "nat list \<Rightarrow> nat list \<Rightarrow> nat \<Rightarrow> Region" where
  "send_lo extents widths d = slab extents d (widths ! d, u64 (2 * int (widths ! d)))"

definition recv_lo :: "nat list \<Rightarrow> nat list \<Rightarrow> nat \<Rightarrow> Region" where
  "recv_lo extents widths d = slab extents d (0, widths ! d)"

definition send_hi :: "nat list \<Rightarrow> nat list \<Rightarrow> nat \<Rightarrow> Region" where
  "send_hi extents widths d = slab extents d
     (u64 (int (extents ! d) - 2 * int (widths ! d)), u64 (int (extents ! d) - int (widths ! d)))"

definition recv_hi :: "nat list \<Rightarrow> nat list \<Rightarrow> nat \<Rightarrow> Region" where
  "recv_hi extents widths d = slab extents d (u64 (int (extents ! d) - int (widths ! d)), extents ! d)"

definition precompute_regions :: "nat list \<Rightarrow> nat list \<Rightarrow> Region list \<times> Region list" where
  "precompute_regions extents widths =
     (concat (map (\<lambda>d. [send_lo extents widths d, send_hi extents widths d]) [0..<length extents]),
      concat (map (\<lambda>d. [recv_lo extents widths d, recv_hi extents widths d]) [0..<length extents]))"

definition mk_structured_plan :: "nat list \<Rightarrow> int list \<Rightarrow> nat list \<Rightarrow> Communicator \<Rightarrow> Structured_Halo_Plan halo_result" where
  "mk_structured_plan extents neighbor_ranks widths comm =
     bindR (validate_structured_extents 0 extents widths) (\<lambda>_.
       let (sends, recvs) = precompute_regions extents widths in
       Inr \<lparr>sp_extents = extents, sp_neighbors = neighbor_ranks, sp_widths = widths, sp_comm = comm,
            sp_send = sends, sp_recv = recvs\<rparr>)"

definition check_face_idx :: "Structured_Halo_Plan \<Rightarrow> int \<Rightarrow> unit halo_result" where
  "check_face_idx plan face_idx =
     (if face_idx < 0 \<or> face_idx \<ge> int (num_faces plan) then Inl (Out_of_range
        (''Structured_Halo_Plan: face_idx '' @ dec_int face_idx @ '' out of range [0, '' @ dec_int (int (num_faces plan)) @ '')''))
      else Inr ())"

definition check_dim :: "Structured_Halo_Plan \<Rightarrow> int \<Rightarrow> unit halo_result" where
  "check_dim plan dim =
     (if dim < 0 \<or> dim \<ge> int (grid_rank plan) then Inl (Out_of_range
        (''Structured_Halo_Plan: dim '' @ dec_int dim @ '' out of range [0, '' @ dec_int (int (grid_rank plan)) @ '')''))
      else Inr ())"

definition send_region :: "Structured_Halo_Plan \<Rightarrow> int \<Rightarrow> Region halo_result" where
  "send_region plan face_idx = bindR (check_face_idx plan face_idx) (\<lambda>_. Inr (sp_send plan ! nat face_idx))"

definition recv_region :: "Structured_Halo_Plan \<Rightarrow> int \<Rightarrow> Region halo_result" where
  "recv_region plan face_idx = bindR (check_face_idx plan face_idx) (\<lambda>_. Inr (sp_recv plan ! nat face_idx))"

definition neighbor_rank :: "Structured_Halo_Plan \<Rightarrow> int \<Rightarrow> int halo_result" where
  "neighbor_rank plan face_idx = bindR (check_face_idx plan face_idx) (\<lambda>_. Inr (sp_neighbors plan ! nat face_idx))"

definition has_neighbor :: "Structured_Halo_Plan \<Rightarrow> int \<Rightarrow> bool halo_result" where
  "has_neighbor plan face_idx = bindR (check_face_idx plan face_idx) (\<lambda>_. Inr (sp_neighbors plan ! nat face_idx \<ge> 0))"

definition halo_width :: "Structured_Halo_Plan \<Rightarrow> int \<Rightarrow> nat halo_result" where
  "halo_width plan dim = bindR (check_dim plan dim) (\<lambda>_. Inr (sp_widths plan ! nat dim))"

definition extent :: "Structured_Halo_Plan \<Rightarrow> int \<Rightarrow> nat halo_result" where
  "extent plan dim = bindR (check_dim plan dim) (\<lambda>_. Inr (sp_extents plan ! nat dim))"

definition active_neighbor_count :: "Structured_Halo_Plan \<Rightarrow> nat" where
  "active_neighbor_count plan = foldl (\<lambda>count f. if sp_neighbors plan ! f \<ge> 0 then count + 1 else count) 0 [0..<num_faces plan]"

section \<open>Packing\<close>

record kokkos =
  k_index :: "Region \<Rightarrow> nat list \<Rightarrow> nat list"
  k_contiguous :: "nat list \<Rightarrow> Region \<Rightarrow> bool"
  k_order :: "nat list \<Rightarrow> nat list list"

definition sub_extents :: "Region \<Rightarrow> nat list" where
  "sub_extents region = map (\<lambda>rg. snd rg - fst rg) region"

fun pack_strided :: "nat list \<Rightarrow> 'a view \<Rightarrow> 'a list \<Rightarrow> 'a list" where
  "pack_strided [n0] src dst = fold (\<lambda>i0 dst. dst[i0 := src [i0]]) [0..<n0] dst"
| "pack_strided [n0, n1] src dst =
     fold (\<lambda>(i0, i1) dst. dst[i0 * n1 + i1 := src [i0, i1]]) (List.product [0..<n0] [0..<n1]) dst"
| "pack_strided [n0, n1, n2] src dst =
     fold (\<lambda>((i0, i1), i2) dst. dst[(i0 * n1 + i1) * n2 + i2 := src [i0, i1, i2]])
       (List.product (List.product [0..<n0] [0..<n1]) [0..<n2]) dst"
| "pack_strided [n0, n1, n2, n3] src dst =
     fold (\<lambda>idx dst. let i3 = idx mod n3; rem = idx div n3; i2 = rem mod n2; rem2 = rem div n2; i1 = rem2 mod n1; i0 = rem2 div n1
         in dst[idx := src [i0, i1, i2, i3]])
       [0..<n0 * n1 * n2 * n3] dst"
| "pack_strided _ src dst = dst"

fun unpack_strided :: "nat list \<Rightarrow> 'a list \<Rightarrow> 'a view \<Rightarrow> 'a view" where
  "unpack_strided [n0] src dst = fold (\<lambda>i0 dst. dst([i0] := src ! i0)) [0..<n0] dst"
| "unpack_strided [n0, n1] src dst =
     fold (\<lambda>(i0, i1) dst. dst([i0, i1] := src ! (i0 * n1 + i1))) (List.product [0..<n0] [0..<n1]) dst"
| "unpack_strided [n0, n1, n2] src dst =
     fold (\<lambda>((i0, i1), i2) dst. dst([i0, i1, i2] := src ! ((i0 * n1 + i1) * n2 + i2)))
       (List.product (List.product [0..<n0] [0..<n1]) [0..<n2]) dst"
| "unpack_strided [n0, n1, n2, n3] src dst =
     fold (\<lambda>idx dst. let i3 = idx mod n3; rem = idx div n3; i2 = rem mod n2; rem2 = rem div n2; i1 = rem2 mod n1; i0 = rem2 div n1
         in dst([i0, i1, i2, i3] := src ! idx))
       [0..<n0 * n1 * n2 * n3] dst"
| "unpack_strided _ src dst = dst"

definition pack_contiguous :: "kokkos \<Rightarrow> nat list \<Rightarrow> 'a view \<Rightarrow> 'a list \<Rightarrow> 'a list" where
  "pack_contiguous K ns src dst = fold (\<lambda>i dst. dst[i := src (k_order K ns ! i)]) [0..<prod_list ns] dst"

definition unpack_contiguous :: "kokkos \<Rightarrow> nat list \<Rightarrow> 'a list \<Rightarrow> 'a view \<Rightarrow> 'a view" where
  "unpack_contiguous K ns src dst = fold (\<lambda>i dst. dst(k_order K ns ! i := src ! i)) [0..<prod_list ns] dst"

definition pack :: "kokkos \<Rightarrow> bool \<Rightarrow> nat list \<Rightarrow> 'a view \<Rightarrow> 'a list \<Rightarrow> 'a list" where
  "pack K contiguous ns src dst = (if contiguous then pack_contiguous K ns src dst else pack_strided ns src dst)"

definition unpack :: "kokkos \<Rightarrow> bool \<Rightarrow> nat list \<Rightarrow> 'a list \<Rightarrow> 'a view \<Rightarrow> 'a view" where
  "unpack K contiguous ns src dst = (if contiguous then unpack_contiguous K ns src dst else unpack_strided ns src dst)"

definition make_subview :: "kokkos \<Rightarrow> 'a view \<Rightarrow> Region \<Rightarrow> 'a view" where
  "make_subview K view region = (\<lambda>i. view (k_index K region i))"

section \<open>Row-major order\<close>

definition row_major :: "nat list \<Rightarrow> nat list list" where
  "row_major ns = product_lists (map (\<lambda>n. [0..<n]) ns)"

definition in_box :: "nat list \<Rightarrow> nat list \<Rightarrow> bool" where
  "in_box ns i \<longleftrightarrow> list_all2 (<) i ns"

definition kokkos_ok :: "kokkos \<Rightarrow> bool" where
  "kokkos_ok K \<longleftrightarrow>
     (\<forall>region i. length i = length region \<longrightarrow> k_index K region i = map2 (+) (map fst region) i) \<and>
     (\<forall>ns. distinct (k_order K ns) \<and> set (k_order K ns) = {i. in_box ns i})"

lemma set_row_major: "set (row_major ns) = {i. in_box ns i}"
  by (auto simp: row_major_def product_lists_set in_box_def list_all2_map2 list_all2_conv_all_nth)

lemma distinct_row_major: "distinct (row_major ns)"
  unfolding row_major_def by (rule distinct_product_lists) auto

lemma length_row_major [simp]: "length (row_major ns) = prod_list ns"
  by (induction ns) (auto simp: row_major_def length_concat comp_def sum_list_triv)

lemma length_k_order: "kokkos_ok K \<Longrightarrow> length (k_order K ns) = prod_list ns"
  using distinct_card [of "k_order K ns"] distinct_card [OF distinct_row_major, of ns] set_row_major [of ns] by (simp add: kokkos_ok_def)

lemma fold_scatter_from:
  "map f xs = [k..<k + length xs] \<Longrightarrow> k + length xs \<le> length d \<Longrightarrow>
     fold (\<lambda>x d. d[f x := g x]) xs d = take k d @ map g xs @ drop (k + length xs) d"
proof (induction xs arbitrary: k d)
  case (Cons x xs)
  have "map f (x # xs) = k # [Suc k..<k + length (x # xs)]" using Cons.prems(1) by (simp add: upt_conv_Cons del: upt_Suc)
  then have f: "f x = k" "map f xs = [Suc k..<Suc k + length xs]" by (auto simp del: upt_Suc)
  have "fold (\<lambda>x d. d[f x := g x]) xs (d[k := g x]) =
      take (Suc k) (d[k := g x]) @ map g xs @ drop (Suc k + length xs) (d[k := g x])"
    using Cons.prems(2) by (intro Cons.IH f(2)) simp
  then show ?case
    using f(1) Cons.prems(2) by (simp add: take_Suc_conv_app_nth)
qed simp

lemma fold_scatter:
  "map f xs = [0..<length xs] \<Longrightarrow> length d = length xs \<Longrightarrow> fold (\<lambda>x d. d[f x := g x]) xs d = map g xs"
  using fold_scatter_from [of f xs 0 d g] by simp

lemma fold_gather:
  "\<forall>x\<in>set xs. val x = h (g x) \<Longrightarrow> fold (\<lambda>x v. v(g x := val x)) xs v = (\<lambda>i. if i \<in> g ` set xs then h i else v i)"
  by (induction xs arbitrary: v) (auto simp: fun_eq_iff)

lemma map_product_upt:
  assumes "map g xs = [0..<m]"
  shows "map (\<lambda>(x, k). g x * n + k) (List.product xs [0..<n]) = [0..<m * n]"
  using assms
proof (induction xs arbitrary: m rule: rev_induct)
  case (snoc x xs)
  then obtain m' where m: "m = Suc m'" by (cases m) auto
  then have g: "map g xs = [0..<m']" "g x = m'" using snoc.prems by auto
  have "List.product (xs @ [x]) [0..<n] = List.product xs [0..<n] @ map (Pair x) [0..<n]"
    by (simp add: product_concat_map)
  moreover have "map (\<lambda>k. m' * n + k) [0..<n] = [m' * n..<m' * n + n]" using map_add_upt [of "m' * n" n] by (simp add: add.commute)
  moreover have "[0..<m * n] = [0..<m' * n] @ [m' * n..<m' * n + n]"
    using upt_add_eq_append [of 0 "m' * n" n] m by (simp add: add.commute)
  ultimately show ?case
    using snoc.IH [OF g(1)] g(2) by (simp add: comp_def)
next
  case Nil
  then have "m = 0" by (cases m) auto
  then show ?case by simp
qed

lemma concat_concat_map: "concat (concat xss) = concat (map concat xss)"
  by (induction xss) auto

lemma row_major_1: "row_major [n0] = map (\<lambda>i0. [i0]) [0..<n0]"
  by (simp add: row_major_def)

lemma row_major_2: "row_major [n0, n1] = map (\<lambda>(i0, i1). [i0, i1]) (List.product [0..<n0] [0..<n1])"
  by (simp add: row_major_def product_concat_map map_concat comp_def)

lemma row_major_3: "row_major [n0, n1, n2] = map (\<lambda>((i0, i1), i2). [i0, i1, i2]) (List.product (List.product [0..<n0] [0..<n1]) [0..<n2])"
  by (simp add: row_major_def product_concat_map map_concat concat_concat_map comp_def)

lemma row_major_4: "row_major [n0, n1, n2, n3] =
    map (\<lambda>(((i0, i1), i2), i3). [i0, i1, i2, i3]) (List.product (List.product (List.product [0..<n0] [0..<n1]) [0..<n2]) [0..<n3])"
  by (simp add: row_major_def product_concat_map map_concat comp_def concat_concat_map)

lemma kernel_order_2: "map (\<lambda>(i0, i1). i0 * n1 + i1) (List.product [0..<n0] [0..<n1]) = [0..<n0 * n1]"
  using map_product_upt [of id "[0..<n0]" n0 n1] by simp

lemma kernel_order_3:
  "map (\<lambda>((i0, i1), i2). (i0 * n1 + i1) * n2 + i2) (List.product (List.product [0..<n0] [0..<n1]) [0..<n2]) = [0..<n0 * n1 * n2]"
  using map_product_upt [OF kernel_order_2 [of n1 n0], of n2] by (simp add: split_def)

lemma decompose_4:
  fixes n0 n1 n2 n3 :: nat
  shows "map (\<lambda>idx. [idx div n3 div n2 div n1, idx div n3 div n2 mod n1, idx div n3 mod n2, idx mod n3]) [0..<n0 * n1 * n2 * n3] =
    row_major [n0, n1, n2, n3]"
proof -
  let ?xs = "List.product (List.product (List.product [0..<n0] [0..<n1]) [0..<n2]) [0..<n3]"
  let ?f = "\<lambda>(((i0, i1), i2), i3). ((i0 * n1 + i1) * n2 + i2) * n3 + i3"
  from map_product_upt [OF kernel_order_3 [of n1 n2 n0], of n3]
  have f: "map ?f ?xs = [0..<n0 * n1 * n2 * n3]" by (simp add: split_def)
  show ?thesis unfolding row_major_4 f [symmetric] map_map
    by (rule map_cong [OF refl]) auto
qed

lemma rank_cases:
  assumes "1 \<le> length ns" "length ns \<le> 4"
  obtains (1) n0 where "ns = [n0]" | (2) n0 n1 where "ns = [n0, n1]" | (3) n0 n1 n2 where "ns = [n0, n1, n2]"
    | (4) n0 n1 n2 n3 where "ns = [n0, n1, n2, n3]"
  using assms by (auto simp: Suc_le_eq numeral_eq_Suc le_Suc_eq length_Suc_conv)

lemma pack_strided_row_major:
  assumes "1 \<le> length ns" "length ns \<le> 4" "length dst = prod_list ns"
  shows "pack_strided ns src dst = map src (row_major ns)"
  using assms(1,2)
proof (cases rule: rank_cases)
    case (1 n0)
    then show ?thesis using assms(3) fold_scatter [of id "[0..<n0]" dst "\<lambda>i. src [i]"] by (simp add: row_major_1)
  next
    case (2 n0 n1)
    show ?thesis
      using 2 assms(3) kernel_order_2 [of n1 n0] fold_scatter [of "\<lambda>(i0, i1). i0 * n1 + i1" "List.product [0..<n0] [0..<n1]" dst "\<lambda>(i0, i1). src [i0, i1]"]
      by (simp add: row_major_2 split_def comp_def)
  next
    case (3 n0 n1 n2)
    show ?thesis
      using 3 assms(3) kernel_order_3 [of n1 n2 n0] fold_scatter [of "\<lambda>((i0, i1), i2). (i0 * n1 + i1) * n2 + i2"
          "List.product (List.product [0..<n0] [0..<n1]) [0..<n2]" dst "\<lambda>((i0, i1), i2). src [i0, i1, i2]"]
      by (simp add: row_major_3 split_def comp_def mult.assoc)
  next
    case (4 n0 n1 n2 n3)
    then show ?thesis
      using assms(3) fold_scatter [of id "[0..<n0 * n1 * n2 * n3]" dst
          "\<lambda>idx. src [idx div n3 div n2 div n1, idx div n3 div n2 mod n1, idx div n3 mod n2, idx mod n3]"]
        arg_cong [OF decompose_4 [of n3 n2 n1 n0], of "map src"]
      by (simp add: Let_def comp_def mult.assoc)
qed

lemma nth_at_order: "map f xs = [0..<length xs] \<Longrightarrow> x \<in> set xs \<Longrightarrow> map h xs ! f x = h x"
  by (auto simp: in_set_conv_nth) (metis length_map nth_map nth_upt add_0)

lemma unpack_strided_row_major:
  assumes "1 \<le> length ns" "length ns \<le> 4"
  shows "unpack_strided ns (map h (row_major ns)) v = (\<lambda>i. if in_box ns i then h i else v i)"
proof -
  have box: "in_box ms i \<longleftrightarrow> i \<in> set (row_major ms)" for ms i by (simp add: set_row_major)
  from assms show ?thesis
  proof (cases rule: rank_cases)
    case (1 n0)
    have "fold (\<lambda>i0 v. v([i0] := map h (row_major [n0]) ! i0)) [0..<n0] v = (\<lambda>i. if i \<in> (\<lambda>i0. [i0]) ` set [0..<n0] then h i else v i)"
      by (rule fold_gather) (simp add: row_major_1)
    then show ?thesis using 1 by (simp add: box row_major_1)
  next
    case (2 n0 n1)
    have "fold (\<lambda>x v. v((case x of (i0, i1) \<Rightarrow> [i0, i1]) := map h (row_major [n0, n1]) ! (case x of (i0, i1) \<Rightarrow> i0 * n1 + i1)))
        (List.product [0..<n0] [0..<n1]) v =
      (\<lambda>i. if i \<in> (\<lambda>(i0, i1). [i0, i1]) ` set (List.product [0..<n0] [0..<n1]) then h i else v i)"
      by (rule fold_gather)
        (use nth_at_order [of "\<lambda>(i0, i1). i0 * n1 + i1" "List.product [0..<n0] [0..<n1]" _ "h \<circ> (\<lambda>(i0, i1). [i0, i1])"] kernel_order_2 [of n1 n0]
          in \<open>simp add: row_major_2 split_def\<close>)
    then show ?thesis using 2 by (simp add: box row_major_2 split_def)
  next
    case (3 n0 n1 n2)
    let ?xs = "List.product (List.product [0..<n0] [0..<n1]) [0..<n2]"
    let ?g = "\<lambda>((i0, i1), i2). [i0, i1, i2 :: nat]" and ?f = "\<lambda>((i0, i1), i2). (i0 * n1 + i1) * n2 + i2"
    have "fold (\<lambda>x v. v(?g x := map h (row_major [n0, n1, n2]) ! ?f x)) ?xs v = (\<lambda>i. if i \<in> ?g ` set ?xs then h i else v i)"
      by (rule fold_gather)
        (use nth_at_order [of ?f ?xs _ "h \<circ> ?g"] kernel_order_3 [of n1 n2 n0] in \<open>simp add: row_major_3 split_def mult.assoc\<close>)
    then show ?thesis using 3 by (simp add: box row_major_3 split_def)
  next
    case (4 n0 n1 n2 n3)
    let ?g = "\<lambda>idx. [idx div n3 div n2 div n1, idx div n3 div n2 mod n1, idx div n3 mod n2, idx mod n3]"
    have "fold (\<lambda>idx v. v(?g idx := map h (row_major ns) ! idx)) [0..<n0 * n1 * n2 * n3] v =
      (\<lambda>i. if i \<in> ?g ` set [0..<n0 * n1 * n2 * n3] then h i else v i)"
      by (rule fold_gather) (simp add: 4 decompose_4 [symmetric])
    moreover have "?g ` set [0..<n0 * n1 * n2 * n3] = set (row_major ns)" by (simp add: 4 decompose_4 [symmetric])
    ultimately show ?thesis using 4 by (simp add: box Let_def)
  qed
qed

lemma pack_contiguous_order: "kokkos_ok K \<Longrightarrow> length dst = prod_list ns \<Longrightarrow> pack_contiguous K ns src dst = map src (k_order K ns)"
  using fold_scatter [of id "[0..<prod_list ns]" dst "\<lambda>i. src (k_order K ns ! i)"] length_k_order [of K ns]
  by (simp add: pack_contiguous_def list_eq_iff_nth_eq)

lemma unpack_contiguous_order:
  assumes "kokkos_ok K"
  shows "unpack_contiguous K ns (map h (k_order K ns)) v = (\<lambda>i. if in_box ns i then h i else v i)"
proof -
  have "unpack_contiguous K ns (map h (k_order K ns)) v =
      (\<lambda>i. if i \<in> (\<lambda>i. k_order K ns ! i) ` set [0..<prod_list ns] then h i else v i)"
    unfolding unpack_contiguous_def by (rule fold_gather) (simp add: length_k_order [OF assms])
  moreover have "(\<lambda>i. k_order K ns ! i) ` set [0..<prod_list ns] = {i. in_box ns i}"
    using arg_cong [OF map_nth [of "k_order K ns"], of set] assms by (simp add: length_k_order [OF assms] kokkos_ok_def)
  ultimately show ?thesis by simp
qed

lemma unpack_pack_view:
  assumes "kokkos_ok K" "1 \<le> length ns" "length ns \<le> 4" "length buf = prod_list ns"
  shows "unpack K c ns (pack K c ns src buf) dst = (\<lambda>i. if in_box ns i then src i else dst i)" "length (pack K c ns src buf) = prod_list ns"
  using assms pack_contiguous_order [OF assms(1,4)] unpack_contiguous_order [OF assms(1)] pack_strided_row_major [OF assms(2-4)]
    unpack_strided_row_major [OF assms(2,3)] length_k_order [OF assms(1)]
  by (auto simp: pack_def unpack_def)

text \<open>
  C29. Unpacking what was packed copies the region. For views of rank 1 to 4, through the strided kernels (row-major
  index arithmetic, in rank 4 by division) or the contiguous one (memory order), a packed
  region unpacked into a region of the same shape and contiguity gives exactly the source's
  elements, and elements outside the region keep their values.
\<close>

theorem pack_unpack_roundtrip:
  assumes "kokkos_ok K" "1 \<le> length ns" "length ns \<le> 4" "length buf = prod_list ns"
  shows "length (pack K c ns src buf) = length buf \<and> unpack K c ns (pack K c ns src buf) dst = (\<lambda>i. if in_box ns i then src i else dst i)"
  using unpack_pack_view [OF assms] assms(4) by simp

definition layout_right :: kokkos where
  "layout_right = \<lparr>k_index = (\<lambda>region i. map2 (+) (map fst region) i), k_contiguous = (\<lambda>extents region. tl (sub_extents region) = tl extents),
     k_order = row_major\<rparr>"

lemma layout_right_ok: "kokkos_ok layout_right"
  by (simp add: kokkos_ok_def layout_right_def distinct_row_major set_row_major)

theorem pack_unpack_roundtrip_witness:
  "unpack layout_right False [2, 3] (pack layout_right False [2, 3] sum_list (replicate 6 0)) (\<lambda>_. 9) [1, 2] = (3 :: nat)"
  using pack_unpack_roundtrip [OF layout_right_ok, of "[2, 3]" "replicate 6 (0 :: nat)" False sum_list "\<lambda>_. 9"] by (simp add: in_box_def)

end
