(* ===== verification/Halo_Structured_Exchange.thy ===== *)
theory Halo_Structured_Exchange
  imports Halo_Structured
begin

text \<open>
  The blocking exchange of \<^verbatim>\<open>halo/exchange_structured.hpp\<close> over a structured plan.

  As in the unstructured exchange a rank posts its requests, the network decides the payloads,
  and the rank unpacks them face by face. \<open>junk\<close> is what an uninitialised buffer holds.
\<close>

section \<open>Operations\<close>

definition structured_compute_tag :: "mpi_env \<Rightarrow> int \<Rightarrow> int \<Rightarrow> int \<Rightarrow> int" where
  "structured_compute_tag M sender receiver comm_size =
     (let tag_ub = (case me_tag_ub M of Some ub \<Rightarrow> ub | None \<Rightarrow> 32767);
          product = sender * comm_size + receiver
      in wrap32 (product smod tag_ub))"

definition pack_region :: "kokkos \<Rightarrow> 'a \<Rightarrow> nat list \<Rightarrow> Region \<Rightarrow> 'a view \<Rightarrow> 'a list" where
  "pack_region K junk extents region view =
     pack K (k_contiguous K extents region) (sub_extents region) (make_subview K view region) (replicate (region_size region) junk)"

definition unpack_region :: "kokkos \<Rightarrow> nat list \<Rightarrow> Region \<Rightarrow> 'a list \<Rightarrow> 'a view \<Rightarrow> 'a view" where
  "unpack_region K extents region buf view =
     (let ns = sub_extents region; sub = unpack K (k_contiguous K extents region) ns buf (make_subview K view region)
      in (\<lambda>idx. case List.find (\<lambda>i. k_index K region i = idx) (row_major ns) of Some i \<Rightarrow> sub i | None \<Rightarrow> view idx))"

fun face_irecvs :: "string \<Rightarrow> exchange_env \<Rightarrow> Structured_Halo_Plan \<Rightarrow> nat list \<Rightarrow> mpi_recv list halo_result" where
  "face_irecvs what X plan [] = Inr []"
| "face_irecvs what X plan (f # fs) =
     bindR (has_neighbor plan (int f)) (\<lambda>neighbor.
       if \<not> neighbor then face_irecvs what X plan fs
       else bindR (recv_region plan (int f)) (\<lambda>region.
            bindR (neighbor_rank plan (int f)) (\<lambda>neighbor.
              let tag = structured_compute_tag (xe_mpi X) neighbor (co_rank (sp_comm plan)) (co_size (sp_comm plan));
                  req = \<lparr>mr_source = neighbor, mr_tag = tag, mr_count = wrap32 (int (region_size region))\<rparr>
              in checked X Op_Irecv f neighbor (''MPI_Irecv '' @ what) (mapR ((#) req) (face_irecvs what X plan fs)))))"

fun face_isends :: "string \<Rightarrow> exchange_env \<Rightarrow> kokkos \<Rightarrow> 'a \<Rightarrow> Structured_Halo_Plan \<Rightarrow> 'a view \<Rightarrow> nat list \<Rightarrow> 'a mpi_send list halo_result" where
  "face_isends what X K junk plan view [] = Inr []"
| "face_isends what X K junk plan view (f # fs) =
     bindR (has_neighbor plan (int f)) (\<lambda>neighbor.
       if \<not> neighbor then face_isends what X K junk plan view fs
       else bindR (send_region plan (int f)) (\<lambda>region.
            bindR (neighbor_rank plan (int f)) (\<lambda>neighbor.
              let tag = structured_compute_tag (xe_mpi X) (co_rank (sp_comm plan)) neighbor (co_size (sp_comm plan));
                  req = \<lparr>ms_dest = neighbor, ms_tag = tag, ms_data = pack_region K junk (sp_extents plan) region view\<rparr>
              in checked X Op_Isend f neighbor (''MPI_Isend '' @ what) (mapR ((#) req) (face_isends what X K junk plan view fs)))))"

fun unpack_faces :: "kokkos \<Rightarrow> 'a \<Rightarrow> Structured_Halo_Plan \<Rightarrow> (nat \<Rightarrow> 'a list) \<Rightarrow> nat \<Rightarrow> nat list \<Rightarrow> 'a view \<Rightarrow> 'a view halo_result" where
  "unpack_faces K junk plan payload i [] view = Inr view"
| "unpack_faces K junk plan payload i (f # fs) view =
     bindR (has_neighbor plan (int f)) (\<lambda>neighbor.
       if \<not> neighbor then unpack_faces K junk plan payload i fs view
       else bindR (recv_region plan (int f)) (\<lambda>region.
              unpack_faces K junk plan payload (i + 1) fs
                (unpack_region K (sp_extents plan) region (host_buffer junk (region_size region) (payload i)) view)))"

definition structured_post :: "string \<Rightarrow> exchange_env \<Rightarrow> kokkos \<Rightarrow> 'a \<Rightarrow> Structured_Halo_Plan \<Rightarrow> 'a view \<Rightarrow> (mpi_recv list \<times> 'a mpi_send list) halo_result" where
  "structured_post what X K junk plan view =
     (if active_neighbor_count plan = 0 then Inr ([], [])
      else bindR (face_irecvs what X plan [0..<num_faces plan]) (\<lambda>recvs.
           bindR (face_isends what X K junk plan view [0..<num_faces plan]) (\<lambda>sends. Inr (recvs, sends))))"

definition structured_finish :: "exchange_env \<Rightarrow> kokkos \<Rightarrow> 'a \<Rightarrow> Structured_Halo_Plan \<Rightarrow> (nat \<Rightarrow> 'a list) \<Rightarrow> 'a view \<Rightarrow> 'a view halo_result" where
  "structured_finish X K junk plan payload view =
     (if active_neighbor_count plan = 0 then Inr view
      else checked X Op_Waitall 0 (co_rank (sp_comm plan)) ''MPI_Waitall (structured)''
        (unpack_faces K junk plan payload 0 [0..<num_faces plan] view))"

definition exchange_structured_blocking :: "'a mpi_net \<Rightarrow> (nat \<Rightarrow> exchange_env) \<Rightarrow> kokkos \<Rightarrow> 'a \<Rightarrow> (nat \<Rightarrow> Structured_Halo_Plan) \<Rightarrow>
    (nat \<Rightarrow> 'a view) \<Rightarrow> nat \<Rightarrow> 'a view halo_result" where
  "exchange_structured_blocking net X K junk plan view r =
     (let posts = (\<lambda>q. structured_post ''(structured)'' (X q) K junk (plan q) (view q));
          payload = net (\<lambda>q. case posts q of Inr (_, sends) \<Rightarrow> sends | Inl _ \<Rightarrow> [])
                        (\<lambda>q. case posts q of Inr (recvs, _) \<Rightarrow> recvs | Inl _ \<Rightarrow> []) r
      in bindR (posts r) (\<lambda>_. structured_finish (X r) K junk (plan r) payload (view r)))"

section \<open>Geometry of the regions\<close>

definition in_region :: "Region \<Rightarrow> nat list \<Rightarrow> bool" where
  "in_region region idx \<longleftrightarrow> list_all2 (\<lambda>rg x. fst rg \<le> x \<and> x < snd rg) region idx"

definition shift :: "Region \<Rightarrow> nat list \<Rightarrow> nat list" where
  "shift region i = map2 (+) (map fst region) i"

definition unshift :: "Region \<Rightarrow> nat list \<Rightarrow> nat list" where
  "unshift region idx = map2 (\<lambda>rg x. x - fst rg) region idx"

lemma unshift_shift: "length i = length region \<Longrightarrow> unshift region (shift region i) = i"
  by (rule nth_equalityI) (auto simp: unshift_def shift_def)

lemma shift_unshift: "in_region region idx \<Longrightarrow> shift region (unshift region idx) = idx"
  by (rule nth_equalityI) (auto simp: unshift_def shift_def in_region_def list_all2_conv_all_nth)

lemma in_box_unshift: "in_region region idx \<Longrightarrow> in_box (sub_extents region) (unshift region idx)"
  by (auto simp: in_region_def in_box_def sub_extents_def unshift_def list_all2_conv_all_nth)

lemma in_region_shift: "in_box (sub_extents region) i \<Longrightarrow> in_region region (shift region i)"
  by (auto simp: in_region_def in_box_def sub_extents_def shift_def list_all2_conv_all_nth)

lemma in_box_length: "in_box (sub_extents region) i \<Longrightarrow> length i = length region"
  by (auto simp: in_box_def sub_extents_def list_all2_lengthD)

lemma find_unique: "x \<in> set xs \<Longrightarrow> P x \<Longrightarrow> (\<And>y. y \<in> set xs \<Longrightarrow> P y \<Longrightarrow> y = x) \<Longrightarrow> List.find P xs = Some x"
proof (induction xs)
  case (Cons y ys)
  show ?case
  proof (cases "P y")
    case True
    then have "y = x" by (intro Cons.prems(3)) simp
    then show ?thesis using True by simp
  next
    case False
    then have "x \<in> set ys" using Cons.prems(1,2) by (cases "x = y") simp_all
    then have "List.find P ys = Some x" using Cons.prems(2) by (intro Cons.IH) (simp_all add: Cons.prems(3))
    then show ?thesis using False by simp
  qed
qed simp

lemma unpack_region_value:
  assumes "kokkos_ok K" "\<forall>dst. unpack K (k_contiguous K extents region) (sub_extents region) buf dst = (\<lambda>i. if in_box (sub_extents region) i then h i else dst i)"
  shows "unpack_region K extents region buf view = (\<lambda>idx. if in_region region idx then h (unshift region idx) else view idx)"
proof
  fix idx
  have k: "k_index K region i = shift region i" if "in_box (sub_extents region) i" for i
    using assms(1) in_box_length [OF that] by (simp add: kokkos_ok_def shift_def)
  show "unpack_region K extents region buf view idx = (if in_region region idx then h (unshift region idx) else view idx)"
  proof (cases "in_region region idx")
    case True
    note b = in_box_unshift [OF True]
    have "List.find (\<lambda>i. k_index K region i = idx) (row_major (sub_extents region)) = Some (unshift region idx)"
    proof (rule find_unique)
      show "unshift region idx \<in> set (row_major (sub_extents region))" using b by (simp add: set_row_major)
      show "k_index K region (unshift region idx) = idx" by (simp only: k [OF b] shift_unshift [OF True])
      fix y assume "y \<in> set (row_major (sub_extents region))" and y: "k_index K region y = idx"
      then have "in_box (sub_extents region) y" by (simp add: set_row_major)
      then show "y = unshift region idx" using y k unshift_shift [OF in_box_length] by metis
    qed
    then show ?thesis using True b assms(2) by (simp add: unpack_region_def Let_def)
  next
    case False
    have "List.find (\<lambda>i. k_index K region i = idx) (row_major (sub_extents region)) = None"
      unfolding find_None_iff set_row_major using False k in_region_shift by (metis mem_Collect_eq)
    then show ?thesis using False by (simp add: unpack_region_def Let_def)
  qed
qed

definition send_range :: "nat list \<Rightarrow> nat list \<Rightarrow> nat \<Rightarrow> index_range" where
  "send_range extents widths f =
     (let N = extents ! (f div 2); h = widths ! (f div 2) in if even f then (h, 2 * h) else (N - 2 * h, N - h))"

definition recv_range :: "nat list \<Rightarrow> nat list \<Rightarrow> nat \<Rightarrow> index_range" where
  "recv_range extents widths f =
     (let N = extents ! (f div 2); h = widths ! (f div 2) in if even f then (0, h) else (N - h, N))"

definition grid_ok :: "Structured_Halo_Plan \<Rightarrow> bool" where
  "grid_ok plan \<longleftrightarrow>
     1 \<le> length (sp_extents plan) \<and> length (sp_extents plan) \<le> 4 \<and> length (sp_widths plan) = length (sp_extents plan) \<and>
     length (sp_neighbors plan) = 2 * length (sp_extents plan) \<and>
     list_all (\<lambda>h. h < 9223372036854775808) (sp_widths plan) \<and> list_all (\<lambda>N. N < 9223372036854775808) (sp_extents plan) \<and>
     mk_structured_plan (sp_extents plan) (sp_neighbors plan) (sp_widths plan) (sp_comm plan) = Inr plan"

lemma u64_small: "0 \<le> x \<Longrightarrow> x < 18446744073709551616 \<Longrightarrow> u64 x = nat x"
  by (simp add: u64_def)

lemma validate_structured_extents_ok:
  "length Ns = length hs \<Longrightarrow> is_ok (validate_structured_extents k Ns hs) \<longleftrightarrow> list_all2 (\<lambda>N h. u64 (2 * int h) \<le> N) Ns hs"
  by (induction k Ns hs rule: validate_structured_extents.induct) auto

lemma concat_pairs_nth:
  "f < 2 * n \<Longrightarrow> concat (map (\<lambda>d. [a d, b d]) [0..<n]) ! f = (if even f then a (f div 2) else b (f div 2))"
proof (induction n)
  case (Suc n)
  have l: "length (concat (map (\<lambda>d. [a d, b d]) [0..<n])) = 2 * n" by (simp add: length_concat comp_def sum_list_triv)
  consider "f < 2 * n" | "f = 2 * n" | "f = 2 * n + 1" using Suc.prems by force
  then show ?case using Suc.IH l by cases (auto simp: nth_append)
qed simp

lemma grid_okD:
  assumes "grid_ok plan"
  shows "\<And>d. d < grid_rank plan \<Longrightarrow> 2 * sp_widths plan ! d \<le> sp_extents plan ! d"
    and "\<And>f. f < num_faces plan \<Longrightarrow> sp_send plan ! f = slab (sp_extents plan) (f div 2) (send_range (sp_extents plan) (sp_widths plan) f)"
    and "\<And>f. f < num_faces plan \<Longrightarrow> sp_recv plan ! f = slab (sp_extents plan) (f div 2) (recv_range (sp_extents plan) (sp_widths plan) f)"
proof -
  let ?E = "sp_extents plan" and ?H = "sp_widths plan"
  have h: "?H ! d < 9223372036854775808" and n: "?E ! d < 9223372036854775808" if "d < grid_rank plan" for d
    using assms that by (auto simp: grid_ok_def grid_rank_def list_all_length)
  have v: "is_ok (validate_structured_extents 0 ?E ?H)"
    and p: "plan = \<lparr>sp_extents = ?E, sp_neighbors = sp_neighbors plan, sp_widths = ?H, sp_comm = sp_comm plan,
      sp_send = fst (precompute_regions ?E ?H), sp_recv = snd (precompute_regions ?E ?H)\<rparr>"
    using assms by (auto simp: grid_ok_def mk_structured_plan_def split_def Let_def bindR_eq_Inr)
  have r: "sp_send plan = fst (precompute_regions ?E ?H)" "sp_recv plan = snd (precompute_regions ?E ?H)"
    using arg_cong [OF p, of sp_send] arg_cong [OF p, of sp_recv] by simp_all
  show le: "2 * ?H ! d \<le> ?E ! d" if d: "d < grid_rank plan" for d
  proof -
    have "u64 (2 * int (?H ! d)) \<le> ?E ! d"
      using v d assms by (auto simp: validate_structured_extents_ok grid_ok_def grid_rank_def list_all2_conv_all_nth)
    moreover have "u64 (2 * int (?H ! d)) = 2 * ?H ! d" using h [OF d] by (simp add: u64_small)
    ultimately show ?thesis by simp
  qed
  fix f assume f: "f < num_faces plan"
  let ?d = "f div 2"
  have d: "?d < grid_rank plan" using f by (simp add: num_faces_def)
  have u: "u64 (2 * int (?H ! ?d)) = 2 * ?H ! ?d" "u64 (int (?E ! ?d) - 2 * int (?H ! ?d)) = ?E ! ?d - 2 * ?H ! ?d"
    "u64 (int (?E ! ?d) - int (?H ! ?d)) = ?E ! ?d - ?H ! ?d"
    using le [OF d] h [OF d] n [OF d] by (simp_all add: u64_small)
  have "f < 2 * length ?E" using f by (simp add: num_faces_def grid_rank_def)
  then show "sp_send plan ! f = slab ?E ?d (send_range ?E ?H f)" "sp_recv plan ! f = slab ?E ?d (recv_range ?E ?H f)"
    by (simp_all add: r precompute_regions_def concat_pairs_nth send_range_def recv_range_def send_lo_def send_hi_def recv_lo_def recv_hi_def u Let_def)
qed

lemma sub_extents_slab: "d < length extents \<Longrightarrow> sub_extents (slab extents d rg) = extents[d := snd rg - fst rg]"
  by (rule nth_equalityI) (auto simp: sub_extents_def slab_def nth_list_update)

lemma length_slab [simp]: "length (slab extents d rg) = length extents"
  by (simp add: slab_def)

lemma sub_extents_faces:
  assumes "grid_ok plan" "f < num_faces plan"
  shows "sub_extents (sp_send plan ! f) = (sp_extents plan)[f div 2 := sp_widths plan ! (f div 2)]"
    and "sub_extents (sp_recv plan ! f) = (sp_extents plan)[f div 2 := sp_widths plan ! (f div 2)]"
proof -
  have d: "f div 2 < grid_rank plan" using assms(2) by (simp add: num_faces_def)
  then have "2 * sp_widths plan ! (f div 2) \<le> sp_extents plan ! (f div 2)" using grid_okD(1) [OF assms(1)] by simp
  then have "snd (send_range (sp_extents plan) (sp_widths plan) f) - fst (send_range (sp_extents plan) (sp_widths plan) f) = sp_widths plan ! (f div 2)"
    "snd (recv_range (sp_extents plan) (sp_widths plan) f) - fst (recv_range (sp_extents plan) (sp_widths plan) f) = sp_widths plan ! (f div 2)"
    by (auto simp: send_range_def recv_range_def Let_def)
  then show "sub_extents (sp_send plan ! f) = (sp_extents plan)[f div 2 := sp_widths plan ! (f div 2)]"
    "sub_extents (sp_recv plan ! f) = (sp_extents plan)[f div 2 := sp_widths plan ! (f div 2)]"
    using grid_okD(2,3) [OF assms] d by (simp_all add: sub_extents_slab grid_rank_def)
qed

lemma region_size_prod:
  "list_all (\<lambda>rg. fst rg \<le> snd rg \<and> snd rg < 18446744073709551616) region \<Longrightarrow>
     region_size region = prod_list (sub_extents region) mod 18446744073709551616"
proof -
  assume a: "list_all (\<lambda>rg. fst rg \<le> snd rg \<and> snd rg < 18446744073709551616) region"
  have "acc < 18446744073709551616 \<Longrightarrow> foldl (\<lambda>s rg. u64 (int s * int (u64 (int (snd rg) - int (fst rg))))) acc region =
      (acc * prod_list (sub_extents region)) mod 18446744073709551616" for acc
    using a
  proof (induction region arbitrary: acc)
    case (Cons rg region)
    have "u64 (int (snd rg) - int (fst rg)) = snd rg - fst rg" using Cons.prems(2) by (simp add: u64_small)
    moreover have "u64 (int acc * int k) = (acc * k) mod 18446744073709551616" for k
      by (simp add: u64_def nat_mod_distrib nat_mult_distrib)
    ultimately show ?case
      using Cons by (simp add: sub_extents_def mod_mult_left_eq mult.assoc)
  qed (simp add: sub_extents_def)
  from this [of 1] show ?thesis by (simp add: region_size_def)
qed

lemma prod_list_mono_nat: "list_all2 (\<le>) (xs :: nat list) ys \<Longrightarrow> prod_list xs \<le> prod_list ys"
  by (induction rule: list_all2_induct) (auto intro: mult_le_mono)

lemma face_region_size:
  assumes "grid_ok plan" "f < num_faces plan" "prod_list (sp_extents plan) < 2147483648"
  shows "region_size (sp_send plan ! f) = prod_list (sub_extents (sp_send plan ! f))"
    and "region_size (sp_recv plan ! f) = prod_list (sub_extents (sp_recv plan ! f))"
    and "prod_list (sub_extents (sp_send plan ! f)) < 2147483648" "prod_list (sub_extents (sp_recv plan ! f)) < 2147483648"
proof -
  have d: "f div 2 < grid_rank plan" using assms(2) by (simp add: num_faces_def)
  note le = grid_okD(1) [OF assms(1) d]
  have n: "N < 9223372036854775808" if "N \<in> set (sp_extents plan)" for N
    using assms(1) that by (auto simp: grid_ok_def list_all_iff)
  have "list_all2 (\<le>) ((sp_extents plan)[f div 2 := sp_widths plan ! (f div 2)]) (sp_extents plan)"
    unfolding list_all2_conv_all_nth
  proof (intro conjI allI impI)
    fix i assume "i < length ((sp_extents plan)[f div 2 := sp_widths plan ! (f div 2)])"
    then show "(sp_extents plan)[f div 2 := sp_widths plan ! (f div 2)] ! i \<le> sp_extents plan ! i"
      using le by (cases "i = f div 2") auto
  qed simp
  then show lt: "prod_list (sub_extents (sp_send plan ! f)) < 2147483648" "prod_list (sub_extents (sp_recv plan ! f)) < 2147483648"
    using assms(3) prod_list_mono_nat unfolding sub_extents_faces [OF assms(1,2)] by (meson le_less_trans)+
  have "sp_extents plan ! (f div 2) < 9223372036854775808" using n d by (simp add: grid_rank_def)
  then have "list_all (\<lambda>rg. fst rg \<le> snd rg \<and> snd rg < 18446744073709551616) (sp_send plan ! f)"
    "list_all (\<lambda>rg. fst rg \<le> snd rg \<and> snd rg < 18446744073709551616) (sp_recv plan ! f)"
    unfolding grid_okD(2,3) [OF assms(1,2)] using le n
    by (force simp: slab_def list_all_iff send_range_def recv_range_def Let_def dest: nth_mem)+
  then show "region_size (sp_send plan ! f) = prod_list (sub_extents (sp_send plan ! f))"
    "region_size (sp_recv plan ! f) = prod_list (sub_extents (sp_recv plan ! f))"
    using lt by (simp_all add: region_size_prod)
qed

section \<open>What is posted\<close>

definition face_active :: "Structured_Halo_Plan \<Rightarrow> nat \<Rightarrow> bool" where
  "face_active plan f \<longleftrightarrow> 0 \<le> sp_neighbors plan ! f"

definition face_recv :: "mpi_env \<Rightarrow> Structured_Halo_Plan \<Rightarrow> nat \<Rightarrow> mpi_recv" where
  "face_recv M plan f = \<lparr>mr_source = sp_neighbors plan ! f,
     mr_tag = structured_compute_tag M (sp_neighbors plan ! f) (co_rank (sp_comm plan)) (co_size (sp_comm plan)),
     mr_count = wrap32 (int (region_size (sp_recv plan ! f)))\<rparr>"

definition face_send :: "mpi_env \<Rightarrow> kokkos \<Rightarrow> 'a \<Rightarrow> Structured_Halo_Plan \<Rightarrow> 'a view \<Rightarrow> nat \<Rightarrow> 'a mpi_send" where
  "face_send M K junk plan view f = \<lparr>ms_dest = sp_neighbors plan ! f,
     ms_tag = structured_compute_tag M (co_rank (sp_comm plan)) (sp_neighbors plan ! f) (co_size (sp_comm plan)),
     ms_data = pack_region K junk (sp_extents plan) (sp_send plan ! f) view\<rparr>"

lemma face_access:
  assumes "f < num_faces plan"
  shows "has_neighbor plan (int f) = Inr (face_active plan f)" "send_region plan (int f) = Inr (sp_send plan ! f)"
    and "recv_region plan (int f) = Inr (sp_recv plan ! f)" "neighbor_rank plan (int f) = Inr (sp_neighbors plan ! f)"
  using assms by (simp_all add: has_neighbor_def send_region_def recv_region_def neighbor_rank_def check_face_idx_def face_active_def)

lemma face_irecvs_posts:
  "no_mpi_error X \<Longrightarrow> \<forall>f\<in>set fs. f < num_faces plan \<Longrightarrow> face_irecvs what X plan fs = Inr (map (face_recv (xe_mpi X) plan) (filter (face_active plan) fs))"
  by (induction fs) (auto simp: face_access face_recv_def)

lemma face_isends_posts:
  "no_mpi_error X \<Longrightarrow> \<forall>f\<in>set fs. f < num_faces plan \<Longrightarrow>
     face_isends what X K junk plan view fs = Inr (map (face_send (xe_mpi X) K junk plan view) (filter (face_active plan) fs))"
  by (induction fs) (auto simp: face_access face_send_def)

definition active_faces :: "Structured_Halo_Plan \<Rightarrow> nat list" where
  "active_faces plan = filter (face_active plan) [0..<num_faces plan]"

lemma active_neighbor_count_faces: "active_neighbor_count plan = length (active_faces plan)"
proof -
  have "foldl (\<lambda>count f. if sp_neighbors plan ! f \<ge> 0 then count + 1 else count) c fs = c + length (filter (face_active plan) fs)" for c fs
    by (induction fs arbitrary: c) (auto simp: face_active_def)
  from this [of 0] show ?thesis by (simp add: active_neighbor_count_def active_faces_def)
qed

lemma structured_post_posts:
  assumes "no_mpi_error X"
  shows "structured_post what X K junk plan view =
    Inr (map (face_recv (xe_mpi X) plan) (active_faces plan), map (face_send (xe_mpi X) K junk plan view) (active_faces plan))"
  using face_irecvs_posts [OF assms, of "[0..<num_faces plan]" plan what] face_isends_posts [OF assms, of "[0..<num_faces plan]" plan what K junk view]
  by (auto simp: structured_post_def active_neighbor_count_faces active_faces_def)

lemma filter_upt_split: "f < n \<Longrightarrow> P f \<Longrightarrow> filter P [0..<n] = filter P [0..<f] @ f # filter P [Suc f..<n]"
  using upt_add_eq_append [of 0 f "n - f"] upt_conv_Cons [of f n] by simp

text \<open>The receive of an active face is at this position among those posted.\<close>

definition face_position :: "Structured_Halo_Plan \<Rightarrow> nat \<Rightarrow> nat" where
  "face_position plan f = length (filter (face_active plan) [0..<f])"

lemma face_position_nth:
  assumes "f < num_faces plan" "face_active plan f"
  shows "face_position plan f < length (active_faces plan)" "active_faces plan ! face_position plan f = f"
    and "take (face_position plan f) (active_faces plan) = filter (face_active plan) [0..<f]"
  using filter_upt_split [of f _ "face_active plan", OF assms] by (simp_all add: active_faces_def face_position_def nth_append)

section \<open>Which face receives from which\<close>

record 'a sworld =
  sw_size :: nat
  sw_env :: "nat \<Rightarrow> exchange_env"
  sw_plan :: "nat \<Rightarrow> Structured_Halo_Plan"
  sw_view :: "nat \<Rightarrow> 'a view"

definition sworld_ok :: "'a sworld \<Rightarrow> int option \<Rightarrow> bool" where
  "sworld_ok W ub \<longleftrightarrow>
     (\<forall>q < sw_size W.
        no_mpi_error (sw_env W q) \<and> me_tag_ub (xe_mpi (sw_env W q)) = ub \<and> grid_ok (sw_plan W q) \<and>
        sp_comm (sw_plan W q) = \<lparr>co_rank = int q, co_size = int (sw_size W)\<rparr> \<and>
        prod_list (sp_extents (sw_plan W q)) < 2147483648 \<and>
        list_all (\<lambda>n. n < int (sw_size W)) (sp_neighbors (sw_plan W q)))"

lemma sworld_okD:
  assumes "sworld_ok W ub" "q < sw_size W"
  shows "no_mpi_error (sw_env W q)" "me_tag_ub (xe_mpi (sw_env W q)) = ub" "grid_ok (sw_plan W q)"
    and "sp_comm (sw_plan W q) = \<lparr>co_rank = int q, co_size = int (sw_size W)\<rparr>"
    and "prod_list (sp_extents (sw_plan W q)) < 2147483648"
    and "\<And>f. f < num_faces (sw_plan W q) \<Longrightarrow> sp_neighbors (sw_plan W q) ! f < int (sw_size W)"
proof -
  show g: "grid_ok (sw_plan W q)" using assms by (auto simp: sworld_ok_def)
  fix f assume "f < num_faces (sw_plan W q)"
  then show "sp_neighbors (sw_plan W q) ! f < int (sw_size W)"
    using assms g by (auto simp: sworld_ok_def list_all_length grid_ok_def num_faces_def grid_rank_def)
qed (use assms in \<open>auto simp: sworld_ok_def\<close>)

definition faces_to :: "'a sworld \<Rightarrow> nat \<Rightarrow> nat \<Rightarrow> nat list" where
  "faces_to W s r = filter (\<lambda>g. sp_neighbors (sw_plan W s) ! g = int r) [0..<num_faces (sw_plan W s)]"

definition earlier_faces :: "'a sworld \<Rightarrow> nat \<Rightarrow> nat \<Rightarrow> nat" where
  "earlier_faces W r f = length (filter (\<lambda>f'. sp_neighbors (sw_plan W r) ! f' = sp_neighbors (sw_plan W r) ! f) [0..<f])"

definition partner :: "'a sworld \<Rightarrow> nat \<Rightarrow> nat \<Rightarrow> nat option" where
  "partner W r f =
     (let gs = faces_to W (nat (sp_neighbors (sw_plan W r) ! f)) r; k = earlier_faces W r f
      in if k < length gs then Some (gs ! k) else None)"

definition faces_fit :: "kokkos \<Rightarrow> Structured_Halo_Plan \<Rightarrow> nat \<Rightarrow> Structured_Halo_Plan \<Rightarrow> nat \<Rightarrow> bool" where
  "faces_fit K pr f ps g \<longleftrightarrow> sub_extents (sp_recv pr ! f) = sub_extents (sp_send ps ! g) \<and>
     k_contiguous K (sp_extents pr) (sp_recv pr ! f) = k_contiguous K (sp_extents ps) (sp_send ps ! g)"

lemma structured_tag_cong: "me_tag_ub M = me_tag_ub M' \<Longrightarrow> structured_compute_tag M a b c = structured_compute_tag M' a b c"
  by (simp add: structured_compute_tag_def)

lemma length_pack_region:
  assumes "kokkos_ok K" "grid_ok plan" "g < num_faces plan" "prod_list (sp_extents plan) < 2147483648"
  shows "length (pack_region K junk (sp_extents plan) (sp_send plan ! g) view) = prod_list (sub_extents (sp_send plan ! g))"
proof -
  have l: "length (sub_extents (sp_send plan ! g)) = length (sp_extents plan)" using sub_extents_faces [OF assms(2,3)] by simp
  have r: "1 \<le> length (sp_extents plan)" "length (sp_extents plan) \<le> 4" using assms(2) by (auto simp: grid_ok_def)
  show ?thesis
    using unpack_pack_view(2) [OF assms(1), of "sub_extents (sp_send plan ! g)" "replicate (region_size (sp_send plan ! g)) junk"] l r face_region_size(1) [OF assms(2-4)] by (simp add: pack_region_def)
qed

definition sworld_sends :: "kokkos \<Rightarrow> 'a \<Rightarrow> 'a sworld \<Rightarrow> nat \<Rightarrow> 'a mpi_send list" where
  "sworld_sends K junk W q = (case structured_post ''(structured)'' (sw_env W q) K junk (sw_plan W q) (sw_view W q) of Inr (_, sends) \<Rightarrow> sends | Inl _ \<Rightarrow> [])"

definition sworld_recvs :: "kokkos \<Rightarrow> 'a \<Rightarrow> 'a sworld \<Rightarrow> nat \<Rightarrow> mpi_recv list" where
  "sworld_recvs K junk W q = (case structured_post ''(structured)'' (sw_env W q) K junk (sw_plan W q) (sw_view W q) of Inr (recvs, _) \<Rightarrow> recvs | Inl _ \<Rightarrow> [])"

lemma face_match:
  assumes "kokkos_ok K" "sworld_ok W ub" "r < sw_size W"
    and f: "f < num_faces (sw_plan W r)" "face_active (sw_plan W r) f"
    and g: "partner W r f = Some g" "faces_fit K (sw_plan W r) f (sw_plan W (nat (sp_neighbors (sw_plan W r) ! f))) g"
  shows "face_position (sw_plan W r) f < length (sworld_recvs K junk W r)"
    and "sworld_recvs K junk W r ! face_position (sw_plan W r) f = face_recv (xe_mpi (sw_env W r)) (sw_plan W r) f"
    and "\<forall>q\<in>set (sworld_recvs K junk W r). mr_source q = sp_neighbors (sw_plan W r) ! f \<longrightarrow>
      mr_tag q = mr_tag (sworld_recvs K junk W r ! face_position (sw_plan W r) f)"
    and "\<forall>m\<in>set (sworld_sends K junk W (nat (sp_neighbors (sw_plan W r) ! f))). ms_dest m = int r \<longrightarrow>
      ms_tag m = mr_tag (sworld_recvs K junk W r ! face_position (sw_plan W r) f)"
    and "earlier_receives (sworld_recvs K junk W r) (face_position (sw_plan W r) f) <
      length (messages_to (sworld_sends K junk W) r (sworld_recvs K junk W r ! face_position (sw_plan W r) f))"
    and "ms_data (messages_to (sworld_sends K junk W) r (sworld_recvs K junk W r ! face_position (sw_plan W r) f) !
        earlier_receives (sworld_recvs K junk W r) (face_position (sw_plan W r) f)) =
      pack_region K junk (sp_extents (sw_plan W (nat (sp_neighbors (sw_plan W r) ! f))))
        (sp_send (sw_plan W (nat (sp_neighbors (sw_plan W r) ! f))) ! g) (sw_view W (nat (sp_neighbors (sw_plan W r) ! f)))"
    and "int (length (ms_data (messages_to (sworld_sends K junk W) r (sworld_recvs K junk W r ! face_position (sw_plan W r) f) !
        earlier_receives (sworld_recvs K junk W r) (face_position (sw_plan W r) f)))) \<le> mr_count (sworld_recvs K junk W r ! face_position (sw_plan W r) f)"
    and "g < num_faces (sw_plan W (nat (sp_neighbors (sw_plan W r) ! f)))"
proof -
  let ?pr = "sw_plan W r" and ?n = "sp_neighbors (sw_plan W r) ! f"
  let ?s = "nat ?n" and ?i = "face_position ?pr f"
  let ?ps = "sw_plan W ?s"
  let ?recvs = "sworld_recvs K junk W" and ?sends = "sworld_sends K junk W"
  have n: "0 \<le> ?n" "?s < sw_size W" using f sworld_okD(6) [OF assms(2,3) f(1)] by (auto simp: face_active_def nat_less_iff)
  note wr = sworld_okD [OF assms(2,3)] and ws = sworld_okD [OF assms(2) n(2)]
  have k: "earlier_faces W r f < length (faces_to W ?s r)" "faces_to W ?s r ! earlier_faces W r f = g"
    using g(1) by (auto simp: partner_def Let_def split: if_splits)
  then have "g \<in> set (faces_to W ?s r)" by auto
  then show gf: "g < num_faces ?ps" by (simp add: faces_to_def)
  have rv: "?recvs r = map (face_recv (xe_mpi (sw_env W r)) ?pr) (active_faces ?pr)"
    and sd: "?sends ?s = map (face_send (xe_mpi (sw_env W ?s)) K junk ?ps (sw_view W ?s)) (active_faces ?ps)"
    by (simp_all add: sworld_recvs_def sworld_sends_def structured_post_posts wr(1) ws(1))
  have i: "?i < length (?recvs r)" "?recvs r ! ?i = face_recv (xe_mpi (sw_env W r)) ?pr f"
    using face_position_nth(1,2) [OF f] by (simp_all add: rv)
  show "?i < length (?recvs r)" "?recvs r ! ?i = face_recv (xe_mpi (sw_env W r)) ?pr f" by (rule i)+
  have src: "mr_source (?recvs r ! ?i) = ?n" by (simp add: i face_recv_def)
  have tag: "mr_tag (?recvs r ! ?i) = structured_compute_tag (xe_mpi (sw_env W r)) ?n (int r) (int (sw_size W))"
    by (simp add: i face_recv_def wr(4))
  show "\<forall>q\<in>set (?recvs r). mr_source q = ?n \<longrightarrow> mr_tag q = mr_tag (?recvs r ! ?i)" unfolding tag by (auto simp: rv face_recv_def wr(4))
  show "\<forall>m\<in>set (?sends ?s). ms_dest m = int r \<longrightarrow> ms_tag m = mr_tag (?recvs r ! ?i)"
    using structured_tag_cong [of "xe_mpi (sw_env W ?s)" "xe_mpi (sw_env W r)"] wr(2) ws(2) n(1) unfolding tag by (auto simp: sd face_send_def ws(4))
  have "messages_to ?sends r (?recvs r ! ?i) = map (face_send (xe_mpi (sw_env W ?s)) K junk ?ps (sw_view W ?s)) (faces_to W ?s r)"
  proof -
    have "(ms_dest (face_send (xe_mpi (sw_env W ?s)) K junk ?ps (sw_view W ?s) g') = int r \<and>
        ms_tag (face_send (xe_mpi (sw_env W ?s)) K junk ?ps (sw_view W ?s) g') = mr_tag (?recvs r ! ?i)) \<longleftrightarrow> sp_neighbors ?ps ! g' = int r" for g'
      using structured_tag_cong [of "xe_mpi (sw_env W ?s)" "xe_mpi (sw_env W r)"] wr(2) ws(2) n(1) by (auto simp: face_send_def tag ws(4))
    then have "messages_to ?sends r (?recvs r ! ?i) = map (face_send (xe_mpi (sw_env W ?s)) K junk ?ps (sw_view W ?s))
        (filter (\<lambda>g'. sp_neighbors ?ps ! g' = int r) (active_faces ?ps))"
      by (simp add: messages_to_def src sd filter_map comp_def)
    moreover have "filter (\<lambda>g'. sp_neighbors ?ps ! g' = int r) (active_faces ?ps) = faces_to W ?s r"
      by (auto simp: active_faces_def faces_to_def face_active_def intro: filter_cong)
    ultimately show ?thesis by simp
  qed
  moreover have "earlier_receives (?recvs r) ?i = earlier_faces W r f"
  proof -
    have "filter (\<lambda>q. mr_source q = mr_source (?recvs r ! ?i) \<and> mr_tag q = mr_tag (?recvs r ! ?i)) (take ?i (?recvs r)) =
        map (face_recv (xe_mpi (sw_env W r)) ?pr) (filter (\<lambda>f'. sp_neighbors ?pr ! f' = ?n) (filter (face_active ?pr) [0..<f]))"
      unfolding src tag unfolding rv take_map face_position_nth(3) [OF f] filter_map comp_def
      by (auto simp: face_recv_def wr(4) intro!: arg_cong [of _ _ "map _"] filter_cong)
    moreover have "filter (\<lambda>f'. sp_neighbors ?pr ! f' = ?n) (filter (face_active ?pr) [0..<f]) = filter (\<lambda>f'. sp_neighbors ?pr ! f' = ?n) [0..<f]"
      using n(1) by (auto simp: face_active_def intro: filter_cong)
    ultimately show ?thesis by (simp add: earlier_receives_def earlier_faces_def)
  qed
  moreover have "int (length (pack_region K junk (sp_extents ?ps) (sp_send ?ps ! g) (sw_view W ?s))) \<le> mr_count (?recvs r ! ?i)"
    using length_pack_region [OF assms(1) ws(3) gf ws(5), of junk "sw_view W ?s"] face_region_size(2,4) [OF wr(3) f(1) wr(5)] g(2)
    by (simp add: i face_recv_def faces_fit_def is_i32_def)
  ultimately show "earlier_receives (?recvs r) ?i < length (messages_to ?sends r (?recvs r ! ?i))"
    and "ms_data (messages_to ?sends r (?recvs r ! ?i) ! earlier_receives (?recvs r) ?i) = pack_region K junk (sp_extents ?ps) (sp_send ?ps ! g) (sw_view W ?s)"
    and "int (length (ms_data (messages_to ?sends r (?recvs r ! ?i) ! earlier_receives (?recvs r) ?i))) \<le> mr_count (?recvs r ! ?i)"
    using k by (simp_all add: face_send_def)
qed

lemma face_payload:
  assumes "mpi_fifo net" "kokkos_ok K" "sworld_ok W ub" "r < sw_size W"
    and f: "f < num_faces (sw_plan W r)" "face_active (sw_plan W r) f"
    and g: "partner W r f = Some g" "faces_fit K (sw_plan W r) f (sw_plan W (nat (sp_neighbors (sw_plan W r) ! f))) g"
  shows "net (sworld_sends K junk W) (sworld_recvs K junk W) r (face_position (sw_plan W r) f) =
      pack_region K junk (sp_extents (sw_plan W (nat (sp_neighbors (sw_plan W r) ! f))))
        (sp_send (sw_plan W (nat (sp_neighbors (sw_plan W r) ! f))) ! g) (sw_view W (nat (sp_neighbors (sw_plan W r) ! f)))"
    and "g < num_faces (sw_plan W (nat (sp_neighbors (sw_plan W r) ! f)))"
proof -
  note m = face_match(1-7) [where junk = junk, OF assms(2-8)]
  have "0 \<le> mr_source (sworld_recvs K junk W r ! face_position (sw_plan W r) f)" using f(2) by (simp add: m(2) face_recv_def face_active_def)
  then show "net (sworld_sends K junk W) (sworld_recvs K junk W) r (face_position (sw_plan W r) f) =
      pack_region K junk (sp_extents (sw_plan W (nat (sp_neighbors (sw_plan W r) ! f))))
        (sp_send (sw_plan W (nat (sp_neighbors (sw_plan W r) ! f))) ! g) (sw_view W (nat (sp_neighbors (sw_plan W r) ! f)))"
    using mpi_fifoD [of net _ "sworld_recvs K junk W" r "sworld_sends K junk W", OF assms(1) m(1) _ m(5,7)] m(6) by simp
qed (rule face_match(8) [OF assms(2-8)])

section \<open>The result of an exchange\<close>

definition last_face :: "Structured_Halo_Plan \<Rightarrow> nat list \<Rightarrow> nat list \<Rightarrow> nat option" where
  "last_face plan fs idx = List.find (\<lambda>f. face_active plan f \<and> in_region (sp_recv plan ! f) idx) (rev fs)"

lemma find_snoc: "List.find P (xs @ [x]) = (case List.find P xs of Some y \<Rightarrow> Some y | None \<Rightarrow> if P x then Some x else None)"
  by (induction xs) auto

lemma unpack_faces_result:
  assumes "kokkos_ok K" "\<forall>f\<in>set fs. f < num_faces plan"
    and "\<forall>j<length (filter (face_active plan) fs). \<forall>dst.
      unpack K (k_contiguous K (sp_extents plan) (sp_recv plan ! (filter (face_active plan) fs ! j))) (sub_extents (sp_recv plan ! (filter (face_active plan) fs ! j)))
        (host_buffer junk (region_size (sp_recv plan ! (filter (face_active plan) fs ! j))) (payload (i + j))) dst =
      (\<lambda>x. if in_box (sub_extents (sp_recv plan ! (filter (face_active plan) fs ! j))) x then h (filter (face_active plan) fs ! j) x else dst x)"
  shows "unpack_faces K junk plan payload i fs view =
    Inr (\<lambda>idx. case last_face plan fs idx of Some f \<Rightarrow> h f (unshift (sp_recv plan ! f) idx) | None \<Rightarrow> view idx)"
  using assms(2,3)
proof (induction fs arbitrary: i view)
  case (Cons f fs)
  have f: "f < num_faces plan" using Cons.prems(1) by simp
  show ?case
  proof (cases "face_active plan f")
    case False
    then have "last_face plan (f # fs) idx = last_face plan fs idx" for idx
      by (simp add: last_face_def find_snoc split: option.split)
    moreover have flt: "filter (face_active plan) (f # fs) = filter (face_active plan) fs" using False by simp
    have "unpack_faces K junk plan payload i fs view =
        Inr (\<lambda>idx. case last_face plan fs idx of Some f \<Rightarrow> h f (unshift (sp_recv plan ! f) idx) | None \<Rightarrow> view idx)"
      by (rule Cons.IH [OF _ Cons.prems(2) [unfolded flt]]) (use Cons.prems(1) in simp)
    ultimately show ?thesis using False f by (simp add: face_access)
  next
    case True
    then have flt: "filter (face_active plan) (f # fs) = f # filter (face_active plan) fs" by simp
    note prems = Cons.prems(2) [unfolded flt, rule_format]
    let ?buf = "host_buffer junk (region_size (sp_recv plan ! f)) (payload i)"
    let ?v = "unpack_region K (sp_extents plan) (sp_recv plan ! f) ?buf view"
    have v: "?v = (\<lambda>idx. if in_region (sp_recv plan ! f) idx then h f (unshift (sp_recv plan ! f) idx) else view idx)"
      by (rule unpack_region_value [OF assms(1)]) (use prems [of 0] in \<open>simp cong: if_cong\<close>)
    have "unpack_faces K junk plan payload (i + 1) fs ?v =
        Inr (\<lambda>idx. case last_face plan fs idx of Some f \<Rightarrow> h f (unshift (sp_recv plan ! f) idx) | None \<Rightarrow> ?v idx)"
    proof (rule Cons.IH)
      show "\<forall>j<length (filter (face_active plan) fs). \<forall>dst.
          unpack K (k_contiguous K (sp_extents plan) (sp_recv plan ! (filter (face_active plan) fs ! j))) (sub_extents (sp_recv plan ! (filter (face_active plan) fs ! j)))
            (host_buffer junk (region_size (sp_recv plan ! (filter (face_active plan) fs ! j))) (payload (i + 1 + j))) dst =
          (\<lambda>x. if in_box (sub_extents (sp_recv plan ! (filter (face_active plan) fs ! j))) x then h (filter (face_active plan) fs ! j) x else dst x)"
      proof (intro allI impI)
        fix j dst assume "j < length (filter (face_active plan) fs)"
        then show "unpack K (k_contiguous K (sp_extents plan) (sp_recv plan ! (filter (face_active plan) fs ! j))) (sub_extents (sp_recv plan ! (filter (face_active plan) fs ! j)))
            (host_buffer junk (region_size (sp_recv plan ! (filter (face_active plan) fs ! j))) (payload (i + 1 + j))) dst =
          (\<lambda>x. if in_box (sub_extents (sp_recv plan ! (filter (face_active plan) fs ! j))) x then h (filter (face_active plan) fs ! j) x else dst x)"
          using prems [of "Suc j" dst] by (simp cong: if_cong)
      qed
    qed (use Cons.prems(1) in simp)
    then show ?thesis
      using True f by (auto simp: face_access v last_face_def find_snoc fun_eq_iff split: option.split)
  qed
qed (simp add: last_face_def)

definition paired :: "kokkos \<Rightarrow> 'a sworld \<Rightarrow> nat \<Rightarrow> bool" where
  "paired K W r \<longleftrightarrow>
     (\<forall>f<num_faces (sw_plan W r). face_active (sw_plan W r) f \<longrightarrow>
        (\<exists>g. partner W r f = Some g \<and> faces_fit K (sw_plan W r) f (sw_plan W (nat (sp_neighbors (sw_plan W r) ! f))) g))"

definition received :: "'a sworld \<Rightarrow> nat \<Rightarrow> nat \<Rightarrow> nat list \<Rightarrow> 'a" where
  "received W r f i =
     (let s = nat (sp_neighbors (sw_plan W r) ! f)
      in sw_view W s (shift (sp_send (sw_plan W s) ! the (partner W r f)) i))"

lemma unpack_received:
  assumes "mpi_fifo net" "kokkos_ok K" "sworld_ok W ub" "r < sw_size W" "paired K W r"
    and f: "f < num_faces (sw_plan W r)" "face_active (sw_plan W r) f"
  shows "unpack K (k_contiguous K (sp_extents (sw_plan W r)) (sp_recv (sw_plan W r) ! f)) (sub_extents (sp_recv (sw_plan W r) ! f))
      (host_buffer junk (region_size (sp_recv (sw_plan W r) ! f))
        (net (sworld_sends K junk W) (sworld_recvs K junk W) r (face_position (sw_plan W r) f))) dst =
    (\<lambda>i. if in_box (sub_extents (sp_recv (sw_plan W r) ! f)) i then received W r f i else dst i)"
proof -
  let ?s = "nat (sp_neighbors (sw_plan W r) ! f)"
  let ?ps = "sw_plan W ?s"
  obtain g where g: "partner W r f = Some g" "faces_fit K (sw_plan W r) f ?ps g" using assms(5) f by (auto simp: paired_def)
  note p = face_payload [OF assms(1-4) f g]
  have s: "?s < sw_size W" using sworld_okD(6) [OF assms(3,4) f(1)] f(2) by (simp add: face_active_def nat_less_iff)
  note wr = sworld_okD [OF assms(3,4)] and ws = sworld_okD [OF assms(3) s]
  let ?ns = "sub_extents (sp_send ?ps ! g)"
  let ?c = "k_contiguous K (sp_extents ?ps) (sp_send ?ps ! g)"
  let ?pk = "pack_region K junk (sp_extents ?ps) (sp_send ?ps ! g) (sw_view W ?s)"
  have fit: "sub_extents (sp_recv (sw_plan W r) ! f) = ?ns" "k_contiguous K (sp_extents (sw_plan W r)) (sp_recv (sw_plan W r) ! f) = ?c"
    using g(2) by (auto simp: faces_fit_def)
  have "length ?pk = prod_list ?ns" using length_pack_region [OF assms(2) ws(3) p(2) ws(5), of junk "sw_view W ?s"] .
  moreover have "region_size (sp_recv (sw_plan W r) ! f) = prod_list ?ns" using face_region_size(2) [OF wr(3) f(1) wr(5)] fit(1) by simp
  ultimately have hb: "host_buffer junk (region_size (sp_recv (sw_plan W r) ! f)) ?pk = ?pk" by (simp add: host_buffer_def)
  have l: "1 \<le> length ?ns" "length ?ns \<le> 4" using ws(3) sub_extents_faces(1) [OF ws(3) p(2)] by (auto simp: grid_ok_def)
  have "unpack K ?c ?ns ?pk dst = (\<lambda>i. if in_box ?ns i then make_subview K (sw_view W ?s) (sp_send ?ps ! g) i else dst i)"
    unfolding pack_region_def
    by (rule unpack_pack_view(1) [OF assms(2) l]) (simp add: face_region_size(1) [OF ws(3) p(2) ws(5)])
  also have "\<dots> = (\<lambda>i. if in_box ?ns i then received W r f i else dst i)"
    using assms(2) in_box_length [of "sp_send ?ps ! g"] g(1)
    by (auto simp: make_subview_def received_def kokkos_ok_def shift_def Let_def fun_eq_iff)
  finally show ?thesis by (simp add: fit p(1) hb)
qed

lemma structured_exchange_result:
  assumes "mpi_fifo net" "kokkos_ok K" "sworld_ok W ub" "r < sw_size W" "paired K W r"
  shows "exchange_structured_blocking net (sw_env W) K junk (sw_plan W) (sw_view W) r =
    Inr (\<lambda>idx. case last_face (sw_plan W r) [0..<num_faces (sw_plan W r)] idx of
        Some f \<Rightarrow> received W r f (unshift (sp_recv (sw_plan W r) ! f) idx) | None \<Rightarrow> sw_view W r idx)"
proof -
  let ?p = "sw_plan W r"
  let ?payload = "net (sworld_sends K junk W) (sworld_recvs K junk W) r"
  have ex: "exchange_structured_blocking net (sw_env W) K junk (sw_plan W) (sw_view W) r =
      structured_finish (sw_env W r) K junk ?p ?payload (sw_view W r)"
    using structured_post_posts [OF sworld_okD(1) [OF assms(3,4)], of "''(structured)''" K junk ?p "sw_view W r"]
    by (simp add: exchange_structured_blocking_def Let_def sworld_sends_def [abs_def] sworld_recvs_def [abs_def])
  have "unpack_faces K junk ?p ?payload 0 [0..<num_faces ?p] (sw_view W r) =
    Inr (\<lambda>idx. case last_face ?p [0..<num_faces ?p] idx of Some f \<Rightarrow> received W r f (unshift (sp_recv ?p ! f) idx) | None \<Rightarrow> sw_view W r idx)"
  proof (rule unpack_faces_result [OF assms(2)])
    show "\<forall>j<length (filter (face_active ?p) [0..<num_faces ?p]). \<forall>dst.
        unpack K (k_contiguous K (sp_extents ?p) (sp_recv ?p ! (filter (face_active ?p) [0..<num_faces ?p] ! j)))
          (sub_extents (sp_recv ?p ! (filter (face_active ?p) [0..<num_faces ?p] ! j)))
          (host_buffer junk (region_size (sp_recv ?p ! (filter (face_active ?p) [0..<num_faces ?p] ! j))) (?payload (0 + j))) dst =
        (\<lambda>x. if in_box (sub_extents (sp_recv ?p ! (filter (face_active ?p) [0..<num_faces ?p] ! j))) x
          then received W r (filter (face_active ?p) [0..<num_faces ?p] ! j) x else dst x)"
    proof (intro allI impI)
      fix j dst assume j: "j < length (filter (face_active ?p) [0..<num_faces ?p])"
      let ?f = "filter (face_active ?p) [0..<num_faces ?p] ! j"
      have f: "?f < num_faces ?p" "face_active ?p ?f" using nth_mem [OF j] by auto
      have "distinct (active_faces ?p)" by (simp add: active_faces_def)
      then have "face_position ?p ?f = j"
        using face_position_nth(1,2) [OF f] j nth_eq_iff_index_eq [of "active_faces ?p" "face_position ?p ?f" j] by (simp add: active_faces_def)
      then show "unpack K (k_contiguous K (sp_extents ?p) (sp_recv ?p ! ?f)) (sub_extents (sp_recv ?p ! ?f))
          (host_buffer junk (region_size (sp_recv ?p ! ?f)) (?payload (0 + j))) dst =
        (\<lambda>x. if in_box (sub_extents (sp_recv ?p ! ?f)) x then received W r ?f x else dst x)"
        using unpack_received [OF assms f, of junk dst] by simp
    qed
  qed simp
  moreover have "last_face ?p [0..<num_faces ?p] idx = None" if "active_neighbor_count ?p = 0" for idx
    using that by (auto simp: active_neighbor_count_faces active_faces_def last_face_def find_None_iff filter_empty_conv)
  ultimately show ?thesis
    using sworld_okD(1) [OF assms(3,4)] by (simp add: ex structured_finish_def)
qed

section \<open>Halo cells\<close>

definition opposite :: "nat \<Rightarrow> nat" where
  "opposite f = (if even f then f + 1 else f - 1)"

definition written_last :: "Structured_Halo_Plan \<Rightarrow> nat \<Rightarrow> nat list \<Rightarrow> bool" where
  "written_last plan f idx \<longleftrightarrow>
     f < num_faces plan \<and> face_active plan f \<and> in_region (sp_recv plan ! f) idx \<and>
     (\<forall>f'\<in>{f<..<num_faces plan}. face_active plan f' \<longrightarrow> \<not> in_region (sp_recv plan ! f') idx)"

lemma opposite_div [simp]: "opposite f div 2 = f div 2"
  by (auto simp: opposite_def elim!: oddE evenE)

lemma even_opposite [simp]: "even (opposite f) \<longleftrightarrow> odd f"
  by (auto simp: opposite_def)

lemma last_face_SomeI:
  assumes "written_last plan f idx"
  shows "last_face plan [0..<num_faces plan] idx = Some f"
proof -
  let ?P = "\<lambda>f. face_active plan f \<and> in_region (sp_recv plan ! f) idx"
  have f: "f < num_faces plan" "?P f" using assms by (auto simp: written_last_def)
  have "[0..<num_faces plan] = [0..<f] @ f # [Suc f..<num_faces plan]"
    using upt_add_eq_append [of 0 f "num_faces plan - f"] upt_conv_Cons [of f "num_faces plan"] f(1) by simp
  moreover have "List.find ?P (rev [Suc f..<num_faces plan]) = None"
    using assms by (auto simp: find_None_iff written_last_def)
  moreover have app: "List.find ?P (xs @ ys) = (case List.find ?P xs of None \<Rightarrow> List.find ?P ys | Some x \<Rightarrow> Some x)" for xs ys
    by (induction xs) auto
  ultimately show ?thesis using f(2) unfolding last_face_def by (simp add: app)
qed

lemma last_face_NoneI:
  "\<forall>f<num_faces plan. face_active plan f \<longrightarrow> \<not> in_region (sp_recv plan ! f) idx \<Longrightarrow> last_face plan [0..<num_faces plan] idx = None"
  by (auto simp: last_face_def find_None_iff)

lemma slab_move:
  assumes "in_region (slab E d (b, c)) idx" "length E' = length E"
  shows "shift (slab E' d (a, e)) (unshift (slab E d (b, c)) idx) = idx[d := idx ! d - b + a]"
proof (rule nth_equalityI)
  have l: "length idx = length E" using assms(1) by (auto simp: in_region_def dest: list_all2_lengthD)
  then show "length (shift (slab E' d (a, e)) (unshift (slab E d (b, c)) idx)) = length (idx[d := idx ! d - b + a])"
    using assms(2) by (simp add: shift_def unshift_def)
  fix k assume "k < length (shift (slab E' d (a, e)) (unshift (slab E d (b, c)) idx))"
  then show "shift (slab E' d (a, e)) (unshift (slab E d (b, c)) idx) ! k = idx[d := idx ! d - b + a] ! k"
    using l assms(2) by (cases "k = d") (simp_all add: shift_def unshift_def slab_def)
qed

lemma faces_fit_length:
  assumes "faces_fit K pr f ps g" "grid_ok pr" "grid_ok ps" "f < num_faces pr" "g < num_faces ps"
  shows "length (sp_extents ps) = length (sp_extents pr)"
  using assms sub_extents_faces(2) [OF assms(2,4)] sub_extents_faces(1) [OF assms(3,5)] by (metis faces_fit_def length_list_update)

lemma received_cell:
  assumes "sworld_ok W ub" "r < sw_size W" "f < num_faces (sw_plan W r)" "face_active (sw_plan W r) f"
    and "s = nat (sp_neighbors (sw_plan W r) ! f)" "partner W r f = Some g" "faces_fit K (sw_plan W r) f (sw_plan W s) g"
    and "g div 2 = f div 2" "in_region (sp_recv (sw_plan W r) ! f) idx"
  shows "received W r f (unshift (sp_recv (sw_plan W r) ! f) idx) =
    sw_view W s (idx[f div 2 := idx ! (f div 2) - fst (recv_range (sp_extents (sw_plan W r)) (sp_widths (sw_plan W r)) f) +
      fst (send_range (sp_extents (sw_plan W s)) (sp_widths (sw_plan W s)) g)])"
proof -
  have s: "s < sw_size W" using sworld_okD(6) [OF assms(1-3)] assms(4,5) by (simp add: face_active_def nat_less_iff)
  note wr = sworld_okD(3) [OF assms(1,2)] and ws = sworld_okD(3) [OF assms(1) s]
  have "g \<in> set (faces_to W s r)" using assms(5,6) by (auto simp: partner_def Let_def split: if_splits)
  then have g: "g < num_faces (sw_plan W s)" by (simp add: faces_to_def)
  have l: "length (sp_extents (sw_plan W s)) = length (sp_extents (sw_plan W r))" using faces_fit_length [OF assms(7) wr ws assms(3) g] .
  obtain b c where b: "recv_range (sp_extents (sw_plan W r)) (sp_widths (sw_plan W r)) f = (b, c)" by fastforce
  obtain a e where a: "send_range (sp_extents (sw_plan W s)) (sp_widths (sw_plan W s)) g = (a, e)" by fastforce
  show ?thesis
    using slab_move [of "sp_extents (sw_plan W r)" "f div 2" b c idx "sp_extents (sw_plan W s)" a e] assms(6,8,9) l
    by (simp add: assms(5) [symmetric] received_def Let_def grid_okD(2) [OF ws g] grid_okD(3) [OF wr assms(3)] a b)
qed

lemma earlier_faces_of: "faces_to W r s = fs \<Longrightarrow> sp_neighbors (sw_plan W r) ! f = int s \<Longrightarrow> f < num_faces (sw_plan W r) \<Longrightarrow>
    earlier_faces W r f < length fs \<and> fs ! earlier_faces W r f = f"
  using filter_upt_split [of f "num_faces (sw_plan W r)" "\<lambda>g. sp_neighbors (sw_plan W r) ! g = int s"]
  by (auto simp: faces_to_def earlier_faces_def)

definition opposite_faces :: "kokkos \<Rightarrow> 'a sworld \<Rightarrow> nat \<Rightarrow> bool" where
  "opposite_faces K W r \<longleftrightarrow>
     (\<forall>f<num_faces (sw_plan W r). face_active (sw_plan W r) f \<longrightarrow>
        (let s = nat (sp_neighbors (sw_plan W r) ! f)
         in faces_to W r s = [f] \<and> faces_to W s r = [opposite f] \<and> faces_fit K (sw_plan W r) f (sw_plan W s) (opposite f)))"

lemma opposite_faces_partner:
  assumes "opposite_faces K W r" "f < num_faces (sw_plan W r)" "face_active (sw_plan W r) f"
  shows "partner W r f = Some (opposite f)" "faces_fit K (sw_plan W r) f (sw_plan W (nat (sp_neighbors (sw_plan W r) ! f))) (opposite f)"
  using assms earlier_faces_of [of W r "nat (sp_neighbors (sw_plan W r) ! f)" "[f]" f]
  by (auto simp: opposite_faces_def Let_def partner_def face_active_def)

text \<open>
  C11. The structured exchange fills the halos from across the face. On a decomposition where every neighbour is met across one face only, and
  meets this rank across its opposite face, the exchange succeeds on every rank: a cell of a
  low-side halo becomes the neighbour's cell from its high-side interior and conversely (a cell in the
  halos of several faces takes the last one's value), and every cell outside the halos keeps its
  value. The regions may be contiguous or strided.
\<close>

theorem structured_halo_filled:
  assumes "mpi_fifo net" "kokkos_ok K" "sworld_ok W ub" "r < sw_size W" "opposite_faces K W r"
  shows "\<exists>view'. exchange_structured_blocking net (sw_env W) K junk (sw_plan W) (sw_view W) r = Inr view' \<and>
    (\<forall>f idx. written_last (sw_plan W r) f idx \<longrightarrow>
       (let s = nat (sp_neighbors (sw_plan W r) ! f); d = f div 2;
            N = sp_extents (sw_plan W r) ! d; h = sp_widths (sw_plan W r) ! d;
            N' = sp_extents (sw_plan W s) ! d; h' = sp_widths (sw_plan W s) ! d
        in view' idx = sw_view W s (idx[d := if even f then idx ! d + (N' - 2 * h') else idx ! d - (N - h) + h']))) \<and>
    (\<forall>idx. (\<forall>f<num_faces (sw_plan W r). face_active (sw_plan W r) f \<longrightarrow> \<not> in_region (sp_recv (sw_plan W r) ! f) idx) \<longrightarrow>
       view' idx = sw_view W r idx)"
proof -
  let ?p = "sw_plan W r"
  have "paired K W r" using opposite_faces_partner [OF assms(5)] unfolding paired_def by blast
  note ex = structured_exchange_result [OF assms(1-4) this, of junk]
  show ?thesis
  proof (intro exI conjI allI impI)
    show "exchange_structured_blocking net (sw_env W) K junk (sw_plan W) (sw_view W) r = Inr (\<lambda>idx. case last_face ?p [0..<num_faces ?p] idx of
        Some f \<Rightarrow> received W r f (unshift (sp_recv ?p ! f) idx) | None \<Rightarrow> sw_view W r idx)" by (rule ex)
  next
    fix f idx assume w: "written_last ?p f idx"
    then have f: "f < num_faces ?p" "face_active ?p f" "in_region (sp_recv ?p ! f) idx" by (auto simp: written_last_def)
    note pt = opposite_faces_partner [OF assms(5) f(1,2)]
    show "let s = nat (sp_neighbors ?p ! f); d = f div 2; N = sp_extents ?p ! d; h = sp_widths ?p ! d;
            N' = sp_extents (sw_plan W s) ! d; h' = sp_widths (sw_plan W s) ! d
        in (case last_face ?p [0..<num_faces ?p] idx of Some f \<Rightarrow> received W r f (unshift (sp_recv ?p ! f) idx) | None \<Rightarrow> sw_view W r idx) =
           sw_view W s (idx[d := if even f then idx ! d + (N' - 2 * h') else idx ! d - (N - h) + h'])"
      using received_cell [OF assms(3,4) f(1,2) refl pt opposite_div f(3)] last_face_SomeI [OF w]
      by (simp add: Let_def recv_range_def send_range_def)
  next
    fix idx assume "\<forall>f<num_faces ?p. face_active ?p f \<longrightarrow> \<not> in_region (sp_recv ?p ! f) idx"
    then show "(case last_face ?p [0..<num_faces ?p] idx of Some f \<Rightarrow> received W r f (unshift (sp_recv ?p ! f) idx) | None \<Rightarrow> sw_view W r idx) = sw_view W r idx"
      by (simp add: last_face_NoneI)
  qed
qed

text \<open>
  C40. Two ranks that meet across both faces of a dimension exchange the wrong sides. When the low and the high
  face of a dimension lead to the same rank (a periodic dimension split over two ranks, or over
  one), all messages between the two ranks carry the same tag and match in face order, so that the low halo is filled
  from the neighbour's low interior and not from its high interior, which is what lies across the
  face.
\<close>

theorem periodic_pair_swaps_halos:
  assumes "mpi_fifo net" "kokkos_ok K" "sworld_ok W ub" "r < sw_size W" "paired K W r" "2 * d < num_faces (sw_plan W r)"
    and "faces_to W r s = [2 * d, 2 * d + 1]" "faces_to W s r = [2 * d, 2 * d + 1]"
    and "written_last (sw_plan W r) (2 * d) idx"
  shows "\<exists>view'. exchange_structured_blocking net (sw_env W) K junk (sw_plan W) (sw_view W) r = Inr view' \<and>
    view' idx = sw_view W s (idx[d := idx ! d + sp_widths (sw_plan W s) ! d])"
proof -
  let ?p = "sw_plan W r"
  have f: "2 * d < num_faces ?p" "face_active ?p (2 * d)" "in_region (sp_recv ?p ! (2 * d)) idx" using assms(9) by (auto simp: written_last_def)
  have "2 * d \<in> set (faces_to W r s)" using assms(7) by simp
  then have n: "sp_neighbors ?p ! (2 * d) = int s" by (simp add: faces_to_def)
  have "earlier_faces W r (2 * d) = 0"
    using earlier_faces_of [OF assms(7) n f(1)] by (auto simp: less_Suc_eq)
  then have "partner W r (2 * d) = Some (2 * d)" using assms(8) by (simp add: partner_def Let_def n)
  moreover have "faces_fit K ?p (2 * d) (sw_plan W s) (2 * d)" using assms(5) f(1,2) calculation by (auto simp: paired_def n)
  ultimately have "received W r (2 * d) (unshift (sp_recv ?p ! (2 * d)) idx) = sw_view W s (idx[d := idx ! d + sp_widths (sw_plan W s) ! d])"
    using received_cell [OF assms(3,4) f(1,2), of s "2 * d" K idx] f(3) n by (simp add: recv_range_def send_range_def Let_def)
  then show ?thesis
    using structured_exchange_result [OF assms(1-5), of junk] last_face_SomeI [OF assms(9)] by simp
qed

section \<open>Examples\<close>

text \<open>One dimension with four cells and a halo of one, on two ranks: a line, and a periodic pair.\<close>

definition sample_plan :: "int list \<Rightarrow> nat \<Rightarrow> Structured_Halo_Plan" where
  "sample_plan neighbors q = \<lparr>sp_extents = [4], sp_neighbors = neighbors, sp_widths = [1],
     sp_comm = \<lparr>co_rank = int q, co_size = 2\<rparr>, sp_send = [[(1, 2)], [(2, 3)]], sp_recv = [[(0, 1)], [(3, 4)]]\<rparr>"

definition sample_world :: "(nat \<Rightarrow> int list) \<Rightarrow> nat sworld" where
  "sample_world neighbors = \<lparr>sw_size = 2,
     sw_env = (\<lambda>_. \<lparr>xe_mpi = sample_mpi, xe_policy = Throw_on_error, xe_rc = (\<lambda>_ _. 0)\<rparr>),
     sw_plan = (\<lambda>q. sample_plan (neighbors q) q), sw_view = (\<lambda>q i. 10 * q + hd i)\<rparr>"

definition line_neighbors :: "nat \<Rightarrow> int list" where
  "line_neighbors q = (if q = 0 then [-1, 1] else [0, -1])"

definition pair_neighbors :: "nat \<Rightarrow> int list" where
  "pair_neighbors q = (if q = 0 then [1, 1] else [0, 0])"

lemma sample_plan_grid: "length neighbors = 2 \<Longrightarrow> grid_ok (sample_plan neighbors q)"
  by (simp add: grid_ok_def sample_plan_def mk_structured_plan_def precompute_regions_def send_lo_def send_hi_def recv_lo_def recv_hi_def
      slab_def u64_def)

lemma sample_world_ok:
  assumes "\<forall>q<2. length (neighbors q) = 2 \<and> list_all (\<lambda>n. n < 2) (neighbors q)"
  shows "sworld_ok (sample_world neighbors) None"
  unfolding sworld_ok_def
proof (intro allI impI conjI)
  fix q assume "q < sw_size (sample_world neighbors)"
  then have q: "q < 2" by (simp add: sample_world_def)
  show "grid_ok (sw_plan (sample_world neighbors) q)" using assms q by (simp add: sample_world_def sample_plan_grid)
qed (use assms in \<open>auto simp: sample_world_def sample_plan_def no_mpi_error_def sample_mpi_def\<close>)

lemma sample_num_faces [simp]: "num_faces (sample_plan neighbors q) = 2"
  by (simp add: num_faces_def grid_rank_def sample_plan_def)

lemma upt_2: "[0..<2] = [0, 1 :: nat]"
  by (simp add: upt_rec)

theorem structured_halo_filled_witness:
  "\<exists>view'. exchange_structured_blocking fifo_net (sw_env (sample_world line_neighbors)) layout_right 0
       (sw_plan (sample_world line_neighbors)) (sw_view (sample_world line_neighbors)) 0 = Inr view' \<and> view' [3] = 11 \<and> view' [0] = 0"
proof -
  let ?W = "sample_world line_neighbors"
  have ok: "sworld_ok ?W None" by (rule sample_world_ok) (simp add: line_neighbors_def)
  have "opposite_faces layout_right ?W 0"
    by (auto simp: opposite_faces_def faces_fit_def sub_extents_def layout_right_def sample_world_def less_2_cases_iff faces_to_def upt_2 face_active_def sample_plan_def line_neighbors_def
        opposite_def num_faces_def grid_rank_def Let_def)
  then obtain v where v: "exchange_structured_blocking fifo_net (sw_env ?W) layout_right 0 (sw_plan ?W) (sw_view ?W) 0 = Inr v"
    and a: "\<forall>f idx. written_last (sw_plan ?W 0) f idx \<longrightarrow>
       (let s = nat (sp_neighbors (sw_plan ?W 0) ! f); d = f div 2;
            N = sp_extents (sw_plan ?W 0) ! d; h = sp_widths (sw_plan ?W 0) ! d;
            N' = sp_extents (sw_plan ?W s) ! d; h' = sp_widths (sw_plan ?W s) ! d
        in v idx = sw_view ?W s (idx[d := if even f then idx ! d + (N' - 2 * h') else idx ! d - (N - h) + h']))"
    and b: "\<forall>idx. (\<forall>f<num_faces (sw_plan ?W 0). face_active (sw_plan ?W 0) f \<longrightarrow> \<not> in_region (sp_recv (sw_plan ?W 0) ! f) idx) \<longrightarrow> v idx = sw_view ?W 0 idx"
    using structured_halo_filled [OF fifo_net_fifo layout_right_ok ok, of 0 0] by (auto simp: sample_world_def)
  have "written_last (sw_plan ?W 0) 1 [3]"
    by (auto simp: written_last_def sample_world_def face_active_def in_region_def sample_plan_def line_neighbors_def num_faces_def grid_rank_def)
  then have "v [3] = 11" using a [rule_format, of 1 "[3]"] by (simp add: sample_world_def sample_plan_def line_neighbors_def)
  moreover have "\<forall>f<num_faces (sw_plan ?W 0). face_active (sw_plan ?W 0) f \<longrightarrow> \<not> in_region (sp_recv (sw_plan ?W 0) ! f) [0]"
    by (auto simp: sample_world_def less_2_cases_iff face_active_def in_region_def sample_plan_def line_neighbors_def num_faces_def grid_rank_def)
  then have "v [0] = 0" using b by (auto simp: sample_world_def)
  ultimately show ?thesis using v by blast
qed

theorem periodic_pair_swaps_halos_witness:
  "\<exists>view'. exchange_structured_blocking fifo_net (sw_env (sample_world pair_neighbors)) layout_right 0
       (sw_plan (sample_world pair_neighbors)) (sw_view (sample_world pair_neighbors)) 0 = Inr view' \<and> view' [0] = 11"
proof -
  let ?W = "sample_world pair_neighbors"
  have ok: "sworld_ok ?W None" by (rule sample_world_ok) (simp add: pair_neighbors_def)
  have pd: "paired layout_right ?W 0"
    by (auto simp: paired_def faces_fit_def sub_extents_def layout_right_def sample_world_def less_2_cases_iff partner_def earlier_faces_def faces_to_def upt_2 face_active_def
        sample_plan_def pair_neighbors_def num_faces_def grid_rank_def Let_def)
  have w: "written_last (sw_plan ?W 0) (2 * 0) [0]"
    by (auto simp: written_last_def sample_world_def face_active_def in_region_def sample_plan_def pair_neighbors_def num_faces_def grid_rank_def)
  have ft: "faces_to ?W 0 1 = [2 * 0, 2 * 0 + 1]" "faces_to ?W 1 0 = [2 * 0, 2 * 0 + 1]"
    by (simp_all add: faces_to_def sample_world_def upt_2 sample_plan_def pair_neighbors_def num_faces_def grid_rank_def)
  have "0 < sw_size ?W" "2 * 0 < num_faces (sw_plan ?W 0)" by (simp_all add: sample_world_def)
  from periodic_pair_swaps_halos [OF fifo_net_fifo layout_right_ok ok this(1) pd this(2) ft w, of 0]
  show ?thesis by (simp add: sample_world_def sample_plan_def)
qed

section \<open>Regions\<close>

lemma in_slab:
  "d < length E \<Longrightarrow> in_region (slab E d rg) idx \<longleftrightarrow>
     length idx = length E \<and> fst rg \<le> idx ! d \<and> idx ! d < snd rg \<and> (\<forall>k<length E. k \<noteq> d \<longrightarrow> idx ! k < E ! k)"
  by (auto simp: in_region_def slab_def list_all2_conv_all_nth)

lemma in_slab_box:
  assumes "in_region (slab E d rg) idx" "snd rg \<le> E ! d"
  shows "in_box E idx"
  using assms by (fastforce simp: in_region_def slab_def in_box_def list_all2_conv_all_nth split: if_splits)

text \<open>
  What the constructor's check ensures of the regions. In an accepted plan the send and the receive region of
  every face lie inside the array and have the same shape. The send regions avoid the halos exactly when
  the extent is at least three halo widths; the check asks for two only, so that in a thinner
  array a rank sends halo cells in place of interior ones.
\<close>

theorem structured_regions_interior:
  assumes "grid_ok plan" "f < num_faces plan" "0 < sp_widths plan ! (f div 2)" "list_all (\<lambda>N. 0 < N) (sp_extents plan)"
  shows "sub_extents (sp_send plan ! f) = sub_extents (sp_recv plan ! f) \<and>
    (\<forall>idx. in_region (sp_send plan ! f) idx \<or> in_region (sp_recv plan ! f) idx \<longrightarrow> in_box (sp_extents plan) idx) \<and>
    ((\<forall>idx. in_region (sp_send plan ! f) idx \<longrightarrow>
        sp_widths plan ! (f div 2) \<le> idx ! (f div 2) \<and> idx ! (f div 2) < sp_extents plan ! (f div 2) - sp_widths plan ! (f div 2)) \<longleftrightarrow>
      3 * sp_widths plan ! (f div 2) \<le> sp_extents plan ! (f div 2))"
proof (intro conjI)
  let ?E = "sp_extents plan" and ?d = "f div 2"
  let ?N = "?E ! ?d" and ?h = "sp_widths plan ! ?d"
  have d: "?d < length ?E" using assms(2) by (simp add: num_faces_def grid_rank_def)
  note le = grid_okD(1) [OF assms(1), of ?d, unfolded grid_rank_def, OF d] and rg = grid_okD(2,3) [OF assms(1,2)]
  show "sub_extents (sp_send plan ! f) = sub_extents (sp_recv plan ! f)" using sub_extents_faces [OF assms(1,2)] by simp
  have "snd (send_range ?E (sp_widths plan) f) \<le> ?N" "snd (recv_range ?E (sp_widths plan) f) \<le> ?N"
    using le by (auto simp: send_range_def recv_range_def Let_def)
  then show "\<forall>idx. in_region (sp_send plan ! f) idx \<or> in_region (sp_recv plan ! f) idx \<longrightarrow> in_box ?E idx"
    unfolding rg using in_slab_box by blast
  show "(\<forall>idx. in_region (sp_send plan ! f) idx \<longrightarrow> ?h \<le> idx ! ?d \<and> idx ! ?d < ?N - ?h) \<longleftrightarrow> 3 * ?h \<le> ?N"
  proof
    assume a: "\<forall>idx. in_region (sp_send plan ! f) idx \<longrightarrow> ?h \<le> idx ! ?d \<and> idx ! ?d < ?N - ?h"
    let ?x = "if even f then 2 * ?h - 1 else ?N - 2 * ?h"
    have "in_region (sp_send plan ! f) ((replicate (length ?E) 0)[?d := ?x])"
      unfolding rg using le assms(3,4) d diff_less_mono2 [of ?h "2 * ?h" ?N]
      by (auto simp: in_slab nth_list_update send_range_def Let_def list_all_length)
    with a have "?h \<le> ?x \<and> ?x < ?N - ?h" using d by fastforce
    then show "3 * ?h \<le> ?N" using assms(3) le by (cases "even f"; simp; linarith)
  next
    assume "3 * ?h \<le> ?N"
    then have "?h \<le> ?N - 2 * ?h" "2 * ?h \<le> ?N - ?h" by linarith+
    then show "\<forall>idx. in_region (sp_send plan ! f) idx \<longrightarrow> ?h \<le> idx ! ?d \<and> idx ! ?d < ?N - ?h"
      unfolding rg using d by (force simp: in_slab send_range_def Let_def split: if_splits)
  qed
qed

theorem structured_regions_interior_witness:
  "\<not> (\<forall>idx. in_region (send_lo [2] [1] 0) idx \<longrightarrow> 1 \<le> idx ! 0 \<and> idx ! 0 < 1)"
proof -
  let ?p = "\<lparr>sp_extents = [2], sp_neighbors = [0, 0], sp_widths = [1], sp_comm = \<lparr>co_rank = 0, co_size = 1\<rparr>,
    sp_send = [[(1, 2)], [(0, 1)]], sp_recv = [[(0, 1)], [(1, 2)]]\<rparr>"
  have "grid_ok ?p"
    by (simp add: grid_ok_def mk_structured_plan_def precompute_regions_def send_lo_def send_hi_def recv_lo_def recv_hi_def slab_def u64_def)
  then show ?thesis
    using structured_regions_interior [of ?p 0] by (simp add: num_faces_def grid_rank_def send_lo_def slab_def u64_def)
qed

end
