(* ===== verification/Halo_Handles.thy ===== *)
theory Halo_Handles
  imports Halo_Mpi
begin

text \<open>
  The owners of MPI resources: \<^verbatim>\<open>halo/src/request_guard.cpp\<close>, \<^verbatim>\<open>halo/src/halo_handle.cpp\<close>, \<^verbatim>\<open>halo/src/communicator.cpp\<close>,
  \<^verbatim>\<open>halo/src/window_guard.cpp\<close> and \<^verbatim>\<open>halo/detail/strided_datatype.hpp\<close>.

  A handle is an option, the null handle being \<open>None\<close>. The calls that complete, cancel or free a
  resource append to a log of events, so what happens to a resource, how often and in which order is
  visible. Whether a request is done when it is tested is an argument.
\<close>

section \<open>Requests\<close>

datatype halo_event = Completed nat | Cancelled nat | Copied | Freed nat | Fenced nat

record Request_Guard =
  rg_req :: "nat option"
  rg_uncaught :: nat

definition mk_request_guard :: "nat option \<Rightarrow> nat \<Rightarrow> Request_Guard \<times> nat option" where
  "mk_request_guard req uncaught = (\<lparr>rg_req = req, rg_uncaught = uncaught\<rparr>, None)"

definition release_request :: "nat \<Rightarrow> Request_Guard \<Rightarrow> halo_event list \<Rightarrow> halo_event list" where
  "release_request uncaught g log =
     (case rg_req g of
        None \<Rightarrow> log
      | Some q \<Rightarrow> if uncaught > rg_uncaught g then log @ [Cancelled q] else log @ [Completed q])"

definition guard_move :: "Request_Guard \<Rightarrow> Request_Guard \<times> Request_Guard" where
  "guard_move other = (\<lparr>rg_req = rg_req other, rg_uncaught = rg_uncaught other\<rparr>, other\<lparr>rg_req := None\<rparr>)"

definition guard_move_assign :: "nat \<Rightarrow> bool \<Rightarrow> Request_Guard \<Rightarrow> Request_Guard \<Rightarrow> halo_event list \<Rightarrow> Request_Guard \<times> Request_Guard \<times> halo_event list" where
  "guard_move_assign uncaught same this other log =
     (if same then (this, other, log)
      else (\<lparr>rg_req = rg_req other, rg_uncaught = rg_uncaught other\<rparr>, other\<lparr>rg_req := None\<rparr>, release_request uncaught this log))"

definition guard_test :: "(nat \<Rightarrow> bool) \<Rightarrow> Request_Guard \<Rightarrow> halo_event list \<Rightarrow> bool \<times> Request_Guard \<times> halo_event list" where
  "guard_test is_done g log =
     (case rg_req g of
        None \<Rightarrow> (True, g, log)
      | Some q \<Rightarrow> if is_done q then (True, g\<lparr>rg_req := None\<rparr>, log @ [Completed q]) else (False, g, log))"

definition guard_wait :: "Request_Guard \<Rightarrow> halo_event list \<Rightarrow> Request_Guard \<times> halo_event list" where
  "guard_wait g log =
     (case rg_req g of None \<Rightarrow> (g, log) | Some q \<Rightarrow> (g\<lparr>rg_req := None\<rparr>, log @ [Completed q]))"

section \<open>Handles of asynchronous exchanges\<close>

text \<open>\<open>hh_staged\<close> is the staged receive: absent, or present with its \<open>completed\<close> flag.\<close>

record Halo_Handle =
  hh_requests :: "Request_Guard list"
  hh_staged :: "bool option"

definition empty_handle :: Halo_Handle where
  "empty_handle = \<lparr>hh_requests = [], hh_staged = None\<rparr>"

definition handle_empty :: "Halo_Handle \<Rightarrow> bool" where
  "handle_empty h \<longleftrightarrow> hh_requests h = []"

definition finalize_staged_recv :: "Halo_Handle \<Rightarrow> halo_event list \<Rightarrow> Halo_Handle \<times> halo_event list" where
  "finalize_staged_recv h log =
     (if hh_staged h = Some False then (h\<lparr>hh_staged := Some True\<rparr>, log @ [Copied]) else (h, log))"

fun test_requests :: "(nat \<Rightarrow> bool) \<Rightarrow> Request_Guard list \<Rightarrow> halo_event list \<Rightarrow> bool \<times> Request_Guard list \<times> halo_event list" where
  "test_requests is_done [] log = (True, [], log)"
| "test_requests is_done (g # gs) log =
     (case guard_test is_done g log of
        (False, g', log') \<Rightarrow> (False, g' # gs, log')
      | (True, g', log') \<Rightarrow> (case test_requests is_done gs log' of (b, gs', log'') \<Rightarrow> (b, g' # gs', log'')))"

definition handle_test :: "(nat \<Rightarrow> bool) \<Rightarrow> Halo_Handle \<Rightarrow> halo_event list \<Rightarrow> bool \<times> Halo_Handle \<times> halo_event list" where
  "handle_test is_done h log =
     (if handle_empty h then (True, h, log)
      else case test_requests is_done (hh_requests h) log of
             (False, gs, log') \<Rightarrow> (False, h\<lparr>hh_requests := gs\<rparr>, log')
           | (True, gs, log') \<Rightarrow> (True, finalize_staged_recv (h\<lparr>hh_requests := gs\<rparr>) log'))"

fun wait_requests :: "Request_Guard list \<Rightarrow> halo_event list \<Rightarrow> Request_Guard list \<times> halo_event list" where
  "wait_requests [] log = ([], log)"
| "wait_requests (g # gs) log =
     (let (g', log') = guard_wait g log; (gs', log'') = wait_requests gs log' in (g' # gs', log''))"

definition handle_wait :: "Halo_Handle \<Rightarrow> halo_event list \<Rightarrow> Halo_Handle \<times> halo_event list" where
  "handle_wait h log =
     (if handle_empty h then (h, log)
      else let (gs, log') = wait_requests (hh_requests h) log in finalize_staged_recv (h\<lparr>hh_requests := gs\<rparr>) log')"

definition handle_destroy :: "nat \<Rightarrow> Halo_Handle \<Rightarrow> halo_event list \<Rightarrow> halo_event list" where
  "handle_destroy uncaught h log =
     (let (h', log') = (if \<not> handle_empty h then handle_wait h log else (h, log))
      in fold (release_request uncaught) (hh_requests h') log')"

definition handle_move :: "Halo_Handle \<Rightarrow> Halo_Handle \<times> Halo_Handle" where
  "handle_move other = (\<lparr>hh_requests = hh_requests other, hh_staged = hh_staged other\<rparr>, empty_handle)"

definition handle_move_assign :: "nat \<Rightarrow> bool \<Rightarrow> Halo_Handle \<Rightarrow> Halo_Handle \<Rightarrow> halo_event list \<Rightarrow> Halo_Handle \<times> Halo_Handle \<times> halo_event list" where
  "handle_move_assign uncaught same this other log =
     (if same then (this, other, log)
      else
        let (this', log') = (if \<not> handle_empty this then handle_wait this log else (this, log))
        in (\<lparr>hh_requests = hh_requests other, hh_staged = hh_staged other\<rparr>, empty_handle, fold (release_request uncaught) (hh_requests this') log'))"

section \<open>Owners freed once\<close>

text \<open>
  Communicators, windows and datatypes. \<open>predefined\<close> says which communicators are the world and self
  ones; \<open>finalized\<close> whether MPI was shut down.
\<close>

definition communicator_destroy :: "(nat \<Rightarrow> bool) \<Rightarrow> bool \<Rightarrow> nat option \<Rightarrow> halo_event list \<Rightarrow> halo_event list" where
  "communicator_destroy predefined finalized comm log =
     (case comm of
        None \<Rightarrow> log
      | Some c \<Rightarrow> if predefined c then log else if finalized then log else log @ [Freed c])"

definition communicator_move_assign :: "(nat \<Rightarrow> bool) \<Rightarrow> bool \<Rightarrow> bool \<Rightarrow> nat option \<Rightarrow> nat option \<Rightarrow> halo_event list \<Rightarrow>
    nat option \<times> nat option \<times> halo_event list" where
  "communicator_move_assign predefined finalized same this other log =
     (if same then (this, other, log) else (other, None, communicator_destroy predefined finalized this log))"

record Window_Guard =
  wg_win :: "nat option"
  wg_epoch_active :: bool

definition window_destroy :: "bool \<Rightarrow> Window_Guard \<Rightarrow> halo_event list \<Rightarrow> halo_event list" where
  "window_destroy finalized w log =
     (case wg_win w of
        None \<Rightarrow> log
      | Some x \<Rightarrow> if finalized then log else log @ (if wg_epoch_active w then [Fenced x] else []) @ [Freed x])"

definition window_move :: "Window_Guard \<Rightarrow> Window_Guard \<times> Window_Guard" where
  "window_move other = (other, \<lparr>wg_win = None, wg_epoch_active = False\<rparr>)"

definition window_move_assign :: "bool \<Rightarrow> bool \<Rightarrow> Window_Guard \<Rightarrow> Window_Guard \<Rightarrow> halo_event list \<Rightarrow> Window_Guard \<times> Window_Guard \<times> halo_event list" where
  "window_move_assign finalized same this other log =
     (if same then (this, other, log)
      else (other, \<lparr>wg_win = None, wg_epoch_active = False\<rparr>, window_destroy finalized this log))"

definition datatype_free :: "bool \<Rightarrow> nat option \<Rightarrow> halo_event list \<Rightarrow> nat option \<times> halo_event list" where
  "datatype_free finalized dt log =
     (case dt of None \<Rightarrow> (None, log) | Some x \<Rightarrow> (None, if finalized then log else log @ [Freed x]))"

definition datatype_move_assign :: "bool \<Rightarrow> bool \<Rightarrow> nat option \<Rightarrow> nat option \<Rightarrow> halo_event list \<Rightarrow> nat option \<times> nat option \<times> halo_event list" where
  "datatype_move_assign finalized same this other log =
     (if same then (this, other, log) else (other, None, snd (datatype_free finalized this log)))"

section \<open>Requests are completed once and copied after\<close>

definition pending :: "Halo_Handle \<Rightarrow> nat list" where
  "pending h = List.map_filter rg_req (hh_requests h)"

definition completed_requests :: "halo_event list \<Rightarrow> nat list" where
  "completed_requests log = List.map_filter (\<lambda>e. case e of Completed q \<Rightarrow> Some q | _ \<Rightarrow> None) log"

lemma map_filter_simps [simp]:
  "List.map_filter f [] = []" "List.map_filter f (x # xs) = (case f x of None \<Rightarrow> List.map_filter f xs | Some y \<Rightarrow> y # List.map_filter f xs)"
  "List.map_filter f (xs @ ys) = List.map_filter f xs @ List.map_filter f ys"
  by (simp_all add: map_filter_def split: option.split)

lemma completed_requests_snoc [simp]:
  "completed_requests (log @ [Completed q]) = completed_requests log @ [q]" "completed_requests (log @ [Copied]) = completed_requests log"
  by (simp_all add: completed_requests_def)

text \<open>What holds of a handle and the log of its events: \<open>ids\<close> are the requests it was given.\<close>

definition handle_inv :: "nat list \<Rightarrow> bool \<Rightarrow> Halo_Handle \<Rightarrow> halo_event list \<Rightarrow> bool" where
  "handle_inv ids staged h log \<longleftrightarrow>
     completed_requests log @ pending h = ids \<and> hh_requests h \<noteq> [] \<and>
     (if staged then
        (hh_staged h = Some False \<and> log = map Completed (completed_requests log) \<or>
         hh_staged h = Some True \<and> pending h = [] \<and> log = map Completed (completed_requests log) @ [Copied])
      else hh_staged h = None \<and> log = map Completed (completed_requests log))"

lemma wait_requests_spec:
  "wait_requests gs log = (gs', log') \<Longrightarrow>
     log' = log @ map Completed (List.map_filter rg_req gs) \<and> List.map_filter rg_req gs' = [] \<and> length gs' = length gs"
  by (induction gs log arbitrary: gs' log' rule: wait_requests.induct)
    (auto simp: guard_wait_def Let_def split: prod.splits option.splits)

lemma test_requests_spec:
  "test_requests is_done gs log = (b, gs', log') \<Longrightarrow>
     \<exists>qs. log' = log @ map Completed qs \<and> qs @ List.map_filter rg_req gs' = List.map_filter rg_req gs \<and> length gs' = length gs \<and>
          (b \<longrightarrow> List.map_filter rg_req gs' = [])"
proof (induction is_done gs log arbitrary: b gs' log' rule: test_requests.induct)
  case (2 is_done g gs log)
  obtain c g1 log1 where t: "guard_test is_done g log = (c, g1, log1)" by (cases "guard_test is_done g log")
  show ?case
  proof (cases c)
    case False
    then have "rg_req g \<noteq> None" "g1 = g" "log1 = log" using t by (auto simp: guard_test_def split: option.splits if_splits)
    then show ?thesis using 2(2) t False by (intro exI [of _ "[]"]) auto
  next
    case True
    then have h: "(rg_req g = None \<and> g1 = g \<and> log1 = log) \<or> (\<exists>q. rg_req g = Some q \<and> rg_req g1 = None \<and> log1 = log @ [Completed q])"
      using t by (auto simp: guard_test_def split: option.splits if_splits)
    obtain gs1 where r: "test_requests is_done gs log1 = (b, gs1, log')" "gs' = g1 # gs1"
      using 2(2) t True by (auto split: prod.splits)
    obtain qs where q: "log' = log1 @ map Completed qs" "qs @ List.map_filter rg_req gs1 = List.map_filter rg_req gs" "length gs1 = length gs"
      "b \<longrightarrow> List.map_filter rg_req gs1 = []"
      using 2(1) [OF t [symmetric] _ _ r(1)] True by auto
    from h show ?thesis
    proof
      assume "rg_req g = None \<and> g1 = g \<and> log1 = log"
      then show ?thesis using q r by (intro exI [of _ qs]) auto
    next
      assume "\<exists>q. rg_req g = Some q \<and> rg_req g1 = None \<and> log1 = log @ [Completed q]"
      then obtain x where "rg_req g = Some x" "rg_req g1 = None" "log1 = log @ [Completed x]" by blast
      then show ?thesis using q r by (intro exI [of _ "x # qs"]) auto
    qed
  qed
qed simp

lemma completed_requests_append [simp]: "completed_requests (log @ map Completed qs) = completed_requests log @ qs"
  by (induction qs arbitrary: log rule: rev_induct) (simp_all flip: append_assoc)

lemma finalize_inv:
  assumes "completed_requests log @ pending h = ids" "pending h = []" "hh_requests h \<noteq> []"
    and "if staged then hh_staged h = Some False \<and> log = map Completed (completed_requests log) \<or>
           hh_staged h = Some True \<and> log = map Completed (completed_requests log) @ [Copied]
         else hh_staged h = None \<and> log = map Completed (completed_requests log)"
    and "finalize_staged_recv h log = (h', log')"
  shows "handle_inv ids staged h' log' \<and> pending h' = [] \<and> (staged \<longrightarrow> hh_staged h' = Some True)"
  using assms by (auto simp: finalize_staged_recv_def handle_inv_def pending_def split: if_splits)

lemma handle_wait_inv:
  assumes "handle_inv ids staged h log" "handle_wait h log = (h', log')"
  shows "handle_inv ids staged h' log' \<and> pending h' = [] \<and> (staged \<longrightarrow> hh_staged h' = Some True)"
proof -
  obtain gs log1 where w: "wait_requests (hh_requests h) log = (gs, log1)" by fastforce
  note sp = wait_requests_spec [OF w]
  have f: "finalize_staged_recv (h\<lparr>hh_requests := gs\<rparr>) log1 = (h', log')"
    using assms w by (simp add: handle_wait_def handle_empty_def handle_inv_def)
  show ?thesis
    using f
  proof (rule finalize_inv [rotated 4])
    show "completed_requests log1 @ pending (h\<lparr>hh_requests := gs\<rparr>) = ids" "pending (h\<lparr>hh_requests := gs\<rparr>) = []" "hh_requests (h\<lparr>hh_requests := gs\<rparr>) \<noteq> []"
      using sp assms(1) by (auto simp: handle_inv_def pending_def)
    show "if staged then hh_staged (h\<lparr>hh_requests := gs\<rparr>) = Some False \<and> log1 = map Completed (completed_requests log1) \<or>
           hh_staged (h\<lparr>hh_requests := gs\<rparr>) = Some True \<and> log1 = map Completed (completed_requests log1) @ [Copied]
         else hh_staged (h\<lparr>hh_requests := gs\<rparr>) = None \<and> log1 = map Completed (completed_requests log1)"
      using sp assms(1) by (auto simp: handle_inv_def pending_def split: if_splits)
  qed
qed

lemma handle_test_inv:
  assumes "handle_inv ids staged h log" "handle_test is_done h log = (b, h', log')"
  shows "handle_inv ids staged h' log' \<and> (b \<longrightarrow> pending h' = [] \<and> (staged \<longrightarrow> hh_staged h' = Some True))"
proof -
  obtain c gs log1 where w: "test_requests is_done (hh_requests h) log = (c, gs, log1)" by (cases "test_requests is_done (hh_requests h) log")
  obtain qs where q: "log1 = log @ map Completed qs" "qs @ List.map_filter rg_req gs = List.map_filter rg_req (hh_requests h)" "length gs = length (hh_requests h)"
    "c \<longrightarrow> List.map_filter rg_req gs = []" using test_requests_spec [OF w] by blast
  have ne: "hh_requests h \<noteq> []" "gs \<noteq> []" using assms(1) q(3) by (auto simp: handle_inv_def)
  have base: "completed_requests log1 @ pending (h\<lparr>hh_requests := gs\<rparr>) = ids"
    using q(1,2) assms(1) by (simp add: handle_inv_def pending_def)
  have st: "if staged then hh_staged h = Some False \<and> log1 = map Completed (completed_requests log1) \<or>
      hh_staged h = Some True \<and> pending h = [] \<and> log1 = map Completed (completed_requests log1) @ [Copied]
    else hh_staged h = None \<and> log1 = map Completed (completed_requests log1)"
    using q(1,2) assms(1) by (auto simp: handle_inv_def pending_def split: if_splits)
  show ?thesis
  proof (cases c)
    case True
    then have "b" "finalize_staged_recv (h\<lparr>hh_requests := gs\<rparr>) log1 = (h', log')"
      using assms(2) w ne by (auto simp: handle_test_def handle_empty_def)
    then show ?thesis
      using finalize_inv [OF base _ _ _ \<open>finalize_staged_recv (h\<lparr>hh_requests := gs\<rparr>) log1 = (h', log')\<close>, of staged] True q(4) ne st
      by (auto simp: pending_def split: if_splits)
  next
    case False
    then have "\<not> b" "h' = h\<lparr>hh_requests := gs\<rparr>" "log' = log1" using assms(2) w ne by (auto simp: handle_test_def handle_empty_def)
    then show ?thesis using base st ne q(2) by (auto simp: handle_inv_def pending_def split: if_splits)
  qed
qed

section \<open>Life of a handle\<close>

datatype handle_op = Test "nat \<Rightarrow> bool" | Wait | Move

fun apply_handle_op :: "handle_op \<Rightarrow> Halo_Handle \<times> halo_event list \<Rightarrow> Halo_Handle \<times> halo_event list" where
  "apply_handle_op (Test is_done) (h, log) = snd (handle_test is_done h log)"
| "apply_handle_op Wait (h, log) = handle_wait h log"
| "apply_handle_op Move (h, log) = (fst (handle_move h), log)"

definition async_handle :: "nat list \<Rightarrow> bool \<Rightarrow> Halo_Handle" where
  "async_handle ids staged = \<lparr>hh_requests = map (\<lambda>q. fst (mk_request_guard (Some q) 0)) ids, hh_staged = (if staged then Some False else None)\<rparr>"

lemma handle_move_fst [simp]: "fst (handle_move h) = h"
  by (cases h) (simp add: handle_move_def)

lemma apply_handle_op_inv: "handle_inv ids staged h log \<Longrightarrow> apply_handle_op op (h, log) = (h', log') \<Longrightarrow> handle_inv ids staged h' log'"
proof (cases op)
  case (Test is_done)
  assume "handle_inv ids staged h log" "apply_handle_op op (h, log) = (h', log')"
  then show ?thesis using Test handle_test_inv [of ids staged h log is_done] by (cases "handle_test is_done h log") auto
qed (auto dest: handle_wait_inv)

lemma fold_handle_ops_inv: "handle_inv ids staged h log \<Longrightarrow> fold apply_handle_op ops (h, log) = (h', log') \<Longrightarrow> handle_inv ids staged h' log'"
proof (induction ops arbitrary: h log)
  case (Cons op ops)
  then show ?case by (cases "apply_handle_op op (h, log)") (auto dest: apply_handle_op_inv)
qed simp

lemma release_nothing: "List.map_filter rg_req gs = [] \<Longrightarrow> fold (release_request uncaught) gs log = log"
  by (induction gs) (auto simp: release_request_def split: option.splits)

lemma handle_life:
  assumes "ids \<noteq> []" "fold apply_handle_op ops (async_handle ids staged, []) = (h, log)"
  shows "handle_destroy uncaught h log = map Completed ids @ (if staged then [Copied] else [])"
proof -
  have "List.map_filter rg_req (map (\<lambda>q. fst (mk_request_guard (Some q) 0)) ids) = ids"
    by (induction ids) (auto simp: mk_request_guard_def)
  then have "handle_inv ids staged (async_handle ids staged) []"
    using assms(1) by (simp add: handle_inv_def async_handle_def pending_def completed_requests_def)
  then have i: "handle_inv ids staged h log" using fold_handle_ops_inv assms(2) by blast
  obtain h' log' where w: "handle_wait h log = (h', log')" by fastforce
  note hw = handle_wait_inv [OF i w]
  then have "log' = map Completed ids @ (if staged then [Copied] else [])" by (auto simp: handle_inv_def split: if_splits)
  moreover have "\<not> handle_empty h" using i by (simp add: handle_inv_def handle_empty_def)
  ultimately show ?thesis using hw w by (simp add: handle_destroy_def release_nothing pending_def)
qed

text \<open>
  C18. An asynchronous exchange completes every request once and copies after all of them. However a handle is tested,
  waited on and moved before it is destroyed, also while an exception unwinds the stack, the events are: every request
  completed once, none cancelled, and then, if receives are staged, exactly one copy into the view.
\<close>

theorem halo_handle_completes_once:
  assumes "ids \<noteq> []" "fold apply_handle_op ops (async_handle ids staged, []) = (h, log)"
  shows "handle_destroy uncaught h log = map Completed ids @ (if staged then [Copied] else [])"
  by (rule handle_life [OF assms])

theorem halo_handle_completes_once_witness:
  "handle_destroy 1 (fst (fold apply_handle_op [Test (\<lambda>q. q = 4), Move] (async_handle [4, 5] True, [])))
     (snd (fold apply_handle_op [Test (\<lambda>q. q = 4), Move] (async_handle [4, 5] True, []))) = [Completed 4, Completed 5, Copied]"
  using halo_handle_completes_once [of "[4, 5]" "[Test (\<lambda>q. q = 4), Move]" True] by (simp add: surjective_pairing)

text \<open>
  A moved resource is freed by its last owner only. After a move construction or a move assignment of a
  communicator, window or datatype, destroying both owners frees each resource that was held exactly once,
  the old one at the assignment, an active epoch being closed first; a self-assignment and the predefined communicators free nothing.
\<close>

theorem moved_resources_freed_once:
  "(case communicator_move_assign predefined False False a b log of (this, other, log') \<Rightarrow>
      communicator_destroy predefined False other (communicator_destroy predefined False this log')) =
    log @ map Freed (filter (\<lambda>c. \<not> predefined c) (case a of None \<Rightarrow> [] | Some x \<Rightarrow> [x])) @ map Freed (filter (\<lambda>c. \<not> predefined c) (case b of None \<Rightarrow> [] | Some x \<Rightarrow> [x])) \<and>
   (case window_move_assign False False v w log of (this, other, log') \<Rightarrow> window_destroy False other (window_destroy False this log')) =
    window_destroy False w (window_destroy False v log) \<and>
   (case datatype_move_assign False False a b log of (this, other, log') \<Rightarrow>
      snd (datatype_free False other (snd (datatype_free False this log')))) =
    log @ map Freed (case a of None \<Rightarrow> [] | Some x \<Rightarrow> [x]) @ map Freed (case b of None \<Rightarrow> [] | Some x \<Rightarrow> [x])"
  by (auto simp: communicator_move_assign_def communicator_destroy_def window_move_assign_def window_destroy_def
      datatype_move_assign_def datatype_free_def split: option.split)

end
