(* ===== verification/Halo_Async.thy ===== *)
theory Halo_Async
  imports Halo_Structured_Exchange Halo_Handles
begin

text \<open>
  The asynchronous exchanges of \<^verbatim>\<open>halo/exchange.hpp\<close> and \<^verbatim>\<open>halo/exchange_structured.hpp\<close>.

  Starting an exchange posts the requests and returns a handle that owns them: request \<open>i\<close> is the receive
  from neighbour \<open>i\<close>, and the sends follow. What the handle does afterwards is a log of events (\<open>Halo_Handles\<close>);
  the effect of an event on the view is \<open>on_event\<close>: a completed receive is in its place, and the staged copy or
  the unpacking happens at the copy.
\<close>

section \<open>Unstructured\<close>

text \<open>\<open>staging\<close> is \<open>None\<close> when messages are received in place, and otherwise what an uninitialised host buffer holds.\<close>

definition exchange_async :: "exchange_env \<Rightarrow> 'a option \<Rightarrow> Halo_Plan \<Rightarrow> 'a list \<Rightarrow> (Halo_Handle \<times> (nat \<times> mpi_recv) list \<times> 'a mpi_send list) halo_result" where
  "exchange_async X staging plan view =
     (if num_send_neighbors plan = 0 \<and> num_recv_neighbors plan = 0 then Inr (empty_handle, [], [])
      else bindR (post_irecvs X (hp_comm plan) 0 (hp_total_send plan) (hp_recv plan)) (\<lambda>recvs.
           bindR (post_isends X (hp_comm plan) view 0 0 (hp_send plan)) (\<lambda>sends.
             Inr (async_handle [0..<length recvs + length sends] (staging \<noteq> None), recvs, sends))))"

fun on_event :: "'a option \<Rightarrow> Halo_Plan \<Rightarrow> (nat \<times> mpi_recv) list \<Rightarrow> (nat \<Rightarrow> 'a list) \<Rightarrow> halo_event \<Rightarrow> 'a list \<Rightarrow> 'a list halo_result" where
  "on_event staging plan recvs payload (Completed i) view =
     (if staging = None \<and> i < length recvs then finish_direct recvs payload [i] view else Inr view)"
| "on_event staging plan recvs payload Copied view =
     (case staging of None \<Rightarrow> Inr view | Some junk \<Rightarrow> finish_staged junk payload 0 (hp_total_send plan) (hp_recv plan) view)"
| "on_event staging plan recvs payload (Cancelled i) view = Inr view"
| "on_event staging plan recvs payload (Freed i) view = Inr view"
| "on_event staging plan recvs payload (Fenced i) view = Inr view"

fun on_events :: "(halo_event \<Rightarrow> 'v \<Rightarrow> 'v halo_result) \<Rightarrow> halo_event list \<Rightarrow> 'v \<Rightarrow> 'v halo_result" where
  "on_events step [] view = Inr view"
| "on_events step (ev # evs) view = bindR (step ev view) (on_events step evs)"

text \<open>What a handle's operations and its destruction do to the events.\<close>

definition handle_log :: "handle_op list \<Rightarrow> nat \<Rightarrow> Halo_Handle \<Rightarrow> halo_event list" where
  "handle_log ops uncaught h = (case fold apply_handle_op ops (h, []) of (h', log) \<Rightarrow> handle_destroy uncaught h' log)"

definition exchange_async_all :: "'a mpi_net \<Rightarrow> (nat \<Rightarrow> exchange_env) \<Rightarrow> (nat \<Rightarrow> 'a option) \<Rightarrow> (nat \<Rightarrow> Halo_Plan) \<Rightarrow> (nat \<Rightarrow> 'a list) \<Rightarrow>
    handle_op list \<Rightarrow> nat \<Rightarrow> nat \<Rightarrow> 'a list halo_result" where
  "exchange_async_all net X staging plan view ops uncaught r =
     (let starts = (\<lambda>q. exchange_async (X q) (staging q) (plan q) (view q));
          payload = net (\<lambda>q. posted_sends (mapR snd (starts q))) (\<lambda>q. posted_recvs (mapR snd (starts q))) r
      in bindR (starts r) (\<lambda>(h, recvs, _). on_events (on_event (staging r) (plan r) recvs payload) (handle_log ops uncaught h) (view r)))"

section \<open>Structured\<close>

definition exchange_structured_async :: "exchange_env \<Rightarrow> kokkos \<Rightarrow> 'a \<Rightarrow> Structured_Halo_Plan \<Rightarrow> 'a view \<Rightarrow> (Halo_Handle \<times> mpi_recv list \<times> 'a mpi_send list) halo_result" where
  "exchange_structured_async X K junk plan view =
     (if active_neighbor_count plan = 0 then Inr (empty_handle, [], [])
      else bindR (face_irecvs ''(structured async)'' X plan [0..<num_faces plan]) (\<lambda>recvs.
           bindR (face_isends ''(structured async)'' X K junk plan view [0..<num_faces plan]) (\<lambda>sends.
             Inr (async_handle [0..<length recvs + length sends] True, recvs, sends))))"

fun on_face_event :: "kokkos \<Rightarrow> 'a \<Rightarrow> Structured_Halo_Plan \<Rightarrow> (nat \<Rightarrow> 'a list) \<Rightarrow> halo_event \<Rightarrow> 'a view \<Rightarrow> 'a view halo_result" where
  "on_face_event K junk plan payload Copied view = unpack_faces K junk plan payload 0 [0..<num_faces plan] view"
| "on_face_event K junk plan payload (Completed i) view = Inr view"
| "on_face_event K junk plan payload (Cancelled i) view = Inr view"
| "on_face_event K junk plan payload (Freed i) view = Inr view"
| "on_face_event K junk plan payload (Fenced i) view = Inr view"

definition exchange_structured_async_all :: "'a mpi_net \<Rightarrow> (nat \<Rightarrow> exchange_env) \<Rightarrow> kokkos \<Rightarrow> 'a \<Rightarrow> (nat \<Rightarrow> Structured_Halo_Plan) \<Rightarrow> (nat \<Rightarrow> 'a view) \<Rightarrow>
    handle_op list \<Rightarrow> nat \<Rightarrow> nat \<Rightarrow> 'a view halo_result" where
  "exchange_structured_async_all net X K junk plan view ops uncaught r =
     (let starts = (\<lambda>q. exchange_structured_async (X q) K junk (plan q) (view q));
          payload = net (\<lambda>q. case starts q of Inr (_, _, sends) \<Rightarrow> sends | Inl _ \<Rightarrow> [])
                        (\<lambda>q. case starts q of Inr (_, recvs, _) \<Rightarrow> recvs | Inl _ \<Rightarrow> []) r
      in bindR (starts r) (\<lambda>(h, _, _). on_events (on_face_event K junk (plan r) payload) (handle_log ops uncaught h) (view r)))"

section \<open>Completion does what the blocking exchange does\<close>

lemma async_handle_log: "ids \<noteq> [] \<Longrightarrow> handle_log ops uncaught (async_handle ids staged) = map Completed ids @ (if staged then [Copied] else [])"
  unfolding handle_log_def by (cases "fold apply_handle_op ops (async_handle ids staged, [])") (simp add: handle_life)

lemma empty_handle_ops: "apply_handle_op op (empty_handle, log) = (empty_handle, log)"
  by (cases op) (auto simp: handle_test_def handle_wait_def handle_empty_def empty_handle_def handle_move_def)

lemma empty_handle_log: "handle_log ops uncaught empty_handle = []"
proof -
  have "fold apply_handle_op ops (empty_handle, []) = (empty_handle, [])" by (induction ops) (simp_all add: empty_handle_ops)
  then show ?thesis by (simp add: handle_log_def handle_destroy_def handle_empty_def empty_handle_def)
qed

lemma on_events_append: "on_events step (xs @ ys) v = bindR (on_events step xs v) (on_events step ys)"
  by (induction xs arbitrary: v) (auto simp: bindR_def split: sum.splits)

lemma on_events_skip: "(\<forall>ev\<in>set evs. \<forall>v. step ev v = Inr v) \<Longrightarrow> on_events step evs v = Inr v"
  by (induction evs) auto

lemma finish_direct_Cons: "finish_direct recvs payload (i # is) v = bindR (finish_direct recvs payload [i] v) (finish_direct recvs payload is)"
  by (simp add: Let_def split: prod.split)

lemma on_events_direct:
  "\<forall>i\<in>set is. i < length recvs \<Longrightarrow> on_events (on_event None plan recvs payload) (map Completed is) v = finish_direct recvs payload is v"
proof (induction "is" arbitrary: v)
  case (Cons i "is")
  then have "on_events (on_event None plan recvs payload) (map Completed is) = finish_direct recvs payload is" by (simp add: fun_eq_iff)
  then show ?case using Cons.prems finish_direct_Cons [of recvs payload i "is" v] by simp
qed simp

lemma post_irecvs_length: "post_irecvs X comm i off ns = Inr recvs \<Longrightarrow> length recvs = length ns"
  by (induction ns arbitrary: i off recvs) (auto simp: Let_def checked_def mapR_eq_Inr split: if_splits)

lemma post_isends_length: "post_isends X comm view i off ns = Inr sends \<Longrightarrow> length sends = length ns"
  by (induction ns arbitrary: i off sends) (auto simp: Let_def checked_def mapR_eq_Inr split: if_splits)

lemma exchange_async_post: "mapR snd (exchange_async X staging plan view) = exchange_post X plan view"
  by (simp add: exchange_async_def exchange_post_def bindR_def split: sum.split)

definition async_path :: "'a option \<Rightarrow> Halo_Plan \<Rightarrow> 'a transfer_path" where
  "async_path staging plan = (case staging of None \<Rightarrow> Direct [0..<length (hp_recv plan)] | Some junk \<Rightarrow> Staged junk)"

lemma async_finish:
  assumes "xe_rc X Op_Waitall 0 = 0" "exchange_async X staging plan view = Inr (h, recvs, sends)"
  shows "on_events (on_event staging plan recvs payload) (handle_log ops uncaught h) view =
    exchange_finish X (async_path staging plan) plan recvs payload view"
proof (cases "num_send_neighbors plan = 0 \<and> num_recv_neighbors plan = 0")
  case True
  then show ?thesis using assms(2) by (auto simp: exchange_async_def exchange_finish_def empty_handle_log)
next
  case False
  then have p: "post_irecvs X (hp_comm plan) 0 (hp_total_send plan) (hp_recv plan) = Inr recvs" "post_isends X (hp_comm plan) view 0 0 (hp_send plan) = Inr sends"
    and h: "h = async_handle [0..<length recvs + length sends] (staging \<noteq> None)"
    using assms(2) by (auto simp: exchange_async_def bindR_eq_Inr)
  note l = post_irecvs_length [OF p(1)] post_isends_length [OF p(2)]
  then have ids: "[0..<length recvs + length sends] \<noteq> []" using False by (auto simp: num_send_neighbors_def num_recv_neighbors_def)
  have e: "exchange_finish X path plan recvs payload view = (case path of
      Direct order \<Rightarrow> finish_direct recvs payload order view
    | Staged junk \<Rightarrow> finish_staged junk payload 0 (hp_total_send plan) (hp_recv plan) view)" for path
    using False assms(1) by (auto simp: exchange_finish_def checked_def)
  show ?thesis
  proof (cases staging)
    case None
    have "on_events (on_event None plan recvs payload) (map Completed [length recvs..<length recvs + length sends]) v = Inr v" for v
      by (rule on_events_skip) simp
    then have "on_events (on_event None plan recvs payload) (map Completed [0..<length recvs + length sends]) view = finish_direct recvs payload [0..<length recvs] view"
      using on_events_direct [of "[0..<length recvs]" recvs plan payload view]
      by (simp add: upt_add_eq_append [of 0 "length recvs" "length sends"] on_events_append bindR_def split: sum.split)
    then show ?thesis by (simp add: None h async_handle_log [OF ids] e async_path_def l(1) [symmetric])
  next
    case (Some junk)
    have "on_events (on_event (Some junk) plan recvs payload) (map Completed [0..<length recvs + length sends]) view = Inr view"
      by (rule on_events_skip) auto
    then show ?thesis by (simp add: Some h async_handle_log [OF ids] e async_path_def on_events_append bindR_def split: sum.split)
  qed
qed

text \<open>
  C26. An asynchronous exchange is the blocking one. However its handle is tested, waited on and moved before it is destroyed, the
  view ends up as after the blocking exchange on the same path, and posting fails in the same way. The blocking exchange
  alone checks the result of completing the requests.
\<close>

theorem async_equals_blocking:
  assumes "xe_rc (X r) Op_Waitall 0 = 0"
  shows "exchange_async_all net X staging plan view ops uncaught r =
    exchange_blocking net X (\<lambda>q. async_path (staging q) (plan q)) plan view r"
proof -
  let ?payload = "net (\<lambda>q. posted_sends (exchange_post (X q) (plan q) (view q))) (\<lambda>q. posted_recvs (exchange_post (X q) (plan q) (view q))) r"
  have post: "exchange_post (X r) (plan r) (view r) = mapR snd (exchange_async (X r) (staging r) (plan r) (view r))" by (simp only: exchange_async_post)
  show ?thesis
  proof (cases "exchange_async (X r) (staging r) (plan r) (view r)")
    case (Inl e)
    then show ?thesis using post by (simp add: exchange_async_all_def exchange_blocking_def Let_def)
  next
    case (Inr x)
    obtain h recvs sends where x: "x = (h, recvs, sends)" by (cases x) auto
    from async_finish [OF assms Inr [unfolded x], of ?payload ops uncaught] show ?thesis
      using post by (simp add: Inr x exchange_async_all_def exchange_blocking_def Let_def exchange_async_post)
  qed
qed

theorem async_equals_blocking_witness:
  "exchange_async_all fifo_net (wo_env ring_world) (\<lambda>_. None) (wo_plan ring_world) (wo_view ring_world) [Test (\<lambda>q. q = 0), Move] 0 0 =
   exchange_blocking fifo_net (wo_env ring_world) (\<lambda>q. async_path None (wo_plan ring_world q)) (wo_plan ring_world) (wo_view ring_world) 0"
  using async_equals_blocking [of "wo_env ring_world" 0] by (simp add: ring_world_def)

lemma structured_async_posts:
  assumes "no_mpi_error X"
  shows "exchange_structured_async X K junk plan view =
    Inr (if active_faces plan = [] then empty_handle else async_handle [0..<2 * length (active_faces plan)] True,
      map (face_recv (xe_mpi X) plan) (active_faces plan), map (face_send (xe_mpi X) K junk plan view) (active_faces plan))"
  using face_irecvs_posts [OF assms, of "[0..<num_faces plan]" plan "''(structured async)''"]
    face_isends_posts [OF assms, of "[0..<num_faces plan]" plan "''(structured async)''" K junk view]
  by (auto simp: exchange_structured_async_def active_neighbor_count_faces active_faces_def mult_2)

text \<open>
  The asynchronous structured exchange is the blocking one. When no call of MPI fails, completing its handle leaves the same view as the
  blocking structured exchange, however the handle is used before it is destroyed.
\<close>

theorem structured_async_equals_blocking:
  assumes "\<forall>q. no_mpi_error (X q)"
  shows "exchange_structured_async_all net X K junk plan view ops uncaught r = exchange_structured_blocking net X K junk plan view r"
proof -
  let ?payload = "net (\<lambda>q. map (face_send (xe_mpi (X q)) K junk (plan q) (view q)) (active_faces (plan q)))
    (\<lambda>q. map (face_recv (xe_mpi (X q)) (plan q)) (active_faces (plan q))) r"
  let ?step = "on_face_event K junk (plan r) ?payload"
  have b: "exchange_structured_blocking net X K junk plan view r = structured_finish (X r) K junk (plan r) ?payload (view r)"
    using assms by (simp add: exchange_structured_blocking_def structured_post_posts)
  have a: "exchange_structured_async_all net X K junk plan view ops uncaught r =
      on_events ?step (handle_log ops uncaught (if active_faces (plan r) = [] then empty_handle else async_handle [0..<2 * length (active_faces (plan r))] True)) (view r)"
    using assms by (simp add: exchange_structured_async_all_def structured_async_posts)
  have "on_events ?step (map Completed is) v = Inr v" for "is" v by (rule on_events_skip) auto
  then show ?thesis
    using assms by (auto simp: a b structured_finish_def active_neighbor_count_faces empty_handle_log async_handle_log on_events_append bindR_def split: sum.split)
qed

theorem structured_async_equals_blocking_witness:
  "exchange_structured_async_all fifo_net (sw_env (sample_world line_neighbors)) layout_right 0 (sw_plan (sample_world line_neighbors))
      (sw_view (sample_world line_neighbors)) [Wait] 0 1 =
   exchange_structured_blocking fifo_net (sw_env (sample_world line_neighbors)) layout_right 0 (sw_plan (sample_world line_neighbors))
      (sw_view (sample_world line_neighbors)) 1"
proof -
  have "no_mpi_error (sw_env (sample_world line_neighbors) q)" for q by (simp add: no_mpi_error_def sample_world_def)
  then show ?thesis by (intro structured_async_equals_blocking) simp
qed

end
