(* ===== verification/Halo_Neighbor.thy ===== *)
theory Halo_Neighbor
  imports Halo_Structured_Exchange
begin

text \<open>
  The neighbourhood collective \<open>exchange_neighbor_collective\<close> of \<^verbatim>\<open>halo/exchange_structured.hpp\<close>, with the topology
  communicator of \<^verbatim>\<open>structured_halo_plan.hpp\<close>.

  All faces are packed into one buffer at running offsets, one collective call moves a block per active face, and the blocks
  of the receive buffer are unpacked. The standard defines \<open>MPI_Neighbor_alltoallv\<close> by sends and receives in the order of
  the neighbours, so it is a network in which every message carries the same tag.
\<close>

section \<open>Operations\<close>

text \<open>Counts and displacements are passed as \<open>int\<close> and cast back to \<open>size_t\<close>.\<close>

definition int_cast :: "nat \<Rightarrow> nat" where
  "int_cast n = nat (wrap32 (int n) mod 18446744073709551616)"

fun face_regions :: "(int \<Rightarrow> Region halo_result) \<Rightarrow> nat list \<Rightarrow> Region list halo_result" where
  "face_regions get [] = Inr []"
| "face_regions get (f # fs) = bindR (get (int f)) (\<lambda>region. mapR ((#) region) (face_regions get fs))"

fun block_offsets :: "nat \<Rightarrow> nat list \<Rightarrow> nat list" where
  "block_offsets off [] = []"
| "block_offsets off (count # counts) = off # block_offsets (uadd off count) counts"

fun place_blocks :: "nat \<Rightarrow> (nat \<times> 'a list) list \<Rightarrow> 'a list \<Rightarrow> 'a list halo_result" where
  "place_blocks off [] buf = Inr buf"
| "place_blocks off ((count, data) # blocks) buf =
     (if int_cast off + int_cast count > length buf \<or> length data > int_cast count then Inl Halo_Undefined
      else place_blocks (uadd off count) blocks (write_at (int_cast off) data buf))"

definition block :: "'a list \<Rightarrow> nat \<Rightarrow> nat \<Rightarrow> 'a list" where
  "block buf off count = take (int_cast count) (drop (int_cast off) buf)"

fun has_neighbors :: "Structured_Halo_Plan \<Rightarrow> nat list \<Rightarrow> nat list halo_result" where
  "has_neighbors plan [] = Inr []"
| "has_neighbors plan (f # fs) =
     bindR (has_neighbor plan (int f)) (\<lambda>b. mapR (\<lambda>rest. if b then f # rest else rest) (has_neighbors plan fs))"

definition topology_comm :: "exchange_env \<Rightarrow> bool \<Rightarrow> Structured_Halo_Plan \<Rightarrow> int list halo_result" where
  "topology_comm X cached plan =
     (if \<not> cached \<and> xe_rc X Op_Dist_graph_create 0 \<noteq> 0
      then Inl (Runtime_error ''Structured_Halo_Plan: MPI_Dist_graph_create_adjacent failed'')
      else Inr (filter (\<lambda>n. n \<ge> 0) (map (\<lambda>f. sp_neighbors plan ! f) [0..<num_faces plan])))"

definition neighbor_post :: "exchange_env \<Rightarrow> kokkos \<Rightarrow> 'a \<Rightarrow> bool \<Rightarrow> Structured_Halo_Plan \<Rightarrow> 'a view \<Rightarrow> (mpi_recv list \<times> 'a mpi_send list) halo_result" where
  "neighbor_post X K junk cached plan view =
     (if active_neighbor_count plan = 0 then Inr ([], [])
      else bindR (has_neighbors plan [0..<num_faces plan]) (\<lambda>faces.
           bindR (topology_comm X cached plan) (\<lambda>neighbors.
           bindR (face_regions (send_region plan) faces) (\<lambda>sregions.
           let scounts = map region_size sregions; sdispls = block_offsets 0 scounts in
           bindR (place_blocks 0 (map (\<lambda>rg. (region_size rg, pack_region K junk (sp_extents plan) rg view)) sregions) (replicate (foldl uadd 0 scounts) junk)) (\<lambda>sbuf.
           bindR (face_regions (recv_region plan) faces) (\<lambda>rregions.
             Inr (map2 (\<lambda>n rg. \<lparr>mr_source = n, mr_tag = 0, mr_count = wrap32 (int (region_size rg))\<rparr>) neighbors rregions,
                  map (\<lambda>(n, off, count). \<lparr>ms_dest = n, ms_tag = 0, ms_data = block sbuf off count\<rparr>) (zip neighbors (zip sdispls scounts)))))))))"

definition neighbor_finish :: "exchange_env \<Rightarrow> kokkos \<Rightarrow> 'a \<Rightarrow> Structured_Halo_Plan \<Rightarrow> (nat \<Rightarrow> 'a list) \<Rightarrow> 'a view \<Rightarrow> 'a view halo_result" where
  "neighbor_finish X K junk plan payload view =
     (if active_neighbor_count plan = 0 then Inr view
      else bindR (has_neighbors plan [0..<num_faces plan]) (\<lambda>faces.
           bindR (face_regions (recv_region plan) faces) (\<lambda>regions.
           let counts = map region_size regions; displs = block_offsets 0 counts in
           checked X Op_Neighbor_alltoallv 0 (co_rank (sp_comm plan)) ''MPI_Neighbor_alltoallv (structured)''
             (bindR (place_blocks 0 (map (\<lambda>i. (counts ! i, take (counts ! i) (payload i))) [0..<length counts]) (replicate (foldl uadd 0 counts) junk)) (\<lambda>buf.
               Inr (fold (\<lambda>(rg, off). unpack_region K (sp_extents plan) rg (block buf off (region_size rg))) (zip regions displs) view))))))"

definition exchange_neighbor_collective :: "'a mpi_net \<Rightarrow> (nat \<Rightarrow> exchange_env) \<Rightarrow> kokkos \<Rightarrow> 'a \<Rightarrow> (nat \<Rightarrow> bool) \<Rightarrow> (nat \<Rightarrow> Structured_Halo_Plan) \<Rightarrow>
    (nat \<Rightarrow> 'a view) \<Rightarrow> nat \<Rightarrow> 'a view halo_result" where
  "exchange_neighbor_collective alltoallv X K junk cached plan view r =
     (let posts = (\<lambda>q. neighbor_post (X q) K junk (cached q) (plan q) (view q));
          payload = alltoallv (\<lambda>q. case posts q of Inr (_, sends) \<Rightarrow> sends | Inl _ \<Rightarrow> [])
                              (\<lambda>q. case posts q of Inr (recvs, _) \<Rightarrow> recvs | Inl _ \<Rightarrow> []) r
      in bindR (posts r) (\<lambda>_. neighbor_finish (X r) K junk (plan r) payload (view r)))"

section \<open>Blocks of a buffer\<close>

lemma int_cast_id [simp]: "n < 2147483648 \<Longrightarrow> int_cast n = n"
  by (simp add: int_cast_def is_i32_def)

lemma uadd_small [simp]: "a + b < 2147483648 \<Longrightarrow> uadd a b = a + b"
  by (simp add: uadd_def)

lemma foldl_uadd: "a + sum_list ns < 2147483648 \<Longrightarrow> foldl uadd a ns = a + sum_list ns"
  by (induction ns arbitrary: a) (auto simp: add.assoc)

lemma block_offsets_nth: "off + sum_list ns < 2147483648 \<Longrightarrow> i < length ns \<Longrightarrow> block_offsets off ns ! i = off + sum_list (take i ns)"
proof (induction ns arbitrary: off i)
  case (Cons n ns)
  then show ?case by (cases i) (auto simp: add.assoc)
qed simp

lemma length_block_offsets [simp]: "length (block_offsets off ns) = length ns"
  by (induction ns arbitrary: off) auto

definition filled :: "'a \<Rightarrow> nat \<Rightarrow> 'a list \<Rightarrow> 'a list" where
  "filled junk count data = data @ replicate (count - length data) junk"

lemma length_filled [simp]: "length data \<le> count \<Longrightarrow> length (filled junk count data) = count"
  by (simp add: filled_def)

lemma place_blocks_result:
  assumes "\<forall>(count, data)\<in>set blocks. length data \<le> count" "length pre + sum_list (map fst blocks) < 2147483648"
  shows "place_blocks (length pre) blocks (pre @ replicate (sum_list (map fst blocks)) junk) =
    Inr (pre @ concat (map (\<lambda>(count, data). filled junk count data) blocks))"
  using assms
proof (induction blocks arbitrary: pre)
  case (Cons b blocks)
  obtain count data where b: "b = (count, data)" by fastforce
  let ?n = "sum_list (map fst blocks)"
  have l: "length data \<le> count" and s: "length pre + count + ?n < 2147483648" using Cons.prems by (auto simp: b add.assoc)
  have "place_blocks (length (pre @ filled junk count data)) blocks ((pre @ filled junk count data) @ replicate ?n junk) =
      Inr ((pre @ filled junk count data) @ concat (map (\<lambda>(count, data). filled junk count data) blocks))"
    using Cons.prems s l by (intro Cons.IH) auto
  moreover have "write_at (length pre) data (pre @ replicate (count + ?n) junk) = (pre @ filled junk count data) @ replicate ?n junk"
    using l by (simp add: write_at_def filled_def replicate_add [symmetric])
  ultimately show ?case using l s by (simp add: b)
qed simp

lemma concat_slice:
  "i < length xs \<Longrightarrow> take (length (xs ! i)) (drop (sum_list (take i (map length xs))) (concat xs)) = xs ! i"
proof (induction xs arbitrary: i)
  case (Cons x xs)
  then show ?case by (cases i) auto
qed simp

lemma block_placed:
  assumes "\<forall>(count, data)\<in>set blocks. length data \<le> count" "sum_list (map fst blocks) < 2147483648" "i < length blocks"
    and "place_blocks 0 blocks (replicate (sum_list (map fst blocks)) junk) = Inr buf"
  shows "block buf (block_offsets 0 (map fst blocks) ! i) (fst (blocks ! i)) = filled junk (fst (blocks ! i)) (snd (blocks ! i))"
proof -
  let ?xs = "map (\<lambda>(count, data). filled junk count data) blocks"
  have buf: "buf = concat ?xs" using place_blocks_result [of blocks "[]" junk] assms by simp
  have len: "map length ?xs = map fst blocks" using assms(1) by (induction blocks) auto
  have nth: "?xs ! i = filled junk (fst (blocks ! i)) (snd (blocks ! i))" using assms(3) by (simp add: case_prod_unfold)
  have "length (?xs ! i) = fst (blocks ! i)" using len assms(3) by (metis length_map nth_map)
  moreover have "sum_list (take i (map fst blocks)) \<le> sum_list (map fst blocks)" "fst (blocks ! i) \<le> sum_list (map fst blocks)"
    using sum_list_append [of "take i (map fst blocks)" "drop i (map fst blocks)"] member_le_sum_list [of "fst (blocks ! i)" "map fst blocks"] assms(3)
    by (simp_all del: sum_list_append)
  ultimately show ?thesis
    using concat_slice [of i ?xs, unfolded len nth] assms(2,3) nth by (simp add: block_def buf block_offsets_nth)
qed

section \<open>What the collective is called with\<close>

definition totals_fit :: "Structured_Halo_Plan \<Rightarrow> bool" where
  "totals_fit plan \<longleftrightarrow> sum_list (map (\<lambda>f. region_size (sp_send plan ! f)) (active_faces plan)) < 2147483648 \<and>
     sum_list (map (\<lambda>f. region_size (sp_recv plan ! f)) (active_faces plan)) < 2147483648"

lemma has_neighbors_faces: "\<forall>f\<in>set fs. f < num_faces plan \<Longrightarrow> has_neighbors plan fs = Inr (filter (face_active plan) fs)"
  by (induction fs) (auto simp: face_access)

lemma face_regions_faces:
  "\<forall>f\<in>set fs. f < num_faces plan \<Longrightarrow> face_regions (send_region plan) fs = Inr (map (\<lambda>f. sp_send plan ! f) fs)"
  "\<forall>f\<in>set fs. f < num_faces plan \<Longrightarrow> face_regions (recv_region plan) fs = Inr (map (\<lambda>f. sp_recv plan ! f) fs)"
  by (induction fs) (auto simp: face_access)

lemma active_faces_less: "\<forall>f\<in>set (active_faces plan). f < num_faces plan"
  by (auto simp: active_faces_def)

lemma topology_comm_neighbors:
  "no_mpi_error X \<Longrightarrow> topology_comm X cached plan = Inr (map (\<lambda>f. sp_neighbors plan ! f) (active_faces plan))"
proof -
  have "filter (\<lambda>n. n \<ge> 0) (map (\<lambda>f. sp_neighbors plan ! f) fs) = map (\<lambda>f. sp_neighbors plan ! f) (filter (face_active plan) fs)" for fs
    by (induction fs) (auto simp: face_active_def)
  then show "no_mpi_error X \<Longrightarrow> ?thesis" by (simp add: topology_comm_def no_mpi_error_def active_faces_def)
qed

definition untagged_send :: "'a mpi_send \<Rightarrow> 'a mpi_send" where
  "untagged_send m = m\<lparr>ms_tag := 0\<rparr>"

definition untagged_recv :: "mpi_recv \<Rightarrow> mpi_recv" where
  "untagged_recv q = q\<lparr>mr_tag := 0\<rparr>"

lemma packed_block:
  assumes "kokkos_ok K" "grid_ok plan" "prod_list (sp_extents plan) < 2147483648" "totals_fit plan" "i < length (active_faces plan)"
    and "place_blocks 0 (map (\<lambda>f. (region_size (sp_send plan ! f), pack_region K junk (sp_extents plan) (sp_send plan ! f) view)) (active_faces plan))
      (replicate (sum_list (map (\<lambda>f. region_size (sp_send plan ! f)) (active_faces plan))) junk) = Inr buf"
  shows "block buf (block_offsets 0 (map (\<lambda>f. region_size (sp_send plan ! f)) (active_faces plan)) ! i) (region_size (sp_send plan ! (active_faces plan ! i))) =
    pack_region K junk (sp_extents plan) (sp_send plan ! (active_faces plan ! i)) view"
proof -
  let ?blocks = "map (\<lambda>f. (region_size (sp_send plan ! f), pack_region K junk (sp_extents plan) (sp_send plan ! f) view)) (active_faces plan)"
  have m: "map fst ?blocks = map (\<lambda>f. region_size (sp_send plan ! f)) (active_faces plan)" by simp
  have l: "length (pack_region K junk (sp_extents plan) (sp_send plan ! f) view) = region_size (sp_send plan ! f)" if "f < num_faces plan" for f
    using length_pack_region [OF assms(1,2) that assms(3), of junk view] face_region_size(1) [OF assms(2) that assms(3)] by simp
  then have a: "\<forall>(count, data)\<in>set ?blocks. length data \<le> count" using active_faces_less by auto
  have "block buf (block_offsets 0 (map fst ?blocks) ! i) (fst (?blocks ! i)) = filled junk (fst (?blocks ! i)) (snd (?blocks ! i))"
    by (rule block_placed [OF a]) (use assms(4-6) in \<open>auto simp: totals_fit_def m comp_def\<close>)
  moreover have "active_faces plan ! i < num_faces plan" using active_faces_less assms(5) by simp
  ultimately show ?thesis using assms(5) l by (simp add: filled_def comp_def)
qed

lemma neighbor_post_posts:
  assumes "no_mpi_error X" "kokkos_ok K" "grid_ok plan" "prod_list (sp_extents plan) < 2147483648" "totals_fit plan"
  shows "neighbor_post X K junk cached plan view = Inr (map (untagged_recv \<circ> face_recv (xe_mpi X) plan) (active_faces plan),
    map (untagged_send \<circ> face_send (xe_mpi X) K junk plan view) (active_faces plan))"
proof (cases "active_faces plan = []")
  case True
  then show ?thesis by (simp add: neighbor_post_def active_neighbor_count_faces)
next
  case False
  let ?fs = "active_faces plan"
  let ?blocks = "map (\<lambda>f. (region_size (sp_send plan ! f), pack_region K junk (sp_extents plan) (sp_send plan ! f) view)) ?fs"
  have sz: "foldl uadd 0 (map (\<lambda>f. region_size (sp_send plan ! f)) ?fs) = sum_list (map (\<lambda>f. region_size (sp_send plan ! f)) ?fs)"
    using foldl_uadd [of 0] assms(5) by (simp add: totals_fit_def)
  have l: "length (pack_region K junk (sp_extents plan) (sp_send plan ! f) view) = region_size (sp_send plan ! f)" if "f < num_faces plan" for f
    using length_pack_region [OF assms(2,3) that assms(4), of junk view] face_region_size(1) [OF assms(3) that assms(4)] by simp
  then obtain buf where buf: "place_blocks 0 ?blocks (replicate (sum_list (map (\<lambda>f. region_size (sp_send plan ! f)) ?fs)) junk) = Inr buf"
    using place_blocks_result [of ?blocks "[]" junk] assms(5) active_faces_less by (auto simp: totals_fit_def comp_def)
  have "map (\<lambda>(n, off, count). \<lparr>ms_dest = n, ms_tag = 0, ms_data = block buf off count\<rparr>)
      (zip (map (\<lambda>f. sp_neighbors plan ! f) ?fs) (zip (block_offsets 0 (map (\<lambda>f. region_size (sp_send plan ! f)) ?fs)) (map (\<lambda>f. region_size (sp_send plan ! f)) ?fs))) =
    map (untagged_send \<circ> face_send (xe_mpi X) K junk plan view) ?fs"
    using packed_block [OF assms(2-5) _ buf] by (intro nth_equalityI) (simp_all add: untagged_send_def face_send_def)
  moreover have "map2 (\<lambda>n rg. \<lparr>mr_source = n, mr_tag = 0, mr_count = wrap32 (int (region_size rg))\<rparr>) (map (\<lambda>f. sp_neighbors plan ! f) ?fs) (map (\<lambda>f. sp_recv plan ! f) ?fs) =
    map (untagged_recv \<circ> face_recv (xe_mpi X) plan) ?fs"
    by (intro nth_equalityI) (simp_all add: untagged_recv_def face_recv_def)
  moreover have "has_neighbors plan [0..<num_faces plan] = Inr ?fs" using has_neighbors_faces [of "[0..<num_faces plan]" plan] by (simp add: active_faces_def)
  ultimately show ?thesis
    using False face_regions_faces [OF active_faces_less, of plan] topology_comm_neighbors [OF assms(1)] buf sz
    by (simp add: neighbor_post_def active_neighbor_count_faces Let_def comp_def)
qed

section \<open>Unpacking the blocks\<close>

lemma fold_map_id: "fold g xs v = fold id (map g xs) v"
  by (induction xs arbitrary: v) auto

lemma fold_map_cong: "map g xs = map h ys \<Longrightarrow> fold g xs v = fold h ys v"
  using fold_map_id [of g xs v] fold_map_id [of h ys v] by simp

lemma unpack_faces_fold:
  assumes "\<forall>f\<in>set fs. f < num_faces plan"
  shows "unpack_faces K junk plan payload i fs view =
    Inr (fold (\<lambda>(f, j). unpack_region K (sp_extents plan) (sp_recv plan ! f) (host_buffer junk (region_size (sp_recv plan ! f)) (payload j)))
      (zip (filter (face_active plan) fs) [i..<i + length (filter (face_active plan) fs)]) view)"
  using assms
proof (induction fs arbitrary: i view)
  case (Cons f fs)
  then have f: "f < num_faces plan" and IH: "unpack_faces K junk plan payload i fs view =
    Inr (fold (\<lambda>(f, j). unpack_region K (sp_extents plan) (sp_recv plan ! f) (host_buffer junk (region_size (sp_recv plan ! f)) (payload j)))
      (zip (filter (face_active plan) fs) [i..<i + length (filter (face_active plan) fs)]) view)" for i view by auto
  show ?case
  proof (cases "face_active plan f")
    case True
    then have "[i..<i + length (filter (face_active plan) (f # fs))] = i # [i + 1..<i + 1 + length (filter (face_active plan) fs)]"
      using upt_conv_Cons [of i "i + 1 + length (filter (face_active plan) fs)"] by (simp del: upt_Suc)
    then show ?thesis using True f IH by (simp add: face_access)
  qed (simp add: f face_access IH)
qed simp

lemma received_block:
  assumes "totals_fit plan" "i < length (active_faces plan)"
    and "place_blocks 0 (map (\<lambda>i. (map (\<lambda>f. region_size (sp_recv plan ! f)) (active_faces plan) ! i,
        take (map (\<lambda>f. region_size (sp_recv plan ! f)) (active_faces plan) ! i) (payload i))) [0..<length (active_faces plan)])
      (replicate (sum_list (map (\<lambda>f. region_size (sp_recv plan ! f)) (active_faces plan))) junk) = Inr buf"
  shows "block buf (block_offsets 0 (map (\<lambda>f. region_size (sp_recv plan ! f)) (active_faces plan)) ! i) (region_size (sp_recv plan ! (active_faces plan ! i))) =
    host_buffer junk (region_size (sp_recv plan ! (active_faces plan ! i))) (payload i)"
proof -
  let ?cs = "map (\<lambda>f. region_size (sp_recv plan ! f)) (active_faces plan)"
  let ?blocks = "map (\<lambda>i. (?cs ! i, take (?cs ! i) (payload i))) [0..<length (active_faces plan)]"
  have m: "map fst ?blocks = ?cs" by (rule nth_equalityI) simp_all
  have a: "\<forall>(count, data)\<in>set ?blocks. length data \<le> count" by auto
  have "block buf (block_offsets 0 (map fst ?blocks) ! i) (fst (?blocks ! i)) = filled junk (fst (?blocks ! i)) (snd (?blocks ! i))"
    by (rule block_placed [OF a]) (use assms in \<open>simp_all only: m totals_fit_def length_map length_upt diff_zero\<close>)
  then show ?thesis using assms(2) unfolding m by (simp add: filled_def host_buffer_def min_def)
qed

lemma neighbor_finish_blocks:
  assumes "no_mpi_error X" "totals_fit plan"
  shows "neighbor_finish X K junk plan payload view = structured_finish X K junk plan payload view"
proof (cases "active_faces plan = []")
  case True
  then show ?thesis by (simp add: neighbor_finish_def structured_finish_def active_neighbor_count_faces)
next
  case False
  let ?fs = "active_faces plan"
  let ?cs = "map (\<lambda>f. region_size (sp_recv plan ! f)) ?fs"
  let ?blocks = "map (\<lambda>i. (?cs ! i, take (?cs ! i) (payload i))) [0..<length ?fs]"
  have m: "map fst ?blocks = ?cs" by (rule nth_equalityI) simp_all
  have sz: "foldl uadd 0 ?cs = sum_list ?cs" using foldl_uadd [of 0 ?cs] assms(2) by (simp add: totals_fit_def)
  obtain buf where buf: "place_blocks 0 ?blocks (replicate (sum_list ?cs) junk) = Inr buf"
    using place_blocks_result [of ?blocks "[]" junk] assms(2) unfolding m totals_fit_def by auto
  have "fold (\<lambda>(rg, off). unpack_region K (sp_extents plan) rg (block buf off (region_size rg))) (zip (map (\<lambda>f. sp_recv plan ! f) ?fs) (block_offsets 0 ?cs)) view =
    fold (\<lambda>(f, j). unpack_region K (sp_extents plan) (sp_recv plan ! f) (host_buffer junk (region_size (sp_recv plan ! f)) (payload j))) (zip ?fs [0..<length ?fs]) view"
  proof -
    have "map (\<lambda>(rg, off). unpack_region K (sp_extents plan) rg (block buf off (region_size rg))) (zip (map (\<lambda>f. sp_recv plan ! f) ?fs) (block_offsets 0 ?cs)) =
      map (\<lambda>(f, j). unpack_region K (sp_extents plan) (sp_recv plan ! f) (host_buffer junk (region_size (sp_recv plan ! f)) (payload j))) (zip ?fs [0..<length ?fs])"
      using received_block [OF assms(2) _ buf] by (intro nth_equalityI) simp_all
    then show ?thesis by (rule fold_map_cong)
  qed
  moreover have "has_neighbors plan [0..<num_faces plan] = Inr ?fs" using has_neighbors_faces [of "[0..<num_faces plan]" plan] by (simp add: active_faces_def)
  ultimately show ?thesis
    using False assms(1) face_regions_faces(2) [OF active_faces_less, of plan] buf sz unpack_faces_fold [of "[0..<num_faces plan]" plan K junk payload 0 view]
    by (simp add: neighbor_finish_def structured_finish_def active_neighbor_count_faces Let_def comp_def active_faces_def [symmetric] m)
qed

section \<open>Tags do not matter\<close>

lemma untagged_messages:
  assumes "\<forall>m\<in>set (sends (nat (mr_source q))). ms_dest m = int r \<longrightarrow> ms_tag m = mr_tag q"
    and "sends' (nat (mr_source q)) = map untagged_send (sends (nat (mr_source q)))"
  shows "messages_to sends' r (untagged_recv q) = map untagged_send (messages_to sends r q)"
  using assms(1) by (auto simp: messages_to_def untagged_recv_def untagged_send_def assms(2) filter_map comp_def intro!: arg_cong [of _ _ "map _"] filter_cong)

lemma untagged_earlier:
  assumes "i < length qs" "\<forall>q\<in>set qs. mr_source q = mr_source (qs ! i) \<longrightarrow> mr_tag q = mr_tag (qs ! i)"
  shows "earlier_receives (map untagged_recv qs) i = earlier_receives qs i"
proof -
  have "filter (\<lambda>q. mr_source q = mr_source (qs ! i)) (take i qs) = filter (\<lambda>q. mr_source q = mr_source (qs ! i) \<and> mr_tag q = mr_tag (qs ! i)) (take i qs)"
    using assms(2) by (intro filter_cong) (auto dest: in_set_takeD)
  then show ?thesis using assms(1) by (simp add: earlier_receives_def untagged_recv_def take_map filter_map comp_def)
qed

lemma neighbor_payload:
  assumes "mpi_fifo alltoallv" "kokkos_ok K" "sworld_ok W ub" "r < sw_size W"
    and f: "f < num_faces (sw_plan W r)" "face_active (sw_plan W r) f"
    and g: "partner W r f = Some g" "faces_fit K (sw_plan W r) f (sw_plan W (nat (sp_neighbors (sw_plan W r) ! f))) g"
    and "\<And>q. q < sw_size W \<Longrightarrow> sends q = map untagged_send (sworld_sends K junk W q) \<and> recvs q = map untagged_recv (sworld_recvs K junk W q)"
  shows "alltoallv sends recvs r (face_position (sw_plan W r) f) =
      pack_region K junk (sp_extents (sw_plan W (nat (sp_neighbors (sw_plan W r) ! f))))
        (sp_send (sw_plan W (nat (sp_neighbors (sw_plan W r) ! f))) ! g) (sw_view W (nat (sp_neighbors (sw_plan W r) ! f)))"
proof -
  let ?i = "face_position (sw_plan W r) f" and ?s = "nat (sp_neighbors (sw_plan W r) ! f)" and ?qs = "sworld_recvs K junk W r"
  note m = face_match(1-7) [where junk = junk, OF assms(2-8)]
  have n: "0 \<le> sp_neighbors (sw_plan W r) ! f" "?s < sw_size W"
    using f sworld_okD(6) [OF assms(3,4) f(1)] by (auto simp: face_active_def nat_less_iff)
  have src: "mr_source (?qs ! ?i) = sp_neighbors (sw_plan W r) ! f" by (simp add: m(2) face_recv_def)
  have rc: "recvs r = map untagged_recv ?qs" using assms(9) [OF assms(4)] by simp
  have q: "recvs r ! ?i = untagged_recv (?qs ! ?i)" using m(1) by (simp add: rc)
  have ms: "messages_to sends r (recvs r ! ?i) = map untagged_send (messages_to (sworld_sends K junk W) r (?qs ! ?i))"
    unfolding q using m(4) assms(9) [OF n(2)] by (intro untagged_messages) (simp_all add: src)
  have e: "earlier_receives (recvs r) ?i = earlier_receives ?qs ?i"
    unfolding rc by (rule untagged_earlier [OF m(1)]) (use m(3) in \<open>simp only: src\<close>)
  have "alltoallv sends recvs r ?i = ms_data (messages_to sends r (recvs r ! ?i) ! earlier_receives (recvs r) ?i)"
  proof (rule mpi_fifoD [OF assms(1)])
    show "?i < length (recvs r)" using m(1) by (simp add: rc)
    show "0 \<le> mr_source (recvs r ! ?i)" using n(1) src by (simp add: q untagged_recv_def)
    show "earlier_receives (recvs r) ?i < length (messages_to sends r (recvs r ! ?i))" unfolding ms e using m(5) by simp
    show "int (length (ms_data (messages_to sends r (recvs r ! ?i) ! earlier_receives (recvs r) ?i))) \<le> mr_count (recvs r ! ?i)"
      unfolding ms e using m(5,7) by (simp add: q untagged_send_def untagged_recv_def)
  qed
  then show ?thesis using m(5,6) by (simp add: ms e untagged_send_def)
qed

lemma structured_finish_payload_cong:
  assumes "\<And>i. i < length (active_faces plan) \<Longrightarrow> payload i = payload' i"
  shows "structured_finish X K junk plan payload view = structured_finish X K junk plan payload' view"
proof -
  have "fold (\<lambda>(f, j). unpack_region K (sp_extents plan) (sp_recv plan ! f) (host_buffer junk (region_size (sp_recv plan ! f)) (payload j)))
        (zip (active_faces plan) [0..<length (active_faces plan)]) view =
      fold (\<lambda>(f, j). unpack_region K (sp_extents plan) (sp_recv plan ! f) (host_buffer junk (region_size (sp_recv plan ! f)) (payload' j)))
        (zip (active_faces plan) [0..<length (active_faces plan)]) view"
    using assms by (intro fold_cong refl) (auto dest: set_zip_rightD)
  then show ?thesis
    using unpack_faces_fold [of "[0..<num_faces plan]" plan K junk payload 0 view] unpack_faces_fold [of "[0..<num_faces plan]" plan K junk payload' 0 view]
    by (simp add: structured_finish_def active_faces_def [symmetric])
qed

text \<open>
  C27. The neighbourhood collective is the point-to-point exchange. When the blocks of a rank together stay below the range of \<open>int\<close>,
  packing all faces into one buffer and moving them by one collective call gives every rank the same view as
  the exchange with a message per face, matching by face order included.
\<close>

theorem neighbor_collective_agrees:
  assumes "mpi_fifo net" "mpi_fifo alltoallv" "kokkos_ok K" "sworld_ok W ub" "r < sw_size W" "paired K W r"
    and "\<forall>q < sw_size W. totals_fit (sw_plan W q)"
  shows "exchange_neighbor_collective alltoallv (sw_env W) K junk cached (sw_plan W) (sw_view W) r =
    exchange_structured_blocking net (sw_env W) K junk (sw_plan W) (sw_view W) r"
proof -
  let ?posts = "\<lambda>q. neighbor_post (sw_env W q) K junk (cached q) (sw_plan W q) (sw_view W q)"
  let ?sends = "\<lambda>q. case ?posts q of Inr (_, sends) \<Rightarrow> sends | Inl _ \<Rightarrow> []" and ?recvs = "\<lambda>q. case ?posts q of Inr (recvs, _) \<Rightarrow> recvs | Inl _ \<Rightarrow> []"
  let ?p = "sw_plan W r"
  have posts: "?posts q = Inr (map untagged_recv (sworld_recvs K junk W q), map untagged_send (sworld_sends K junk W q))" if "q < sw_size W" for q
    using sworld_okD [OF assms(4) that] assms(3,7) that
    by (simp add: neighbor_post_posts sworld_recvs_def sworld_sends_def structured_post_posts)
  have "alltoallv ?sends ?recvs r i = net (sworld_sends K junk W) (sworld_recvs K junk W) r i" if i: "i < length (active_faces ?p)" for i
  proof -
    let ?f = "active_faces ?p ! i"
    have f: "?f < num_faces ?p" "face_active ?p ?f" using nth_mem [OF i] by (auto simp: active_faces_def)
    then obtain g where g: "partner W r ?f = Some g" "faces_fit K ?p ?f (sw_plan W (nat (sp_neighbors ?p ! ?f))) g" using assms(6) by (auto simp: paired_def)
    have "distinct (active_faces ?p)" by (simp add: active_faces_def)
    then have "face_position ?p ?f = i" using face_position_nth(1,2) [OF f] i nth_eq_iff_index_eq by blast
    then show ?thesis
      using neighbor_payload [OF assms(2-5) f g, of ?sends junk ?recvs] face_payload(1) [OF assms(1,3-5) f g, of junk] posts by simp
  qed
  then have "structured_finish (sw_env W r) K junk ?p (alltoallv ?sends ?recvs r) (sw_view W r) =
      structured_finish (sw_env W r) K junk ?p (net (sworld_sends K junk W) (sworld_recvs K junk W) r) (sw_view W r)"
    by (rule structured_finish_payload_cong)
  moreover have "exchange_structured_blocking net (sw_env W) K junk (sw_plan W) (sw_view W) r =
      structured_finish (sw_env W r) K junk ?p (net (sworld_sends K junk W) (sworld_recvs K junk W) r) (sw_view W r)"
    using structured_post_posts [OF sworld_okD(1) [OF assms(4,5)], of "''(structured)''" K junk ?p "sw_view W r"]
    by (simp add: exchange_structured_blocking_def Let_def sworld_sends_def [abs_def] sworld_recvs_def [abs_def])
  ultimately show ?thesis
    using posts [OF assms(5)] neighbor_finish_blocks [OF sworld_okD(1) [OF assms(4,5)], of ?p K junk "alltoallv ?sends ?recvs r" "sw_view W r"] assms(5,7) by (simp add: exchange_neighbor_collective_def Let_def)
qed

theorem neighbor_collective_agrees_witness:
  "exchange_neighbor_collective fifo_net (sw_env (sample_world pair_neighbors)) layout_right 0 (\<lambda>_. False)
      (sw_plan (sample_world pair_neighbors)) (sw_view (sample_world pair_neighbors)) 0 =
   exchange_structured_blocking fifo_net (sw_env (sample_world pair_neighbors)) layout_right 0
      (sw_plan (sample_world pair_neighbors)) (sw_view (sample_world pair_neighbors)) 0"
proof -
  let ?W = "sample_world pair_neighbors"
  have ok: "sworld_ok ?W None" by (rule sample_world_ok) (simp add: pair_neighbors_def)
  have pd: "paired layout_right ?W 0"
    by (auto simp: paired_def faces_fit_def sub_extents_def layout_right_def sample_world_def less_2_cases_iff partner_def earlier_faces_def faces_to_def upt_2 face_active_def
        sample_plan_def pair_neighbors_def num_faces_def grid_rank_def Let_def)
  have t: "\<forall>q < sw_size ?W. totals_fit (sw_plan ?W q)"
    by (simp add: totals_fit_def active_faces_def face_active_def sample_world_def sample_plan_def pair_neighbors_def num_faces_def grid_rank_def upt_2 region_size_def u64_def)
  have "0 < sw_size ?W" by (simp add: sample_world_def)
  from neighbor_collective_agrees [OF fifo_net_fifo fifo_net_fifo layout_right_ok ok this pd t] show ?thesis .
qed

end
