(* ===== verification/Halo_Gather.thy ===== *)
theory Halo_Gather
  imports Halo_Exchange
begin

text \<open>
  HALO's collectives and the replicated gather: \<^verbatim>\<open>halo/src/collectives.cpp\<close>, \<^verbatim>\<open>halo/collectives.hpp\<close>,
  \<^verbatim>\<open>halo/replicated_gather_plan.hpp\<close> and \<^verbatim>\<open>halo/gather_replicated.hpp\<close>.

  The collective calls of MPI are arguments. \<open>allgather_ok\<close> and \<open>allgatherv_ok\<close> state what the standard
  says of them: the contributions in rank order, and the elements of each rank's typed send stream
  at the places its typed receive block names, in type-map order. A value that leaves the range of
  \<open>int\<close> is undefined behaviour.
\<close>

section \<open>Displacements\<close>

fun prefix_from :: "int \<Rightarrow> int list \<Rightarrow> int list halo_result" where
  "prefix_from running [] = Inr []"
| "prefix_from running (c # cs) =
     (if is_i32 (running + c) then mapR ((#) running) (prefix_from (running + c) cs) else Inl Halo_Undefined)"

definition prefix_sum :: "int list \<Rightarrow> int list halo_result" where
  "prefix_sum counts = prefix_from 0 counts"

fun validate_entries :: "nat \<Rightarrow> int list \<Rightarrow> unit halo_result" where
  "validate_entries k [] = Inr ()"
| "validate_entries k (c # cs) =
     (if c < 0 then Inl (Invalid_argument
        (''halo::detail::validate_counts: negative count '' @ dec_int c @ '' at rank index '' @ dec_digits k))
      else validate_entries (k + 1) cs)"

definition validate_counts :: "int list \<Rightarrow> int \<Rightarrow> unit halo_result" where
  "validate_counts counts comm_size =
     (if int (length counts) \<noteq> comm_size then Inl (Invalid_argument
        (''halo::detail::validate_counts: counts array has length '' @ dec_digits (length counts) @ '' but expected length '' @
         dec_int comm_size @ '' (the communicator size)''))
      else validate_entries 0 counts)"

section \<open>Guarded collectives\<close>

datatype 'a guarded = Done 'a Environment | Stuck guard_result

definition with_guard :: "mpi_env \<Rightarrow> nat \<Rightarrow> Environment \<Rightarrow> (Environment \<Rightarrow> 'a guarded) \<Rightarrow> 'a guarded" where
  "with_guard M t E body =
     (case guard_enter M t E of
        Entered locked E' \<Rightarrow> (case body E' of Done x E'' \<Rightarrow> Done x (guard_leave locked E'') | Stuck g \<Rightarrow> Stuck g)
      | g \<Rightarrow> Stuck g)"

definition bindG :: "'a halo_result guarded \<Rightarrow> ('a \<Rightarrow> Environment \<Rightarrow> 'b halo_result guarded) \<Rightarrow> 'b halo_result guarded" where
  "bindG m k = (case m of Stuck g \<Rightarrow> Stuck g | Done (Inl e) E \<Rightarrow> Done (Inl e) E | Done (Inr x) E \<Rightarrow> k x E)"

text \<open>The results of the calls of MPI, and the name of the communicator for diagnostics.\<close>

datatype gather_call = Call_Allgather | Call_Allgatherv | Call_Allreduce nat | Call_Type_vector bool | Call_Type_resized bool | Call_Type_commit bool

record gather_env =
  ge_mpi :: mpi_env
  ge_rc :: "gather_call \<Rightarrow> int"
  ge_comm_name :: string

definition mpi_check :: "gather_env \<Rightarrow> Environment \<Rightarrow> gather_call \<Rightarrow> nat \<Rightarrow> string \<Rightarrow> 'a \<Rightarrow> 'a halo_result" where
  "mpi_check G E call rank operation x =
     (if ge_rc G call \<noteq> 0 then Inl (dispatch_error (ge_mpi G) (en_error_policy E) (ge_rc G call) (int rank) operation (ge_comm_name G) []) else Inr x)"


definition allreduce :: "gather_env \<Rightarrow> nat \<Rightarrow> nat \<Rightarrow> Environment \<Rightarrow> nat \<Rightarrow> ('b list \<Rightarrow> 'b list) \<Rightarrow> 'b list \<Rightarrow> 'b list halo_result guarded" where
  "allreduce G n t E rank reduce input =
     (if input = [] then Done (Inr []) E
      else with_guard (ge_mpi G) t E (\<lambda>E'. Done (mpi_check G E' (Call_Allreduce n) rank ''MPI_Allreduce'' (reduce input)) E'))"

text \<open>\<open>MPI_Allgatherv\<close> writes the elements of each rank's send stream to the places of its block.\<close>

type_synonym 'a allgatherv = "nat \<Rightarrow> (nat \<Rightarrow> 'a list) \<Rightarrow> (nat \<Rightarrow> nat list) \<Rightarrow> 'a list \<Rightarrow> 'a list"

definition allgatherv :: "gather_env \<Rightarrow> nat \<Rightarrow> Environment \<Rightarrow> nat \<Rightarrow> int \<Rightarrow> 'a allgatherv \<Rightarrow> 'a \<Rightarrow> (nat \<Rightarrow> 'a list) \<Rightarrow> int list \<Rightarrow> ('a list \<times> int list) halo_result guarded" where
  "allgatherv G t E rank comm_size agv zero send_data counts =
     (case bindR (validate_counts counts comm_size) (\<lambda>_. prefix_sum counts) of
        Inl e \<Rightarrow> Done (Inl e) E
      | Inr displs \<Rightarrow>
          if displs = [] then Done (Inl Halo_Undefined) E
          else
            let result = replicate (nat (last displs) + nat (last counts)) zero in
            with_guard (ge_mpi G) t E (\<lambda>E'. Done (mpi_check G E' Call_Allgatherv rank ''MPI_Allgatherv''
              (agv (length counts) (\<lambda>k. take (nat (counts ! k)) (send_data k)) (\<lambda>k. [nat (displs ! k)..<nat (displs ! k) + nat (counts ! k)]) result, displs)) E'))"

section \<open>The plan\<close>

record Replicated_Gather_Plan =
  gp_levels :: int
  gp_total :: int
  gp_local :: int
  gp_counts :: "int list"
  gp_displs :: "int list"




text \<open>
  The resized column type: \<open>num_levels\<close> blocks of one element, \<open>stride\<close> elements apart, with the
  extent of one element; \<open>count\<close> instances from a base name these offsets, instance by instance.
\<close>

definition column_offsets :: "nat \<Rightarrow> nat \<Rightarrow> nat \<Rightarrow> nat \<Rightarrow> nat list" where
  "column_offsets base count levels stride = map (\<lambda>(b, l). base + b + l * stride) (List.product [0..<count] [0..<levels])"

definition send_stride :: "Replicated_Gather_Plan \<Rightarrow> int" where
  "send_stride plan = (if gp_local plan > 0 then gp_local plan else 1)"

section \<open>The gather\<close>

definition send_stream :: "Replicated_Gather_Plan \<Rightarrow> nat \<Rightarrow> 'a list \<Rightarrow> 'a list" where
  "send_stream plan rank src =
     map (\<lambda>p. src ! p) (column_offsets 0 (nat (gp_counts plan ! rank)) (nat (gp_levels plan)) (nat (send_stride plan)))"

definition recv_places :: "Replicated_Gather_Plan \<Rightarrow> nat \<Rightarrow> nat list" where
  "recv_places plan k =
     column_offsets (nat (gp_displs plan ! k)) (nat (gp_counts plan ! k)) (nat (gp_levels plan)) (nat (gp_total plan))"

definition transfer_count :: "int \<Rightarrow> int \<Rightarrow> nat" where
  "transfer_count levels n = nat ((levels mod 18446744073709551616) * (n mod 18446744073709551616) mod 18446744073709551616)"

text \<open>
  \<open>prepare\<close> and \<open>finalize\<close> of the dispatch: without staging MPI reads and writes the views; with staging it works on a host
  copy of the send band and on a host buffer that holds \<open>junk\<close> and is copied back.
\<close>

definition dispatch_source :: "'a option \<Rightarrow> nat \<Rightarrow> 'a list \<Rightarrow> 'a list halo_result" where
  "dispatch_source staging send_count src =
     (case staging of
        None \<Rightarrow> Inr src
      | Some junk \<Rightarrow> if send_count > length src then Inl Halo_Undefined else Inr (take send_count src))"

definition dispatch_target :: "'a option \<Rightarrow> nat \<Rightarrow> 'a list \<Rightarrow> 'a list halo_result" where
  "dispatch_target staging recv_count dest =
     (case staging of
        None \<Rightarrow> Inr dest
      | Some junk \<Rightarrow> if recv_count > length dest then Inl Halo_Undefined else Inr (replicate recv_count junk))"

definition dispatch_finalize :: "'a option \<Rightarrow> nat \<Rightarrow> 'a list \<Rightarrow> 'a list \<Rightarrow> 'a list halo_result" where
  "dispatch_finalize staging recv_count received dest =
     (case staging of None \<Rightarrow> Inr received | Some junk \<Rightarrow> stage_recv received dest 0 recv_count)"

definition sent_by :: "(nat \<Rightarrow> 'a option) \<Rightarrow> (nat \<Rightarrow> Replicated_Gather_Plan) \<Rightarrow> (nat \<Rightarrow> 'a list) \<Rightarrow> nat \<Rightarrow> 'a list" where
  "sent_by staging plan src k =
     (case dispatch_source (staging k) (transfer_count (gp_levels (plan k)) (gp_counts (plan k) ! k)) (src k) of
        Inl _ \<Rightarrow> [] | Inr s \<Rightarrow> send_stream (plan k) k s)"

definition gather_replicated :: "gather_env \<Rightarrow> nat \<Rightarrow> Environment \<Rightarrow> (nat list \<Rightarrow> nat list) \<Rightarrow> 'a allgatherv \<Rightarrow> (nat \<Rightarrow> 'a option) \<Rightarrow>
    (nat \<Rightarrow> Replicated_Gather_Plan) \<Rightarrow> (nat \<Rightarrow> 'a list) \<Rightarrow> 'a list \<Rightarrow> nat \<Rightarrow> 'a list halo_result guarded" where
  "gather_replicated G t E reduce agv staging plan src dest rank =
     (let local_band = gp_counts (plan rank) ! rank;
          send_count = transfer_count (gp_levels (plan rank)) local_band;
          recv_total = transfer_count (gp_levels (plan rank)) (gp_total (plan rank)) in
      with_guard (ge_mpi G) t E (\<lambda>E1.
        bindG (allreduce G 0 t E1 rank reduce [1]) (\<lambda>_ E2.
        bindG (Done (bindR (dispatch_source (staging rank) send_count (src rank)) (\<lambda>_.
                     bindR (dispatch_target (staging rank) recv_total dest) (\<lambda>target.
                     bindR (mpi_check G E2 Call_Allgatherv rank ''MPI_Allgatherv''
                       (agv (length (gp_counts (plan rank))) (sent_by staging plan src) (recv_places (plan rank)) target)) (\<lambda>received.
                       dispatch_finalize (staging rank) recv_total received dest)))) E2) (\<lambda>dest' E2.
        bindG (allreduce G 1 t E2 rank reduce [1]) (\<lambda>_ E3.
          Done (Inr dest') E3)))))"


definition allgatherv_ok :: "'a allgatherv \<Rightarrow> bool" where
  "allgatherv_ok agv \<longleftrightarrow>
     (\<forall>P streams places dest.
        (\<forall>k<P. length (streams k) = length (places k) \<and> distinct (places k) \<and> (\<forall>p\<in>set (places k). p < length dest)) \<and>
        (\<forall>k<P. \<forall>k'<P. k \<noteq> k' \<longrightarrow> set (places k) \<inter> set (places k') = {}) \<longrightarrow>
        length (agv P streams places dest) = length dest \<and>
        (\<forall>k<P. \<forall>(p, x)\<in>set (zip (places k) (streams k)). agv P streams places dest ! p = x))"

section \<open>Displacements are prefix sums\<close>

lemma prefix_from_spec:
  "list_all (\<lambda>c. 0 \<le> c) cs \<Longrightarrow> is_i32 (running + sum_list cs) \<Longrightarrow> 0 \<le> running \<Longrightarrow>
     prefix_from running cs = Inr (map (\<lambda>k. running + sum_list (take k cs)) [0..<length cs])"
proof (induction cs arbitrary: running)
  case (Cons c cs)
  have "0 \<le> sum_list cs" using Cons.prems(1) by (induction cs) auto
  then have "is_i32 (running + c)" using Cons.prems by (auto simp: is_i32_def)
  then show ?case using Cons by (simp add: map_upt_Suc add.assoc del: upt_Suc)
qed simp

lemma sum_take_next: "k < length cs \<Longrightarrow> sum_list (take (Suc k) cs) = sum_list (take k cs) + (cs ! k :: int)"
  by (simp add: take_Suc_conv_app_nth)

lemma sum_take_mono: "list_all (\<lambda>c. 0 \<le> c) cs \<Longrightarrow> i \<le> j \<Longrightarrow> sum_list (take i cs) \<le> sum_list (take j cs :: int list)"
proof -
  assume a: "list_all (\<lambda>c. 0 \<le> c) cs" "i \<le> j"
  have "0 \<le> sum_list (take (j - i) (drop i cs))"
    using a(1) by (intro sum_list_nonneg) (auto simp: list_all_iff dest!: in_set_takeD in_set_dropD)
  then show ?thesis using a(2) take_add [of i "j - i" cs] by simp
qed

lemma validate_counts_ok: "is_ok (validate_counts counts n) \<longleftrightarrow> int (length counts) = n \<and> list_all (\<lambda>c. 0 \<le> c) counts"
proof -
  have "is_ok (validate_entries k cs) \<longleftrightarrow> list_all (\<lambda>c. 0 \<le> c) cs" for k cs
    by (induction k cs rule: validate_entries.induct) auto
  then show ?thesis by (simp add: validate_counts_def)
qed

text \<open>
  Displacements and their validation. For counts that pass the validation and whose sum is an
  \<open>int\<close>, the displacement of rank \<open>k\<close> is the sum of the counts before it, so the ranks' blocks are adjacent and
  in order; the validation rejects exactly a wrong length and a negative entry.
\<close>

theorem displacements_are_prefix_sums:
  assumes "is_i32 (sum_list counts)"
  shows "(is_ok (validate_counts counts n) \<longleftrightarrow> int (length counts) = n \<and> list_all (\<lambda>c. 0 \<le> c) counts) \<and>
    (is_ok (validate_counts counts n) \<longrightarrow> prefix_sum counts = Inr (map (\<lambda>k. sum_list (take k counts)) [0..<length counts]))"
  using prefix_from_spec [of counts 0] assms by (auto simp: prefix_sum_def validate_counts_ok)

theorem displacements_are_prefix_sums_witness:
  "prefix_sum [3, 0, 2] = Inr [0, 3, 3]"
  using displacements_are_prefix_sums [of "[3, 0, 2]" 3] by (simp add: validate_counts_def is_i32_def numeral_3_eq_3)

section \<open>The layout of a gather\<close>

definition band_start :: "(nat \<Rightarrow> int) \<Rightarrow> nat \<Rightarrow> nat" where
  "band_start bands k = (\<Sum>i<k. nat (bands i))"

lemma band_start_next: "band_start bands (Suc k) = band_start bands k + nat (bands k)"
  by (simp add: band_start_def)

lemma band_start_mono: "k \<le> k' \<Longrightarrow> band_start bands k \<le> band_start bands k'"
  unfolding band_start_def by (rule sum_mono2) auto

lemma band_start_inside: "k < P \<Longrightarrow> b < nat (bands k) \<Longrightarrow> band_start bands k + b < band_start bands P"
  using band_start_mono [of "Suc k" P bands] band_start_next [of bands k] by simp

lemma band_start_unique:
  assumes "band_start bands k + b = band_start bands k' + b'" "b < nat (bands k)" "b' < nat (bands k')"
  shows "k = k' \<and> b = b'"
proof -
  have "\<not> k < k'" using band_start_inside [of k k' b bands] assms by auto
  moreover have "\<not> k' < k" using band_start_inside [of k' k b' bands] assms by auto
  ultimately show ?thesis using assms(1) by auto
qed






lemma column_offsets_distinct: "base + count \<le> stride \<Longrightarrow> distinct (column_offsets base count levels stride)"
proof -
  assume s: "base + count \<le> stride"
  have "b = b' \<and> l = l'" if "base + b + l * stride = base + b' + l' * stride" "b < count" "b' < count" for b b' l l'
  proof -
    have m: "(base + c + k * stride) mod stride = base + c" if "c < count" for c k using s that by simp
    have "base + b = base + b'" using m [of b l] m [of b' l'] that by simp
    then have "b = b'" by simp
    then have "l * stride = l' * stride" using that(1) by simp
    then show ?thesis using \<open>b = b'\<close> s that(2) by simp
  qed
  note uniq = this
  have "inj_on (\<lambda>(b, l). base + b + l * stride) (set (List.product [0..<count] [0..<levels]))"
  proof (rule inj_onI)
    fix x y assume "x \<in> set (List.product [0..<count] [0..<levels])" "y \<in> set (List.product [0..<count] [0..<levels])"
      and e: "(case x of (b, l) \<Rightarrow> base + b + l * stride) = (case y of (b, l) \<Rightarrow> base + b + l * stride)"
    then have "fst x < count" "fst y < count" by auto
    then show "x = y" using uniq [of "fst x" "snd x" "fst y" "snd y"] e by (simp add: split_def prod_eq_iff)
  qed
  then show ?thesis by (simp add: column_offsets_def distinct_map distinct_product)
qed

lemma column_offsets_mod: "p \<in> set (column_offsets base count levels stride) \<Longrightarrow> base + count \<le> stride \<Longrightarrow> \<exists>b<count. p mod stride = base + b"
  by (auto simp: column_offsets_def)

lemma with_guard_multiple: "halo_is_thread_multiple M E \<Longrightarrow> with_guard M t E body = body E"
  by (cases "body E") (simp_all add: with_guard_def guard_enter_def guard_leave_def)



lemma band_places:
  assumes "k < P"
  shows "distinct (column_offsets (band_start bands k) (nat (bands k)) L (band_start bands P))"
    and "\<forall>p\<in>set (column_offsets (band_start bands k) (nat (bands k)) L (band_start bands P)). p < L * band_start bands P"
proof -
  let ?T = "band_start bands P"
  have "band_start bands k + nat (bands k) \<le> ?T" using band_start_mono [of "Suc k" P bands] band_start_next [of bands k] assms by simp
  then show "distinct (column_offsets (band_start bands k) (nat (bands k)) L ?T)" by (rule column_offsets_distinct)
  show "\<forall>p\<in>set (column_offsets (band_start bands k) (nat (bands k)) L ?T). p < L * ?T"
  proof
    fix p assume "p \<in> set (column_offsets (band_start bands k) (nat (bands k)) L ?T)"
    then obtain b l where p: "p = band_start bands k + b + l * ?T" "b < nat (bands k)" "l < L" by (auto simp: column_offsets_def)
    have "p < Suc l * ?T" using band_start_inside [of k P b bands, OF assms p(2)] p(1) by simp
    also have "\<dots> \<le> L * ?T" using p(3) by (intro mult_le_mono1) simp
    finally show "p < L * ?T" .
  qed
qed

lemma band_places_disjoint:
  assumes "k < P" "k' < P" "k \<noteq> k'"
  shows "set (column_offsets (band_start bands k) (nat (bands k)) L (band_start bands P)) \<inter>
    set (column_offsets (band_start bands k') (nat (bands k')) L (band_start bands P)) = {}"
proof -
  let ?T = "band_start bands P" and ?o = "\<lambda>k. column_offsets (band_start bands k) (nat (bands k)) L (band_start bands P)"
  have fit: "band_start bands k + nat (bands k) \<le> ?T" if "k < P" for k
    using band_start_mono [of "Suc k" P bands] band_start_next [of bands k] that by simp
  have False if m: "p \<in> set (?o k)" "p \<in> set (?o k')" for p
  proof -
    obtain b where b: "b < nat (bands k)" "p mod ?T = band_start bands k + b" using column_offsets_mod [OF m(1) fit [OF assms(1)]] by blast
    obtain b' where b': "b' < nat (bands k')" "p mod ?T = band_start bands k' + b'" using column_offsets_mod [OF m(2) fit [OF assms(2)]] by blast
    have "band_start bands k + b = band_start bands k' + b'" using b(2) b'(2) by simp
    then show False using band_start_unique [of bands k b k' b'] b(1) b'(1) assms(3) by blast
  qed
  then show ?thesis by blast
qed

lemma allgatherv_bands:
  assumes "allgatherv_ok agv" "L * band_start bands P \<le> length target"
    and "\<And>k. k < P \<Longrightarrow> places k = column_offsets (band_start bands k) (nat (bands k)) L (band_start bands P)"
    and "\<And>k. k < P \<Longrightarrow> streams k = map ((!) (src k)) (column_offsets 0 (nat (bands k)) L (if bands k > 0 then nat (bands k) else 1))"
  shows "length (agv P streams places target) = length target"
    and "\<And>k l b. k < P \<Longrightarrow> l < L \<Longrightarrow> b < nat (bands k) \<Longrightarrow>
      agv P streams places target ! (l * band_start bands P + band_start bands k + b) = src k ! (l * nat (bands k) + b)"
proof -
  let ?T = "band_start bands P"
  have ok: "length (streams k) = length (places k) \<and> distinct (places k) \<and> (\<forall>p\<in>set (places k). p < length target)" if k: "k < P" for k
    using band_places [OF k, of bands L] assms(2) by (auto simp: assms(3,4) [OF k]) (auto simp: column_offsets_def)
  have disj: "\<forall>k<P. \<forall>k'<P. k \<noteq> k' \<longrightarrow> set (places k) \<inter> set (places k') = {}"
    using band_places_disjoint [of _ P _ bands L] by (simp add: assms(3))
  have d: "length (agv P streams places target) = length target" "\<forall>k<P. \<forall>(p, x)\<in>set (zip (places k) (streams k)). agv P streams places target ! p = x"
    using assms(1) [unfolded allgatherv_ok_def, rule_format, of P streams places target] ok disj by simp_all
  then show "length (agv P streams places target) = length target" by simp
  fix k l b assume h: "k < P" "l < L" "b < nat (bands k)"
  have pos: "0 < bands k" using h(3) by simp
  have "zip (places k) (streams k) =
      map (\<lambda>(b, l). (band_start bands k + b + l * ?T, src k ! (b + l * nat (bands k)))) (List.product [0..<nat (bands k)] [0..<L])"
    by (simp add: assms(3,4) h(1) column_offsets_def pos zip_map_map zip_same_conv_map split_def)
  then have "(band_start bands k + b + l * ?T, src k ! (b + l * nat (bands k))) \<in> set (zip (places k) (streams k))"
    using h(2,3) by force
  then show "agv P streams places target ! (l * ?T + band_start bands k + b) = src k ! (l * nat (bands k) + b)"
    using d(2) h(1) by (fastforce simp: ac_simps)
qed




definition sample_agv :: "'a allgatherv" where
  "sample_agv P streams places dest =
     fold (\<lambda>k d. fold (\<lambda>(p, x) d. d[p := x]) (zip (places k) (streams k)) d) [0..<P] dest"

lemma fold_update_keeps: "p \<notin> fst ` set pxs \<Longrightarrow> fold (\<lambda>(p, x) d. d[p := x]) pxs d ! p = d ! p"
  by (induction pxs arbitrary: d) auto

lemma length_fold_update [simp]: "length (fold (\<lambda>(p, x) d. d[p := x]) pxs d) = length d"
  by (induction pxs arbitrary: d) auto

lemma fold_update_sets:
  "distinct (map fst pxs) \<Longrightarrow> (p, x) \<in> set pxs \<Longrightarrow> p < length d \<Longrightarrow> fold (\<lambda>(p, x) d. d[p := x]) pxs d ! p = x"
proof (induction pxs arbitrary: d)
  case (Cons px pxs)
  show ?case
  proof (cases "px = (p, x)")
    case True
    then have "p \<notin> fst ` set pxs" using Cons.prems(1) by auto
    then show ?thesis using True fold_update_keeps [of p pxs "d[p := x]"] Cons.prems(3) by simp
  next
    case False
    then show ?thesis using Cons by (cases px) auto
  qed
qed simp

lemma sample_agv_ok: "allgatherv_ok sample_agv"
  unfolding allgatherv_ok_def
proof (intro allI impI)
  fix P :: nat and streams :: "nat \<Rightarrow> 'a list" and places :: "nat \<Rightarrow> nat list" and dest :: "'a list"
  assume a: "(\<forall>k<P. length (streams k) = length (places k) \<and> distinct (places k) \<and> (\<forall>p\<in>set (places k). p < length dest)) \<and>
    (\<forall>k<P. \<forall>k'<P. k \<noteq> k' \<longrightarrow> set (places k) \<inter> set (places k') = {})"
  let ?f = "\<lambda>n. fold (\<lambda>k d. fold (\<lambda>(p, x) d. d[p := x]) (zip (places k) (streams k)) d) [0..<n] dest"
  have "length (?f n) = length dest \<and> (\<forall>k<n. \<forall>(p, x)\<in>set (zip (places k) (streams k)). ?f n ! p = x)" if "n \<le> P" for n
    using that
  proof (induction n)
    case (Suc n)
    then have ih: "length (?f n) = length dest" "\<forall>k<n. \<forall>(p, x)\<in>set (zip (places k) (streams k)). ?f n ! p = x" by auto
    have "?f (Suc n) ! p = x" if kx: "k < Suc n" "(p, x) \<in> set (zip (places k) (streams k))" for k p x
    proof (cases "k = n")
      case True
      have "p < length dest" using a [THEN conjunct1, rule_format, of n] Suc.prems set_zip_leftD [OF kx(2)] True by simp
      then show ?thesis
        using a [THEN conjunct1, rule_format, of n] kx(2) Suc.prems True ih(1) fold_update_sets [of "zip (places n) (streams n)" p x "?f n"] by auto
    next
      case False
      then have "k < n" using kx(1) by simp
      moreover have "p \<notin> set (places n)" using a set_zip_leftD [OF kx(2)] \<open>k < n\<close> Suc.prems by (metis Suc_le_eq disjoint_iff less_trans less_irrefl)
      then have "p \<notin> fst ` set (zip (places n) (streams n))" by (auto dest: set_zip_leftD)
      ultimately show ?thesis using ih(2) kx(2) fold_update_keeps [of p "zip (places n) (streams n)" "?f n"] by auto
    qed
    then show ?case using ih(1) by auto
  qed simp
  then show "length (sample_agv P streams places dest) = length dest \<and>
      (\<forall>k<P. \<forall>(p, x)\<in>set (zip (places k) (streams k)). sample_agv P streams places dest ! p = x)"
    by (simp add: sample_agv_def)
qed

definition sample_env :: Environment where
  "sample_env = environment0\<lparr>en_thread_level := 3\<rparr>"

definition sample_gather :: gather_env where
  "sample_gather = \<lparr>ge_mpi = sample_mpi, ge_rc = (\<lambda>_. 0), ge_comm_name = []\<rparr>"

definition sample_bands :: "nat \<Rightarrow> Replicated_Gather_Plan" where
  "sample_bands q = \<lparr>gp_levels = 2, gp_total = 3, gp_local = 1 + int q, gp_counts = [1, 2], gp_displs = [0, 1]\<rparr>"

definition sample_rows :: "nat \<Rightarrow> nat list" where
  "sample_rows k = (if k = 0 then [1, 2] else [3, 4, 5, 6])"


text \<open>
  Below MPI_THREAD_MULTIPLE the replicated gather never returns. It holds the serialisation guard when it calls
  \<open>allreduce\<close>, which enters the same guard: on every thread level but the highest, also when the
  library was never initialised, the calling thread waits for its own lock.
\<close>

theorem gather_replicated_deadlocks:
  assumes "\<not> halo_is_thread_multiple (ge_mpi G) E" "en_mutex E = None"
  shows "gather_replicated G t E reduce agv staging plan src dest rank = Stuck Self_deadlock"
  using assms
  by (simp add: gather_replicated_def with_guard_def allreduce_def guard_enter_def halo_is_thread_multiple_def bindG_def Let_def)

theorem gather_replicated_deadlocks_witness:
  "gather_replicated sample_gather 0 environment0 id sample_agv (\<lambda>_. None) sample_bands sample_rows [0] 0 = Stuck Self_deadlock"
  by (rule gather_replicated_deadlocks) (simp_all add: halo_is_thread_multiple_def environment0_def sample_gather_def sample_mpi_def)

section \<open>Variable contributions\<close>

lemma column_offsets_one: "column_offsets base n (Suc 0) s = [base..<base + n]"
proof -
  have "List.product xs [y] = map (\<lambda>x. (x, y)) xs" for xs :: "nat list" and y :: nat by (induction xs) auto
  then show ?thesis by (intro nth_equalityI) (simp_all add: column_offsets_def)
qed

lemma map_nth_upt: "n \<le> length xs \<Longrightarrow> map ((!) xs) [0..<n] = take n xs"
  by (rule nth_equalityI) simp_all

lemma sum_take_nats: "list_all (\<lambda>c. 0 \<le> c) cs \<Longrightarrow> nat (sum_list (take k cs)) = band_start (\<lambda>i. if i < length cs then cs ! i else 0) k"
proof (induction k)
  case (Suc k)
  have "0 \<le> sum_list (take k cs)" using Suc.prems by (intro sum_list_nonneg) (auto simp: list_all_iff dest: in_set_takeD)
  then show ?case using Suc by (auto simp: band_start_next take_Suc_conv_app_nth list_all_length nat_add_distrib)
qed (simp add: band_start_def)

text \<open>
  The variable gather concatenates. For counts that agree with what the ranks contribute, the result holds the contribution of rank \<open>k\<close> from its
  displacement on, for every rank, and has no other elements.
\<close>

theorem allgatherv_concatenates:
  assumes "allgatherv_ok agv" "is_ok (validate_counts counts (int P))" "is_i32 (sum_list counts)" "0 < P"
    and "\<forall>k<P. length (send_data k) = nat (counts ! k)"
    and "halo_is_thread_multiple (ge_mpi G) E" "ge_rc G Call_Allgatherv = 0"
  shows "\<exists>buffer displs. allgatherv G t E rank (int P) agv zero send_data counts = Done (Inr (buffer, displs)) E \<and>
    displs = map (\<lambda>k. sum_list (take k counts)) [0..<P] \<and> length buffer = nat (sum_list counts) \<and>
    (\<forall>k<P. \<forall>b<length (send_data k). buffer ! (nat (displs ! k) + b) = send_data k ! b)"
proof -
  have v: "int (length counts) = int P" "list_all (\<lambda>c. 0 \<le> c) counts"
    using validate_counts_ok assms(2) by simp_all
  let ?bands = "\<lambda>i. if i < P then counts ! i else 0"
  have l: "length counts = P" using v(1) by simp
  have ps: "prefix_sum counts = Inr (map (\<lambda>k. sum_list (take k counts)) [0..<P])"
    using prefix_from_spec [OF v(2), of 0] assms(3) l by (simp add: prefix_sum_def)
  have ok: "validate_counts counts (int P) = Inr ()" using assms(2) by (cases "validate_counts counts (int P)") simp_all
  have bs: "nat (sum_list (take k counts)) = band_start ?bands k" for k using sum_take_nats [OF v(2), of k] l by simp
  have tot: "band_start ?bands P = nat (sum_list counts)" using bs [of P] l by simp
  have l1: "last counts = counts ! (P - 1)" "last (map (\<lambda>k. sum_list (take k counts)) [0..<P]) = sum_list (take (P - 1) counts)"
    using assms(4) l by (auto simp: last_conv_nth)
  have nn: "0 \<le> sum_list (take (P - 1) counts)" "0 \<le> counts ! (P - 1)"
    using v(2) assms(4) l by (auto simp: list_all_iff intro!: sum_list_nonneg dest: in_set_takeD)
  have n: "nat (last (map (\<lambda>k. sum_list (take k counts)) [0..<P])) + nat (last counts) = band_start ?bands P"
    using sum_take_next [of "P - 1" counts] assms(4) l nn tot unfolding l1 by (simp add: nat_add_distrib)
  let ?agv = "agv P (\<lambda>k. take (nat (counts ! k)) (send_data k)) (\<lambda>k. [nat (map (\<lambda>k. sum_list (take k counts)) [0..<P] ! k)..<
      nat (map (\<lambda>k. sum_list (take k counts)) [0..<P] ! k) + nat (counts ! k)]) (replicate (band_start ?bands P) zero)"
  have run: "allgatherv G t E rank (int P) agv zero send_data counts = Done (Inr (?agv, map (\<lambda>k. sum_list (take k counts)) [0..<P])) E"
    using assms(4,6,7) n by (simp add: allgatherv_def ok ps Let_def with_guard_multiple mpi_check_def l)
  have p: "1 * band_start ?bands P \<le> length (replicate (band_start ?bands P) zero)" by simp
  have pl: "[nat (map (\<lambda>k. sum_list (take k counts)) [0..<P] ! k)..<nat (map (\<lambda>k. sum_list (take k counts)) [0..<P] ! k) + nat (counts ! k)] =
      column_offsets (band_start ?bands k) (nat (?bands k)) 1 (band_start ?bands P)" if "k < P" for k
    using that by (simp add: column_offsets_one bs)
  have st: "take (nat (counts ! k)) (send_data k) =
      map ((!) (send_data k)) (column_offsets 0 (nat (?bands k)) 1 (if ?bands k > 0 then nat (?bands k) else 1))" if "k < P" for k
    using that assms(5) by (simp add: column_offsets_one map_nth_upt)
  have len: "length ?agv = band_start ?bands P" using allgatherv_bands(1) [OF assms(1) p pl st] by simp
  have "?agv ! (band_start ?bands k + b) = send_data k ! b" if "k < P" "b < length (send_data k)" for k b
    using allgatherv_bands(2) [OF assms(1) p pl st that(1), of 0 b] that assms(5) by simp
  then show ?thesis using run len by (auto simp: tot bs)
qed

theorem allgatherv_concatenates_witness:
  "\<exists>buffer. allgatherv sample_gather 0 sample_env 0 2 sample_agv 0 sample_rows [2, 4] = Done (Inr (buffer, [0, 2])) sample_env \<and> buffer ! 4 = 5"
proof -
  have "\<exists>buffer displs. allgatherv sample_gather 0 sample_env 0 (int 2) sample_agv 0 sample_rows [2, 4] = Done (Inr (buffer, displs)) sample_env \<and>
    displs = map (\<lambda>k. sum_list (take k [2, 4])) [0..<2] \<and> length buffer = nat (sum_list [2, 4]) \<and>
    (\<forall>k<2. \<forall>b<length (sample_rows k). buffer ! (nat (displs ! k) + b) = sample_rows k ! b)"
    by (rule allgatherv_concatenates [OF sample_agv_ok])
      (auto simp: validate_counts_def is_i32_def sample_rows_def less_2_cases_iff sample_gather_def halo_is_thread_multiple_def sample_env_def sample_mpi_def environment0_def)
  then obtain buffer where b: "allgatherv sample_gather 0 sample_env 0 2 sample_agv 0 sample_rows [2, 4] = Done (Inr (buffer, [0, 2])) sample_env"
    and v: "\<forall>k<2. \<forall>b<length (sample_rows k). buffer ! (nat ([0, 2] ! k) + b) = sample_rows k ! b"
    by (auto simp: numeral_2_eq_2)
  have "buffer ! 4 = 5" using v [rule_format, of 1 2] by (simp add: sample_rows_def)
  then show ?thesis using b by blast
qed

end
