(* ===== verification/Halo_C_Api.thy ===== *)
theory Halo_C_Api
  imports Halo_Exchange Halo_Handles Handle_Store
begin

text \<open>
  HALO's interface for Fortran: \<^verbatim>\<open>halo/src/fortran/handle_registry.hpp\<close> and \<^verbatim>\<open>halo/src/fortran/halo_c_interop.cpp\<close>.

  The registry maps positive tokens to addresses; the heap maps addresses to the objects the
  functions allocate. A token does not record what it stands for: the functions cast the address, and a cast to
  another type, like an access to a deleted object, is undefined behaviour. What the underlying exchange, split
  and asynchronous start do are arguments.
\<close>

section \<open>The registry\<close>

record Halo_Handle_Registry =
  fr_handles :: "int \<Rightarrow> nat option"
  fr_next_token :: int

definition HALO_HANDLE_INVALID :: int where
  "HALO_HANDLE_INVALID = 0"

definition registry0 :: Halo_Handle_Registry where
  "registry0 = \<lparr>fr_handles = (\<lambda>_. None), fr_next_token = 1\<rparr>"

definition halo_register_handle :: "nat \<Rightarrow> Halo_Handle_Registry \<Rightarrow> int \<times> Halo_Handle_Registry" where
  "halo_register_handle ptr r =
     (if fr_next_token r = 2147483647 then (HALO_HANDLE_INVALID, r)
      else (fr_next_token r, r\<lparr>fr_next_token := fr_next_token r + 1, fr_handles := (fr_handles r)(fr_next_token r \<mapsto> ptr)\<rparr>))"

definition lookup_handle :: "Halo_Handle_Registry \<Rightarrow> int \<Rightarrow> nat option" where
  "lookup_handle r token = fr_handles r token"

definition halo_release_handle :: "int \<Rightarrow> Halo_Handle_Registry \<Rightarrow> nat option \<times> Halo_Handle_Registry" where
  "halo_release_handle token r =
     (case fr_handles r token of
        None \<Rightarrow> (None, r)
      | Some ptr \<Rightarrow> (Some ptr, r\<lparr>fr_handles := (fr_handles r)(token := None)\<rparr>))"

definition valid_handle :: "Halo_Handle_Registry \<Rightarrow> int \<Rightarrow> bool" where
  "valid_handle r token \<longleftrightarrow> fr_handles r token \<noteq> None"

definition fr_inv :: "Halo_Handle_Registry \<Rightarrow> bool" where
  "fr_inv r \<longleftrightarrow> 1 \<le> fr_next_token r \<and> fr_next_token r \<le> 2147483647 \<and> (\<forall>t. fr_handles r t \<noteq> None \<longrightarrow> 1 \<le> t \<and> t < fr_next_token r)"

definition fr_register :: "nat \<Rightarrow> Halo_Handle_Registry \<Rightarrow> int option \<times> Halo_Handle_Registry" where
  "fr_register ptr r = (case halo_register_handle ptr r of (t, r') \<Rightarrow> (if t = HALO_HANDLE_INVALID then None else Some t, r'))"

definition fr_unregister :: "int \<Rightarrow> Halo_Handle_Registry \<Rightarrow> bool \<times> Halo_Handle_Registry" where
  "fr_unregister t r = (case halo_release_handle t r of (p, r') \<Rightarrow> (p \<noteq> None, r'))"

interpretation halo_reg: handle_store fr_inv lookup_handle fr_register fr_unregister
proof
  fix s v h s' assume i: "fr_inv s" and r: "fr_register v s = (Some h, s')"
  then have "h = fr_next_token s" "fr_next_token s \<noteq> 2147483647"
    "s' = s\<lparr>fr_next_token := fr_next_token s + 1, fr_handles := (fr_handles s)(fr_next_token s \<mapsto> v)\<rparr>"
    by (auto simp: fr_register_def halo_register_handle_def split: if_splits)
  moreover have "fr_handles s (fr_next_token s) = None" using i by (auto simp: fr_inv_def)
  ultimately show "fr_inv s' \<and> lookup_handle s h = None \<and> lookup_handle s' = (lookup_handle s)(h \<mapsto> v)"
    using i by (auto simp: fr_inv_def lookup_handle_def fun_eq_iff)
next
  fix s v s' assume "fr_inv s" "fr_register v s = (None, s')"
  then show "s' = s" by (auto simp: fr_register_def halo_register_handle_def HALO_HANDLE_INVALID_def fr_inv_def split: if_splits)
next
  fix s h ok s' assume "fr_inv s" "fr_unregister h s = (ok, s')"
  then show "fr_inv s' \<and> ok = (lookup_handle s h \<noteq> None) \<and> lookup_handle s' = (lookup_handle s)(h := None)"
    by (auto simp: fr_unregister_def halo_release_handle_def lookup_handle_def fr_inv_def fun_eq_iff split: option.splits if_splits)
qed

section \<open>The functions\<close>

datatype halo_object = Obj_Comm Communicator | Obj_Plan nat Halo_Plan | Obj_Handle Halo_Handle

record Halo_C =
  hc_env :: Environment
  hc_reg :: Halo_Handle_Registry
  hc_heap :: "nat \<Rightarrow> halo_object option"
  hc_brk :: nat
  hc_log :: "halo_event list"
  hc_stderr :: "string list"

record halo_lib =
  hl_mpi :: mpi_env
  hl_f2c :: "int \<Rightarrow> Communicator"
  hl_split :: "Communicator \<Rightarrow> int \<Rightarrow> int \<Rightarrow> Communicator halo_result"
  hl_exchange :: "Halo_Plan \<Rightarrow> string \<Rightarrow> string halo_result"
  hl_start :: "Halo_Plan \<Rightarrow> string \<Rightarrow> Halo_Handle halo_result"
  hl_done :: "nat \<Rightarrow> bool"

datatype c_out = No_out | Out_token int | Out_flag int | Out_data string

datatype c_outcome = Returned int c_out Halo_C | Terminated int | Undefined_c

definition HALO_SUCCESS :: int where "HALO_SUCCESS = 0"
definition HALO_ERR_INVALID_ARG :: int where "HALO_ERR_INVALID_ARG = 1"
definition HALO_ERR_RUNTIME :: int where "HALO_ERR_RUNTIME = 3"
definition HALO_ERR_BAD_HANDLE :: int where "HALO_ERR_BAD_HANDLE = 4"
definition HALO_ERR_UNKNOWN :: int where "HALO_ERR_UNKNOWN = 99"

type_synonym c_body = "(int \<times> c_out \<times> Halo_C) halo_result"

definition note_error :: "string \<Rightarrow> Halo_C \<Rightarrow> Halo_C" where
  "note_error msg st =
     (if en_error_policy (hc_env st) = Abort_with_diagnostics
      then st\<lparr>hc_stderr := hc_stderr st @ [''HALO FATAL (Fortran interop): '' @ msg @ [CHR 0x0A]]\<rparr> else st)"

text \<open>\<open>out_of_range\<close> and the length error of a vector are logic errors, which only the last clause catches.\<close>

definition halo_c_try :: "Halo_C \<Rightarrow> c_body \<Rightarrow> c_outcome" where
  "halo_c_try st body =
     (case body of
        Inr (code, out, st') \<Rightarrow> Returned code out st'
      | Inl (Invalid_argument msg) \<Rightarrow> Returned HALO_ERR_INVALID_ARG No_out (note_error msg st)
      | Inl (Runtime_error msg) \<Rightarrow> Returned HALO_ERR_RUNTIME No_out (note_error msg st)
      | Inl (Out_of_range msg) \<Rightarrow> Returned HALO_ERR_UNKNOWN No_out (note_error ''unknown exception'' st)
      | Inl (Aborted code msg) \<Rightarrow> Terminated code
      | Inl Halo_Undefined \<Rightarrow> Undefined_c)"

definition new_object :: "halo_object \<Rightarrow> Halo_C \<Rightarrow> int \<times> Halo_C" where
  "new_object obj st =
     (case halo_register_handle (hc_brk st) (hc_reg st) of
        (token, reg) \<Rightarrow> (token, st\<lparr>hc_heap := (hc_heap st)(hc_brk st \<mapsto> obj), hc_brk := hc_brk st + 1, hc_reg := reg\<rparr>))"

definition deref_comm :: "Halo_C \<Rightarrow> nat \<Rightarrow> Communicator halo_result" where
  "deref_comm st a = (case hc_heap st a of Some (Obj_Comm c) \<Rightarrow> Inr c | _ \<Rightarrow> Inl Halo_Undefined)"

definition deref_plan :: "Halo_C \<Rightarrow> nat \<Rightarrow> (nat \<times> Halo_Plan) halo_result" where
  "deref_plan st a = (case hc_heap st a of Some (Obj_Plan ca p) \<Rightarrow> Inr (ca, p) | _ \<Rightarrow> Inl Halo_Undefined)"

definition deref_handle :: "Halo_C \<Rightarrow> nat \<Rightarrow> Halo_Handle halo_result" where
  "deref_handle st a = (case hc_heap st a of Some (Obj_Handle h) \<Rightarrow> Inr h | _ \<Rightarrow> Inl Halo_Undefined)"

definition bad_handle :: "Halo_C \<Rightarrow> c_body" where
  "bad_handle st = Inr (HALO_ERR_BAD_HANDLE, No_out, st)"

definition halo_init_c :: "halo_lib \<Rightarrow> int \<Rightarrow> Halo_C \<Rightarrow> c_outcome" where
  "halo_init_c L mpi_comm_int st = halo_c_try st
     (bindR (env_initialize (hl_mpi L) (hc_env st)) (\<lambda>E.
        let st1 = st\<lparr>hc_env := set_error_policy Abort_with_diagnostics E\<rparr>;
            (token, st2) = new_object (Obj_Comm (hl_f2c L mpi_comm_int)) st1
        in Inr (HALO_SUCCESS, Out_token token, st2)))"

definition halo_comm_create_c :: "halo_lib \<Rightarrow> int \<Rightarrow> int \<Rightarrow> int \<Rightarrow> Halo_C \<Rightarrow> c_outcome" where
  "halo_comm_create_c L parent_handle color key st = halo_c_try st
     (case lookup_handle (hc_reg st) parent_handle of
        None \<Rightarrow> bad_handle st
      | Some a \<Rightarrow>
          bindR (deref_comm st a) (\<lambda>parent.
          bindR (hl_split L parent color key) (\<lambda>child.
            let (token, st') = new_object (Obj_Comm child) st in Inr (HALO_SUCCESS, Out_token token, st'))))"

definition neighbor_array :: "int list \<Rightarrow> int list \<Rightarrow> int \<Rightarrow> Neighbor_Info list halo_result" where
  "neighbor_array ranks counts n =
     (if n < 0 then Inl (Out_of_range ''vector'')
      else if nat n > length ranks \<or> nat n > length counts then Inl Halo_Undefined
      else Inr (map2 (\<lambda>r c. \<lparr>ni_rank = r, ni_count = nat (c mod 18446744073709551616)\<rparr>) (take (nat n) ranks) (take (nat n) counts)))"

definition halo_plan_create_c :: "int \<Rightarrow> int list \<Rightarrow> int list \<Rightarrow> int \<Rightarrow> int list \<Rightarrow> int list \<Rightarrow> int \<Rightarrow> Halo_C \<Rightarrow> c_outcome" where
  "halo_plan_create_c comm_handle send_ranks send_counts num_send recv_ranks recv_counts num_recv st = halo_c_try st
     (case lookup_handle (hc_reg st) comm_handle of
        None \<Rightarrow> bad_handle st
      | Some a \<Rightarrow>
          bindR (neighbor_array send_ranks send_counts num_send) (\<lambda>sends.
          bindR (neighbor_array recv_ranks recv_counts num_recv) (\<lambda>recvs.
          bindR (deref_comm st a) (\<lambda>comm.
          bindR (mk_halo_plan comm sends recvs) (\<lambda>plan.
            let (token, st') = new_object (Obj_Plan a plan) st in Inr (HALO_SUCCESS, Out_token token, st'))))))"

definition byte_view :: "string \<Rightarrow> int \<Rightarrow> int \<Rightarrow> string halo_result" where
  "byte_view data num_elements element_size =
     (let n = nat (((num_elements mod 18446744073709551616) * (element_size mod 18446744073709551616)) mod 18446744073709551616)
      in if n > length data then Inl Halo_Undefined else Inr (take n data))"

definition with_plan :: "Halo_C \<Rightarrow> int \<Rightarrow> (Halo_Plan \<Rightarrow> c_body) \<Rightarrow> c_outcome" where
  "with_plan st plan_handle k = halo_c_try st
     (case lookup_handle (hc_reg st) plan_handle of
        None \<Rightarrow> bad_handle st
      | Some a \<Rightarrow> bindR (deref_plan st a) (\<lambda>(ca, plan).
          if hp_send plan = [] \<and> hp_recv plan = [] then k plan else bindR (deref_comm st ca) (\<lambda>_. k plan)))"

definition halo_exchange_blocking_c :: "halo_lib \<Rightarrow> int \<Rightarrow> string \<Rightarrow> int \<Rightarrow> int \<Rightarrow> Halo_C \<Rightarrow> c_outcome" where
  "halo_exchange_blocking_c L plan_handle data num_elements element_size st = with_plan st plan_handle (\<lambda>plan.
     bindR (byte_view data num_elements element_size) (\<lambda>view.
     bindR (hl_exchange L plan view) (\<lambda>view'. Inr (HALO_SUCCESS, Out_data (view' @ drop (length view) data), st))))"

definition halo_exchange_async_c :: "halo_lib \<Rightarrow> int \<Rightarrow> string \<Rightarrow> int \<Rightarrow> int \<Rightarrow> Halo_C \<Rightarrow> c_outcome" where
  "halo_exchange_async_c L plan_handle data num_elements element_size st = with_plan st plan_handle (\<lambda>plan.
     bindR (byte_view data num_elements element_size) (\<lambda>view.
     bindR (hl_start L plan view) (\<lambda>h.
       let (token, st') = new_object (Obj_Handle h) st in Inr (HALO_SUCCESS, Out_token token, st'))))"

definition with_handle :: "Halo_C \<Rightarrow> int \<Rightarrow> (nat \<Rightarrow> Halo_Handle \<Rightarrow> c_body) \<Rightarrow> c_outcome" where
  "with_handle st handle k = halo_c_try st
     (case lookup_handle (hc_reg st) handle of
        None \<Rightarrow> bad_handle st
      | Some a \<Rightarrow> bindR (deref_handle st a) (k a))"

definition halo_wait_c :: "int \<Rightarrow> Halo_C \<Rightarrow> c_outcome" where
  "halo_wait_c handle st = with_handle st handle (\<lambda>a h.
     let (h', log) = handle_wait h (hc_log st)
     in Inr (HALO_SUCCESS, No_out, st\<lparr>hc_heap := (hc_heap st)(a \<mapsto> Obj_Handle h'), hc_log := log\<rparr>))"

definition halo_test_c :: "halo_lib \<Rightarrow> int \<Rightarrow> Halo_C \<Rightarrow> c_outcome" where
  "halo_test_c L handle st = with_handle st handle (\<lambda>a h.
     let (b, h', log) = handle_test (hl_done L) h (hc_log st)
     in Inr (HALO_SUCCESS, Out_flag (if b then 1 else 0), st\<lparr>hc_heap := (hc_heap st)(a \<mapsto> Obj_Handle h'), hc_log := log\<rparr>))"

definition halo_destroy_plan_c :: "int \<Rightarrow> Halo_C \<Rightarrow> c_outcome" where
  "halo_destroy_plan_c plan_handle st = halo_c_try st
     (case halo_release_handle plan_handle (hc_reg st) of
        (None, _) \<Rightarrow> bad_handle st
      | (Some a, reg) \<Rightarrow> bindR (deref_plan st a) (\<lambda>_.
          Inr (HALO_SUCCESS, No_out, st\<lparr>hc_reg := reg, hc_heap := (hc_heap st)(a := None)\<rparr>)))"

definition halo_destroy_comm_c :: "int \<Rightarrow> Halo_C \<Rightarrow> c_outcome" where
  "halo_destroy_comm_c comm_handle st = halo_c_try st
     (case halo_release_handle comm_handle (hc_reg st) of
        (None, _) \<Rightarrow> bad_handle st
      | (Some a, reg) \<Rightarrow> bindR (deref_comm st a) (\<lambda>_.
          Inr (HALO_SUCCESS, No_out, st\<lparr>hc_reg := reg, hc_heap := (hc_heap st)(a := None)\<rparr>)))"

section \<open>Calls across the boundary\<close>

datatype halo_call =
    C_Init int
  | C_Comm_create int int int
  | C_Plan_create int "int list" "int list" int "int list" "int list" int
  | C_Exchange int string int int
  | C_Async int string int int
  | C_Wait int
  | C_Test int
  | C_Destroy_plan int
  | C_Destroy_comm int

fun halo_run :: "halo_lib \<Rightarrow> halo_call \<Rightarrow> Halo_C \<Rightarrow> c_outcome" where
  "halo_run L (C_Init c) st = halo_init_c L c st"
| "halo_run L (C_Comm_create t color key) st = halo_comm_create_c L t color key st"
| "halo_run L (C_Plan_create t sr sc ns rr rc nr) st = halo_plan_create_c t sr sc ns rr rc nr st"
| "halo_run L (C_Exchange t data n esize) st = halo_exchange_blocking_c L t data n esize st"
| "halo_run L (C_Async t data n esize) st = halo_exchange_async_c L t data n esize st"
| "halo_run L (C_Wait t) st = halo_wait_c t st"
| "halo_run L (C_Test t) st = halo_test_c L t st"
| "halo_run L (C_Destroy_plan t) st = halo_destroy_plan_c t st"
| "halo_run L (C_Destroy_comm t) st = halo_destroy_comm_c t st"


definition c_inv :: "Halo_C \<Rightarrow> bool" where
  "c_inv st \<longleftrightarrow> fr_inv (hc_reg st) \<and>
     (\<forall>t a. fr_handles (hc_reg st) t = Some a \<longrightarrow> hc_heap st a \<noteq> None) \<and>
     (\<forall>t u a. fr_handles (hc_reg st) t = Some a \<and> fr_handles (hc_reg st) u = Some a \<longrightarrow> t = u) \<and>
     (\<forall>a. hc_heap st a \<noteq> None \<longrightarrow> a < hc_brk st)"

text \<open>The token, if it is live, stands for an object of the kind the function casts it to.\<close>

definition comm_at :: "Halo_C \<Rightarrow> nat \<Rightarrow> bool" where
  "comm_at st a \<longleftrightarrow> (case hc_heap st a of Some (Obj_Comm _) \<Rightarrow> True | _ \<Rightarrow> False)"


definition usable_plan_at :: "Halo_C \<Rightarrow> nat \<Rightarrow> bool" where
  "usable_plan_at st a \<longleftrightarrow> (case hc_heap st a of Some (Obj_Plan ca p) \<Rightarrow> (hp_send p = [] \<and> hp_recv p = []) \<or> comm_at st ca | _ \<Rightarrow> False)"



definition handle_at :: "Halo_C \<Rightarrow> nat \<Rightarrow> bool" where
  "handle_at st a \<longleftrightarrow> (case hc_heap st a of Some (Obj_Handle _) \<Rightarrow> True | _ \<Rightarrow> False)"






lemmas halo_codes = HALO_SUCCESS_def HALO_ERR_INVALID_ARG_def HALO_ERR_RUNTIME_def HALO_ERR_BAD_HANDLE_def HALO_ERR_UNKNOWN_def

lemma note_error_fields [simp]: "hc_reg (note_error m st) = hc_reg st" "hc_heap (note_error m st) = hc_heap st" "hc_brk (note_error m st) = hc_brk st"
  by (simp_all add: note_error_def)

lemma c_inv_note_error [simp]: "c_inv (note_error m st) = c_inv st"
  by (simp add: c_inv_def)























definition halo_c0 :: Halo_C where
  "halo_c0 = \<lparr>hc_env = environment0, hc_reg = registry0, hc_heap = (\<lambda>_. None), hc_brk = 0, hc_log = [], hc_stderr = []\<rparr>"

definition sample_lib :: halo_lib where
  "sample_lib = \<lparr>hl_mpi = sample_mpi, hl_f2c = (\<lambda>_. \<lparr>co_rank = 0, co_size = 1\<rparr>), hl_split = (\<lambda>c _ _. Inr c),
     hl_exchange = (\<lambda>_ v. Inr v), hl_start = (\<lambda>_ _. Inr empty_handle), hl_done = (\<lambda>_. True)\<rparr>"



text \<open>
  A live token of another kind is not rejected. The functions check only that a token is live and cast
  the address: a communicator's token given to \<open>halo_wait_c\<close> is undefined behaviour and not a bad
  handle, and so is an exchange over a plan with neighbors whose communicator was destroyed.
\<close>

theorem wrong_kind_token_undefined:
  assumes "lookup_handle (hc_reg st) t = Some a"
  shows "(\<not> handle_at st a \<longrightarrow> halo_run L (C_Wait t) st = Undefined_c) \<and>
    (\<not> usable_plan_at st a \<longrightarrow> halo_run L (C_Exchange t data n esize) st = Undefined_c)"
  using assms
  by (auto simp: halo_wait_c_def with_handle_def halo_c_try_def handle_at_def deref_handle_def usable_plan_at_def comm_at_def
      halo_exchange_blocking_c_def with_plan_def deref_plan_def deref_comm_def split: option.splits halo_object.splits)

theorem wrong_kind_token_undefined_witness:
  "\<exists>st. halo_run sample_lib (C_Init 0) halo_c0 = Returned 0 (Out_token 1) st \<and> halo_run sample_lib (C_Wait 1) st = Undefined_c"
proof -
  obtain st where st: "halo_run sample_lib (C_Init 0) halo_c0 = Returned 0 (Out_token 1) st" "lookup_handle (hc_reg st) 1 = Some 0" "\<not> handle_at st 0"
    by (simp add: halo_init_c_def halo_c_try_def env_initialize_def halo_c0_def environment0_def sample_lib_def sample_mpi_def new_object_def
        halo_register_handle_def registry0_def lookup_handle_def handle_at_def halo_codes Let_def)
  then show ?thesis using wrong_kind_token_undefined [of st 1 0 sample_lib] by blast
qed

text \<open>
  Tokens are never issued twice. Once a token has been released, no later sequence of registrations and releases gives it
  out again, and it stays dead.
\<close>

theorem released_token_stays_dead:
  assumes "fr_inv r" "valid_handle r t" "halo_release_handle t r = (p, r')"
  shows "\<not> valid_handle (fold halo_reg.apply_op ops r') t \<and> fst (halo_register_handle q (fold halo_reg.apply_op ops r')) \<noteq> t"
proof -
  have b: "1 \<le> t \<and> t < fr_next_token r" using assms(1,2) by (simp add: fr_inv_def valid_handle_def)
  have r': "r' = r\<lparr>fr_handles := (fr_handles r)(t := None)\<rparr>"
    using assms(2,3) by (auto simp: valid_handle_def halo_release_handle_def)
  then have h: "1 \<le> t" "t < fr_next_token r'" "\<not> valid_handle r' t" and i: "fr_inv r'"
    using b assms(1) by (auto simp: fr_inv_def valid_handle_def)
  have "fr_inv s \<Longrightarrow> t < fr_next_token s \<Longrightarrow> \<not> valid_handle s t \<Longrightarrow>
      fr_inv (halo_reg.apply_op op s) \<and> t < fr_next_token (halo_reg.apply_op op s) \<and> \<not> valid_handle (halo_reg.apply_op op s) t" for s op
    using halo_reg.apply_op_inv [of s op]
    by (cases op) (auto simp: halo_reg.apply_op_def fr_register_def halo_register_handle_def fr_unregister_def halo_release_handle_def valid_handle_def
        split: option.splits prod.splits if_splits)
  then have "fr_inv s \<Longrightarrow> t < fr_next_token s \<Longrightarrow> \<not> valid_handle s t \<Longrightarrow>
      t < fr_next_token (fold halo_reg.apply_op ops s) \<and> \<not> valid_handle (fold halo_reg.apply_op ops s) t" for s
    by (induction ops arbitrary: s) auto
  from this [OF i h(2,3)] show ?thesis using h(1) by (auto simp: halo_register_handle_def HALO_HANDLE_INVALID_def)
qed

theorem released_token_stays_dead_witness:
  "\<not> valid_handle (fold halo_reg.apply_op [Register 8, Register 9] (snd (halo_release_handle 1 (snd (halo_register_handle 7 registry0))))) 1"
  using released_token_stays_dead [of "snd (halo_register_handle 7 registry0)" 1 "Some 7" "snd (halo_release_handle 1 (snd (halo_register_handle 7 registry0)))" "[Register 8, Register 9]"]
  by (simp add: halo_register_handle_def registry0_def fr_inv_def valid_handle_def halo_release_handle_def)

end
