(* ===== verification/Spec2Isabelle.thy ===== *)
theory Spec2Isabelle
  imports Tick_C_Api Tick_Aliasing Span_Triple_Buffer Span_C_Api Dagr_Orchestrator Dagr_Parse Conf_C_Api
    Amio_Handle_Table Amio_Loader Amio_Prefetch Amio_Worker_Pool Logs_Logger
    Halo_Async Halo_Neighbor Halo_Gather Halo_C_Api
begin

text \<open>
  Verification library of HELM, a set of C++ libraries for coupled earth-system models
  (\<^verbatim>\<open>src/libs\<close>): TICK keeps simulation time, SPAN shares field memory between components,
  CONF reads configuration documents, DAGR schedules a graph of tasks on MPI ranks, AMIO moves data between the model
  and files in the background, LOGS writes and consolidates log records, HALO exchanges the borders of
  distributed fields over MPI.

  \<^bold>\<open>How the parts interact.\<close> DAGR's parser reads a pipeline document through CONF, turns it into
  a task graph and checks it; the orchestrator validates the graph again, builds the event loop
  over a pool of ranks and drives it cycle by cycle. Stream descriptors carry TICK
  durations; TICK's aliasing engine maps simulation time to snapshots of a dataset through
  the calendars. SPAN's triple buffer decouples the model thread from the I/O thread. TICK, SPAN and CONF
  export C interfaces; the objects behind them live in handle registries.

  \<^bold>\<open>Shared theories.\<close>
  \<^item> \<open>Helm_Prelude\<close>: exceptions as values, machine integers, shared list lemmas.
  \<^item> \<open>Helm_Decimal\<close>: decimal digits, the common part of the parsers and printers.
  \<^item> \<open>Handle_Store\<close>: the contract of a handle registry as a locale, with its client lemmas;
    interpreted for the registries of SPAN, CONF, AMIO and HALO.
  \<^item> \<open>Ieee_Double\<close>: conversion and division of IEEE doubles with correct rounding, for
    the interpolation weight.

  \<^bold>\<open>TICK\<close> (\<^verbatim>\<open>tick/include/tick\<close>, \<^verbatim>\<open>tick/src\<close>).
  \<^item> \<open>Tick_Arith\<close> (\<^verbatim>\<open>overflow.hpp\<close>, \<^verbatim>\<open>duration.hpp\<close>, \<^verbatim>\<open>time_point.hpp\<close>): the two evaluation paths of
    the checked operations agree; time points do not drift.
  \<^item> \<open>Tick_Date\<close> (\<^verbatim>\<open>date_time.hpp\<close>): printing and parsing ISO 8601 is a round trip.
  \<^item> \<open>Tick_Calendar\<close>, \<open>Tick_Gregorian\<close>, \<open>Tick_NoLeap\<close>, \<open>Tick_Cal360\<close>: the calendar
    concept as locales and the three calendars as interpretations; conversions are inverse
    to each other, reject exactly the invalid dates and agree with counting days one at a time.
  \<^item> \<open>Tick_Window\<close> (\<^verbatim>\<open>time_window.hpp\<close>, the alarms, \<^verbatim>\<open>sync.cpp\<close>): the window is the one that
    contains the time; rings are the first after now; heartbeat and period are gcd and lcm.
  \<^item> \<open>Tick_Aliasing\<close> (\<^verbatim>\<open>aliasing_engine.hpp\<close>): the policies outside the coverage and the weight.
  \<^item> \<open>Tick_C_Api\<close> (\<^verbatim>\<open>tick_c_api.cpp\<close>): status codes and stores of every exported function.

  \<^bold>\<open>SPAN\<close> (\<^verbatim>\<open>span/include/span\<close>, \<^verbatim>\<open>span/src\<close>).
  \<^item> \<open>Span_Registry\<close>: the slot table with its free list refines a bounded partial map.
  \<^item> \<open>Span_Field_View\<close>: the layout is injective and in bounds; host and device
    copies behave as one array. The deep copy of the device library is a parameter.
  \<^item> \<open>Span_Triple_Buffer\<close>: a step relation of the two threads; the buffers stay distinct.
  \<^item> \<open>Span_C_Api\<close>: registration and retrieval through the C interface.

  \<^bold>\<open>CONF\<close> (\<^verbatim>\<open>conf/src\<close>).
  \<^item> \<open>Conf_Yaml\<close> (\<^verbatim>\<open>yaml_tree.cpp\<close>): paths split and resolve. The YAML library is the parameter record
    \<open>yaml_api\<close>; \<open>tree_api\<close> is an instance on plain trees.
  \<^item> \<open>Conf_Config\<close> (\<^verbatim>\<open>config.cpp\<close>, \<^verbatim>\<open>value.cpp\<close>): documents and views agree.
  \<^item> \<open>Conf_C_Api\<close> (\<^verbatim>\<open>conf_c_interop.cpp\<close>): handle lifetime and the string protocol.

  \<^bold>\<open>DAGR\<close> (\<^verbatim>\<open>dagr/src\<close>).
  \<^item> \<open>Dagr_Config\<close>, \<open>Dagr_Kahn\<close>: the configuration and its graph; validation accepts exactly the
    acyclic graphs.
  \<^item> \<open>Dagr_Rank_Pool\<close>: the pool refines two disjoint sets of ranks.
  \<^item> \<open>Dagr_Event_Loop\<close>, \<open>Dagr_Schedule\<close>, \<open>Dagr_Progress\<close>: the event loop, its invariant and
    that every operation keeps it, safety and termination of schedules.
  \<^item> \<open>Dagr_Orchestrator\<close>: run, step, shutdown, rank operations and the communicator registry.
  \<^item> \<open>Dagr_Parse\<close>: what the parser returns is well-formed and accepted by validation.

  \<^bold>\<open>AMIO\<close> (\<^verbatim>\<open>amio/src\<close>), the asynchronous model I/O library.
  \<^item> \<open>Amio_Handle_Table\<close> (\<^verbatim>\<open>handle_table.cpp\<close>): generation-stamped slots refine the handle store; stale
    tokens stay dead although slots are reused.
  \<^item> \<open>Amio_Staging_Pool\<close> (\<^verbatim>\<open>staging_pool.cpp\<close>): buffers are free or referenced, never both;
    best fit; acquiring returns by its deadline.
  \<^item> \<open>Amio_Prefetch\<close> (\<^verbatim>\<open>prefetch_queue.cpp\<close>): fetches as interleaved stages; every buffer has at most one
    owner; a read hands out what was read for its selection. The backend driver is a parameter.
  \<^item> \<open>Amio_Exceptions\<close> (\<^verbatim>\<open>exception_bridge.cpp\<close>, \<^verbatim>\<open>comm_split.cpp\<close>, \<^verbatim>\<open>amio_strerror.cpp\<close>): every exception becomes
    a recorded failure of its handle; the ranks are partitioned; descriptions identify their status.
  \<^item> \<open>Amio_Worker_Pool\<close> (\<^verbatim>\<open>worker_pool.cpp\<close>): the threads as interleaved events; writes of one variable run
    serially and in submission order, none starves, drain and shutdown complete them.
  \<^item> \<open>Amio_Loader\<close> (\<^verbatim>\<open>config_loader.cpp\<close>): reading a manifest through CONF, its schema, and writing it back. A
    manifest means what it says or is rejected at its first wrong key; \<open>yaml_for\<close> stands for the YAML library.

  \<^bold>\<open>LOGS\<close> (\<^verbatim>\<open>logs/src\<close>).
  \<^item> \<open>Logs_Consolidation\<close> (\<^verbatim>\<open>consolidation.cpp\<close>): the wire format is a round trip, ranges are canonical, and the
    representatives at the root are exactly what the ranks buffered. MPI's gather is a parameter with its contract.
  \<^item> \<open>Logs_Logger\<close> (\<^verbatim>\<open>logger.cpp\<close> and its parts): filtering, delivery to sinks, the single abort, bounded data.

  \<^bold>\<open>HALO\<close> (\<^verbatim>\<open>halo/src\<close>, \<^verbatim>\<open>halo/include/halo\<close>). MPI's matching of messages is a parameter of the models with its
  ordering guarantee as hypothesis (\<open>mpi_fifo\<close>, with the instance \<open>fifo_net\<close>).
  \<^item> \<open>Halo_Mpi\<close> (\<^verbatim>\<open>error_policy.cpp\<close>, \<^verbatim>\<open>environment.cpp\<close>): error dispatch, the serialisation guard as a step relation
    of threads, message tags.
  \<^item> \<open>Halo_Exchange\<close> (\<^verbatim>\<open>halo_plan.cpp\<close>, \<^verbatim>\<open>exchange.hpp\<close>): plans are validated; the exchange of all ranks moves every
    message to its place on every transfer path.
  \<^item> \<open>Halo_Structured\<close>, \<open>Halo_Structured_Exchange\<close> (\<^verbatim>\<open>structured_halo_plan.hpp\<close>, \<^verbatim>\<open>pack_unpack.hpp\<close>,
    \<^verbatim>\<open>exchange_structured.hpp\<close>): packing is a round trip; halos are filled from across the face, unless both faces of a
    dimension lead to the same rank. Kokkos' subviews are a parameter.
  \<^item> \<open>Halo_Async\<close>, \<open>Halo_Neighbor\<close> (the asynchronous exchanges and the neighbourhood collective): they leave the view that the
    blocking exchange leaves.
  \<^item> \<open>Halo_Gather\<close> (\<^verbatim>\<open>collectives.cpp\<close>, \<^verbatim>\<open>gather_replicated.hpp\<close>): displacements, the layout of a replicated gather, and
    its self-deadlock without full thread support.
  \<^item> \<open>Halo_Handles\<close> (\<^verbatim>\<open>request_guard.cpp\<close>, \<^verbatim>\<open>halo_handle.cpp\<close> and the other owners): requests complete once and
    resources are freed once.
  \<^item> \<open>Halo_C_Api\<close> (\<^verbatim>\<open>src/fortran\<close>): the token registry refines the handle store; what calls across the Fortran
    boundary return.

  \<^bold>\<open>Fuel and bounds.\<close> Loops over worklists that are not structural take fuel: Kahn's loop is shown to
  return with one unit more than there are tasks; the drain loop of shutdown with the number
  of clock reads until the timeout; the loop of run is shown not to return with any fuel.
  Other loops are total functions with measures. Signed overflow is the
  value \<open>Undefined_behaviour\<close>; unsigned counters wrap as in the sources. Clocks are functions of the
  number of reads. A mutex makes an operation one step.

  \<^bold>\<open>Not modelled.\<close> Diagnostics are kept as events where the event loop emits them and left out
  elsewhere. HALO's persistent requests and probes of the MPI library, AMIO's core, its file format drivers and
  thread placement, AXIS and BLEND are not modelled: they are
  calls of MPI, netCDF, Zarr, ecCodes and the operating system, and floating-point
  kernels on Kokkos, whose results are not determined by the sources.
\<close>

end
